(* ===== verification/Prelude.thy ===== *)
theory Prelude
  imports Main "HOL-Library.Word" "HOL-Library.List_Lexorder" "HOL-Library.Multiset"
begin

unbundle bit_operations_syntax

text \<open>
  What every component of the library shares: the byte and machine-word types, the sentinel
  errors of all packages, the collections of hints, and generic lemmas on lists and words.

  A Go \<open>string\<close> or \<open>[]byte\<close> is a list of bytes. The order of lists of bytes is the one of
  HOL-Library's \<open>List_Lexorder\<close>, which is Go's bytewise string order. A call that returns
  \<open>(T, error)\<close> is a value of \<open>go_error + T\<close>: \<open>Inl\<close> is the early return with an error. A run-time
  panic is the error \<open>RuntimePanic\<close>: no function of the repository recovers from one, so a
  panic leaves every caller the way an early return does.
\<close>

section \<open>Machine types\<close>

type_synonym byte = "8 word"
type_synonym bytes = "byte list"
type_synonym u8 = "8 word"
type_synonym u16 = "16 word"
type_synonym u32 = "32 word"
type_synonym u64 = "64 word"

text \<open>\<open>math/bits.TrailingZeros64\<close>: 64 for zero.\<close>

definition TrailingZeros64 :: "u64 \<Rightarrow> nat" where
  "TrailingZeros64 w = length (takeWhile (\<lambda>i. \<not> bit w i) [0..<64])"

section \<open>Errors\<close>

datatype go_error =
    RuntimePanic
  \<comment> \<open>package matrixjson\<close>
  | ErrUnsupportedType | ErrIntegerRange | ErrInvalidString | ErrNumSyntax | ErrNumRange
  \<comment> \<open>package merkle\<close>
  | ErrEmptyFieldName | ErrInvalidFieldName | ErrDuplicateField bytes | ErrNoLeaves
  | ErrFieldNotFound bytes
  \<comment> \<open>package reconcile\<close>
  | ErrInvalidEventID | ErrInvalidBase64 | ErrInvalidDigestLength | ErrInvalidSketchCapacity
  | ErrInvalidSketchLength | ErrDecodeFailure | ErrBudgetExhausted | ErrZeroShortIdentifier
  | ErrInvalidBucketIndex | ErrCountOverflow | ErrCountUnderflow
  \<comment> \<open>package cuckoo\<close>
  | ErrInvalidEdgeBits | ErrInvalidSeed | ErrInvalidProof | ErrNoSolution
  \<comment> \<open>package fndsa512\<close>
  | ErrInvalidPrivateKey | ErrInvalidPublicKey | ErrInvalidSignatureSize
  \<comment> \<open>package serverkey\<close>
  | ErrInvalidServerName | ErrInvalidKeyName | ErrInvalidKeyObject | ErrInvalidSignature
  | ErrUnknownProfile | ErrInvalidProfile | ErrInvalidPassphrase | ErrWeakPassphrase
  \<comment> \<open>the standard library and external packages\<close>
  | ErrCorruptBase64 | ErrExternal
  \<comment> \<open>the commands\<close>
  | ErrCommand bytes

type_synonym 'a result = "go_error + 'a"

definition is_ok :: "'a result \<Rightarrow> bool" where
  "is_ok r = (case r of Inl _ \<Rightarrow> False | Inr _ \<Rightarrow> True)"

lemma is_ok_simps [simp]: "is_ok (Inr x)" "\<not> is_ok (Inl e)"
  by (simp_all add: is_ok_def)

lemma is_ok_iff: "is_ok r \<longleftrightarrow> (\<exists>x. r = Inr x)"
  by (cases r) simp_all

definition of_result :: "'a result \<Rightarrow> 'a option" where
  "of_result r = (case r of Inl _ \<Rightarrow> None | Inr x \<Rightarrow> Some x)"

lemma of_result_simps [simp]: "of_result (Inl e) = None" "of_result (Inr x) = Some x"
  by (simp_all add: of_result_def)

text \<open>The first error of a list of results, in order, or all the values: a loop that returns early.\<close>

fun sequence_results :: "'a result list \<Rightarrow> 'a list result" where
  "sequence_results [] = Inr []"
| "sequence_results (r # rs) =
     (case r of Inl e \<Rightarrow> Inl e
      | Inr x \<Rightarrow> (case sequence_results rs of Inl e \<Rightarrow> Inl e | Inr xs \<Rightarrow> Inr (x # xs)))"

lemma sequence_results_map_Inr [simp]: "sequence_results (map Inr xs) = Inr xs"
  by (induction xs) simp_all

lemma sequence_results_InrD: "sequence_results rs = Inr xs \<Longrightarrow> rs = map Inr xs"
  by (induction rs arbitrary: xs) (auto split: sum.splits)

lemma sequence_results_Inr_iff:
  "sequence_results rs = Inr xs \<longleftrightarrow> rs = map Inr xs"
  using sequence_results_InrD by auto

lemma sequence_results_ok_iff:
  "is_ok (sequence_results rs) \<longleftrightarrow> (\<forall>r \<in> set rs. is_ok r)"
  by (induction rs) (auto split: sum.splits simp: is_ok_def)

section \<open>Collections of hints\<close>

named_theorems word_xor \<open>exclusive or on words, read as an abelian group of exponent two\<close>
named_theorems byte_simps \<open>lengths and shapes of byte encodings\<close>

section \<open>Strings\<close>

text \<open>The bytes of a string literal of the source.\<close>

definition str :: "string \<Rightarrow> bytes" where
  "str s = map of_char s"

lemma str_simps [simp]: "str [] = []" "str (c # s) = of_char c # str s"
  by (simp_all add: str_def)

lemma length_str [simp, byte_simps]: "length (str s) = length s"
  by (simp add: str_def)

lemma str_append: "str (s @ t) = str s @ str t"
  by (simp add: str_def)

lemma of_char_byte_inject [simp]: "(of_char c :: byte) = of_char d \<longleftrightarrow> c = d"
proof
  assume eq: "(of_char c :: byte) = of_char d"
  have "unat (of_char x :: byte) = of_char x" for x
  proof -
    have "unat (of_nat (of_char x :: nat) :: byte) = of_char x"
      using nat_of_char_less_256 [of x] by (simp only: unat_of_nat) simp
    then show ?thesis by (simp only: of_nat_of_char)
  qed
  with eq have "(of_char c :: nat) = of_char d" by metis
  then show "c = d" by simp
qed simp

lemma str_inject [simp]: "str s = str t \<longleftrightarrow> s = t"
  by (simp add: str_def inj_map_eq_map inj_def)

end
