(* ===== verification/Accumulator.thy ===== *)
theory Accumulator
  imports Prelude
begin

text \<open>
  The interface of the order-free accumulators: the lattice hash of \<open>lthash/lthash.go\<close>, the room
  accumulator, the syndrome sketch and the strata of package \<open>reconcile\<close>. Each absorbs elements one
  at a time; the laws say that the order does not matter and, in the extensions, that removing
  undoes inserting, or that inserting twice does.
\<close>

section \<open>Accumulators\<close>

locale accumulator =
  fixes inv :: "'s \<Rightarrow> bool" and ins :: "'e \<Rightarrow> 's \<Rightarrow> 's"
  assumes ins_inv: "inv s \<Longrightarrow> inv (ins x s)"
    and ins_commute: "inv s \<Longrightarrow> ins x (ins y s) = ins y (ins x s)"
begin

definition absorb :: "'e list \<Rightarrow> 's \<Rightarrow> 's" where
  "absorb xs s = foldl (\<lambda>s x. ins x s) s xs"

lemma absorb_simps [simp]:
  "absorb [] s = s" "absorb (x # xs) s = absorb xs (ins x s)" "absorb (xs @ ys) s = absorb ys (absorb xs s)"
  by (simp_all add: absorb_def)

lemma absorb_inv: "inv s \<Longrightarrow> inv (absorb xs s)"
  by (induction xs arbitrary: s) (simp_all add: ins_inv)

lemma absorb_ins: "inv s \<Longrightarrow> absorb xs (ins x s) = ins x (absorb xs s)"
proof (induction xs arbitrary: s)
  case (Cons y xs)
  have "absorb xs (ins y (ins x s)) = absorb xs (ins x (ins y s))" using ins_commute [OF Cons.prems] by metis
  then show ?case using Cons ins_inv by simp
qed simp

lemma absorb_remove1: "inv s \<Longrightarrow> x \<in> set xs \<Longrightarrow> absorb xs s = absorb (remove1 x xs) (ins x s)"
proof (induction xs arbitrary: s)
  case (Cons y xs)
  have "ins y (ins x s) = ins x (ins y s)" by (rule ins_commute [OF Cons.prems(1)])
  then show ?case using Cons ins_inv by auto
qed simp

lemma absorb_mset: "inv s \<Longrightarrow> mset xs = mset ys \<Longrightarrow> absorb xs s = absorb ys s"
proof (induction xs arbitrary: ys s)
  case (Cons x xs)
  then have "x \<in> set ys" by (metis list.set_intros(1) mset_eq_setD)
  moreover have "mset xs = mset (remove1 x ys)" using Cons.prems(2) by (metis mset.simps(2) add_mset_remove_trivial mset_remove1)
  ultimately show ?case using Cons.IH Cons.prems(1) by (simp add: absorb_remove1 [of s x ys] ins_inv)
qed simp

end

text \<open>Removing an element undoes its insertion, and the other way round.\<close>

locale invertible_accumulator = accumulator inv ins
  for inv :: "'s \<Rightarrow> bool" and ins :: "'e \<Rightarrow> 's \<Rightarrow> 's" +
  fixes rem :: "'e \<Rightarrow> 's \<Rightarrow> 's"
  assumes rem_inv: "inv s \<Longrightarrow> inv (rem x s)"
    and rem_ins: "inv s \<Longrightarrow> rem x (ins x s) = s"
    and ins_rem: "inv s \<Longrightarrow> ins x (rem x s) = s"
begin

lemma rem_commute_ins: "inv s \<Longrightarrow> rem x (ins y s) = ins y (rem x s)"
proof -
  assume s: "inv s"
  have "ins y s = ins y (ins x (rem x s))" using s by (simp add: ins_rem)
  also have "\<dots> = ins x (ins y (rem x s))" using s by (simp add: ins_commute rem_inv)
  finally have "rem x (ins y s) = rem x (ins x (ins y (rem x s)))" by simp
  then show ?thesis using s by (simp add: rem_ins ins_inv rem_inv)
qed

lemma absorb_rem: "inv s \<Longrightarrow> absorb xs (rem x s) = rem x (absorb xs s)"
  by (induction xs arbitrary: s) (simp_all add: rem_commute_ins [symmetric] ins_inv)

lemma rem_member: "inv s \<Longrightarrow> x \<in> set xs \<Longrightarrow> rem x (absorb xs s) = absorb (remove1 x xs) s"
  by (simp add: absorb_remove1 [of s x] absorb_ins rem_ins absorb_inv)

lemma absorb_cancel: "inv s \<Longrightarrow> inv t \<Longrightarrow> absorb xs s = absorb xs t \<Longrightarrow> s = t"
proof (induction xs arbitrary: s t)
  case (Cons x xs)
  then have "ins x s = ins x t" by (simp add: ins_inv)
  then show ?case using Cons.prems by (metis rem_ins)
qed simp

end

text \<open>Inserting an element twice cancels: what is kept of a list is the set of elements that occur an odd
  number of times.\<close>

locale xor_accumulator = accumulator inv ins
  for inv :: "'s \<Rightarrow> bool" and ins :: "'e \<Rightarrow> 's \<Rightarrow> 's" +
  assumes ins_ins: "inv s \<Longrightarrow> ins x (ins x s) = s"

sublocale xor_accumulator \<subseteq> invertible_accumulator inv ins ins
  by unfold_locales (simp_all add: ins_inv ins_ins)

end
