(* ===== verification/Encoding.thy ===== *)
theory Encoding
  imports Prelude
begin

text \<open>
  The pieces of Go's standard library that the packages build their byte strings with:
  \<open>encoding/binary\<close> (fixed-width little- and big-endian integers), \<open>encoding/base64\<close> (the raw
  standard and URL alphabets, decoded the lenient way Go does) and \<open>strconv\<close> (decimal
  integers). The contract the packages rely on, that decoding undoes encoding, is the locale
  \<open>codec\<close>; every encoder here is an interpretation of it.
\<close>

section \<open>The contract of an encoder\<close>

locale codec =
  fixes encode :: "'a \<Rightarrow> bytes"
    and decode :: "bytes \<Rightarrow> 'a result"
    and valid :: "'a \<Rightarrow> bool"
  assumes decode_encode: "valid x \<Longrightarrow> decode (encode x) = Inr x"
begin

lemma encode_inject:
  assumes "valid x" and "valid y"
  shows "encode x = encode y \<longleftrightarrow> x = y"
  using decode_encode [OF assms(1)] decode_encode [OF assms(2)] by (metis sum.inject(2))

lemma inj_on_encode: "inj_on encode {x. valid x}"
  by (rule inj_onI) (simp add: encode_inject)

end

text \<open>An encoder whose output length is determined by its input: such codes can be concatenated.\<close>

locale fixed_codec = codec encode decode valid
  for encode :: "'a \<Rightarrow> bytes" and decode and valid +
  fixes width :: nat
  assumes length_encode: "valid x \<Longrightarrow> length (encode x) = width"
begin

lemma append_inject:
  assumes "valid x" and "valid y"
  shows "encode x @ xs = encode y @ ys \<longleftrightarrow> x = y \<and> xs = ys"
  using assms encode_inject length_encode by (metis append_eq_append_conv)

lemma concat_inject:
  assumes "\<forall>x \<in> set xs. valid x" and "\<forall>y \<in> set ys. valid y" and "0 < width"
  shows "concat (map encode xs) = concat (map encode ys) \<longleftrightarrow> xs = ys"
  using assms
proof (induction xs arbitrary: ys)
  case Nil
  then show ?case by (cases ys) (use length_encode in force)+
next
  case (Cons x xs)
  show ?case
  proof (cases ys)
    case Nil
    then show ?thesis using Cons.prems length_encode by force
  next
    case (Cons y zs)
    then show ?thesis using Cons.prems Cons.IH [of zs] append_inject [of x y] by auto
  qed
qed

end

section \<open>encoding/binary\<close>

definition le_bytes :: "nat \<Rightarrow> 'a::len word \<Rightarrow> bytes" where
  "le_bytes n w = map (\<lambda>i. ucast (drop_bit (8 * i) w)) [0..<n]"

definition be_bytes :: "nat \<Rightarrow> 'a::len word \<Rightarrow> bytes" where
  "be_bytes n w = rev (le_bytes n w)"

fun le_word :: "bytes \<Rightarrow> 'a::len word" where
  "le_word [] = 0"
| "le_word (b # bs) = ucast b OR push_bit 8 (le_word bs)"

definition be_word :: "bytes \<Rightarrow> 'a::len word" where
  "be_word bs = le_word (rev bs)"

lemma length_le_bytes [simp, byte_simps]: "length (le_bytes n w) = n"
  by (simp add: le_bytes_def)

lemma length_be_bytes [simp, byte_simps]: "length (be_bytes n w) = n"
  by (simp add: be_bytes_def)

lemma bit_le_word:
  "bit (le_word bs :: 'a::len word) i \<longleftrightarrow>
     i < LENGTH('a) \<and> i div 8 < length bs \<and> bit (bs ! (i div 8)) (i mod 8)"
proof (induction bs arbitrary: i)
  case Nil
  then show ?case by simp
next
  case (Cons b bs)
  show ?case
  proof (cases "i < 8")
    case True
    then show ?thesis by (auto simp: bit_simps)
  next
    case False
    then obtain j where "i = j + 8" by (metis le_add_diff_inverse2 not_less)
    moreover have "(j + 8) div 8 = Suc (j div 8)" "(j + 8) mod 8 = j mod 8" by simp_all
    ultimately show ?thesis using Cons.IH [of j]
      by (auto simp: bit_simps dest: bit_imp_le_length)
  qed
qed

lemma le_word_le_bytes:
  assumes "8 * n = LENGTH('a)"
  shows "le_word (le_bytes n w) = (w :: 'a::len word)"
proof (rule bit_word_eqI)
  fix i assume "i < LENGTH('a)"
  moreover from this assms have "i div 8 < n" by simp
  ultimately show "bit (le_word (le_bytes n w) :: 'a word) i \<longleftrightarrow> bit w i"
    by (simp add: bit_le_word) (simp add: le_bytes_def bit_simps)
qed

lemma le_bytes_le_word:
  assumes "8 * n = LENGTH('a)" and "length bs = n"
  shows "le_bytes n (le_word bs :: 'a::len word) = bs"
proof (rule nth_equalityI)
  show "length (le_bytes n (le_word bs :: 'a word)) = length bs" using assms by simp
next
  fix k assume "k < length (le_bytes n (le_word bs :: 'a word))"
  then have k: "k < n" by simp
  show "le_bytes n (le_word bs :: 'a word) ! k = bs ! k"
  proof (rule bit_word_eqI)
    fix i assume "i < LENGTH(8)"
    then have "i < 8" by simp
    then have "(8 * k + i) div 8 = k" "(8 * k + i) mod 8 = i" "8 * k + i < LENGTH('a)"
      using k assms(1) by auto
    then show "bit (le_bytes n (le_word bs :: 'a word) ! k) i \<longleftrightarrow> bit (bs ! k) i"
      using k assms(2) \<open>i < 8\<close> by (simp add: le_bytes_def bit_simps bit_le_word)
  qed
qed

lemma be_word_be_bytes:
  "8 * n = LENGTH('a) \<Longrightarrow> be_word (be_bytes n w) = (w :: 'a::len word)"
  by (simp add: be_word_def be_bytes_def le_word_le_bytes)

lemma be_bytes_be_word:
  "8 * n = LENGTH('a) \<Longrightarrow> length bs = n \<Longrightarrow> be_bytes n (be_word bs :: 'a::len word) = bs"
  by (simp add: be_word_def be_bytes_def le_bytes_le_word)

definition le_decode :: "nat \<Rightarrow> bytes \<Rightarrow> 'a::len word result" where
  "le_decode n bs = (if n \<le> length bs then Inr (le_word (take n bs)) else Inl RuntimePanic)"

definition be_decode :: "nat \<Rightarrow> bytes \<Rightarrow> 'a::len word result" where
  "be_decode n bs = (if n \<le> length bs then Inr (be_word (take n bs)) else Inl RuntimePanic)"

interpretation le16: fixed_codec "le_bytes 2 :: u16 \<Rightarrow> bytes" "le_decode 2" "\<lambda>_. True" 2
  by unfold_locales (simp_all add: le_decode_def le_word_le_bytes)

interpretation le64: fixed_codec "le_bytes 8 :: u64 \<Rightarrow> bytes" "le_decode 8" "\<lambda>_. True" 8
  by unfold_locales (simp_all add: le_decode_def le_word_le_bytes)

interpretation be16: fixed_codec "be_bytes 2 :: u16 \<Rightarrow> bytes" "be_decode 2" "\<lambda>_. True" 2
  by unfold_locales (simp_all add: be_decode_def be_word_be_bytes)

interpretation be64: fixed_codec "be_bytes 8 :: u64 \<Rightarrow> bytes" "be_decode 8" "\<lambda>_. True" 8
  by unfold_locales (simp_all add: be_decode_def be_word_be_bytes)

section \<open>encoding/base64, raw (unpadded) encodings\<close>

definition alphabet_head :: bytes where
  "alphabet_head = str ''ABCDEFGHIJKLMNOPQRSTUVWXYZabcdefghijklmnopqrstuvwxyz0123456789''"

definition std_alphabet :: bytes where
  "std_alphabet = alphabet_head @ str ''+/''"

definition url_alphabet :: bytes where
  "url_alphabet = alphabet_head @ str ''-_''"

text \<open>The 6-bit digits of three, two or one bytes, most significant first.\<close>

fun b64_digits :: "bytes \<Rightarrow> nat list" where
  "b64_digits (a # b # c # bs) =
     (let v = unat a * 65536 + unat b * 256 + unat c
      in [v div 262144 mod 64, v div 4096 mod 64, v div 64 mod 64, v mod 64]) @ b64_digits bs"
| "b64_digits [a, b] =
     (let v = unat a * 65536 + unat b * 256
      in [v div 262144 mod 64, v div 4096 mod 64, v div 64 mod 64])"
| "b64_digits [a] = (let v = unat a * 65536 in [v div 262144 mod 64, v div 4096 mod 64])"
| "b64_digits [] = []"

text \<open>
  Go's \<open>decodeQuantum\<close> without strict mode: a final group of two or three digits gives one or
  two bytes and its unused low bits are ignored; a final group of one digit is an error.
\<close>

fun b64_undigits :: "nat list \<Rightarrow> bytes result" where
  "b64_undigits (p # q # r # s # ds) =
     (let v = p * 262144 + q * 4096 + r * 64 + s
      in case b64_undigits ds of Inl e \<Rightarrow> Inl e
         | Inr bs \<Rightarrow> Inr (of_nat (v div 65536) # of_nat (v div 256 mod 256) # of_nat (v mod 256) # bs))"
| "b64_undigits [p, q, r] =
     (let v = p * 262144 + q * 4096 + r * 64
      in Inr [of_nat (v div 65536), of_nat (v div 256 mod 256)])"
| "b64_undigits [p, q] = (let v = p * 262144 + q * 4096 in Inr [of_nat (v div 65536)])"
| "b64_undigits [p] = Inl ErrCorruptBase64"
| "b64_undigits [] = Inr []"

fun index_of :: "'a \<Rightarrow> 'a list \<Rightarrow> nat option" where
  "index_of x [] = None"
| "index_of x (y # ys) = (if x = y then Some 0 else map_option Suc (index_of x ys))"

definition b64_encode :: "bytes \<Rightarrow> bytes \<Rightarrow> bytes" where
  "b64_encode alphabet bs = map (\<lambda>d. alphabet ! d) (b64_digits bs)"

text \<open>Go skips carriage returns and newlines anywhere in the input.\<close>

definition b64_decode :: "bytes \<Rightarrow> bytes \<Rightarrow> bytes result" where
  "b64_decode alphabet s =
     (case those (map (\<lambda>c. index_of c alphabet) (filter (\<lambda>c. c \<noteq> 10 \<and> c \<noteq> 13) s)) of
        None \<Rightarrow> Inl ErrCorruptBase64
      | Some ds \<Rightarrow> b64_undigits ds)"

text \<open>\<open>EncodedLen\<close> of an unpadded encoding.\<close>

definition b64_encoded_len :: "nat \<Rightarrow> nat" where
  "b64_encoded_len n = n div 3 * 4 + (n mod 3 * 8 + 5) div 6"

definition b64std_encode :: "bytes \<Rightarrow> bytes" where
  "b64std_encode = b64_encode std_alphabet"

definition b64std_decode :: "bytes \<Rightarrow> bytes result" where
  "b64std_decode = b64_decode std_alphabet"

definition b64url_encode :: "bytes \<Rightarrow> bytes" where
  "b64url_encode = b64_encode url_alphabet"

definition b64url_decode :: "bytes \<Rightarrow> bytes result" where
  "b64url_decode = b64_decode url_alphabet"

text \<open>Three bytes are four 6-bit digits: the arithmetic both directions share.\<close>

lemma base64_expand:
  "v = a * 64 + m1 \<Longrightarrow> a = b * 64 + m2 \<Longrightarrow> b = c * 64 + m3 \<Longrightarrow>
   c * 262144 + m3 * 4096 + m2 * 64 + m1 = (v :: nat)"
  by simp

lemma digits64_recombine:
  assumes "v < 16777216"
  shows "v div 262144 mod 64 * 262144 + v div 4096 mod 64 * 4096 + v div 64 mod 64 * 64 + v mod 64
         = (v :: nat)"
proof -
  have e: "v div 4096 = v div 64 div 64" "v div 262144 = v div 64 div 64 div 64"
    by (simp_all add: div_mult2_eq [symmetric])
  have "v div 262144 < 64" using assms by simp
  then have "v div 262144 mod 64 = v div 64 div 64 div 64" by (simp add: e)
  moreover have "v div 64 div 64 div 64 * 262144 + v div 64 div 64 mod 64 * 4096
      + v div 64 mod 64 * 64 + v mod 64 = v"
    by (rule base64_expand) simp_all
  ultimately show ?thesis by (simp only: e)
qed

lemma unat_byte_less [simp]: "unat (b :: byte) < 256"
proof -
  have "unat b < 2 ^ LENGTH(8)" by (rule unsigned_less)
  then show ?thesis by simp
qed

lemma bytes3_split:
  fixes a b c :: byte
  defines "v \<equiv> unat a * 65536 + unat b * 256 + unat c"
  shows "v < 16777216" "v div 65536 = unat a" "v div 256 mod 256 = unat b" "v mod 256 = unat c"
proof -
  have lt: "unat a < 256" "unat b < 256" "unat c < 256" by simp_all
  then show "v < 16777216" unfolding v_def by linarith
  show "v div 65536 = unat a"
    unfolding v_def using lt by (intro div_nat_eqI; (simp only: mult_Suc_right)?; linarith)
  have "v = (unat a * 256 + unat b) * 256 + unat c" by (simp add: v_def)
  moreover have "((unat a * 256 + unat b) * 256 + unat c) div 256 = unat a * 256 + unat b"
    by (simp only: div_mult_self3 div_less [OF lt(3)] add_0_right)
  ultimately have "v div 256 = unat a * 256 + unat b" by (simp only:)
  then show "v div 256 mod 256 = unat b" using lt by simp
  have "v = (unat a * 256 + unat b) * 256 + unat c" by (simp add: v_def)
  then show "v mod 256 = unat c" by (simp only: mod_mult_self3 mod_less [OF lt(3)])
qed

lemma of_nat_unat_byte: "of_nat (unat b) = (b :: byte)"
  by simp

lemma b64_undigits_digits: "b64_undigits (b64_digits bs) = Inr bs"
proof (induction bs rule: b64_digits.induct)
  case (1 a b c bs)
  define v where "v = unat a * 65536 + unat b * 256 + unat c"
  note v = bytes3_split [of a b c, folded v_def]
  have "b64_digits (a # b # c # bs) =
      [v div 262144 mod 64, v div 4096 mod 64, v div 64 mod 64, v mod 64] @ b64_digits bs"
    by (simp add: v_def Let_def)
  then show ?case
    by (simp only: append_Cons append_Nil b64_undigits.simps Let_def 1 sum.case
        digits64_recombine [OF v(1)] v(2-4) of_nat_unat_byte)
next
  case (2 a b)
  define v where "v = unat a * 65536 + unat b * 256 + unat (0 :: byte)"
  note v = bytes3_split [of a b 0, folded v_def]
  have "v mod 64 = 0" unfolding v_def by simp
  then have "v div 262144 mod 64 * 262144 + v div 4096 mod 64 * 4096 + v div 64 mod 64 * 64 = v"
    using digits64_recombine [OF v(1)] by linarith
  moreover have "b64_digits [a, b] = [v div 262144 mod 64, v div 4096 mod 64, v div 64 mod 64]"
    by (simp add: v_def Let_def)
  ultimately show ?case
    by (simp only: b64_undigits.simps Let_def v(2-3) of_nat_unat_byte)
next
  case (3 a)
  define v where "v = unat a * 65536 + unat (0 :: byte) * 256 + unat (0 :: byte)"
  note v = bytes3_split [of a 0 0, folded v_def]
  have "v = 64 * (unat a * 1024)" unfolding v_def by simp
  then have "v mod 64 = 0" "v div 64 mod 64 = 0" by simp_all
  then have "v div 262144 mod 64 * 262144 + v div 4096 mod 64 * 4096 = v"
    using digits64_recombine [OF v(1)] by (simp only: mult_zero_left add_0_right)
  moreover have "b64_digits [a] = [v div 262144 mod 64, v div 4096 mod 64]"
    by (simp add: v_def Let_def)
  ultimately show ?case
    by (simp only: b64_undigits.simps Let_def v(2) of_nat_unat_byte)
qed simp

lemma b64_digits_less: "d \<in> set (b64_digits bs) \<Longrightarrow> d < 64"
  by (induction bs rule: b64_digits.induct) (auto simp: Let_def)

lemma b64_encoded_len_add3: "b64_encoded_len (Suc (Suc (Suc n))) = 4 + b64_encoded_len n"
proof -
  have "Suc (Suc (Suc n)) = n + 3" by simp
  then show ?thesis unfolding b64_encoded_len_def by (simp only: div_add_self2 mod_add_self2) simp
qed

lemma length_b64_digits: "length (b64_digits bs) = b64_encoded_len (length bs)"
proof (induction bs rule: b64_digits.induct)
  case (1 a b c bs)
  then show ?case by (simp add: Let_def b64_encoded_len_add3)
qed (simp_all add: b64_encoded_len_def Let_def)

lemma length_b64_encode [simp, byte_simps]:
  "length (b64_encode alphabet bs) = b64_encoded_len (length bs)"
  by (simp add: b64_encode_def length_b64_digits)

lemma index_of_nth: "distinct xs \<Longrightarrow> i < length xs \<Longrightarrow> index_of (xs ! i) xs = Some i"
proof (induction xs arbitrary: i)
  case (Cons x xs)
  then show ?case by (cases i) auto
qed simp

lemma index_of_SomeD: "index_of x xs = Some i \<Longrightarrow> i < length xs \<and> xs ! i = x"
  by (induction xs arbitrary: i) (auto split: if_splits)

lemma index_of_None_iff: "index_of x xs = None \<longleftrightarrow> x \<notin> set xs"
  by (induction xs) auto

lemma those_map_Some [simp]: "those (map Some xs) = Some xs"
  by (induction xs) simp_all

lemma b64_decode_encode:
  assumes "distinct alphabet" and "length alphabet = 64"
    and "10 \<notin> set alphabet" and "13 \<notin> set alphabet"
  shows "b64_decode alphabet (b64_encode alphabet bs) = Inr bs"
proof -
  let ?ds = "b64_digits bs"
  have in_alphabet: "alphabet ! d \<in> set alphabet" if "d \<in> set ?ds" for d
    using that b64_digits_less assms(2) by simp
  have keep: "filter (\<lambda>c. c \<noteq> 10 \<and> c \<noteq> 13) (b64_encode alphabet bs) = b64_encode alphabet bs"
    using in_alphabet assms(3,4) by (fastforce simp: b64_encode_def filter_id_conv)
  have "map (\<lambda>c. index_of c alphabet) (b64_encode alphabet bs) = map Some ?ds"
    using assms(1,2) b64_digits_less by (auto simp: b64_encode_def index_of_nth)
  then show ?thesis
    by (simp add: b64_decode_def keep b64_undigits_digits)
qed

lemma std_alphabet_ok:
  "distinct std_alphabet" "length std_alphabet = 64" "10 \<notin> set std_alphabet" "13 \<notin> set std_alphabet"
  by (simp_all add: std_alphabet_def alphabet_head_def)

lemma url_alphabet_ok:
  "distinct url_alphabet" "length url_alphabet = 64" "10 \<notin> set url_alphabet" "13 \<notin> set url_alphabet"
  by (simp_all add: url_alphabet_def alphabet_head_def)

interpretation b64std: codec b64std_encode b64std_decode "\<lambda>_. True"
  by unfold_locales (simp add: b64std_encode_def b64std_decode_def b64_decode_encode std_alphabet_ok)

interpretation b64url: codec b64url_encode b64url_decode "\<lambda>_. True"
  by unfold_locales (simp add: b64url_encode_def b64url_decode_def b64_decode_encode url_alphabet_ok)

lemma length_b64std_encode [simp, byte_simps]: "length (b64std_encode bs) = b64_encoded_len (length bs)"
  by (simp add: b64std_encode_def)

lemma length_b64url_encode [simp, byte_simps]: "length (b64url_encode bs) = b64_encoded_len (length bs)"
  by (simp add: b64url_encode_def)

end
