(* ===== verification/Text.thy ===== *)
theory Text
  imports Encoding
begin

text \<open>
  The text handling of Go's standard library that the packages use: \<open>unicode/utf8\<close> (validity,
  decoding and encoding of runes, and the \<open>for range\<close> loop over a string) and \<open>strconv\<close>
  (\<open>FormatInt\<close>, \<open>ParseInt\<close>, \<open>ParseUint\<close> in base 10).
\<close>

section \<open>unicode/utf8\<close>

definition rune_error :: nat where
  "rune_error = 65533"

text \<open>
  The table \<open>first\<close> of the package: for a leading byte of a multi-byte sequence, the length of
  the sequence and the range its second byte must lie in.
\<close>

definition utf8_class :: "nat \<Rightarrow> (nat \<times> nat \<times> nat) option" where
  "utf8_class b =
     (if b < 194 then None
      else if b < 224 then Some (2, 128, 191)
      else if b = 224 then Some (3, 160, 191)
      else if b = 237 then Some (3, 128, 159)
      else if b < 240 then Some (3, 128, 191)
      else if b = 240 then Some (4, 144, 191)
      else if b < 244 then Some (4, 128, 191)
      else if b = 244 then Some (4, 128, 143)
      else None)"

definition is_cont :: "nat \<Rightarrow> bool" where
  "is_cont b \<longleftrightarrow> 128 \<le> b \<and> b \<le> 191"

text \<open>The valid encoding at the head of a string: its rune and its length in bytes.\<close>

fun utf8_head :: "nat list \<Rightarrow> (nat \<times> nat) option" where
  "utf8_head [] = None"
| "utf8_head (b0 # bs) =
     (if b0 < 128 then Some (b0, 1)
      else case utf8_class b0 of None \<Rightarrow> None
      | Some (need, lo, hi) \<Rightarrow>
          (case bs of
             [] \<Rightarrow> None
           | b1 # bs1 \<Rightarrow>
               if b1 < lo \<or> hi < b1 then None
               else if need \<le> 2 then Some (b0 mod 32 * 64 + b1 mod 64, 2)
               else (case bs1 of
                       [] \<Rightarrow> None
                     | b2 # bs2 \<Rightarrow>
                         if \<not> is_cont b2 then None
                         else if need \<le> 3 then Some (b0 mod 16 * 4096 + b1 mod 64 * 64 + b2 mod 64, 3)
                         else (case bs2 of
                                 [] \<Rightarrow> None
                               | b3 # _ \<Rightarrow>
                                   if \<not> is_cont b3 then None
                                   else Some (b0 mod 8 * 262144 + b1 mod 64 * 4096 + b2 mod 64 * 64
                                              + b3 mod 64, 4)))))"

lemma utf8_head_size: "utf8_head s = Some (r, k) \<Longrightarrow> 0 < k \<and> k \<le> length s"
  by (cases s) (auto split: if_splits option.splits list.splits prod.splits)

function valid_utf8 :: "bytes \<Rightarrow> bool" where
  "valid_utf8 s =
     (if s = [] then True
      else case utf8_head (map unat s) of
        None \<Rightarrow> False
      | Some (r, k) \<Rightarrow> valid_utf8 (drop k s))"
  by pat_completeness auto
termination
  by (relation "measure length") (auto dest: utf8_head_size)

text \<open>The runes a \<open>for _, r := range s\<close> loop visits; a malformed byte is visited as U+FFFD.\<close>

function runes :: "bytes \<Rightarrow> nat list" where
  "runes s =
     (if s = [] then []
      else case utf8_head (map unat s) of
        None \<Rightarrow> rune_error # runes (tl s)
      | Some (r, k) \<Rightarrow> r # runes (drop k s))"
  by pat_completeness auto
termination
  by (relation "measure length") (auto dest: utf8_head_size)

declare valid_utf8.simps [simp del] runes.simps [simp del]

lemma valid_utf8_Nil [simp]: "valid_utf8 []"
  by (simp add: valid_utf8.simps [of "[]"])

lemma runes_Nil [simp]: "runes [] = []"
  by (simp add: runes.simps [of "[]"])

definition encode_rune :: "nat \<Rightarrow> bytes" where
  "encode_rune r0 =
     (let r = (if 1114111 < r0 \<or> (55296 \<le> r0 \<and> r0 \<le> 57343) then rune_error else r0)
      in map of_nat
        (if r < 128 then [r]
         else if r < 2048 then [192 + r div 64, 128 + r mod 64]
         else if r < 65536 then [224 + r div 4096, 128 + r div 64 mod 64, 128 + r mod 64]
         else [240 + r div 262144, 128 + r div 4096 mod 64, 128 + r div 64 mod 64, 128 + r mod 64]))"

text \<open>Re-encoding a decoded rune gives back the bytes it was decoded from.\<close>

lemma lead_mod:
  "192 \<le> b \<Longrightarrow> b < 224 \<Longrightarrow> b mod 32 = b - (192 :: nat)"
  "224 \<le> b \<Longrightarrow> b < 240 \<Longrightarrow> b mod 16 = b - (224 :: nat)"
  "240 \<le> b \<Longrightarrow> b < 248 \<Longrightarrow> b mod 8 = b - (240 :: nat)"
  "128 \<le> b \<Longrightarrow> b < 192 \<Longrightarrow> b mod 64 = b - (128 :: nat)"
  by (auto dest!: le_Suc_ex simp: mod_add_eq [symmetric])

lemma div_mod_64:
  "y < 64 \<Longrightarrow> (x * 64 + y) div 64 = (x :: nat)" "y < 64 \<Longrightarrow> (x * 64 + y) mod 64 = (y :: nat)"
  by simp_all

lemma encode_rune_2:
  assumes "194 \<le> b0" "b0 < 224" "128 \<le> b1" "b1 \<le> 191"
  shows "encode_rune (b0 mod 32 * 64 + b1 mod 64) = map of_nat [b0, b1]"
proof -
  define x y where "x = b0 - 192" and "y = b1 - 128"
  have b: "b0 = 192 + x" "b1 = 128 + y" and xy: "2 \<le> x" "x < 32" "y < 64"
    using assms by (auto simp: x_def y_def)
  have r: "b0 mod 32 * 64 + b1 mod 64 = x * 64 + y"
    using assms lead_mod(1) [of b0] lead_mod(4) [of b1] by (simp add: x_def y_def)
  have "\<not> x * 64 + y < 128" "x * 64 + y < 2048" using xy by linarith+
  then show ?thesis
    unfolding r unfolding b encode_rune_def Let_def using xy by (simp add: div_mod_64)
qed

lemma encode_rune_shape3:
  assumes "2048 \<le> r" "r < 65536" "\<not> (55296 \<le> r \<and> r \<le> 57343)"
  shows "encode_rune r = map of_nat [224 + r div 4096, 128 + r div 64 mod 64, 128 + r mod 64]"
  using assms by (cases "r < 55296") (simp_all add: encode_rune_def Let_def)

lemma encode_rune_shape4:
  assumes "65536 \<le> r" "r \<le> 1114111"
  shows "encode_rune r =
    map of_nat [240 + r div 262144, 128 + r div 4096 mod 64, 128 + r div 64 mod 64, 128 + r mod 64]"
  using assms by (simp add: encode_rune_def Let_def)

lemma encode_rune_3:
  assumes "224 \<le> b0" "b0 < 240" "128 \<le> b1" "b1 \<le> 191" "is_cont b2"
    and "b0 = 224 \<Longrightarrow> 160 \<le> b1" "b0 = 237 \<Longrightarrow> b1 \<le> 159"
  shows "encode_rune (b0 mod 16 * 4096 + b1 mod 64 * 64 + b2 mod 64) = map of_nat [b0, b1, b2]"
proof -
  define x y z where "x = b0 - 224" and "y = b1 - 128" and "z = b2 - 128"
  have b: "b0 = 224 + x" "b1 = 128 + y" "b2 = 128 + z" and xyz: "x < 16" "y < 64" "z < 64"
    and lo: "x = 0 \<longrightarrow> 32 \<le> y" and hi: "x = 13 \<longrightarrow> y < 32"
    using assms unfolding x_def y_def z_def is_cont_def by linarith+
  let ?r = "(x * 64 + y) * 64 + z"
  have "b0 mod 16 = x" "b1 mod 64 = y" "b2 mod 64 = z"
    using xyz by (simp_all add: lead_mod b)
  then have r: "b0 mod 16 * 4096 + b1 mod 64 * 64 + b2 mod 64 = ?r" by simp
  have "32 \<le> x * 64 + y" using lo by (cases "x = 0") auto
  then have low: "2048 \<le> ?r" by simp
  have "x * 64 + y < 1024" using xyz by linarith
  then have high: "?r < 65536" using xyz by (simp add: algebra_simps)
  have gap: "\<not> (55296 \<le> ?r \<and> ?r \<le> 57343)"
  proof -
    have "x * 64 + y < 864 \<or> 896 \<le> x * 64 + y"
      using xyz hi by (cases "x = 13"; cases "x < 13") auto
    then show ?thesis using xyz by (elim disjE) (simp_all add: algebra_simps)
  qed
  have "?r mod 64 = z" "?r div 4096 = x"
    "?r div 64 mod 64 = y"
  proof -
    have e: "n div 4096 = n div 64 div 64" for n :: nat
      by (simp add: div_mult2_eq [symmetric])
    show "?r mod 64 = z" "?r div 4096 = x" "?r div 64 mod 64 = y"
      unfolding e by (simp_all only: div_mod_64 [OF xyz(2)] div_mod_64 [OF xyz(3)])
  qed
  then show ?thesis unfolding r encode_rune_shape3 [OF low high gap] by (simp only: b)
qed

lemma encode_rune_4:
  assumes "240 \<le> b0" "b0 \<le> 244" "128 \<le> b1" "b1 \<le> 191" "is_cont b2" "is_cont b3"
    and "b0 = 240 \<Longrightarrow> 144 \<le> b1" "b0 = 244 \<Longrightarrow> b1 \<le> 143"
  shows "encode_rune (b0 mod 8 * 262144 + b1 mod 64 * 4096 + b2 mod 64 * 64 + b3 mod 64)
         = map of_nat [b0, b1, b2, b3]"
proof -
  define x y z w where "x = b0 - 240" and "y = b1 - 128" and "z = b2 - 128" and "w = b3 - 128"
  have b: "b0 = 240 + x" "b1 = 128 + y" "b2 = 128 + z" "b3 = 128 + w"
    and xyz: "x < 5" "y < 64" "z < 64" "w < 64"
    and lo: "x = 0 \<longrightarrow> 16 \<le> y" and hi: "x = 4 \<longrightarrow> y < 16"
    using assms unfolding x_def y_def z_def w_def is_cont_def by linarith+
  let ?r = "((x * 64 + y) * 64 + z) * 64 + w"
  have "b0 mod 8 = x" "b1 mod 64 = y" "b2 mod 64 = z" "b3 mod 64 = w"
    using xyz by (simp_all add: lead_mod b)
  then have r: "b0 mod 8 * 262144 + b1 mod 64 * 4096 + b2 mod 64 * 64 + b3 mod 64 = ?r" by simp
  have "16 \<le> x * 64 + y" using lo by (cases "x = 0") auto
  then have "1024 \<le> (x * 64 + y) * 64 + z" by simp
  then have low: "65536 \<le> ?r" by simp
  have high: "?r \<le> 1114111"
  proof -
    have "x * 64 + y < 272" using xyz hi by (cases "x = 4") auto
    then have "(x * 64 + y) * 64 + z < 17408" using xyz by (simp add: algebra_simps)
    then show ?thesis using xyz by (simp add: algebra_simps)
  qed
  have "?r mod 64 = w" "?r div 64 mod 64 = z" "?r div 4096 mod 64 = y" "?r div 262144 = x"
  proof -
    have e: "n div 4096 = n div 64 div 64" "n div 262144 = n div 64 div 64 div 64" for n :: nat
      by (simp_all add: div_mult2_eq [symmetric])
    show "?r mod 64 = w" "?r div 64 mod 64 = z" "?r div 4096 mod 64 = y" "?r div 262144 = x"
      unfolding e by (simp_all only: div_mod_64 [OF xyz(2)] div_mod_64 [OF xyz(3)] div_mod_64 [OF xyz(4)])
  qed
  then show ?thesis unfolding r encode_rune_shape4 [OF low high] by (simp only: b)
qed

lemma utf8_head_cases:
  assumes "utf8_head s = Some (r, k)"
  obtains
    (one) b0 t where "s = b0 # t" "b0 < 128" "r = b0" "k = 1"
  | (two) b0 b1 t where "s = b0 # b1 # t" "194 \<le> b0" "b0 < 224" "128 \<le> b1" "b1 \<le> 191"
      "r = b0 mod 32 * 64 + b1 mod 64" "k = 2"
  | (three) b0 b1 b2 t where "s = b0 # b1 # b2 # t" "224 \<le> b0" "b0 < 240" "128 \<le> b1" "b1 \<le> 191"
      "is_cont b2" "b0 = 224 \<Longrightarrow> 160 \<le> b1" "b0 = 237 \<Longrightarrow> b1 \<le> 159"
      "r = b0 mod 16 * 4096 + b1 mod 64 * 64 + b2 mod 64" "k = 3"
  | (four) b0 b1 b2 b3 t where "s = b0 # b1 # b2 # b3 # t" "240 \<le> b0" "b0 \<le> 244"
      "128 \<le> b1" "b1 \<le> 191" "is_cont b2" "is_cont b3" "b0 = 240 \<Longrightarrow> 144 \<le> b1"
      "b0 = 244 \<Longrightarrow> b1 \<le> 143"
      "r = b0 mod 8 * 262144 + b1 mod 64 * 4096 + b2 mod 64 * 64 + b3 mod 64" "k = 4"
  using assms
  by (cases s) (simp_all add: utf8_class_def not_less split: if_splits list.splits)

lemma encode_rune_head:
  assumes "utf8_head s = Some (r, k)"
  shows "encode_rune r = map of_nat (take k s)"
  using assms
proof (cases rule: utf8_head_cases)
  case (one b0 t)
  then show ?thesis by (simp add: encode_rune_def)
next
  case (two b0 b1 t)
  then show ?thesis by (simp add: encode_rune_2)
next
  case (three b0 b1 b2 t)
  then show ?thesis by (simp add: encode_rune_3)
next
  case (four b0 b1 b2 b3 t)
  then show ?thesis by (simp add: encode_rune_4)
qed

lemma map_of_nat_unat [simp]: "map of_nat (map unat bs) = (bs :: bytes)"
  by (induction bs) simp_all

lemma valid_utf8_runes:
  "valid_utf8 s \<Longrightarrow> concat (map encode_rune (runes s)) = s"
proof (induction s rule: valid_utf8.induct)
  case (1 s)
  show ?case
  proof (cases "s = []")
    case False
    with "1.prems" obtain r k where h: "utf8_head (map unat s) = Some (r, k)" and v: "valid_utf8 (drop k s)"
      by (subst (asm) valid_utf8.simps) (auto split: option.splits)
    have "encode_rune r = take k s"
      using encode_rune_head [OF h] by (simp only: take_map map_of_nat_unat)
    with h v False "1.IH" [OF False h refl] show ?thesis
      by (simp add: runes.simps [of s])
  qed simp
qed

text \<open>An ASCII byte is a rune of its own, and the bytes of a longer rune are all at least 128.\<close>

lemma utf8_head_ascii: "b < 128 \<Longrightarrow> utf8_head (b # bs) = Some (b, 1)"
  by simp

lemma utf8_head_multi:
  assumes "utf8_head s = Some (r, k)" and "k \<noteq> 1"
  shows "\<forall>b \<in> set (take k s). 128 \<le> b"
  using assms(1)
  by (cases rule: utf8_head_cases) (use assms(2) in \<open>simp_all add: is_cont_def\<close>)

lemma utf8_head_multi_rune:
  assumes "utf8_head s = Some (r, k)" and "k \<noteq> 1"
  shows "128 \<le> r"
proof (rule ccontr)
  assume "\<not> 128 \<le> r"
  then have "length (encode_rune r) = 1" by (simp add: encode_rune_def)
  moreover have "length (encode_rune r) = k"
    using encode_rune_head [OF assms(1)] utf8_head_size [OF assms(1)] by simp
  ultimately show False using assms(2) by simp
qed

section \<open>strconv\<close>

fun dec_digits :: "nat \<Rightarrow> bytes" where
  "dec_digits n = (if n < 10 then [of_nat (48 + n)] else dec_digits (n div 10) @ [of_nat (48 + n mod 10)])"

declare dec_digits.simps [simp del]

definition format_uint :: "nat \<Rightarrow> bytes" where
  "format_uint n = dec_digits n"

definition format_int :: "int \<Rightarrow> bytes" where
  "format_int i = (if i < 0 then 45 # dec_digits (nat (- i)) else dec_digits (nat i))"

text \<open>The digit loop of \<open>ParseUint\<close> in base 10, for values up to \<open>hi\<close>.\<close>

fun parse_digits :: "nat \<Rightarrow> nat \<Rightarrow> bytes \<Rightarrow> nat result" where
  "parse_digits hi acc [] = Inr acc"
| "parse_digits hi acc (c # cs) =
     (if c < 48 \<or> 57 < c then Inl ErrNumSyntax
      else let acc' = acc * 10 + (unat c - 48)
           in if hi < acc' then Inl ErrNumRange else parse_digits hi acc' cs)"

definition parse_uint :: "nat \<Rightarrow> bytes \<Rightarrow> nat result" where
  "parse_uint hi s = (if s = [] then Inl ErrNumSyntax else parse_digits hi 0 s)"

text \<open>\<open>ParseInt(s, 10, 64)\<close>: an optional sign, then an unsigned 64-bit number, then the range check.\<close>

definition parse_int64 :: "bytes \<Rightarrow> int result" where
  "parse_int64 s =
     (if s = [] then Inl ErrNumSyntax
      else
        let neg = (hd s = 45);
            rest = (if hd s = 43 \<or> hd s = 45 then tl s else s)
        in case parse_uint (2 ^ 64 - 1) rest of
             Inl e \<Rightarrow> Inl e
           | Inr un \<Rightarrow>
               if \<not> neg \<and> 2 ^ 63 \<le> un then Inl ErrNumRange
               else if neg \<and> 2 ^ 63 < un then Inl ErrNumRange
               else Inr (if neg then - int un else int un))"

lemma dec_digits_nonempty [simp]: "dec_digits n \<noteq> []"
  by (subst dec_digits.simps) simp

lemma dec_digits_range: "c \<in> set (dec_digits n) \<Longrightarrow> 48 \<le> c \<and> c \<le> (57 :: byte)"
proof (induction n rule: dec_digits.induct)
  case (1 n)
  have digit: "48 \<le> (of_nat (48 + d) :: byte) \<and> (of_nat (48 + d) :: byte) \<le> 57" if "d < 10" for d :: nat
    using that by (simp add: word_le_nat_alt unat_of_nat del: of_nat_add)
  show ?case
  proof (cases "n < 10")
    case True
    with "1.prems" digit show ?thesis by (auto simp: dec_digits.simps [of n])
  next
    case False
    with "1.prems" digit [of "n mod 10"] "1.IH" show ?thesis
      by (subst (asm) dec_digits.simps) auto
  qed
qed

lemma parse_digits_append:
  "parse_digits hi acc (xs @ ys) =
     (case parse_digits hi acc xs of Inl e \<Rightarrow> Inl e | Inr a \<Rightarrow> parse_digits hi a ys)"
  by (induction xs arbitrary: acc) (auto simp: Let_def)

lemma parse_dec_digits: "n \<le> hi \<Longrightarrow> parse_digits hi 0 (dec_digits n) = Inr n"
proof (induction n rule: dec_digits.induct)
  case (1 n)
  have u: "unat (of_nat (48 + d) :: byte) = 48 + d" if "d < 10" for d :: nat
    using that by (simp add: unat_of_nat del: of_nat_add)
  have r: "\<not> (of_nat (48 + d) :: byte) < 48" "\<not> 57 < (of_nat (48 + d) :: byte)" if "d < 10" for d :: nat
    using that u [OF that] by (simp_all add: word_less_nat_alt del: of_nat_add)
  show ?case
  proof (cases "n < 10")
    case True
    with "1.prems" u [OF True] r [OF True] show ?thesis
      by (simp add: dec_digits.simps [of n] del: of_nat_add)
  next
    case False
    have d: "n mod 10 < 10" by simp
    from False "1.IH" "1.prems" have "parse_digits hi 0 (dec_digits (n div 10)) = Inr (n div 10)"
      by simp
    with False "1.prems" u [OF d] r [OF d] show ?thesis
      by (subst dec_digits.simps) (simp add: parse_digits_append Let_def del: of_nat_add)
  qed
qed

lemma parse_format_int:
  assumes "- (2 ^ 63) \<le> i" and "i < 2 ^ 63"
  shows "parse_int64 (format_int i) = Inr i"
proof (cases "i < 0")
  case True
  with assms have "nat (- i) \<le> 2 ^ 63" by simp
  with True show ?thesis
    by (simp add: parse_int64_def format_int_def parse_uint_def parse_dec_digits Let_def)
next
  case False
  have "hd (dec_digits (nat i)) \<in> set (dec_digits (nat i))" by simp
  then have "hd (dec_digits (nat i)) \<noteq> 43" "hd (dec_digits (nat i)) \<noteq> 45"
    using dec_digits_range by force+
  with False assms show ?thesis
    by (simp add: parse_int64_def format_int_def parse_uint_def parse_dec_digits Let_def)
qed

text \<open>Decimal formatting is a code for the 64-bit integers.\<close>

interpretation int64_text: codec format_int parse_int64 "\<lambda>i. - (2 ^ 63) \<le> i \<and> i < 2 ^ 63"
  by unfold_locales (simp add: parse_format_int)

end
