(* ===== verification/LtHash.thy ===== *)
theory LtHash
  imports Accumulator Encoding Text
begin

text \<open>
  Package \<open>lthash\<close> (\<open>lthash/lthash.go\<close>): the MSC4500 lattice hash, 1024 words of 16 bits to which the
  SHAKE256 expansion of every entry is added. The extendable output function is the parameter
  \<open>xof\<close>, which gives the first \<open>n\<close> bytes of output for an input; BLAKE2b-256 is a parameter too. The
  state is a list of 1024 words.
\<close>

section \<open>The code\<close>

definition WordCount :: nat where "WordCount = 1024"
definition ByteSize :: nat where "ByteSize = WordCount * 2"
definition ChecksumLen :: nat where "ChecksumLen = 32"

definition dst :: bytes where
  "dst = str ''msc4500_lthash16_v1'' @ [0]"

record entry =
  EventType :: bytes
  EntryStateKey :: bytes
  EntryEventID :: bytes

text \<open>The loop that backs up over UTF-8 continuation bytes.\<close>

fun back_up :: "bytes \<Rightarrow> nat \<Rightarrow> nat" where
  "back_up s 0 = 0"
| "back_up s (Suc e) = (if s ! Suc e AND 0xC0 = 0x80 then back_up s e else Suc e)"

definition truncateToU16Limit :: "bytes \<Rightarrow> bytes \<times> u16" where
  "truncateToU16Limit s =
     (if length s \<le> 65535 then (s, of_nat (length s))
      else let e = back_up s 65535 in (take e s, of_nat e))"

definition seed_input :: "bytes \<Rightarrow> bytes \<Rightarrow> bytes \<Rightarrow> bytes" where
  "seed_input eventType stateKey eventID =
     (let (eventType, typeLen) = truncateToU16Limit eventType;
          (stateKey, stateKeyLen) = truncateToU16Limit stateKey
      in dst @ le_bytes 2 typeLen @ eventType @ le_bytes 2 stateKeyLen @ stateKey @ eventID)"

definition seed :: "(bytes \<Rightarrow> nat \<Rightarrow> bytes) \<Rightarrow> bytes \<Rightarrow> bytes \<Rightarrow> bytes \<Rightarrow> u16 list" where
  "seed xof eventType stateKey eventID =
     (let buf = xof (seed_input eventType stateKey eventID) ByteSize
      in map (\<lambda>i. le_word (take 2 (drop (i * 2) buf))) [0..<WordCount])"

definition addSeed :: "u16 list \<Rightarrow> u16 list \<Rightarrow> u16 list" where
  "addSeed s h = map2 (\<lambda>a b. a + b) h s"

definition subSeed :: "u16 list \<Rightarrow> u16 list \<Rightarrow> u16 list" where
  "subSeed s h = map2 (\<lambda>a b. a - b) h s"

definition LtInsert :: "(bytes \<Rightarrow> nat \<Rightarrow> bytes) \<Rightarrow> entry \<Rightarrow> u16 list \<Rightarrow> u16 list" where
  "LtInsert xof e h = addSeed (seed xof (EventType e) (EntryStateKey e) (EntryEventID e)) h"

definition LtRemove :: "(bytes \<Rightarrow> nat \<Rightarrow> bytes) \<Rightarrow> entry \<Rightarrow> u16 list \<Rightarrow> u16 list" where
  "LtRemove xof e h = subSeed (seed xof (EventType e) (EntryStateKey e) (EntryEventID e)) h"

definition LtReplace :: "(bytes \<Rightarrow> nat \<Rightarrow> bytes) \<Rightarrow> bytes \<Rightarrow> bytes \<Rightarrow> bytes \<Rightarrow> bytes \<Rightarrow> u16 list \<Rightarrow> u16 list" where
  "LtReplace xof eventType stateKey oldEventID newEventID h =
     addSeed (seed xof eventType stateKey newEventID) (subSeed (seed xof eventType stateKey oldEventID) h)"

definition zero_hash :: "u16 list" where
  "zero_hash = replicate WordCount 0"

definition FromEntries :: "(bytes \<Rightarrow> nat \<Rightarrow> bytes) \<Rightarrow> entry list \<Rightarrow> u16 list" where
  "FromEntries xof entries = foldl (\<lambda>h e. LtInsert xof e h) zero_hash entries"

definition LtBytes :: "u16 list \<Rightarrow> bytes" where
  "LtBytes h = concat (map (le_bytes 2) h)"

definition Checksum :: "(bytes \<Rightarrow> bytes) \<Rightarrow> u16 list \<Rightarrow> bytes" where
  "Checksum blake2b h = blake2b (LtBytes h)"

definition LtString :: "(bytes \<Rightarrow> bytes) \<Rightarrow> u16 list \<Rightarrow> bytes" where
  "LtString blake2b h = b64url_encode (Checksum blake2b h)"

section \<open>The lattice\<close>

definition wf_hash :: "u16 list \<Rightarrow> bool" where
  "wf_hash h \<longleftrightarrow> length h = WordCount"

lemma length_seed [simp]: "length (seed xof t k i) = WordCount"
  by (simp add: seed_def Let_def)

lemma wf_zero_hash [simp]: "wf_hash zero_hash"
  by (simp add: wf_hash_def zero_hash_def)

lemma addSeed_nth: "length s = length h \<Longrightarrow> i < length h \<Longrightarrow> addSeed s h ! i = h ! i + s ! i"
  by (simp add: addSeed_def)

lemma subSeed_nth: "length s = length h \<Longrightarrow> i < length h \<Longrightarrow> subSeed s h ! i = h ! i - s ! i"
  by (simp add: subSeed_def)

lemma length_addSeed [simp]: "length (addSeed s h) = min (length h) (length s)" "length (subSeed s h) = min (length h) (length s)"
  by (simp_all add: addSeed_def subSeed_def)

interpretation lt: invertible_accumulator wf_hash "LtInsert xof" "LtRemove xof" for xof
  by unfold_locales
    (auto simp: wf_hash_def LtInsert_def LtRemove_def addSeed_nth subSeed_nth intro!: nth_equalityI)

lemma FromEntries_absorb: "FromEntries xof es = lt.absorb xof es zero_hash"
  by (simp add: FromEntries_def lt.absorb_def)

section \<open>The encoding of an entry\<close>

lemma truncate_small [simp]: "length s \<le> 65535 \<Longrightarrow> truncateToU16Limit s = (s, of_nat (length s))"
  by (simp add: truncateToU16Limit_def)

lemma back_up_le: "back_up s e \<le> e"
  by (induction s e rule: back_up.induct) auto

lemma truncate_spec:
  assumes "truncateToU16Limit s = (t, n)"
  shows "length t \<le> 65535" "unat n = length t" "\<exists>u. s = t @ u"
proof -
  have e: "back_up s 65535 \<le> 65535" by (rule back_up_le)
  show "length t \<le> 65535" using assms e by (auto simp: truncateToU16Limit_def Let_def split: if_splits)
  then show "unat n = length t" using assms e
    by (auto simp: truncateToU16Limit_def Let_def unat_of_nat split: if_splits)
  show "\<exists>u. s = t @ u" using assms
    by (auto simp: truncateToU16Limit_def Let_def split: if_splits) (metis append_take_drop_id)
qed

lemma seed_input_inject:
  assumes "seed_input t k i = seed_input t' k' i'"
  shows "fst (truncateToU16Limit t) = fst (truncateToU16Limit t') \<and>
    fst (truncateToU16Limit k) = fst (truncateToU16Limit k') \<and> i = i'"
proof -
  obtain a n where a: "truncateToU16Limit t = (a, n)" by force
  obtain b m where b: "truncateToU16Limit k = (b, m)" by force
  obtain a' n' where a': "truncateToU16Limit t' = (a', n')" by force
  obtain b' m' where b': "truncateToU16Limit k' = (b', m')" by force
  have e: "le_bytes 2 n @ a @ le_bytes 2 m @ b @ i = le_bytes 2 n' @ a' @ le_bytes 2 m' @ b' @ i'"
    using assms by (simp add: seed_input_def a b a' b')
  then have "n = n'" "a @ le_bytes 2 m @ b @ i = a' @ le_bytes 2 m' @ b' @ i'"
    using le16.encode_inject by auto
  moreover have "length a = length a'" using truncate_spec(2) [OF a] truncate_spec(2) [OF a'] \<open>n = n'\<close> by simp
  ultimately have "a = a'" "le_bytes 2 m @ b @ i = le_bytes 2 m' @ b' @ i'" by auto
  then have "m = m'" "b @ i = b' @ i'" using le16.encode_inject by auto
  moreover have "length b = length b'" using truncate_spec(2) [OF b] truncate_spec(2) [OF b'] \<open>m = m'\<close> by simp
  ultimately show ?thesis using \<open>a = a'\<close> by (simp add: a b a' b')
qed

lemma LtBytes_inject: "length g = length h \<Longrightarrow> LtBytes g = LtBytes h \<Longrightarrow> g = h"
proof (induction g h rule: list_induct2)
  case (Cons x xs y ys)
  then show ?case using le16.encode_inject by (auto simp: LtBytes_def)
qed simp

lemma length_LtBytes: "wf_hash h \<Longrightarrow> length (LtBytes h) = ByteSize"
  by (simp add: LtBytes_def length_concat wf_hash_def ByteSize_def o_def sum_list_triv)


section \<open>Truncation keeps UTF-8\<close>

lemma utf8_head_take:
  assumes "utf8_head s = Some (r, k)" "k \<le> e"
  shows "utf8_head (take e s) = Some (r, k)"
  using assms(1)
proof (cases rule: utf8_head_cases)
  case (one b0 t)
  then show ?thesis using assms by (cases e) auto
next
  case (two b0 b1 t)
  then obtain m where "e = Suc (Suc m)" using assms(2) by (metis add_2_eq_Suc le_Suc_ex)
  then show ?thesis using two assms(1) by (simp split: if_splits option.splits prod.splits list.splits)
next
  case (three b0 b1 b2 t)
  then obtain m where "e = Suc (Suc (Suc m))" using assms(2) by (metis add_Suc le_Suc_ex numeral_3_eq_3 plus_nat.add_0)
  then show ?thesis using three assms(1) by (simp split: if_splits option.splits prod.splits list.splits)
next
  case (four b0 b1 b2 b3 t)
  then obtain m where "e = Suc (Suc (Suc (Suc m)))"
    using assms(2) by (metis Suc_le_D le_Suc_ex add_Suc numeral_eq_Suc pred_numeral_simps(2) pred_numeral_simps(3) plus_nat.add_0 BitM.simps(1) BitM.simps(2) numeral_One One_nat_def)
  then show ?thesis using four assms(1) by (simp split: if_splits option.splits prod.splits list.splits)
qed

lemma utf8_head_inner:
  assumes "utf8_head s = Some (r, k)" "0 < i" "i < k"
  shows "is_cont (s ! i)"
  using assms(1)
proof (cases rule: utf8_head_cases)
  case (two b0 b1 t)
  then have "i = 1" using assms by simp
  then show ?thesis using two by (simp add: is_cont_def)
next
  case (three b0 b1 b2 t)
  then have "i = 1 \<or> i = 2" using assms by auto
  then show ?thesis using three by (auto simp: is_cont_def)
next
  case (four b0 b1 b2 b3 t)
  then have "i = 1 \<or> i = 2 \<or> i = 3" using assms by auto
  then show ?thesis using four by (auto simp: is_cont_def)
qed (use assms in simp)

lemma cont_byte_table: "\<forall>b \<in> set (map of_nat [128..<192]). (b :: byte) AND 0xC0 = 0x80"
  by (simp add: upt_rec)

lemma cont_byte: "is_cont (unat b) \<Longrightarrow> (b :: byte) AND 0xC0 = 0x80"
proof -
  assume "is_cont (unat b)"
  then have "unat b \<in> {128..<192}" by (simp add: is_cont_def)
  then have "of_nat (unat b) \<in> set (map of_nat [128..<192] :: byte list)"
    unfolding set_map set_upt by (rule imageI)
  then show ?thesis using cont_byte_table by (simp only: of_nat_unat_byte)
qed

lemma valid_utf8_take:
  "valid_utf8 s \<Longrightarrow> e \<le> length s \<Longrightarrow> e = 0 \<or> e = length s \<or> \<not> is_cont (unat (s ! e)) \<Longrightarrow> valid_utf8 (take e s)"
proof (induction s arbitrary: e rule: valid_utf8.induct)
  case (1 s)
  show ?case
  proof (cases "s = [] \<or> e = 0")
    case False
    with "1.prems" obtain r k where h: "utf8_head (map unat s) = Some (r, k)" and v: "valid_utf8 (drop k s)"
      by (subst (asm) valid_utf8.simps) (auto split: option.splits)
    have k: "0 < k" "k \<le> length s" using utf8_head_size [OF h] by simp_all
    have "\<not> (0 < e \<and> e < k)"
      using utf8_head_inner [OF h, of e] "1.prems" k by auto
    then have ke: "k \<le> e" using False by simp
    have "utf8_head (map unat (take e s)) = Some (r, k)"
      using utf8_head_take [OF h ke] by (simp add: take_map)
    moreover have "valid_utf8 (take (e - k) (drop k s))"
    proof (rule "1.IH" [OF _ h refl v])
      show "s \<noteq> []" using False by simp
      show "e - k \<le> length (drop k s)" using "1.prems"(2) by simp
      show "e - k = 0 \<or> e - k = length (drop k s) \<or> \<not> is_cont (unat (drop k s ! (e - k)))"
        using "1.prems" ke k False by auto
    qed
    moreover have "drop k (take e s) = take (e - k) (drop k s)" by (rule drop_take)
    ultimately show ?thesis using False by (subst valid_utf8.simps) simp
  qed auto
qed

lemma back_up_boundary: "back_up s e = 0 \<or> \<not> s ! back_up s e AND 0xC0 = 0x80"
  by (induction s e rule: back_up.induct) auto

lemma truncate_utf8: "valid_utf8 s \<Longrightarrow> valid_utf8 (fst (truncateToU16Limit s))"
proof -
  assume v: "valid_utf8 s"
  have "back_up s 65535 = 0 \<or> \<not> is_cont (unat (s ! back_up s 65535))"
    using back_up_boundary cont_byte by metis
  then have "valid_utf8 (take (back_up s 65535) s)" if "65535 < length s"
    using valid_utf8_take [OF v, of "back_up s 65535"] back_up_le [of s 65535] that by linarith
  then show ?thesis using v by (simp add: truncateToU16Limit_def Let_def)
qed

section \<open>Properties\<close>

text \<open>C25: the lattice hash is a hash of the multiset of entries. It does not depend on the order of the
  insertions, removing an inserted entry gives the hash of the entries without it, replacing the
  event of an inserted entry gives the hash of the entries with the new event, and insertion and
  removal undo each other on every state of 1024 words.\<close>

theorem FromEntries_multiset:
  "(mset es = mset fs \<longrightarrow> FromEntries xof es = FromEntries xof fs) \<and>
   (e \<in> set es \<longrightarrow> LtRemove xof e (FromEntries xof es) = FromEntries xof (remove1 e es)) \<and>
   (\<lparr>EventType = t, EntryStateKey = k, EntryEventID = old\<rparr> \<in> set es \<longrightarrow>
      LtReplace xof t k old new (FromEntries xof es) =
      FromEntries xof (\<lparr>EventType = t, EntryStateKey = k, EntryEventID = new\<rparr> #
        remove1 \<lparr>EventType = t, EntryStateKey = k, EntryEventID = old\<rparr> es)) \<and>
   (wf_hash h \<longrightarrow> LtRemove xof e (LtInsert xof e h) = h \<and> LtInsert xof e (LtRemove xof e h) = h)"
proof -
  have rep: "LtReplace xof t k old new s =
      LtInsert xof \<lparr>EventType = t, EntryStateKey = k, EntryEventID = new\<rparr>
        (LtRemove xof \<lparr>EventType = t, EntryStateKey = k, EntryEventID = old\<rparr> s)" for s
    by (simp add: LtReplace_def LtInsert_def LtRemove_def)
  show ?thesis
    unfolding rep FromEntries_absorb
    using lt.absorb_mset [of zero_hash es fs] lt.rem_member [of zero_hash _ es]
      lt.rem_ins [of h] lt.ins_rem [of h] lt.absorb_ins [of zero_hash]
    by simp
qed

definition sample_entry :: "bytes \<Rightarrow> entry" where
  "sample_entry i = \<lparr>EventType = str ''m'', EntryStateKey = [], EntryEventID = i\<rparr>"

theorem FromEntries_multiset_witness:
  "let a = sample_entry (str ''$1''); b = sample_entry (str ''$2''); x = (\<lambda>m n. replicate n (last m))
   in FromEntries x [a, b] = FromEntries x [b, a] \<and> LtRemove x a (FromEntries x [a, b]) = FromEntries x [b]"
proof -
  note law = FromEntries_multiset [where h = "[]" and t = "[]" and k = "[]" and old = "[]" and new = "[]"]
  have "FromEntries x [a, b] = FromEntries x [b, a]" for a b x
    by (rule law [THEN conjunct1, THEN mp]) (simp add: add_mset_commute)
  moreover have "LtRemove x a (FromEntries x [a, b]) = FromEntries x (remove1 a [a, b])" for a b x
    by (rule law [THEN conjunct2, THEN conjunct1, THEN mp]) simp
  ultimately show ?thesis by (simp only: Let_def remove1.simps if_True simp_thms)
qed

text \<open>The input of the extendable output function determines the entry, up to the truncation of an
  over-long type or state key; truncation leaves strings of at most 65535 bytes alone, never exceeds
  that length, records the length it kept and cuts valid UTF-8 at a rune boundary.\<close>

theorem seed_input_unambiguous:
  "(seed_input t k i = seed_input t' k' i' \<longrightarrow>
      fst (truncateToU16Limit t) = fst (truncateToU16Limit t') \<and>
      fst (truncateToU16Limit k) = fst (truncateToU16Limit k') \<and> i = i') \<and>
   (case truncateToU16Limit s of (p, n) \<Rightarrow>
      unat n = length p \<and> length p \<le> 65535 \<and> p = take (length p) s \<and>
      (length s \<le> 65535 \<longrightarrow> p = s) \<and> (valid_utf8 s \<longrightarrow> valid_utf8 p))"
proof
  show "seed_input t k i = seed_input t' k' i' \<longrightarrow>
      fst (truncateToU16Limit t) = fst (truncateToU16Limit t') \<and>
      fst (truncateToU16Limit k) = fst (truncateToU16Limit k') \<and> i = i'"
    using seed_input_inject by blast
  obtain p n where p: "truncateToU16Limit s = (p, n)" by force
  have "p = take (length p) s" using truncate_spec(3) [OF p] by auto
  moreover have "p = s" if "length s \<le> 65535" using p truncate_small [OF that] by simp
  moreover have "valid_utf8 s \<longrightarrow> valid_utf8 p" using truncate_utf8 [of s] p by simp
  ultimately show "case truncateToU16Limit s of (p, n) \<Rightarrow>
      unat n = length p \<and> length p \<le> 65535 \<and> p = take (length p) s \<and>
      (length s \<le> 65535 \<longrightarrow> p = s) \<and> (valid_utf8 s \<longrightarrow> valid_utf8 p)"
    using truncate_spec(1,2) [OF p] p by simp
qed

theorem seed_input_unambiguous_witness:
  "seed_input (str ''ab'') (str ''c'') (str ''d'') \<noteq> seed_input (str ''a'') (str ''bc'') (str ''d'')"
  using seed_input_unambiguous [where t = "str ''ab''" and t' = "str ''a''" and k = "str ''c''"
      and k' = "str ''bc''" and i = "str ''d''" and i' = "str ''d''" and s = "[]"]
  by simp

end
