(* ===== verification/KeyId.thy ===== *)
theory KeyId
  imports Encoding
begin

text \<open>
  Package \<open>keyid\<close> (\<open>keyid/keyid.go\<close>): identifiers of FN-DSA keys. SHA-256 is the parameter \<open>sha256\<close>.
\<close>

definition Context :: bytes where
  "Context = str ''matrix:fn-dsa-512:key-id:v1''"

definition key_preimage :: "bytes \<Rightarrow> bytes" where
  "key_preimage pub = be_bytes 2 (of_nat (length Context) :: u16) @ Context @ pub"

definition KeySHA256 :: "(bytes \<Rightarrow> bytes) \<Rightarrow> bytes \<Rightarrow> bytes" where
  "KeySHA256 sha256 pub = sha256 (key_preimage pub)"

definition ShortID :: "(bytes \<Rightarrow> bytes) \<Rightarrow> bytes \<Rightarrow> bytes" where
  "ShortID sha256 pub = take 16 (b64url_encode (KeySHA256 sha256 pub))"

lemma key_preimage_inject: "key_preimage p = key_preimage q \<longleftrightarrow> p = q"
  by (simp add: key_preimage_def)

end
