(* ===== verification/Gf64.thy ===== *)
theory Gf64
  imports Prelude
begin

text \<open>
  Package \<open>reconcile\<close>, \<open>reconcile/gf64.go\<close>, and \<open>gf64Inv\<close> of \<open>reconcile/pinsketch.go\<close>: the field
  with 2^64 elements, GF(2)[x] modulo x^64 + x^4 + x^3 + x + 1. The code's shift-and-add loop is
  modelled on 64-bit words; the type \<open>gf64\<close> is a copy of the words that is made an instance of the
  type class of fields with the code's multiplication and the code's inverse. That the ring is a
  field is proved in the kernel: the Frobenius map iterated 64 times fixes the generator (a table
  of squares is checked), so e = a^(2^64 - 1) is idempotent, and a linear map, also a table, shows
  that 0 and 1 are the only idempotents.
\<close>

section \<open>The code\<close>

definition reduction :: u64 where
  "reduction = 0x1b"

text \<open>One iteration shifts \<open>left\<close> and reduces it.\<close>

definition xtime :: "u64 \<Rightarrow> u64" where
  "xtime left = (let carry = drop_bit 63 left in push_bit 1 left XOR (reduction AND (0 - carry)))"

primrec mul_loop :: "nat \<Rightarrow> u64 \<Rightarrow> u64 \<Rightarrow> u64 \<Rightarrow> u64" where
  "mul_loop 0 product left right = product"
| "mul_loop (Suc i) product left right =
     mul_loop i (product XOR (left AND (0 - (right AND 1)))) (xtime left) (drop_bit 1 right)"

definition MulBitwise :: "u64 \<Rightarrow> u64 \<Rightarrow> u64" where
  "MulBitwise left right = mul_loop 64 0 left right"

definition Mul :: "u64 \<Rightarrow> u64 \<Rightarrow> u64" where
  "Mul left right = MulBitwise left right"

text \<open>\<open>gf64Inv\<close>: square and multiply over the bits of the exponent 2^64 - 2, from the top.\<close>

definition inv_exponent :: u64 where
  "inv_exponent = - 2"

primrec inv_loop :: "nat \<Rightarrow> u64 \<Rightarrow> u64 \<Rightarrow> u64" where
  "inv_loop 0 result value = result"
| "inv_loop (Suc n) result value =
     (let squared = Mul result result
      in inv_loop n (if inv_exponent AND push_bit n 1 \<noteq> 0 then Mul squared value else squared) value)"

definition gf64Inv :: "u64 \<Rightarrow> u64 option" where
  "gf64Inv value = (if value = 0 then None else Some (inv_loop 64 1 value))"

section \<open>The ring\<close>

typedef gf64 = "UNIV :: u64 set"
  morphisms word_of Gf by simp

setup_lifting type_definition_gf64

lemma Gf_word_of [simp]: "Gf (word_of a) = a" by (rule word_of_inverse)
lemma word_of_Gf [simp]: "word_of (Gf w) = w" by (simp add: Gf_inverse)

instantiation gf64 :: ab_group_add
begin

lift_definition zero_gf64 :: gf64 is 0 .
lift_definition plus_gf64 :: "gf64 \<Rightarrow> gf64 \<Rightarrow> gf64" is "(XOR)" .
lift_definition minus_gf64 :: "gf64 \<Rightarrow> gf64 \<Rightarrow> gf64" is "(XOR)" .
lift_definition uminus_gf64 :: "gf64 \<Rightarrow> gf64" is "\<lambda>a. a" .

instance
  by standard (transfer; simp add: xor.assoc xor.commute xor.left_commute)+

end

lemma gf64_add_self [simp]: "(a :: gf64) + a = 0"
  by transfer simp

lemma gf64_minus [simp]: "- (a :: gf64) = a" "(a :: gf64) - b = a + b"
  by (transfer, simp)+

lemma gf64_add_left_self [simp]: "(a :: gf64) + (a + b) = b"
  by (simp flip: add.assoc)

definition coeff :: "gf64 \<Rightarrow> nat \<Rightarrow> bool" where
  "coeff a i = bit (word_of a) i"

lift_definition xt :: "gf64 \<Rightarrow> gf64" is xtime .

definition xpow :: "nat \<Rightarrow> gf64 \<Rightarrow> gf64" where
  "xpow i = xt ^^ i"

lemma coeff_add: "coeff (a + b) i = (coeff a i \<noteq> coeff b i)"
  unfolding coeff_def by transfer (simp add: bit_xor_iff)

lemma bool_mask: "l AND (0 - (of_bool b :: u64)) = (if b then l else 0)"
  by simp

lemma and_1_of_bool: "(r :: u64) AND 1 = of_bool (bit r 0)"
  by (simp add: and_one_eq bit_0 mod_2_eq_odd)

lemma drop_63: "drop_bit 63 (l :: u64) = of_bool (bit l 63)"
proof (rule bit_word_eqI)
  fix n assume "n < LENGTH(64)"
  show "bit (drop_bit 63 l) n = bit (of_bool (bit l 63) :: u64) n"
    by (cases n) (auto simp: bit_drop_bit_eq bit_simps dest: bit_imp_le_length)
qed

lemma xtime_if: "xtime l = push_bit 1 l XOR (if bit l 63 then reduction else 0)"
  unfolding xtime_def Let_def drop_63 bool_mask ..

lemma xt_add: "xt (a + b) = xt a + xt b"
proof (transfer, unfold xtime_if)
  fix a b :: u64
  show "push_bit 1 (a XOR b) XOR (if bit (a XOR b) 63 then reduction else 0) =
      (push_bit 1 a XOR (if bit a 63 then reduction else 0)) XOR (push_bit 1 b XOR (if bit b 63 then reduction else 0))"
    by (simp add: push_bit_xor bit_xor_iff xor.assoc xor.left_commute)
qed

lemma xt_0 [simp]: "xt 0 = 0"
  by transfer (simp add: xtime_if)

lemma xpow_add: "xpow i (a + b) = xpow i a + xpow i b"
  by (induction i arbitrary: a b) (simp_all add: xpow_def xt_add)

lemma xpow_0 [simp]: "xpow i 0 = 0" "xpow 0 a = a"
  by (induction i) (simp_all add: xpow_def)

lemma xpow_Suc: "xpow (Suc i) a = xpow i (xt a)" "xpow (Suc i) a = xt (xpow i a)"
  by (simp_all add: xpow_def funpow_swap1)

lemma xpow_xpow: "xpow i (xpow j a) = xpow (i + j) a"
  by (simp add: xpow_def funpow_add)

lemma xpow_sum: "xpow i (sum f A) = (\<Sum>k\<in>A. xpow i (f k))"
  by (induction A rule: infinite_finite_induct) (simp_all add: xpow_add)

lemma mul_loop_sum:
  "Gf (mul_loop n p l r) = Gf p + (\<Sum>i<n. if bit r i then xpow i (Gf l) else 0)"
proof (induction n arbitrary: p l r)
  case (Suc n)
  have step: "Gf (p XOR (l AND (0 - (r AND 1)))) = Gf p + (if bit r 0 then Gf l else 0)"
    unfolding and_1_of_bool bool_mask by (simp add: plus_gf64.abs_eq)
  have "xt (Gf l) = Gf (xtime l)" by (simp add: xt.abs_eq)
  then have "(\<Sum>i<n. if bit (drop_bit 1 r) i then xpow i (Gf (xtime l)) else 0) =
      (\<Sum>i<n. if bit r (Suc i) then xpow (Suc i) (Gf l) else 0)"
    by (intro sum.cong) (simp_all add: bit_drop_bit_eq xpow_Suc(1))
  then show ?case using Suc [of _ "xtime l" "drop_bit 1 r"] step
    by (simp add: sum.lessThan_Suc_shift add.assoc del: sum.lessThan_Suc)
qed simp

instantiation gf64 :: "{one, times}"
begin

lift_definition one_gf64 :: gf64 is 1 .
lift_definition times_gf64 :: "gf64 \<Rightarrow> gf64 \<Rightarrow> gf64" is Mul .

instance ..

end

lemma times_sum: "a * b = (\<Sum>i<64. if coeff b i then xpow i a else 0)"
proof -
  have "a * b = Gf (Mul (word_of a) (word_of b))" by (simp add: times_gf64.rep_eq flip: word_of_inject)
  also have "\<dots> = Gf 0 + (\<Sum>i<64. if bit (word_of b) i then xpow i (Gf (word_of a)) else 0)"
    unfolding Mul_def MulBitwise_def mul_loop_sum ..
  finally show ?thesis by (simp add: coeff_def cong: if_cong flip: zero_gf64.abs_eq)
qed

lemma word_of_xpow_1: "i < 64 \<Longrightarrow> word_of (xpow i 1) = push_bit i 1"
proof (induction i)
  case (Suc i)
  then have "\<not> bit (push_bit i (1 :: u64)) 63" by (subst bit_push_bit_iff) (simp add: bit_1_iff)
  then show ?case using Suc by (simp add: xpow_Suc(2) xt.rep_eq xtime_if)
qed (simp add: one_gf64.rep_eq)

lemma coeff_xpow_1: "i < 64 \<Longrightarrow> j < 64 \<Longrightarrow> coeff (xpow i 1) j \<longleftrightarrow> i = j"
  by (auto simp: coeff_def word_of_xpow_1 bit_simps)

lemma coeff_sum: "finite A \<Longrightarrow> coeff (\<Sum>k\<in>A. f k) i = odd (card {k \<in> A. coeff (f k) i})"
proof (induction A rule: finite_induct)
  case (insert x A)
  have "{k. (k = x \<or> k \<in> A) \<and> coeff (f k) i} =
      (if coeff (f x) i then insert x {k \<in> A. coeff (f k) i} else {k \<in> A. coeff (f k) i})" by auto
  then show ?case using insert by (auto simp: coeff_add)
qed (simp add: coeff_def zero_gf64.rep_eq)

lemma gf64_eqI: "(\<And>i. i < 64 \<Longrightarrow> coeff a i = coeff b i) \<Longrightarrow> a = b"
  by (auto simp: coeff_def intro!: bit_word_eqI simp flip: word_of_inject)

lemma basis_sum: "a = (\<Sum>i<64. if coeff a i then xpow i 1 else 0)"
proof (rule gf64_eqI)
  fix j :: nat assume j: "j < 64"
  have "{k \<in> {..<64}. coeff (if coeff a k then xpow k 1 else 0) j} = (if coeff a j then {j} else {})"
    using j coeff_xpow_1 by (auto simp: coeff_def zero_gf64.rep_eq split: if_splits)
  then show "coeff a j = coeff (\<Sum>i<64. if coeff a i then xpow i 1 else 0) j"
    by (simp add: coeff_sum)
qed

lemma xt_times: "xt a * b = xt (a * b)"
proof -
  have "xt (a * b) = xpow 1 (a * b)" by (simp add: xpow_def)
  also have "\<dots> = (\<Sum>i<64. if coeff b i then xpow i (xt a) else 0)"
    by (subst times_sum) (auto simp: xpow_sum xpow_xpow xpow_Suc(1) simp flip: xpow_Suc(2) intro!: sum.cong)
  finally show ?thesis by (simp add: times_sum)
qed

lemma gf64_distrib: "(a + b) * c = a * c + b * (c :: gf64)"
  by (auto simp: times_sum xpow_add simp flip: sum.distrib intro!: sum.cong)

lemma gf64_comm: "a * b = b * (a :: gf64)"
proof -
  have bil: "a * b = (\<Sum>j<64. \<Sum>i<64. if coeff a i \<and> coeff b j then xpow (i + j) 1 else 0)" for a b :: gf64
  proof -
    have "a * b = (\<Sum>j<64. if coeff b j then xpow j (\<Sum>i<64. if coeff a i then xpow i 1 else 0) else 0)"
      by (simp only: times_sum flip: basis_sum)
    also have "\<dots> = (\<Sum>j<64. \<Sum>i<64. if coeff a i \<and> coeff b j then xpow (i + j) 1 else 0)"
      by (rule sum.cong) (auto simp: xpow_sum xpow_xpow add.commute intro!: sum.cong)
    finally show ?thesis .
  qed
  show ?thesis unfolding bil [of a b] bil [of b a]
    by (subst sum.swap) (auto simp: add.commute intro!: sum.cong)
qed

lemma gf64_times_0 [simp]: "(0 :: gf64) * b = 0"
  by (simp add: times_sum cong: if_cong)

lemma times_sum_left: "sum f A * (b :: gf64) = (\<Sum>k\<in>A. f k * b)"
  by (induction A rule: infinite_finite_induct) (simp_all add: gf64_distrib)

lemma xpow_times: "xpow i a * b = xpow i (a * b)"
  by (induction i arbitrary: a) (simp_all add: xpow_Suc(1) xt_times)

lemma gf64_cycle: "a * b * c = c * a * (b :: gf64)"
proof -
  have "a * b * c = (\<Sum>i<64. if coeff b i then xpow i a * c else 0)"
    by (simp only: times_sum [of a b] times_sum_left) (auto intro!: sum.cong)
  also have "\<dots> = (\<Sum>i<64. if coeff b i then xpow i (c * a) else 0)"
    by (intro sum.cong) (auto simp: xpow_times gf64_comm [of a c])
  also have "\<dots> = c * a * b" by (simp add: times_sum [of "c * a" b])
  finally show ?thesis .
qed

instance gf64 :: comm_ring_1
proof
  fix a b c :: gf64
  show "a * b * c = a * (b * c)"
    using gf64_cycle [of b c a] gf64_comm [of a "b * c"] by simp
  show "a * b = b * a" by (rule gf64_comm)
  show "1 * a = a" by (subst times_sum) (rule basis_sum [symmetric])
  show "(a + b) * c = a * c + b * c" by (rule gf64_distrib)
  show "(0 :: gf64) \<noteq> 1" by transfer simp
qed

section \<open>The Frobenius map\<close>

lemma gf64_two [simp]: "(2 :: gf64) = 0"
  by (metis gf64_add_self one_add_one)

lemma frobenius_add: "(a + b) ^ (2 ^ n) = a ^ (2 ^ n) + (b :: gf64) ^ (2 ^ n)"
proof (induction n)
  case (Suc n)
  have "(a + b) ^ (2 ^ Suc n) = ((a + b) ^ (2 ^ n)) ^ 2" by (simp add: power_mult [symmetric] mult.commute)
  also have "\<dots> = (a ^ (2 ^ n)) ^ 2 + (b ^ (2 ^ n)) ^ 2" by (simp add: Suc power2_sum)
  finally show ?case by (simp add: power_mult [symmetric] mult.commute)
qed simp

lemma frobenius_sum: "(sum f A) ^ (2 ^ n) = (\<Sum>k\<in>A. (f k :: gf64) ^ (2 ^ n))"
  by (induction A rule: infinite_finite_induct) (simp_all add: frobenius_add power_0_left)

definition X :: gf64 where
  "X = xt 1"

lemma X_Gf: "X = Gf 2"
  by (simp add: X_def one_gf64_def xt.abs_eq xtime_if)

lemma xpow_X: "xpow i a = X ^ i * a"
proof (induction i)
  case (Suc i)
  have "xt b = X * b" for b using xt_times [of 1 b] by (simp add: X_def)
  then show ?case using Suc by (simp add: xpow_Suc(2) mult.assoc)
qed simp

lemma basis_X: "a = (\<Sum>i<64. if coeff a i then X ^ i else 0)"
  using basis_sum [of a] unfolding xpow_X mult_1_right .

text \<open>A linear map of words given by the images of the 64 bits.\<close>

fun lin_list :: "u64 list \<Rightarrow> u64 \<Rightarrow> u64" where
  "lin_list [] w = 0"
| "lin_list (t # ts) w = (if bit w 0 then t else 0) XOR lin_list ts (drop_bit 1 w)"

lemma lin_list_sum: "Gf (lin_list ts w) = (\<Sum>i<length ts. if bit w i then Gf (ts ! i) else 0)"
proof (induction ts arbitrary: w)
  case (Cons t ts)
  have "Gf (lin_list (t # ts) w) = (if bit w 0 then Gf t else 0) + Gf (lin_list ts (drop_bit 1 w))"
    by (simp add: plus_gf64.abs_eq zero_gf64.abs_eq)
  then show ?case using Cons
    by (simp add: sum.lessThan_Suc_shift bit_drop_bit_eq del: sum.lessThan_Suc cong: if_cong)
qed (simp add: zero_gf64.abs_eq)

text \<open>The squares of the powers of the generator.\<close>

definition square_table :: "u64 list" where
  "square_table = [
     1, 4, 16, 64,
     256, 1024, 4096, 16384,
     65536, 262144, 1048576, 4194304,
     16777216, 67108864, 268435456, 1073741824,
     4294967296, 17179869184, 68719476736, 274877906944,
     1099511627776, 4398046511104, 17592186044416, 70368744177664,
     281474976710656, 1125899906842624, 4503599627370496, 18014398509481984,
     72057594037927936, 288230376151711744, 1152921504606846976, 4611686018427387904,
     27, 108, 432, 1728,
     6912, 27648, 110592, 442368,
     1769472, 7077888, 28311552, 113246208,
     452984832, 1811939328, 7247757312, 28991029248,
     115964116992, 463856467968, 1855425871872, 7421703487488,
     29686813949952, 118747255799808, 474989023199232, 1899956092796928,
     7599824371187712, 30399297484750848, 121597189939003392, 486388759756013568,
     1945555039024054272, 7782220156096217088, 12682136550675316763, 13835058055282163802]"

fun shift2_chain :: "u64 list \<Rightarrow> bool" where
  "shift2_chain (a # b # ts) \<longleftrightarrow> b = xtime (xtime a) \<and> shift2_chain (b # ts)"
| "shift2_chain _ \<longleftrightarrow> True"

lemma shift2_chain_nth:
  "shift2_chain ts \<Longrightarrow> i < length ts \<Longrightarrow> Gf (ts ! i) = xpow (2 * i) (Gf (hd ts))"
proof (induction ts arbitrary: i rule: shift2_chain.induct)
  case (1 a b ts)
  show ?case
  proof (cases i)
    case (Suc k)
    have ch: "shift2_chain (b # ts)" and b: "b = xtime (xtime a)"
      using "1.prems"(1) unfolding shift2_chain.simps by blast+
    have "Gf ((a # b # ts) ! i) = xpow (2 * k) (Gf b)"
      using "1.IH" [OF ch, of k] "1.prems"(2) Suc by simp
    also have "Gf b = xt (xt (Gf a))" by (simp add: b xt.abs_eq)
    finally show ?thesis using Suc by (simp add: xpow_Suc(1))
  qed simp
qed simp_all

lemma square_table_chain: "shift2_chain square_table"
  by (simp add: square_table_def xtime_def reduction_def)

lemma square_table_simps: "length square_table = 64" "hd square_table = 1"
  by (simp_all add: square_table_def)

lemma square_table_nth: "i < 64 \<Longrightarrow> Gf (square_table ! i) = X ^ (2 * i)"
  using shift2_chain_nth [OF square_table_chain, of i]
  by (simp add: square_table_simps xpow_X flip: one_gf64.abs_eq)

lemma square_lin: "Gf (lin_list square_table w) = Gf w ^ 2"
proof -
  have "Gf (lin_list square_table w) = (\<Sum>i<64. if coeff (Gf w) i then Gf (square_table ! i) else 0)"
    by (simp add: lin_list_sum coeff_def square_table_simps)
  also have "\<dots> = (\<Sum>i<64. (if coeff (Gf w) i then X ^ i else 0) ^ (2 ^ 1))"
    by (intro sum.cong) (auto simp: square_table_nth power_mult [symmetric] mult.commute)
  also have "\<dots> = Gf w ^ 2"
    unfolding frobenius_sum [symmetric] basis_X [symmetric] by simp
  finally show ?thesis .
qed

text \<open>The generator squared 0 to 64 times.\<close>

definition frobenius_table :: "u64 list" where
  "frobenius_table = [
     2, 4, 16, 256,
     65536, 4294967296, 27, 325,
     69649, 4311744769, 281474976776218, 111669150020,
     69052, 4300293456, 18696262193435, 72058698282434910,
     98799108396552527, 7508852687479269, 313291816297574, 6076785667380547347,
     13470757684146121986, 12749500389507444802, 16291502563427555125, 5203926764172326183,
     13174495406275522402, 12024447909651637749, 13393486797395263463, 16251283266509727112,
     1733189407169659334, 1771135578840730303, 5532544551272160805, 16371482399015699130,
     6656922126492271877, 13359044734667447757, 13081489766298454731, 12969455067531443315,
     12854470937230884840, 12933450780795347654, 16314237025689753317, 589001530574911527,
     1406365973223339454, 5437469698763298952, 16637286567612537920, 1791104586889564209,
     5532225425759037722, 17465559541434070915, 6285227636684303407, 12575863927935300670,
     18039947418024139134, 5812368083904874709, 12612049045170180262, 18321212328940417678,
     80132871367001762, 3193222135652212, 6130814885544944599, 18373379959575346377,
     74962121387008428, 6150600619072481676, 18446652706856364859, 6148825560630040792,
     18446655764902830315, 93462766681859, 6148820870539116549, 18446744069414584330,
     2]"

fun square_chain :: "u64 list \<Rightarrow> bool" where
  "square_chain (a # b # ts) \<longleftrightarrow> b = lin_list square_table a \<and> square_chain (b # ts)"
| "square_chain _ \<longleftrightarrow> True"

lemma square_chain_nth:
  "square_chain ts \<Longrightarrow> i < length ts \<Longrightarrow> Gf (ts ! i) = Gf (hd ts) ^ (2 ^ i)"
proof (induction ts arbitrary: i rule: square_chain.induct)
  case (1 a b ts)
  show ?case
  proof (cases i)
    case (Suc k)
    have ch: "square_chain (b # ts)" and b: "b = lin_list square_table a"
      using "1.prems"(1) unfolding square_chain.simps by blast+
    have "Gf ((a # b # ts) ! i) = Gf b ^ (2 ^ k)"
      using "1.IH" [OF ch, of k] "1.prems"(2) Suc by simp
    also have "Gf b = Gf a ^ 2" by (simp add: b square_lin)
    finally show ?thesis using Suc by (simp add: power_mult [symmetric])
  qed simp
qed simp_all

lemma frobenius_table_chain: "square_chain frobenius_table"
  unfolding frobenius_table_def square_chain.simps
  by (intro conjI TrueI) (simp_all add: square_table_def)

lemma X_frobenius: "X ^ (2 ^ 64) = X"
  using square_chain_nth [OF frobenius_table_chain, of 64] X_Gf by (simp add: frobenius_table_def)

lemma frobenius_64: "a ^ (2 ^ 64) = (a :: gf64)"
proof -
  have "a ^ (2 ^ 64) = (\<Sum>i<64. (if coeff a i then X ^ i else 0) ^ (2 ^ 64))"
    by (subst basis_X) (rule frobenius_sum)
  also have "\<dots> = (\<Sum>i<64. if coeff a i then X ^ i else 0)"
  proof (intro sum.cong refl)
    fix i
    have "(X ^ i) ^ (2 ^ 64) = (X ^ (2 ^ 64)) ^ i" by (simp only: power_mult [symmetric] mult.commute)
    then show "(if coeff a i then X ^ i else 0) ^ (2 ^ 64) = (if coeff a i then X ^ i else 0)"
      by (simp only: X_frobenius) simp
  qed
  finally show ?thesis by (simp flip: basis_X)
qed

section \<open>Idempotents\<close>

text \<open>A linear map that recovers z, up to its bit 0, from z^2 + z.\<close>

definition unquadratic_table :: "u64 list" where
  "unquadratic_table = [
     1858076378458151938, 9561900855309385444, 9561900855309385446, 11347809597230670838,
     9561900855309385442, 4018460688368531344, 11347809597230670846, 281517943493500,
     9561900855309385458, 3931244771709608444, 4018460688368531376, 1858076305444036428,
     11347809597230670782, 3336501280695469424, 281517943493628, 9580096982618358322,
     9561900855309385714, 4018742189131883772, 3931244771709608956, 12932019878818011918,
     4018460688368530352, 9650468784525026546, 1858076305444034380, 12303816589915979790,
     11347809597230674878, 9563028610608019698, 3336501280695477616, 1427071658708988,
     281517943510012, 12541401399658572814, 9580096982618391090, 9223372039002259470,
     9561900855309451250, 12931737355851385214, 4018742189132014844, 11254603532465727182,
     3931244771709346812, 18546751265078896, 12932019878817487630, 9635927528439764686,
     4018460688367481776, 1863711165003320140, 9650468784527123698, 1841373461176552128,
     1858076305448228684, 339958567963100336, 12303816589907591182, 9241497849131167678,
     11347809597213897662, 1783765537390569292, 9563028610641574130, 12319055597872112254,
     3336501280628368752, 3623343634930477708, 1427071792926716, 13116755630313467918,
     281518211945468, 2165389375334596604, 12541401399121701902, 1012186353053232128,
     9580096983692132914, 0, 9223372036854775822, 13853606100407680462]"

fun unquadratic_chain :: "u64 \<Rightarrow> u64 list \<Rightarrow> bool" where
  "unquadratic_chain b (t # ts) \<longleftrightarrow>
     lin_list unquadratic_table (t XOR b) = (if b = 1 then 0 else b) \<and> unquadratic_chain (push_bit 1 b) ts"
| "unquadratic_chain b [] \<longleftrightarrow> True"

lemma unquadratic_table_chain: "unquadratic_chain 1 square_table"
  unfolding square_table_def unquadratic_chain.simps
  by (intro conjI TrueI) (simp_all add: unquadratic_table_def)

lemma unquadratic_chain_nth:
  "unquadratic_chain (push_bit j 1) ts \<Longrightarrow> i < length ts \<Longrightarrow> j + i < 64 \<Longrightarrow>
   lin_list unquadratic_table (ts ! i XOR push_bit (j + i) 1) = (if j + i = 0 then 0 else push_bit (j + i) 1)"
proof (induction ts arbitrary: i j)
  case (Cons t ts)
  have one: "push_bit k (1 :: u64) = 1 \<longleftrightarrow> k = 0" if "k < 64" for k
    using that bit_eq_iff [of "push_bit k (1 :: u64)" 1] by (force simp: bit_simps)
  show ?case
  proof (cases i)
    case 0
    then show ?thesis using Cons.prems one by simp
  next
    case (Suc k)
    have "unquadratic_chain (push_bit (Suc j) 1) ts"
      using Cons.prems(1) unfolding unquadratic_chain.simps by (simp add: push_bit_push_bit mult.commute)
    from Cons.IH [OF this, of k] show ?thesis using Suc Cons.prems by simp
  qed
qed simp

lemma unquadratic_basis:
  assumes "i < 64"
  shows "Gf (lin_list unquadratic_table (word_of (X ^ (2 * i) + X ^ i))) = (if i = 0 then 0 else X ^ i)"
proof -
  have x: "X ^ i = Gf (push_bit i 1)"
    using word_of_xpow_1 [OF assms] by (simp add: xpow_X flip: word_of_inject)
  then have "word_of (X ^ (2 * i) + X ^ i) = square_table ! i XOR push_bit i 1"
    using square_table_nth [OF assms] by (metis plus_gf64.rep_eq word_of_Gf)
  then show ?thesis
    using unquadratic_chain_nth [of 0 square_table i] unquadratic_table_chain assms x
    by (simp add: square_table_simps zero_gf64.abs_eq del: push_bit_of_1)
qed

definition unquadratic :: "gf64 \<Rightarrow> gf64" where
  "unquadratic a = Gf (lin_list unquadratic_table (word_of a))"

lemma unquadratic_add: "unquadratic (a + b) = unquadratic a + unquadratic b"
  by (auto simp: unquadratic_def lin_list_sum plus_gf64.rep_eq bit_xor_iff simp flip: sum.distrib intro!: sum.cong)

lemma unquadratic_0 [simp]: "unquadratic 0 = 0"
  by (simp add: unquadratic_def lin_list_sum zero_gf64.rep_eq)

lemma unquadratic_sum: "unquadratic (sum f A) = (\<Sum>k\<in>A. unquadratic (f k))"
  by (induction A rule: infinite_finite_induct) (simp_all add: unquadratic_add)

lemma idempotent_cases:
  assumes "a * a = (a :: gf64)"
  shows "a = 0 \<or> a = 1"
proof -
  have "a ^ 2 = (\<Sum>i<64. (if coeff a i then X ^ i else 0) ^ (2 ^ 1))"
    unfolding frobenius_sum [symmetric] basis_X [symmetric] by simp
  then have "a ^ 2 + a = (\<Sum>i<64. if coeff a i then X ^ (2 * i) + X ^ i else 0)"
    by (subst (2) basis_X)
      (auto simp: power_mult [symmetric] mult.commute simp flip: sum.distrib intro!: sum.cong)
  then have "unquadratic (a ^ 2 + a) = (\<Sum>i<64. if coeff a i \<and> i \<noteq> 0 then X ^ i else 0)"
    by (auto simp: unquadratic_sum unquadratic_def [of "_ + _"] unquadratic_basis intro!: sum.cong)
  moreover have "a ^ 2 + a = 0" using assms by (simp add: power2_eq_square)
  ultimately have z: "(\<Sum>i<64. if coeff a i \<and> i \<noteq> 0 then X ^ i else 0) = 0" by simp
  have "a = (\<Sum>i<64. (if coeff a i \<and> i \<noteq> 0 then X ^ i else 0) + (if i = 0 then of_bool (coeff a 0) else 0))"
    by (subst (1) basis_X) (auto intro!: sum.cong gr0I)
  also have "\<dots> = of_bool (coeff a 0)"
    unfolding sum.distrib z by simp
  finally show ?thesis by (cases "coeff a 0") auto
qed

section \<open>The field\<close>

lemma power_order:
  assumes "a \<noteq> (0 :: gf64)"
  shows "a * a ^ (2 ^ 64 - 2) = 1"
proof -
  define m where "m = (2 :: nat) ^ 64 - 2"
  have m: "(2 :: nat) ^ 64 = Suc (Suc m)" by (simp add: m_def)
  have fx: "a ^ Suc (Suc m) = a" using frobenius_64 [of a] unfolding m .
  have "a ^ Suc m * a ^ Suc m = a ^ m * a ^ Suc (Suc m)" by (simp only: power_add [symmetric]) simp
  also have "\<dots> = a ^ Suc m" by (simp only: fx) simp
  finally have "a ^ Suc m = 0 \<or> a ^ Suc m = 1" by (rule idempotent_cases)
  moreover have "a ^ Suc m \<noteq> 0" using fx assms by auto
  ultimately have "a * a ^ m = 1" by simp
  then show ?thesis unfolding m_def .
qed

lemma inv_loop_power:
  "Gf (inv_loop n r v) = Gf r ^ (2 ^ n) * Gf v ^ (unat inv_exponent mod 2 ^ n)"
proof (induction n arbitrary: r)
  case (Suc n)
  have mul: "Gf (Mul x y) = Gf x * Gf y" for x y by (simp add: times_gf64.abs_eq)
  have b: "inv_exponent AND push_bit n 1 \<noteq> 0 \<longleftrightarrow> bit (unat inv_exponent) n"
    by (simp add: and_exp_eq_0_iff_not_bit bit_unsigned_iff)
  have e: "unat inv_exponent mod 2 ^ Suc n =
      unat inv_exponent mod 2 ^ n + (if bit (unat inv_exponent) n then 2 ^ n else 0)"
    using take_bit_Suc_from_most [of n "unat inv_exponent"] by (simp add: take_bit_eq_mod)
  have "Gf r ^ (2 ^ Suc n) = (Gf r * Gf r) ^ 2 ^ n" by (simp add: power_mult power2_eq_square)
  then show ?case
    unfolding inv_loop.simps Let_def b e
    by (simp add: Suc mul power_add power_mult_distrib mult_ac)
qed simp

lemma gf64Inv_power: "v \<noteq> 0 \<Longrightarrow> gf64Inv v = Some (word_of (Gf v ^ (2 ^ 64 - 2)))"
proof -
  assume "v \<noteq> 0"
  have "unat inv_exponent = 2 ^ 64 - 2" by (simp add: inv_exponent_def)
  then have "unat inv_exponent mod 2 ^ 64 = 2 ^ 64 - 2" by simp
  then have "Gf (inv_loop 64 1 v) = Gf v ^ (2 ^ 64 - 2)"
    unfolding inv_loop_power by (simp only: flip: one_gf64.abs_eq) simp
  then show ?thesis using \<open>v \<noteq> 0\<close> by (simp add: gf64Inv_def flip: word_of_inject)
qed

instantiation gf64 :: field
begin

definition inverse_gf64 :: "gf64 \<Rightarrow> gf64" where
  "inverse_gf64 a = (case gf64Inv (word_of a) of None \<Rightarrow> 0 | Some b \<Rightarrow> Gf b)"

definition divide_gf64 :: "gf64 \<Rightarrow> gf64 \<Rightarrow> gf64" where
  "divide_gf64 a b = a * inverse b"

instance
proof
  fix a b :: gf64
  show "a div b = a * inverse b" by (rule divide_gf64_def)
  show "inverse (0 :: gf64) = 0" by (simp add: inverse_gf64_def gf64Inv_def zero_gf64.rep_eq)
  assume "a \<noteq> 0"
  then have "word_of a \<noteq> 0" by (simp add: zero_gf64.rep_eq flip: word_of_inject)
  then show "inverse a * a = 1"
    using power_order [OF \<open>a \<noteq> 0\<close>] by (simp add: inverse_gf64_def gf64Inv_power mult.commute)
qed

end

lemma Gf_Mul: "Gf (Mul a b) = Gf a * Gf b"
  by (simp add: times_gf64.abs_eq)

lemma Gf_xor: "Gf (a XOR b) = Gf a + Gf b"
  by (simp add: plus_gf64.abs_eq)

lemma Gf_simps [simp]: "Gf 0 = 0" "Gf 1 = 1" "Gf a = Gf b \<longleftrightarrow> a = b" "Gf a = 0 \<longleftrightarrow> a = 0"
  by (simp_all add: zero_gf64.abs_eq one_gf64.abs_eq Gf_inject)

lemma Gf_gf64Inv: "gf64Inv a = (if a = 0 then None else Some (word_of (inverse (Gf a))))"
  by (auto simp: inverse_gf64_def gf64Inv_def)

section \<open>Properties\<close>

text \<open>C23: the words with exclusive or and the code's multiplication are a field. \<open>Mul\<close> is commutative,
  associative, distributes over exclusive or, has the unit 1 and no zero divisors, and \<open>gf64Inv\<close>
  returns the inverse of every word but 0.\<close>

theorem Mul_field:
  "Mul a b = Mul b a \<and> Mul (Mul a b) c = Mul a (Mul b c) \<and>
   Mul a (b XOR c) = Mul a b XOR Mul a c \<and> Mul a 1 = a \<and> (Mul a b = 0 \<longleftrightarrow> a = 0 \<or> b = 0) \<and>
   (case gf64Inv a of None \<Rightarrow> a = 0 | Some i \<Rightarrow> a \<noteq> 0 \<and> Mul a i = 1)"
proof -
  have w: "x = y \<longleftrightarrow> Gf x = Gf y" for x y by simp
  have "Mul a 1 = a" unfolding w Gf_Mul Gf_simps by simp
  moreover have "Mul a (b XOR c) = Mul a b XOR Mul a c" unfolding w Gf_Mul Gf_xor by (rule distrib_left)
  moreover have "Mul a b = Mul b a" "Mul (Mul a b) c = Mul a (Mul b c)" unfolding w Gf_Mul by (simp_all only: mult_ac)
  moreover have "Mul a b = 0 \<longleftrightarrow> a = 0 \<or> b = 0" unfolding w Gf_Mul by simp
  moreover have "Mul a (word_of (inverse (Gf a))) = 1" if "a \<noteq> 0" using that unfolding w Gf_Mul by simp
  ultimately show ?thesis by (simp add: Gf_gf64Inv)
qed

end
