(* ===== verification/Sketch.thy ===== *)
theory Sketch
  imports Gf64 Accumulator Encoding
begin

text \<open>
  Package \<open>reconcile\<close>, \<open>reconcile/algebraic.go\<close>: element hashes of events, the room accumulator and
  the syndrome sketch (its decoder is in \<open>PinSketch\<close>). SHA-256 is the parameter \<open>sha256\<close>.

  The abstract side of a sketch is a finite set of field elements: \<open>sketch_of n S\<close> is the list of
  the power sums of the odd exponents up to \<open>2 n - 1\<close>, toggling is symmetric difference with a
  singleton and combining sketches is symmetric difference.
\<close>

section \<open>Element hashes\<close>

definition MaxSketchCapacity :: int where "MaxSketchCapacity = 32"
definition MaxLocalSketchDecodeCapacity :: int where "MaxLocalSketchDecodeCapacity = MaxSketchCapacity"
definition eventHashEncodedLen :: nat where "eventHashEncodedLen = 43"

text \<open>The constants of \<open>EventIDFormat\<close>; any other \<open>int\<close> is an unknown format.\<close>

datatype event_id_format = Legacy | V3 | V4Plus | OtherFormat int

record element_hash =
  H128 :: bytes
  H64 :: u64

text \<open>The first non-zero of the given chunks.\<close>

fun first_chunk :: "u64 list \<Rightarrow> u64" where
  "first_chunk [] = 1"
| "first_chunk (c # cs) = (if c \<noteq> 0 then c else first_chunk cs)"

definition FromDigest32 :: "bytes \<Rightarrow> element_hash" where
  "FromDigest32 digest =
     \<lparr>H128 = take 16 digest,
      H64 = first_chunk (map (\<lambda>i. be_word (take 8 (drop (i * 8) digest))) [0..<4])\<rparr>"

definition trimSigil :: "bytes \<Rightarrow> bytes option" where
  "trimSigil eventID = (case eventID of [] \<Rightarrow> None | c # cs \<Rightarrow> if c \<noteq> 36 then None else Some cs)"

definition check_digest :: "bytes \<Rightarrow> bytes result" where
  "check_digest digest = (if length digest \<noteq> 32 then Inl ErrInvalidEventID else Inr digest)"

definition MatrixEventDigest32 :: "(bytes \<Rightarrow> bytes) \<Rightarrow> bytes \<Rightarrow> event_id_format \<Rightarrow> bytes result" where
  "MatrixEventDigest32 sha256 eventID format =
     (case trimSigil eventID of
        None \<Rightarrow> Inl ErrInvalidEventID
      | Some encoded \<Rightarrow>
          if format \<noteq> Legacy \<and> eventHashEncodedLen < length encoded then Inl ErrInvalidBase64
          else (case format of
                  Legacy \<Rightarrow> check_digest (sha256 eventID)
                | V3 \<Rightarrow> (case b64std_decode encoded of Inl e \<Rightarrow> Inl ErrInvalidBase64 | Inr d \<Rightarrow> check_digest d)
                | V4Plus \<Rightarrow> (case b64url_decode encoded of Inl e \<Rightarrow> Inl ErrInvalidBase64 | Inr d \<Rightarrow> check_digest d)
                | OtherFormat n \<Rightarrow> Inl ErrInvalidEventID))"

definition DecodeDigest32 :: "(bytes \<Rightarrow> bytes) \<Rightarrow> bytes \<Rightarrow> event_id_format \<Rightarrow> bytes result" where
  "DecodeDigest32 sha256 eventID format = MatrixEventDigest32 sha256 eventID format"

definition FromMatrixEventID :: "(bytes \<Rightarrow> bytes) \<Rightarrow> bytes \<Rightarrow> event_id_format \<Rightarrow> element_hash result" where
  "FromMatrixEventID sha256 eventID format =
     (case MatrixEventDigest32 sha256 eventID format of Inl e \<Rightarrow> Inl e | Inr d \<Rightarrow> Inr (FromDigest32 d))"

section \<open>The room accumulator\<close>

record room_accumulator =
  acc_digest :: bytes
  acc_count :: u64

definition xor_bytes :: "bytes \<Rightarrow> bytes \<Rightarrow> bytes" where
  "xor_bytes a b = map2 (XOR) a b"

definition NewRoomAccumulator :: room_accumulator where
  "NewRoomAccumulator = \<lparr>acc_digest = replicate 16 0, acc_count = 0\<rparr>"

definition AccInsert :: "element_hash \<Rightarrow> room_accumulator \<Rightarrow> room_accumulator result" where
  "AccInsert hash r =
     (if acc_count r = - 1 then Inl ErrCountOverflow
      else Inr \<lparr>acc_digest = xor_bytes (acc_digest r) (H128 hash), acc_count = acc_count r + 1\<rparr>)"

definition AccRemove :: "element_hash \<Rightarrow> room_accumulator \<Rightarrow> room_accumulator result" where
  "AccRemove hash r =
     (if acc_count r = 0 then Inl ErrCountUnderflow
      else Inr \<lparr>acc_digest = xor_bytes (acc_digest r) (H128 hash), acc_count = acc_count r - 1\<rparr>)"

definition EncodeDigest :: "room_accumulator \<Rightarrow> bytes" where
  "EncodeDigest r = b64url_encode (acc_digest r)"

definition DecodeDigest :: "bytes \<Rightarrow> bytes result" where
  "DecodeDigest encoded =
     (if length encoded \<noteq> b64_encoded_len 16 then Inl ErrInvalidDigestLength
      else case b64url_decode encoded of
             Inl e \<Rightarrow> Inl ErrInvalidBase64
           | Inr bs \<Rightarrow> if length bs \<noteq> 16 then Inl ErrInvalidDigestLength else Inr bs)"

definition Residual :: "room_accumulator \<Rightarrow> room_accumulator \<Rightarrow> bytes" where
  "Residual r other = xor_bytes (acc_digest r) (acc_digest other)"

definition VerifyResidual :: "bytes \<Rightarrow> element_hash list \<Rightarrow> bool" where
  "VerifyResidual expectedResidual hashes =
     (foldl (\<lambda>residual hash. xor_bytes residual (H128 hash)) (replicate 16 0) hashes = expectedResidual)"

text \<open>The escapes of \<open>canonicalStringArray\<close>; \<open>append([]string(nil), xs...)\<close> of no strings is nil.\<close>

definition escape_etag_byte :: "byte \<Rightarrow> bytes" where
  "escape_etag_byte c =
     (if c = 92 \<or> c = 34 then [92, c]
      else if c = 8 then [92, 98]
      else if c = 12 then [92, 102]
      else if c = 10 then [92, 110]
      else if c = 13 then [92, 114]
      else if c = 9 then [92, 116]
      else [c])"

fun string_elements :: "bool \<Rightarrow> bytes list \<Rightarrow> bytes" where
  "string_elements first [] = []"
| "string_elements first (s # ss) =
     (if first then [] else [44]) @ [34] @ concat (map escape_etag_byte s) @ [34] @ string_elements False ss"

definition canonicalStringArray :: "bytes list option \<Rightarrow> bytes" where
  "canonicalStringArray values =
     (case values of None \<Rightarrow> str ''null'' | Some ss \<Rightarrow> [91] @ string_elements True ss @ [93])"

definition sortStrings :: "bytes list \<Rightarrow> bytes list" where
  "sortStrings values = sort values"

definition ETag :: "(bytes \<Rightarrow> bytes) \<Rightarrow> room_accumulator \<Rightarrow> bytes list \<Rightarrow> bytes" where
  "ETag sha256 r extremityEventIDs =
     (let extremities = (if extremityEventIDs = [] then None else Some (sortStrings extremityEventIDs));
          frontierHash = sha256 (canonicalStringArray extremities)
      in b64url_encode (acc_digest r @ take 8 frontierHash))"

section \<open>The syndrome sketch\<close>

record sketch =
  Coordinates :: "u64 list"

definition NewSyndromeSketch :: "int \<Rightarrow> sketch result" where
  "NewSyndromeSketch capacity =
     (if capacity \<le> 0 \<or> capacity > MaxSketchCapacity then Inl ErrInvalidSketchCapacity
      else Inr \<lparr>Coordinates = replicate (nat capacity) 0\<rparr>)"

definition NewSyndromeSketchFromCoordinates :: "u64 list \<Rightarrow> sketch result" where
  "NewSyndromeSketchFromCoordinates coordinates =
     (if length coordinates = 0 \<or> int (length coordinates) > MaxSketchCapacity
      then Inl ErrInvalidSketchCapacity else Inr \<lparr>Coordinates = coordinates\<rparr>)"

definition Capacity :: "sketch \<Rightarrow> int" where
  "Capacity s = int (length (Coordinates s))"

text \<open>The loop of \<open>Toggle\<close> and of \<open>toggleStratum\<close>.\<close>

fun toggle_loop :: "u64 \<Rightarrow> u64 \<Rightarrow> u64 list \<Rightarrow> u64 list" where
  "toggle_loop squared oddPower [] = []"
| "toggle_loop squared oddPower (c # cs) =
     (c XOR oddPower) # toggle_loop squared (Mul oddPower squared) cs"

definition toggle_coords :: "u64 \<Rightarrow> u64 list \<Rightarrow> u64 list" where
  "toggle_coords value cs = toggle_loop (Mul value value) value cs"

definition Toggle :: "u64 \<Rightarrow> sketch \<Rightarrow> sketch result" where
  "Toggle value s =
     (if value = 0 then Inl ErrZeroShortIdentifier
      else Inr \<lparr>Coordinates = toggle_coords value (Coordinates s)\<rparr>)"

definition XorSketch :: "sketch \<Rightarrow> sketch \<Rightarrow> sketch result" where
  "XorSketch s other =
     (if Capacity s \<noteq> Capacity other then Inl ErrInvalidSketchLength
      else Inr \<lparr>Coordinates = map2 (XOR) (Coordinates s) (Coordinates other)\<rparr>)"

definition Subtract :: "sketch \<Rightarrow> sketch \<Rightarrow> sketch result" where
  "Subtract s other =
     (if Capacity s \<noteq> Capacity other then Inl ErrInvalidSketchLength
      else Inr \<lparr>Coordinates = map2 (XOR) (Coordinates s) (Coordinates other)\<rparr>)"

definition EncodeSketch :: "sketch \<Rightarrow> bytes" where
  "EncodeSketch s = b64url_encode (concat (map (le_bytes 8) (Coordinates s)))"

definition newSketchFromEncodedBytes :: "int \<Rightarrow> bytes \<Rightarrow> sketch result" where
  "newSketchFromEncodedBytes capacity bs =
     (if int (length bs) \<noteq> capacity * 8 then Inl ErrInvalidSketchLength
      else Inr \<lparr>Coordinates = map (\<lambda>i. le_word (take 8 (drop (i * 8) bs))) [0..<nat capacity]\<rparr>)"

definition DecodeSyndromeSketch :: "int \<Rightarrow> bytes \<Rightarrow> sketch result" where
  "DecodeSyndromeSketch capacity encoded =
     (if capacity \<le> 0 \<or> capacity > MaxSketchCapacity then Inl ErrInvalidSketchCapacity
      else if length encoded \<noteq> b64_encoded_len (nat capacity * 8) then Inl ErrInvalidSketchLength
      else case b64url_decode encoded of
             Inl e \<Rightarrow> Inl ErrInvalidBase64
           | Inr bs \<Rightarrow> newSketchFromEncodedBytes capacity bs)"

definition equalSketch :: "sketch \<Rightarrow> sketch \<Rightarrow> bool" where
  "equalSketch left right =
     (if Capacity left \<noteq> Capacity right then False
      else list_all (\<lambda>i. Coordinates left ! i = Coordinates right ! i) [0..<length (Coordinates left)])"

definition containsZero :: "u64 list \<Rightarrow> bool" where
  "containsZero values \<longleftrightarrow> list_ex (\<lambda>v. v = 0) values"

section \<open>Power sums\<close>

text \<open>The coordinate of a set of elements for the exponent \<open>2 i + 1\<close>.\<close>

definition power_sum :: "nat \<Rightarrow> u64 set \<Rightarrow> gf64" where
  "power_sum k S = (\<Sum>x\<in>S. Gf x ^ k)"

definition sketch_of :: "nat \<Rightarrow> u64 set \<Rightarrow> u64 list" where
  "sketch_of n S = map (\<lambda>i. word_of (power_sum (2 * i + 1) S)) [0..<n]"

definition symdiff :: "'a set \<Rightarrow> 'a set \<Rightarrow> 'a set" where
  "symdiff S T = (S - T) \<union> (T - S)"

lemma symdiff_simps [simp]:
  "symdiff S {} = S" "symdiff {} S = S" "symdiff S S = {}"
  "finite S \<Longrightarrow> finite T \<Longrightarrow> finite (symdiff S T)"
  by (auto simp: symdiff_def)

lemma in_symdiff: "x \<in> symdiff S T \<longleftrightarrow> (x \<in> S) \<noteq> (x \<in> T)"
  by (auto simp: symdiff_def)

lemma symdiff_assoc: "symdiff (symdiff S T) U = symdiff S (symdiff T U)"
  by (auto simp: in_symdiff)

lemma symdiff_commute: "symdiff S T = symdiff T S"
  by (auto simp: in_symdiff)

lemma symdiff_empty_iff: "symdiff S T = {} \<longleftrightarrow> S = T"
  by (auto simp: symdiff_def)

lemma power_sum_symdiff:
  assumes "finite S" "finite T"
  shows "power_sum k (symdiff S T) = power_sum k S + power_sum k T"
proof -
  have "power_sum k S + power_sum k T =
      (power_sum k (S - T) + power_sum k (S \<inter> T)) + (power_sum k (T - S) + power_sum k (S \<inter> T))"
    using assms by (simp add: power_sum_def sum.Int_Diff [of S _ T] sum.Int_Diff [of T _ S] Int_commute add_ac)
  also have "\<dots> = power_sum k (S - T) + power_sum k (T - S)"
    by (simp add: add_ac)
  also have "\<dots> = power_sum k (symdiff S T)"
  proof -
    have "(S - T) \<inter> (T - S) = {}" by blast
    with assms show ?thesis
      unfolding power_sum_def symdiff_def by (intro sum.union_disjoint [symmetric]) simp_all
  qed
  finally show ?thesis by simp
qed

lemma power_sum_simps [simp]: "power_sum k {} = 0" "power_sum k {x} = Gf x ^ k"
  by (simp_all add: power_sum_def)

lemma power_sum_even: "power_sum (2 * k) S = power_sum k S ^ 2"
  using frobenius_sum [of "\<lambda>x. Gf x ^ k" S 1] by (simp add: power_sum_def power_mult [symmetric] mult.commute)

lemma length_sketch_of [simp]: "length (sketch_of n S) = n"
  by (simp add: sketch_of_def)

lemma sketch_of_nth: "i < n \<Longrightarrow> Gf (sketch_of n S ! i) = power_sum (2 * i + 1) S"
  by (simp add: sketch_of_def)

lemma toggle_loop_nth:
  "i < length cs \<Longrightarrow> Gf (toggle_loop sq p cs ! i) = Gf (cs ! i) + Gf p * Gf sq ^ i"
  by (induction cs arbitrary: p i) (auto simp: nth_Cons Gf_xor Gf_Mul mult_ac split: nat.splits)

lemma length_toggle_loop [simp]: "length (toggle_loop sq p cs) = length cs"
  by (induction cs arbitrary: p) auto

lemma length_toggle_coords [simp]: "length (toggle_coords x cs) = length cs"
  by (simp add: toggle_coords_def)

lemma toggle_coords_nth: "i < length cs \<Longrightarrow> Gf (toggle_coords x cs ! i) = Gf (cs ! i) + Gf x ^ (2 * i + 1)"
  by (simp add: toggle_coords_def toggle_loop_nth Gf_Mul power_mult power2_eq_square)

lemma u64_list_eqI:
  "length xs = length ys \<Longrightarrow> (\<And>i. i < length xs \<Longrightarrow> Gf (xs ! i) = Gf (ys ! i)) \<Longrightarrow> xs = (ys :: u64 list)"
  by (rule nth_equalityI) auto

lemma toggle_sketch_of: "finite S \<Longrightarrow> toggle_coords x (sketch_of n S) = sketch_of n (symdiff S {x})"
  by (rule u64_list_eqI) (simp_all add: toggle_coords_nth sketch_of_nth power_sum_symdiff)

lemma xor_sketch_of:
  "finite S \<Longrightarrow> finite T \<Longrightarrow> map2 (XOR) (sketch_of n S) (sketch_of n T) = sketch_of n (symdiff S T)"
  by (rule u64_list_eqI) (simp_all add: Gf_xor sketch_of_nth power_sum_symdiff)

lemma sketch_of_empty: "sketch_of n {} = replicate n 0"
  by (rule u64_list_eqI) (simp_all add: sketch_of_nth)

interpretation coords: xor_accumulator "\<lambda>cs. length cs = n" toggle_coords for n
  by unfold_locales (auto simp: toggle_coords_nth add_ac intro!: u64_list_eqI)

text \<open>The elements that occur an odd number of times in a list.\<close>

fun odd_set :: "'a list \<Rightarrow> 'a set" where
  "odd_set [] = {}"
| "odd_set (x # xs) = symdiff {x} (odd_set xs)"

lemma finite_odd_set [simp]: "finite (odd_set xs)"
  by (induction xs) simp_all

lemma odd_set_distinct: "distinct xs \<Longrightarrow> odd_set xs = set xs"
  by (induction xs) (auto simp: symdiff_def)

lemma odd_set_subset: "odd_set xs \<subseteq> set xs"
  by (induction xs) (auto simp: symdiff_def)

lemma absorb_sketch_of:
  "finite S \<Longrightarrow> coords.absorb xs (sketch_of n S) = sketch_of n (symdiff S (odd_set xs))"
  by (induction xs arbitrary: S) (simp_all add: toggle_sketch_of symdiff_assoc)


section \<open>A sketch of capacity n determines a set up to 2 n differences\<close>

text \<open>Weights whose moments up to the number of points vanish are zero.\<close>

lemma weighted_power_sums_product:
  assumes "finite E" and "\<And>k. 1 \<le> k \<Longrightarrow> k \<le> m \<Longrightarrow> (\<Sum>x\<in>D. w x * x ^ k) = (0 :: gf64)"
  shows "1 \<le> s \<Longrightarrow> s + card E \<le> m \<Longrightarrow> (\<Sum>x\<in>D. w x * (x ^ s * (\<Prod>e\<in>E. x + e))) = 0"
  using assms(1)
proof (induction E arbitrary: s rule: finite_induct)
  case (insert a E)
  have "w x * (x ^ s * (\<Prod>e\<in>insert a E. x + e)) =
      w x * (x ^ Suc s * (\<Prod>e\<in>E. x + e)) + a * (w x * (x ^ s * (\<Prod>e\<in>E. x + e)))" for x
  proof -
    have "(\<Prod>e\<in>insert a E. x + e) = (x + a) * (\<Prod>e\<in>E. x + e)" by (rule prod.insert [OF insert.hyps])
    then show ?thesis by (simp only: power_Suc distrib_left distrib_right mult_ac)
  qed
  then have "(\<Sum>x\<in>D. w x * (x ^ s * (\<Prod>e\<in>insert a E. x + e))) =
      (\<Sum>x\<in>D. w x * (x ^ Suc s * (\<Prod>e\<in>E. x + e))) + a * (\<Sum>x\<in>D. w x * (x ^ s * (\<Prod>e\<in>E. x + e)))"
    by (simp only: sum.distrib sum_distrib_left)
  then show ?case using insert.IH [of s] insert.IH [of "Suc s"] insert.prems insert.hyps by simp
qed (simp add: assms(2))

lemma weighted_power_sums_zero:
  assumes "finite D" "0 \<notin> D" "card D \<le> m" "d \<in> D"
    and z: "\<And>k. 1 \<le> k \<Longrightarrow> k \<le> m \<Longrightarrow> (\<Sum>x\<in>D. w x * x ^ k) = (0 :: gf64)"
  shows "w d = 0"
proof -
  let ?E = "D - {d}" and ?f = "\<lambda>x. w x * (x ^ 1 * (\<Prod>e\<in>D - {d}. x + e))"
  have c: "1 + card ?E \<le> m" using card.remove [OF assms(1) assms(4)] assms(3) by simp
  have "(\<Sum>x\<in>D. ?f x) = 0"
    by (rule weighted_power_sums_product [OF _ z]) (use assms(1) c in auto)
  moreover have "(\<Prod>e\<in>?E. x + e) = 0" if "x \<in> ?E" for x
    using that assms(1) by (intro prod_zero bexI [of _ x]) auto
  then have "(\<Sum>x\<in>D. ?f x) = w d * (d * (\<Prod>e\<in>?E. d + e))"
    using sum.remove [OF assms(1,4), of ?f] by (simp add: sum.neutral)
  ultimately have "w d * (d * (\<Prod>e\<in>?E. d + e)) = 0" by simp
  moreover have "d + e \<noteq> 0" if "e \<in> ?E" for e
    using that by (metis DiffD2 add_eq_0_iff gf64_minus(1) insertI1)
  ultimately show ?thesis using assms(1,2,4) by (auto simp: prod_zero_iff)
qed

lemma power_sums_zero:
  assumes "finite D" "0 \<notin> D" "card D \<le> m" and "\<And>k. 1 \<le> k \<Longrightarrow> k \<le> m \<Longrightarrow> (\<Sum>x\<in>D. x ^ k) = (0 :: gf64)"
  shows "D = {}"
  using weighted_power_sums_zero [OF assms(1,2,3), of _ "\<lambda>_. 1"] assms(4) by auto

lemma all_power_sums:
  assumes z: "\<And>i. i < n \<Longrightarrow> power_sum (2 * i + 1) S = 0"
  shows "1 \<le> k \<Longrightarrow> k \<le> 2 * n \<Longrightarrow> power_sum k S = 0"
proof (induction k rule: less_induct)
  case (less k)
  show ?case
  proof (cases "even k")
    case True
    then obtain j where "k = 2 * j" by blast
    then show ?thesis using less by (simp add: power_sum_even)
  next
    case False
    then obtain i where "k = 2 * i + 1" by (elim oddE)
    then show ?thesis using z [of i] less.prems by simp
  qed
qed

lemma power_sum_Gf: "power_sum k S = (\<Sum>y\<in>Gf ` S. y ^ k)"
  by (simp add: power_sum_def sum.reindex inj_on_def)

lemma sketch_zero:
  assumes "finite D" "0 \<notin> D" "card D \<le> 2 * n" "sketch_of n D = replicate n 0"
  shows "D = {}"
proof -
  have "power_sum (2 * i + 1) D = 0" if "i < n" for i
    using sketch_of_nth [OF that, of D] assms(4) that by simp
  then have "power_sum k D = 0" if "1 \<le> k" "k \<le> 2 * n" for k
    using all_power_sums that by blast
  then have "Gf ` D = {}"
    using assms by (intro power_sums_zero [of _ "2 * n"]) (auto simp: power_sum_Gf card_image inj_on_def)
  then show ?thesis by simp
qed

lemma map2_xor_self: "map2 (XOR) xs xs = replicate (length xs) (0 :: u64)"
  by (induction xs) simp_all

lemma sketch_unique:
  assumes "finite S" "finite T" "0 \<notin> S" "0 \<notin> T" "card (symdiff S T) \<le> 2 * n"
    and "sketch_of n S = sketch_of n T"
  shows "S = T"
proof -
  have "sketch_of n (symdiff S T) = replicate n 0"
    using xor_sketch_of [OF assms(1,2), of n] assms(6) map2_xor_self [of "sketch_of n T"] by simp
  then have "symdiff S T = {}"
    using assms by (intro sketch_zero) (auto simp: symdiff_def)
  then show ?thesis by (simp add: symdiff_empty_iff)
qed

section \<open>Encodings\<close>

lemma concat_le8_chunks:
  "map (\<lambda>i. le_word (take 8 (drop (i * 8) (concat (map (le_bytes 8) ws))))) [0..<length ws] = (ws :: u64 list)"
proof (induction ws)
  case (Cons w ws)
  have "le_word (le_bytes 8 w) = w" by (rule le_word_le_bytes) simp
  moreover have "drop (Suc i * 8) (concat (map (le_bytes 8) (w # ws))) = drop (i * 8) (concat (map (le_bytes 8) ws))" for i
    by simp
  moreover have "[0..<length (w # ws)] = 0 # map Suc [0..<length ws]"
    by (simp only: list.size(4) One_nat_def add_Suc_right add_0_right upt_conv_Cons [OF zero_less_Suc] map_Suc_upt)
  ultimately show ?case using Cons by (simp only: list.map map_map o_def) simp
qed simp

lemma length_concat_le8: "length (concat (map (le_bytes 8) (ws :: u64 list))) = length ws * 8"
  by (induction ws) simp_all

lemma length_FromDigest32: "length digest = 32 \<Longrightarrow> length (H128 (FromDigest32 digest)) = 16"
  by (simp add: FromDigest32_def)

lemma first_chunk_nonzero: "first_chunk cs \<noteq> 0"
  by (induction cs) auto


section \<open>The accumulator\<close>

lemma xor_bytes_simps:
  "length (xor_bytes a b) = min (length a) (length b)"
  "length a = length b \<Longrightarrow> xor_bytes (xor_bytes a b) b = a"
  "xor_bytes a b = xor_bytes b a"
  "xor_bytes (xor_bytes a b) c = xor_bytes (xor_bytes a c) b"
proof -
  show "length (xor_bytes a b) = min (length a) (length b)" by (simp add: xor_bytes_def)
  show "length a = length b \<Longrightarrow> xor_bytes (xor_bytes a b) b = a"
    by (intro nth_equalityI) (simp_all add: xor_bytes_def xor.assoc)
  show "xor_bytes a b = xor_bytes b a"
    by (intro nth_equalityI) (simp_all add: xor_bytes_def xor.commute)
  show "xor_bytes (xor_bytes a b) c = xor_bytes (xor_bytes a c) b"
    by (intro nth_equalityI) (simp_all add: xor_bytes_def xor.assoc xor.commute xor.left_commute)
qed

text \<open>The digest absorbs 16 bytes.\<close>

definition digest_step :: "bytes \<Rightarrow> bytes \<Rightarrow> bytes" where
  "digest_step h d = xor_bytes d (take 16 (h @ replicate 16 0))"

lemma digest_step_eq: "length h = 16 \<Longrightarrow> digest_step h d = xor_bytes d h"
  by (simp add: digest_step_def)

interpretation digest: xor_accumulator "\<lambda>d. length d = 16" digest_step
proof
  fix s x y :: bytes
  assume s: "length s = 16"
  show "length (digest_step x s) = 16" using s by (simp add: digest_step_def xor_bytes_simps(1))
  show "digest_step x (digest_step y s) = digest_step y (digest_step x s)"
    unfolding digest_step_def by (rule xor_bytes_simps(4))
  show "digest_step x (digest_step x s) = s"
    unfolding digest_step_def using s by (intro xor_bytes_simps(2)) simp
qed

text \<open>A room accumulator that holds a list of elements.\<close>

definition holds :: "element_hash list \<Rightarrow> room_accumulator \<Rightarrow> bool" where
  "holds hs r \<longleftrightarrow> acc_digest r = foldl (\<lambda>d h. xor_bytes d (H128 h)) (replicate 16 0) hs \<and>
     unat (acc_count r) = length hs \<and> list_all (\<lambda>h. length (H128 h) = 16) hs"

lemma foldl_digest:
  "list_all (\<lambda>h. length (H128 h) = 16) hs \<Longrightarrow>
   foldl (\<lambda>d h. xor_bytes d (H128 h)) d hs = digest.absorb (map H128 hs) d"
  by (induction hs arbitrary: d) (simp_all add: digest_step_eq)

lemma holds_AccInsert:
  assumes "holds hs r" "length (H128 h) = 16"
  shows "(case AccInsert h r of Inr r' \<Rightarrow> holds (hs @ [h]) r' | Inl e \<Rightarrow> e = ErrCountOverflow \<and> length hs = 2 ^ 64 - 1)"
proof (cases "acc_count r = - 1")
  case True
  then have "unat (acc_count r) = 2 ^ 64 - 1" by (simp add: unsigned_minus_1_eq_mask mask_eq_exp_minus_1)
  then show ?thesis using assms True by (simp add: AccInsert_def holds_def)
next
  case False
  then have "1 + acc_count r \<noteq> 0" by (metis add.commute add_eq_0_iff)
  then have "unat (acc_count r + 1) = unat (acc_count r) + 1"
    using unatSuc [of "acc_count r"] by (simp add: add.commute)
  then show ?thesis using assms False by (simp add: AccInsert_def holds_def)
qed

lemma holds_AccRemove:
  assumes "holds hs r" "h \<in> set hs"
  shows "\<exists>r'. AccRemove h r = Inr r' \<and> holds (remove1 h hs) r'"
proof -
  have l: "list_all (\<lambda>h. length (H128 h) = 16) hs" "list_all (\<lambda>h. length (H128 h) = 16) (remove1 h hs)"
    using assms by (auto simp: holds_def list_all_iff notin_set_remove1)
  then have h: "length (H128 h) = 16" using assms(2) by (simp add: list_all_iff)
  have "unat (acc_count r) = length hs" "length hs > 0" using assms by (auto simp: holds_def)
  then have nz: "acc_count r \<noteq> 0" by auto
  then have "unat (acc_count r - 1) = unat (acc_count r) - 1"
    by (simp add: unat_minus_one)
  then have c: "unat (acc_count r - 1) = length (remove1 h hs)"
    using assms by (simp add: holds_def length_remove1)
  have m: "mset (h # remove1 h hs) = mset hs" using assms(2) by simp
  let ?z = "replicate 16 0 :: bytes" and ?rest = "map H128 (remove1 h hs)"
  have "digest.absorb (map H128 hs) ?z = digest.absorb (map H128 (h # remove1 h hs)) ?z"
    using m by (intro digest.absorb_mset) (simp_all only: mset_map length_replicate)
  also have "\<dots> = digest_step (H128 h) (digest.absorb ?rest ?z)"
    by (simp add: digest.absorb_ins)
  finally have "digest_step (H128 h) (digest.absorb (map H128 hs) ?z) = digest.absorb ?rest ?z"
    by (simp add: digest.ins_ins digest.absorb_inv)
  then have "xor_bytes (acc_digest r) (H128 h) = digest.absorb ?rest ?z"
    using assms(1) l h by (simp add: holds_def foldl_digest digest_step_eq)
  then show ?thesis using nz c l by (simp add: AccRemove_def holds_def foldl_digest)
qed

lemma holds_unique:
  assumes "holds gs r'" "holds hs r" "mset gs = mset hs"
  shows "r' = r"
proof -
  have "digest.absorb (map H128 gs) (replicate 16 0) = digest.absorb (map H128 hs) (replicate 16 0)"
    using assms(3) by (intro digest.absorb_mset) simp_all
  moreover have "length gs = length hs" using assms(3) by (rule mset_eq_length)
  ultimately show ?thesis
    using assms by (cases r, cases r') (auto simp: holds_def foldl_digest word_unat_eq_iff)
qed

section \<open>Properties\<close>

text \<open>C26: the sketch operations are set operations. On the sketch of a set \<open>Toggle\<close> of a non-zero
  identifier gives the sketch of the symmetric difference with it, \<open>XorSketch\<close> and \<open>Subtract\<close> that of the
  symmetric difference of two sets when the capacities agree, and a new sketch, of a capacity from 1
  to 32, is the sketch of the empty set; every other call is the documented error.\<close>

theorem sketch_refines_sets:
  assumes "finite S" and "finite T"
  shows "Toggle x \<lparr>Coordinates = sketch_of n S\<rparr> =
      (if x = 0 then Inl ErrZeroShortIdentifier else Inr \<lparr>Coordinates = sketch_of n (symdiff S {x})\<rparr>) \<and>
    XorSketch \<lparr>Coordinates = sketch_of n S\<rparr> \<lparr>Coordinates = sketch_of m T\<rparr> =
      (if n = m then Inr \<lparr>Coordinates = sketch_of n (symdiff S T)\<rparr> else Inl ErrInvalidSketchLength) \<and>
    Subtract \<lparr>Coordinates = sketch_of n S\<rparr> \<lparr>Coordinates = sketch_of m T\<rparr> =
      (if n = m then Inr \<lparr>Coordinates = sketch_of n (symdiff S T)\<rparr> else Inl ErrInvalidSketchLength) \<and>
    NewSyndromeSketch c =
      (if 1 \<le> c \<and> c \<le> 32 then Inr \<lparr>Coordinates = sketch_of (nat c) {}\<rparr> else Inl ErrInvalidSketchCapacity)"
  using assms
  by (auto simp: Toggle_def toggle_sketch_of XorSketch_def Subtract_def Capacity_def xor_sketch_of
      NewSyndromeSketch_def MaxSketchCapacity_def sketch_of_empty)

theorem sketch_refines_sets_witness:
  "Toggle 7 \<lparr>Coordinates = sketch_of 2 {7}\<rparr> = Inr \<lparr>Coordinates = [0, 0]\<rparr>"
  proof -
  have "replicate 2 0 = [0, 0 :: u64]" by (simp add: numeral_eq_Suc)
  then show ?thesis using sketch_refines_sets [of "{7}" "{}" 7 2 2 2] by (simp add: sketch_of_empty)
qed

text \<open>A sketch of capacity \<open>n\<close> identifies a set among all sets that differ from it in at most \<open>2 n\<close>
  elements: sketches of two sets of non-zero identifiers with a smaller difference are different.\<close>

theorem sketch_determines_set:
  assumes "finite S" and "finite T" and "0 \<notin> S" and "0 \<notin> T" and "card (symdiff S T) \<le> 2 * n"
  shows "sketch_of n S = sketch_of n T \<longleftrightarrow> S = T"
  using sketch_unique [OF assms] by blast

theorem sketch_determines_set_witness:
  "sketch_of 1 {5} \<noteq> sketch_of 1 {6 :: u64}"
  using sketch_determines_set [of "{5}" "{6}" 1] by (simp add: symdiff_def)

text \<open>The wire form of a sketch of capacity 1 to 32 parses back to the sketch under the negotiated
  capacity, and text of another length is rejected.\<close>

theorem sketch_wire_roundtrip:
  assumes "1 \<le> length (Coordinates s)" and "length (Coordinates s) \<le> 32"
  shows "DecodeSyndromeSketch (Capacity s) (EncodeSketch s) = Inr s \<and>
    (c \<noteq> Capacity s \<longrightarrow> \<not> is_ok (DecodeSyndromeSketch c (EncodeSketch s)))"
proof
  let ?bs = "concat (map (le_bytes 8) (Coordinates s))"
  have l: "length ?bs = length (Coordinates s) * 8" by (rule length_concat_le8)
  have ne: "Coordinates s \<noteq> []" using assms(1) by auto
  have d: "b64url_decode (EncodeSketch s) = Inr ?bs" by (simp add: EncodeSketch_def b64url.decode_encode)
  have e: "length (EncodeSketch s) = b64_encoded_len (length (Coordinates s) * 8)"
    by (simp add: EncodeSketch_def b64url_encode_def l)
  show "DecodeSyndromeSketch (Capacity s) (EncodeSketch s) = Inr s"
    using assms concat_le8_chunks [of "Coordinates s"] ne
    by (simp add: DecodeSyndromeSketch_def Capacity_def MaxSketchCapacity_def d e newSketchFromEncodedBytes_def l)
  show "c \<noteq> Capacity s \<longrightarrow> \<not> is_ok (DecodeSyndromeSketch c (EncodeSketch s))"
    by (auto simp: DecodeSyndromeSketch_def Capacity_def d newSketchFromEncodedBytes_def l)
qed

theorem sketch_wire_roundtrip_witness:
  "DecodeSyndromeSketch 2 (EncodeSketch \<lparr>Coordinates = [3, 500]\<rparr>) = Inr \<lparr>Coordinates = [3, 500]\<rparr>"
  using sketch_wire_roundtrip [of "\<lparr>Coordinates = [3, 500]\<rparr>"] by (simp add: Capacity_def)

text \<open>C27: the room accumulator is the exclusive or and the exact count of its elements. Inserting keeps
  this, or reports an overflow at 2^64 - 1 elements; removing an element that was inserted succeeds
  and gives the accumulator of the others; the order of the elements does not matter; a new
  accumulator holds nothing, and removing from it is an underflow.\<close>

theorem accumulator_invariant:
  assumes "holds hs r" and "length (H128 h) = 16"
  shows "(case AccInsert h r of
        Inr r' \<Rightarrow> holds (hs @ [h]) r'
      | Inl e \<Rightarrow> e = ErrCountOverflow \<and> length hs = 2 ^ 64 - 1) \<and>
    (h \<in> set hs \<longrightarrow> (\<exists>r'. AccRemove h r = Inr r' \<and> holds (remove1 h hs) r')) \<and>
    (mset gs = mset hs \<longrightarrow> holds gs r) \<and>
    holds [] NewRoomAccumulator \<and> AccRemove h NewRoomAccumulator = Inl ErrCountUnderflow"
proof -
  have "holds gs r" if m: "mset gs = mset hs"
  proof -
    have "list_all (\<lambda>h. length (H128 h) = 16) gs" "length gs = length hs"
      using assms(1) m by (auto simp: holds_def list_all_iff dest: mset_eq_setD mset_eq_length)
    moreover have "digest.absorb (map H128 gs) (replicate 16 0) = digest.absorb (map H128 hs) (replicate 16 0)"
      using m by (intro digest.absorb_mset) simp_all
    ultimately show ?thesis using assms(1) by (simp add: holds_def foldl_digest)
  qed
  then show ?thesis
    using holds_AccInsert [OF assms] holds_AccRemove [OF assms(1)]
    by (simp add: holds_def NewRoomAccumulator_def AccRemove_def)
qed

definition sample_element :: "byte \<Rightarrow> element_hash" where
  "sample_element b = \<lparr>H128 = replicate 16 b, H64 = 1\<rparr>"

theorem accumulator_invariant_witness:
  "\<exists>r r'. AccInsert (sample_element 3) NewRoomAccumulator = Inr r \<and> holds [sample_element 3] r \<and>
     AccRemove (sample_element 3) r = Inr r' \<and> holds [] r'"
proof -
  have z: "holds [] NewRoomAccumulator" by (simp add: holds_def NewRoomAccumulator_def)
  obtain r where r: "AccInsert (sample_element 3) NewRoomAccumulator = Inr r"
    by (simp add: AccInsert_def NewRoomAccumulator_def)
  then have h: "holds [sample_element 3] r"
    using accumulator_invariant [OF z, of "sample_element 3" "[]"] by (simp add: sample_element_def)
  show ?thesis
    using accumulator_invariant [OF h, of "sample_element 3" "[]"] r h by (auto simp: sample_element_def)
qed

text \<open>Event IDs and element hashes. The canonical identifier of a 32-byte digest, in the two formats
  that carry it, maps back to the digest; identifiers without the sigil and unknown formats are
  rejected; and the short identifier derived from any digest is not zero, so toggling it never fails.\<close>

theorem event_digest_roundtrip:
  assumes "length d = 32"
  shows "MatrixEventDigest32 sha256 (str ''$'' @ b64url_encode d) V4Plus = Inr d \<and>
    MatrixEventDigest32 sha256 (str ''$'' @ b64std_encode d) V3 = Inr d \<and>
    (hd i \<noteq> 36 \<or> i = [] \<longrightarrow> MatrixEventDigest32 sha256 i format = Inl ErrInvalidEventID) \<and>
    H64 (FromDigest32 d) \<noteq> 0 \<and> length (H128 (FromDigest32 d)) = 16 \<and>
    is_ok (Toggle (H64 (FromDigest32 d)) s)"
proof -
  have n: "H64 (FromDigest32 d) \<noteq> 0" by (simp add: FromDigest32_def first_chunk_nonzero)
  have l: "b64_encoded_len 32 = 43" by (simp add: b64_encoded_len_def)
  have "MatrixEventDigest32 sha256 (str ''$'' @ b64url_encode d) V4Plus = Inr d"
    using assms l b64url.decode_encode [of d]
    by (simp add: MatrixEventDigest32_def trimSigil_def eventHashEncodedLen_def check_digest_def b64url_encode_def)
  moreover have "MatrixEventDigest32 sha256 (str ''$'' @ b64std_encode d) V3 = Inr d"
    using assms l b64std.decode_encode [of d]
    by (simp add: MatrixEventDigest32_def trimSigil_def eventHashEncodedLen_def check_digest_def b64std_encode_def)
  ultimately show ?thesis
    using n assms by (auto simp: MatrixEventDigest32_def trimSigil_def length_FromDigest32 Toggle_def split: list.splits)
qed

theorem event_digest_roundtrip_witness:
  "MatrixEventDigest32 (\<lambda>_. []) (str ''$'' @ b64url_encode (replicate 32 7)) V4Plus = Inr (replicate 32 7)"
  using event_digest_roundtrip [of "replicate 32 7" "\<lambda>_. []" "[]" V3 "\<lparr>Coordinates = []\<rparr>"] by simp

lemma b64_undigits_zeros:
  "b64_undigits ds = Inr bs \<Longrightarrow> b64_undigits (replicate (4 * n) 0 @ ds) = Inr (replicate (3 * n) 0 @ bs)"
proof (induction n)
  case (Suc n)
  have "replicate (4 * Suc n) 0 = 0 # 0 # 0 # 0 # replicate (4 * n) (0 :: nat)"
    "replicate (3 * Suc n) 0 = 0 # 0 # 0 # replicate (3 * n) (0 :: byte)"
    by (simp_all add: eval_nat_numeral)
  then show ?case using Suc by (simp only: append_Cons b64_undigits.simps Let_def) simp
qed simp

lemma b64url_decode_zeros:
  assumes "index_of c url_alphabet = Some d" and "d < 4"
  shows "b64url_decode (replicate 42 65 @ [c]) = Inr (replicate 32 0)"
proof -
  have a: "index_of 65 url_alphabet = Some 0" by (simp add: url_alphabet_def alphabet_head_def)
  have "c \<noteq> 10 \<and> c \<noteq> 13" using assms(1) url_alphabet_ok(3,4) index_of_SomeD [OF assms(1)] by (metis nth_mem)
  then have "filter (\<lambda>c. c \<noteq> 10 \<and> c \<noteq> 13) (replicate 42 65 @ [c]) = replicate 42 65 @ [c]"
    by (simp only: filter_append filter_replicate filter.simps) simp
  moreover have "map (\<lambda>c. index_of c url_alphabet) (replicate 42 65 @ [c]) = map Some (replicate 42 0 @ [d])"
    using a assms(1) by simp
  moreover have "b64_undigits (replicate 42 0 @ [d]) = Inr (replicate 32 0)"
  proof -
    have "b64_undigits [0, 0, d] = Inr [0, 0]" using assms(2) by simp
    moreover have "replicate 42 0 @ [d] = replicate (4 * 10) 0 @ [0, 0, d]"
      "replicate 32 0 = replicate (3 * 10) 0 @ [0, 0 :: byte]"
      by (simp_all only: replicate_app_Cons_same append_Cons append_Nil flip: replicate_add)
         (simp_all add: numeral_eq_Suc)
    ultimately show ?thesis by (simp only: b64_undigits_zeros)
  qed
  ultimately show ?thesis
    by (simp only: b64url_decode_def b64_decode_def those_map_Some option.case)
qed

text \<open>Identifiers are not unique. Go's decoder ignores the unused low bits of the last character,
  so different identifiers of room version 4 have the same digest, hence the same
  element hash in a sketch.\<close>

theorem event_digest_malleable:
  "\<exists>i j. i \<noteq> j \<and> MatrixEventDigest32 sha256 i V4Plus = Inr (replicate 32 0) \<and>
     MatrixEventDigest32 sha256 j V4Plus = Inr (replicate 32 0)"
proof -
  have m: "MatrixEventDigest32 sha256 (36 # replicate 42 65 @ [c]) V4Plus = Inr (replicate 32 0)"
    if "index_of c url_alphabet = Some d" "d < 4" for c d
    by (simp add: MatrixEventDigest32_def trimSigil_def eventHashEncodedLen_def check_digest_def
        b64url_decode_zeros [OF that])
  have "index_of 65 url_alphabet = Some 0" "index_of 66 url_alphabet = Some 1"
    by (simp_all add: url_alphabet_def alphabet_head_def)
  then have "MatrixEventDigest32 sha256 (36 # replicate 42 65 @ [65]) V4Plus = Inr (replicate 32 0)"
    "MatrixEventDigest32 sha256 (36 # replicate 42 65 @ [66]) V4Plus = Inr (replicate 32 0)"
    by (auto intro: m)
  moreover have "36 # replicate n 65 @ [65] \<noteq> 36 # replicate n 65 @ [66 :: byte]" for n by simp
  ultimately show ?thesis by blast
qed

end
