(* ===== verification/Resident.thy ===== *)
theory Resident
  imports Sketch
begin

text \<open>
  Package \<open>reconcile\<close>, \<open>reconcile/resident.go\<close>: the state a server keeps for a population of events, the
  room accumulator and 32 estimator strata. Stratum \<open>i\<close> is a sketch of the elements whose short
  identifier has \<open>i\<close> trailing zero bits, the last one of those with 31 or more.
\<close>

section \<open>State and operations\<close>

definition StrataCount :: nat where "StrataCount = 32"
definition StratumCapacity :: nat where "StratumCapacity = 8"

record resident_kernel =
  accumulator_of :: room_accumulator
  strata :: "u64 list list"

definition NewResidentKernel :: resident_kernel where
  "NewResidentKernel =
     \<lparr>accumulator_of = NewRoomAccumulator, strata = replicate StrataCount (replicate StratumCapacity 0)\<rparr>"

definition Accumulator :: "resident_kernel \<Rightarrow> room_accumulator" where
  "Accumulator r = accumulator_of r"

definition Strata :: "resident_kernel \<Rightarrow> u64 list list" where
  "Strata r = strata r"

definition stratum_index :: "u64 \<Rightarrow> nat" where
  "stratum_index value = (let index = TrailingZeros64 value in if index \<ge> StrataCount then StrataCount - 1 else index)"

definition toggleStratum :: "u64 \<Rightarrow> u64 list list \<Rightarrow> u64 list list" where
  "toggleStratum value ss =
     ss[stratum_index value := toggle_coords value (ss ! stratum_index value)]"

definition ResidentInsert :: "element_hash \<Rightarrow> resident_kernel \<Rightarrow> resident_kernel result" where
  "ResidentInsert hash r =
     (if H64 hash = 0 then Inl ErrZeroShortIdentifier
      else case AccInsert hash (accumulator_of r) of
             Inl e \<Rightarrow> Inl e
           | Inr acc \<Rightarrow> Inr \<lparr>accumulator_of = acc, strata = toggleStratum (H64 hash) (strata r)\<rparr>)"

definition ResidentRemove :: "element_hash \<Rightarrow> resident_kernel \<Rightarrow> resident_kernel result" where
  "ResidentRemove hash r =
     (if H64 hash = 0 then Inl ErrZeroShortIdentifier
      else case AccRemove hash (accumulator_of r) of
             Inl e \<Rightarrow> Inl e
           | Inr acc \<Rightarrow> Inr \<lparr>accumulator_of = acc, strata = toggleStratum (H64 hash) (strata r)\<rparr>)"

section \<open>The strata are sketches\<close>

lemma in_odd_set: "x \<in> odd_set xs \<longleftrightarrow> odd (count_list xs x)"
  by (induction xs) (auto simp: in_symdiff)

lemma count_list_remove1: "x \<in> set xs \<Longrightarrow> count_list xs y = count_list (remove1 x xs) y + (if x = y then 1 else 0)"
  by (induction xs) auto

lemma odd_set_append: "odd_set (xs @ ys) = symdiff (odd_set xs) (odd_set ys)"
  by (induction xs) (simp_all add: symdiff_assoc)

lemma odd_set_remove1: "x \<in> set xs \<Longrightarrow> odd_set (remove1 x xs) = symdiff (odd_set xs) {x}"
  using count_list_remove1 [of x xs] by (auto simp: in_odd_set in_symdiff count_list_0_iff)

lemma stratum_index_less: "stratum_index v < StrataCount"
  by (auto simp: stratum_index_def Let_def StrataCount_def)

text \<open>The sketch of stratum \<open>i\<close> of a list of short identifiers.\<close>

definition stratum_of :: "u64 list \<Rightarrow> nat \<Rightarrow> u64 list" where
  "stratum_of vs i = sketch_of StratumCapacity (odd_set (filter (\<lambda>v. stratum_index v = i) vs))"

definition strata_of :: "u64 list \<Rightarrow> u64 list list" where
  "strata_of vs = map (stratum_of vs) [0..<StrataCount]"

lemma toggle_strata:
  assumes "\<And>i. i < StrataCount \<Longrightarrow> stratum_of ws i =
    (if i = stratum_index v then toggle_coords v (stratum_of vs i) else stratum_of vs i)"
  shows "toggleStratum v (strata_of vs) = strata_of ws"
  using stratum_index_less [of v] assms
  by (auto simp: toggleStratum_def strata_of_def intro!: nth_equalityI)

lemma strata_insert: "toggleStratum v (strata_of vs) = strata_of (vs @ [v])"
  by (rule toggle_strata) (simp add: stratum_of_def odd_set_append toggle_sketch_of)

lemma filter_remove1_if: "filter P (remove1 x xs) = (if P x then remove1 x (filter P xs) else filter P xs)"
  by (induction xs) auto

lemma strata_remove:
  assumes "v \<in> set vs"
  shows "toggleStratum v (strata_of vs) = strata_of (remove1 v vs)"
  using assms
  by (intro toggle_strata) (simp add: stratum_of_def filter_remove1_if odd_set_remove1 toggle_sketch_of)

lemma strata_mset: "mset vs = mset ws \<Longrightarrow> strata_of vs = strata_of ws"
proof -
  assume m: "mset vs = mset ws"
  have "odd_set (filter P vs) = odd_set (filter P ws)" for P
  proof (intro set_eqI)
    fix x
    have "mset (filter P vs) = mset (filter P ws)" using m by simp
    then show "x \<in> odd_set (filter P vs) \<longleftrightarrow> x \<in> odd_set (filter P ws)"
      by (metis in_odd_set count_mset)
  qed
  then show ?thesis by (simp add: strata_of_def stratum_of_def)
qed

section \<open>Populations\<close>

text \<open>The kernels a server reaches: it inserts elements and removes elements that it holds.\<close>

inductive population :: "element_hash list \<Rightarrow> resident_kernel \<Rightarrow> bool" where
  empty: "population [] NewResidentKernel"
| insert: "population hs r \<Longrightarrow> length (H128 h) = 16 \<Longrightarrow> ResidentInsert h r = Inr r' \<Longrightarrow> population (hs @ [h]) r'"
| remove: "population hs r \<Longrightarrow> h \<in> set hs \<Longrightarrow> ResidentRemove h r = Inr r' \<Longrightarrow> population (remove1 h hs) r'"

inductive_cases population_NilE: "population [] r"

definition resident_ok :: "element_hash list \<Rightarrow> resident_kernel \<Rightarrow> bool" where
  "resident_ok hs r \<longleftrightarrow> holds hs (accumulator_of r) \<and> strata r = strata_of (map H64 hs) \<and> (\<forall>h\<in>set hs. H64 h \<noteq> 0)"

lemma resident_ok_empty: "resident_ok [] NewResidentKernel"
  by (simp add: resident_ok_def NewResidentKernel_def holds_def NewRoomAccumulator_def strata_of_def
      stratum_of_def sketch_of_empty StrataCount_def)
    (simp add: list_eq_iff_nth_eq stratum_of_def sketch_of_empty)

lemma resident_ok_insert:
  assumes "resident_ok hs r" "length (H128 h) = 16" "ResidentInsert h r = Inr r'"
  shows "resident_ok (hs @ [h]) r'"
  using assms holds_AccInsert [of hs "accumulator_of r" h]
  by (auto simp: resident_ok_def ResidentInsert_def strata_insert split: if_splits sum.splits)

lemma map_remove1_mset: "x \<in> set xs \<Longrightarrow> mset (map f (remove1 x xs)) = mset (remove1 (f x) (map f xs))"
  by (simp add: image_mset_Diff)

lemma resident_ok_remove:
  assumes "resident_ok hs r" "h \<in> set hs" "ResidentRemove h r = Inr r'"
  shows "resident_ok (remove1 h hs) r'"
proof -
  have "strata_of (remove1 (H64 h) (map H64 hs)) = strata_of (map H64 (remove1 h hs))"
    using map_remove1_mset [OF assms(2), of H64] by (intro strata_mset) simp
  moreover have "set (remove1 h hs) \<subseteq> set hs" by (rule set_remove1_subset)
  ultimately show ?thesis
    using assms holds_AccRemove [of hs "accumulator_of r" h]
    by (auto simp: resident_ok_def ResidentRemove_def strata_remove split: if_splits sum.splits)
qed

lemma population_ok: "population hs r \<Longrightarrow> resident_ok hs r"
  by (induction rule: population.induct)
    (auto intro: resident_ok_empty resident_ok_insert resident_ok_remove)

section \<open>Properties\<close>

text \<open>C37: the resident state of a population is exact. Every kernel that inserting elements and removing
  held ones can reach keeps the digest and the count of its elements, and each of its 32 strata is the
  sketch of the elements it is responsible for; inserting an element with a non-zero short identifier
  fails only at 2^64 - 1 elements; removing a held element never fails; and the history does not
  matter: populations with the same elements have the same kernel.\<close>

theorem population_invariant:
  assumes "population hs r" and "length (H128 h) = 16" and "H64 h \<noteq> 0"
  shows "holds hs (Accumulator r) \<and>
    length (Strata r) = 32 \<and>
    (\<forall>i<32. Strata r ! i = sketch_of 8 (odd_set (filter (\<lambda>v. stratum_index v = i) (map H64 hs)))) \<and>
    (ResidentInsert h r = Inl ErrCountOverflow \<and> length hs = 2 ^ 64 - 1 \<or> is_ok (ResidentInsert h r)) \<and>
    (h \<in> set hs \<longrightarrow> is_ok (ResidentRemove h r)) \<and>
    (population gs r' \<and> mset gs = mset hs \<longrightarrow> r' = r)"
proof -
  have ok: "resident_ok hs r" using assms(1) by (rule population_ok)
  then have hd: "holds hs (accumulator_of r)" and st: "strata r = strata_of (map H64 hs)" by (auto simp: resident_ok_def)
  have "r' = r" if g: "population gs r'" and m: "mset gs = mset hs"
  proof -
    have ok': "resident_ok gs r'" using g by (rule population_ok)
    have "mset (map H64 gs) = mset (map H64 hs)" using m by simp
    then have "strata r' = strata r" using ok' st strata_mset by (simp add: resident_ok_def)
    moreover have "accumulator_of r' = accumulator_of r"
      using ok' hd m by (intro holds_unique [of gs _ hs]) (auto simp: resident_ok_def)
    ultimately show ?thesis by (cases r, cases r') simp
  qed
  moreover have "ResidentInsert h r = Inl ErrCountOverflow \<and> length hs = 2 ^ 64 - 1 \<or> is_ok (ResidentInsert h r)"
    using holds_AccInsert [OF hd assms(2)] assms(3)
    by (auto simp: ResidentInsert_def is_ok_def split: sum.splits)
  moreover have "is_ok (ResidentRemove h r)" if "h \<in> set hs"
    using holds_AccRemove [OF hd that] assms(3) by (auto simp: ResidentRemove_def)
  ultimately show ?thesis
    using hd st by (simp add: Accumulator_def Strata_def strata_of_def stratum_of_def StrataCount_def StratumCapacity_def)
qed

theorem population_invariant_witness:
  "\<exists>r. ResidentInsert \<lparr>H128 = replicate 16 3, H64 = 8\<rparr> NewResidentKernel = Inr r \<and>
     Strata r ! 3 = sketch_of 8 {8}"
proof -
  let ?h = "\<lparr>H128 = replicate 16 3, H64 = 8\<rparr>"
  obtain r where r: "ResidentInsert ?h NewResidentKernel = Inr r"
    by (simp add: ResidentInsert_def AccInsert_def NewResidentKernel_def NewRoomAccumulator_def)
  have "population ([] @ [?h]) r" by (rule population.insert [OF population.empty _ r]) simp
  then have p: "population [?h] r" by simp
  have "stratum_index 8 = 3"
    by (simp add: stratum_index_def TrailingZeros64_def StrataCount_def upt_conv_Cons)
  then have "Strata r ! 3 = sketch_of 8 {8}"
    using population_invariant [OF p, of ?h "[]" r] by simp
  with r show ?thesis by blast
qed

end
