(* ===== verification/PinSketch.thy ===== *)
theory PinSketch
  imports Sketch
begin

text \<open>
  Package \<open>reconcile\<close>, \<open>reconcile/pinsketch.go\<close> and the decoding part of \<open>reconcile/algebraic.go\<close>: from the
  coordinates of a sketch to the elements. The syndromes are completed, Berlekamp-Massey finds the locator
  polynomial, whose roots are split off by traces under a budget of field operations.

  A polynomial is the list of its coefficients, the constant first, and the functions that change one
  in place return the new list. A function that returns a value and a success flag is a \<open>result\<close>: the flag
  \<open>false\<close> is \<open>ErrDecodeFailure\<close>, which is what every caller makes of it; an index out of range would be
  \<open>RuntimePanic\<close>. The budget is a Go \<open>int\<close> behind a pointer: it is passed in and returned.
\<close>

type_synonym polynomial = "u64 list"

definition maxInt :: int where "maxInt = 2 ^ 63 - 1"
definition mixedFactorTrials :: nat where "mixedFactorTrials = 8"
definition factorTrials :: nat where "factorTrials = mixedFactorTrials + 64"
definition factorParameterSeed :: u64 where "factorParameterSeed = 0x9e3779b97f4a7c15"
definition traceSquares :: nat where "traceSquares = 63"
definition maxFactorWork :: int where "maxFactorWork = 8000000"

section \<open>Syndromes and the locator\<close>

fun reconstruct_loop :: "u64 list \<Rightarrow> u64 list \<Rightarrow> nat \<Rightarrow> u64 list" where
  "reconstruct_loop [] all index = all"
| "reconstruct_loop (value # values) all index =
     (let all1 = all[index * 2 := value]
      in reconstruct_loop values (all1[index * 2 + 1 := Mul (all1 ! index) (all1 ! index)]) (index + 1))"

definition reconstructSyndromes :: "u64 list \<Rightarrow> u64 list" where
  "reconstructSyndromes ods = reconstruct_loop ods (replicate (length ods * 2) 0) 0"

text \<open>\<open>poly[offset + i] ^= Mul(scale, cs[i])\<close> for every index of \<open>cs\<close>.\<close>

fun add_scaled :: "polynomial \<Rightarrow> int \<Rightarrow> u64 \<Rightarrow> u64 list \<Rightarrow> polynomial result" where
  "add_scaled poly offset scale [] = Inr poly"
| "add_scaled poly offset scale (c # cs) =
     (if offset < 0 \<or> int (length poly) \<le> offset then Inl RuntimePanic
      else add_scaled (poly[nat offset := poly ! nat offset XOR Mul scale c]) (offset + 1) scale cs)"

definition bm_discrepancy :: "u64 list \<Rightarrow> polynomial \<Rightarrow> nat \<Rightarrow> u64" where
  "bm_discrepancy syndromes current n =
     foldl (\<lambda>d i. if i = 0 \<or> n < i then d else d XOR Mul (syndromes ! (n - i)) (current ! i))
       (syndromes ! n) [0..<length current]"

record bm_state =
  current :: polynomial
  previous :: polynomial
  previousDiscrepancy :: u64

definition bm_step :: "u64 list \<Rightarrow> int \<Rightarrow> nat \<Rightarrow> bm_state \<Rightarrow> bm_state result" where
  "bm_step syndromes maxDegree n s =
     (let discrepancy = bm_discrepancy syndromes (current s) n
      in if discrepancy = 0 then Inr s
         else
           let currentDegree = int (length (current s)) - 1;
               previousDegree = int (length (previous s)) - 1;
               shift = int n + 1 - currentDegree - previousDegree;
               swap = (currentDegree * 2 \<le> int n);
               newLen = int (length (previous s)) + shift
           in if swap \<and> newLen - 1 > maxDegree then Inl ErrDecodeFailure
              else
                let cur = (if swap \<and> newLen > int (length (current s))
                           then current s @ replicate (nat newLen - length (current s)) 0 else current s)
                in case gf64Inv (previousDiscrepancy s) of
                     None \<Rightarrow> Inl ErrDecodeFailure
                   | Some recip \<Rightarrow>
                       (case add_scaled cur shift (Mul discrepancy recip) (previous s) of
                          Inl e \<Rightarrow> Inl e
                        | Inr cur' \<Rightarrow>
                            Inr (if swap
                                 then \<lparr>current = cur', previous = current s, previousDiscrepancy = discrepancy\<rparr>
                                 else s\<lparr>current := cur'\<rparr>)))"

fun bm_loop :: "u64 list \<Rightarrow> int \<Rightarrow> nat list \<Rightarrow> bm_state \<Rightarrow> bm_state result" where
  "bm_loop syndromes maxDegree [] s = Inr s"
| "bm_loop syndromes maxDegree (n # ns) s =
     (case bm_step syndromes maxDegree n s of
        Inl e \<Rightarrow> Inl e
      | Inr s' \<Rightarrow> bm_loop syndromes maxDegree ns s')"

definition berlekampMassey :: "u64 list \<Rightarrow> int \<Rightarrow> polynomial result" where
  "berlekampMassey syndromes maxDegree =
     (case bm_loop syndromes maxDegree [0..<length syndromes]
             \<lparr>current = [1], previous = [1], previousDiscrepancy = 1\<rparr> of
        Inl e \<Rightarrow> Inl e
      | Inr s \<Rightarrow>
          if current s = [] \<or> last (current s) = 0 then Inl ErrDecodeFailure else Inr (current s))"

section \<open>Polynomials\<close>

text \<open>The loop drops zero coefficients from the end.\<close>

definition trim :: "polynomial \<Rightarrow> polynomial" where
  "trim poly = rev (dropWhile (\<lambda>c. c = 0) (rev poly))"

definition makeMonic :: "polynomial \<Rightarrow> polynomial result" where
  "makeMonic poly =
     (if poly = [] then Inl ErrDecodeFailure
      else
        let leading = last poly
        in if leading = 1 then Inr poly
           else case gf64Inv leading of
                  None \<Rightarrow> Inl ErrDecodeFailure
                | Some recip \<Rightarrow> Inr (map (\<lambda>c. Mul c recip) poly))"

text \<open>The loop runs while \<open>value\<close> is at least as long as the modulus; each round shortens it by one.\<close>

lemma add_scaled_length: "add_scaled p o' s cs = Inr q \<Longrightarrow> length q = length p"
  by (induction p o' s cs rule: add_scaled.induct) (auto split: if_splits)

function polyMod_loop :: "polynomial \<Rightarrow> polynomial \<Rightarrow> polynomial result" where
  "polyMod_loop modulus value =
     (if length value < length modulus \<or> value = [] then Inr value
      else
        let term = last value; rest = butlast value
        in if term = 0 then polyMod_loop modulus rest
           else
             let offset = int (length rest) - (int (length modulus) - 1)
             in if offset < 0 then Inl ErrDecodeFailure
                else case add_scaled rest offset term (butlast modulus) of
                       Inl e \<Rightarrow> Inl e
                     | Inr rest' \<Rightarrow> polyMod_loop modulus rest')"
  by pat_completeness auto
termination
  by (relation "measure (\<lambda>(modulus, value). length value)") (auto dest: add_scaled_length)

declare polyMod_loop.simps [simp del]

definition polyMod :: "polynomial \<Rightarrow> polynomial \<Rightarrow> polynomial result" where
  "polyMod modulus value =
     (if modulus = [] \<or> last modulus \<noteq> 1 then Inl ErrDecodeFailure
      else case polyMod_loop modulus value of Inl e \<Rightarrow> Inl e | Inr v \<Rightarrow> Inr (trim v))"

function polyDiv_loop :: "polynomial \<Rightarrow> polynomial \<Rightarrow> polynomial \<Rightarrow> polynomial result" where
  "polyDiv_loop divisor dividend quot =
     (if length dividend < length divisor \<or> dividend = [] then Inr quot
      else
        let term = last dividend; rest = butlast dividend;
            position = int (length rest) - (int (length divisor) - 1)
        in if position < 0 then Inl ErrDecodeFailure
           else if int (length quot) \<le> position then Inl RuntimePanic
           else
             let quot' = quot[nat position := term]
             in if term = 0 then polyDiv_loop divisor rest quot'
                else case add_scaled rest position term (butlast divisor) of
                       Inl e \<Rightarrow> Inl e
                     | Inr rest' \<Rightarrow> polyDiv_loop divisor rest' quot')"
  by pat_completeness auto
termination
  by (relation "measure (\<lambda>(divisor, dividend, quot). length dividend)") (auto dest: add_scaled_length)

declare polyDiv_loop.simps [simp del]

definition polyDiv :: "polynomial \<Rightarrow> polynomial \<Rightarrow> polynomial result" where
  "polyDiv dividend divisor =
     (if divisor = [] \<or> last divisor \<noteq> 1 \<or> length dividend < length divisor then Inl ErrDecodeFailure
      else case polyDiv_loop divisor dividend (replicate (length dividend - length divisor + 1) 0) of
             Inl e \<Rightarrow> Inl e | Inr q \<Rightarrow> Inr (trim q))"

lemma length_trim: "length (trim p) \<le> length p"
  by (simp add: trim_def length_dropWhile_le [THEN order_trans])

lemma polyMod_loop_length:
  "modulus \<noteq> [] \<Longrightarrow> polyMod_loop modulus value = Inr v \<Longrightarrow> length v < length modulus \<and> length v \<le> length value"
proof (induction modulus "value" rule: polyMod_loop.induct)
  case (1 modulus v0)
  show ?case
  proof (cases "length v0 < length modulus \<or> v0 = []")
    case True
    then show ?thesis using "1.prems" by (auto simp: polyMod_loop.simps [of modulus v0])
  next
    case False
    then show ?thesis using 1
      by (subst (asm) polyMod_loop.simps [of modulus v0])
        (fastforce simp: Let_def dest: add_scaled_length split: if_splits sum.splits)
  qed
qed

lemma polyMod_length:
  "polyMod modulus value = Inr v \<Longrightarrow> length v < length modulus \<and> length v \<le> length value"
  using polyMod_loop_length [of modulus "value"]
  by (auto simp: polyMod_def intro: le_less_trans [OF length_trim] order_trans [OF length_trim]
      split: if_splits sum.splits)

lemma makeMonic_length: "makeMonic p = Inr q \<Longrightarrow> length q = length p \<and> p \<noteq> []"
  by (auto simp: makeMonic_def Let_def split: if_splits option.splits)

text \<open>The Euclidean loop: the second argument gets shorter.\<close>

function polyGCD_loop :: "polynomial \<Rightarrow> polynomial \<Rightarrow> polynomial result" where
  "polyGCD_loop left right =
     (if right = [] then makeMonic left
      else case makeMonic right of
             Inl e \<Rightarrow> Inl e
           | Inr right' \<Rightarrow>
               (case polyMod right' left of
                  Inl e \<Rightarrow> Inl e
                | Inr left' \<Rightarrow> polyGCD_loop right' left'))"
  by pat_completeness auto
termination
  by (relation "measure (\<lambda>(left, right). length right)") (auto dest!: makeMonic_length polyMod_length)

declare polyGCD_loop.simps [simp del]

definition polyGCD :: "polynomial \<Rightarrow> polynomial \<Rightarrow> polynomial result" where
  "polyGCD left right = (if length left < length right then polyGCD_loop right left else polyGCD_loop left right)"

text \<open>The coefficients of the square, zeros in between.\<close>

definition polySquare :: "polynomial \<Rightarrow> polynomial" where
  "polySquare poly =
     (if poly = [] then []
      else foldl (\<lambda>p i. p[i * 2 := Mul (poly ! i) (poly ! i)]) (replicate (length poly * 2 - 1) 0) [0..<length poly])"

primrec trace_loop :: "nat \<Rightarrow> polynomial \<Rightarrow> u64 \<Rightarrow> polynomial \<Rightarrow> polynomial result" where
  "trace_loop 0 modulus parameter trace = Inr trace"
| "trace_loop (Suc i) modulus parameter trace =
     (let sq = polySquare trace;
          sq2 = (if length sq < 2 then sq @ replicate (2 - length sq) 0 else sq)
      in case polyMod modulus (sq2[1 := parameter]) of
           Inl e \<Rightarrow> Inl e
         | Inr trace' \<Rightarrow> trace_loop i modulus parameter trace')"

definition traceMod :: "polynomial \<Rightarrow> u64 \<Rightarrow> polynomial result" where
  "traceMod modulus parameter = trace_loop traceSquares modulus parameter [0, parameter]"

section \<open>Quadratic equations\<close>

record row =
  coefficients :: u64
  rhs :: bool

definition quadratic_image :: "nat \<Rightarrow> u64" where
  "quadratic_image column = (let basis = push_bit column 1 in Mul basis basis XOR basis)"

definition quadratic_rows :: "u64 \<Rightarrow> row list" where
  "quadratic_rows target = map (\<lambda>r.
     \<lparr>coefficients = foldl (\<lambda>c column. if quadratic_image column AND push_bit r 1 \<noteq> 0
                                       then c OR push_bit column 1 else c) 0 [0..<64],
      rhs = (target AND push_bit r 1 \<noteq> 0)\<rparr>) [0..<64]"

definition xor_row :: "row \<Rightarrow> row \<Rightarrow> row" where
  "xor_row r p = \<lparr>coefficients = coefficients r XOR coefficients p, rhs = (rhs r \<noteq> rhs p)\<rparr>"

definition eliminate :: "nat \<Rightarrow> row list \<times> nat \<Rightarrow> row list \<times> nat" where
  "eliminate column s =
     (let (rows, rank) = s
      in case find (\<lambda>r. coefficients (rows ! r) AND push_bit column 1 \<noteq> 0) [rank..<64] of
           None \<Rightarrow> (rows, rank)
         | Some pivot \<Rightarrow>
             let rows1 = rows[rank := rows ! pivot, pivot := rows ! rank];
                 pivotRow = rows1 ! rank
             in (map (\<lambda>r. if r \<noteq> rank \<and> coefficients (rows1 ! r) AND push_bit column 1 \<noteq> 0
                          then xor_row (rows1 ! r) pivotRow else rows1 ! r) [0..<64],
                 rank + 1))"

fun read_solution :: "row list \<Rightarrow> u64 \<Rightarrow> u64 result" where
  "read_solution [] solution = Inr solution"
| "read_solution (row # rows) solution =
     (if coefficients row = 0 then Inl ErrDecodeFailure
      else read_solution rows
             (if rhs row then solution OR push_bit (TrailingZeros64 (coefficients row)) 1 else solution))"

definition solveQuadraticForm :: "u64 \<Rightarrow> u64 result" where
  "solveQuadraticForm target =
     (let (rows, rank) = foldl (\<lambda>s column. eliminate column s) (quadratic_rows target, 0) [0..<64]
      in if list_ex (\<lambda>row. coefficients row = 0 \<and> rhs row) rows then Inl ErrDecodeFailure
         else case read_solution (take rank rows) 0 of
                Inl e \<Rightarrow> Inl e
              | Inr solution \<Rightarrow>
                  if Mul solution solution XOR solution \<noteq> target then Inl ErrDecodeFailure else Inr solution)"

section \<open>Root finding\<close>

definition nextFactorParameter :: "u64 \<Rightarrow> u64" where
  "nextFactorParameter state =
     (let s1 = state XOR push_bit 13 state; s2 = s1 XOR drop_bit 7 s1 in s2 XOR push_bit 17 s2)"

definition factorTrialCost :: "int \<Rightarrow> int result" where
  "factorTrialCost degree =
     (if degree < 0 then Inl ErrDecodeFailure
      else if degree = 0 then Inr 0
      else if degree > maxInt div degree then Inl ErrDecodeFailure
      else
        let value = degree * degree
        in if value > maxInt div int traceSquares then Inl ErrDecodeFailure else Inr (value * int traceSquares))"

text \<open>The trials for one polynomial: the factor and its cofactor, or no split after the last trial. The
  parameter of the first eight trials is a pseudo-random word, then the basis of the field.\<close>

fun factor_trials :: "nat list \<Rightarrow> polynomial \<Rightarrow> u64 \<Rightarrow> int \<Rightarrow> (polynomial \<times> polynomial) result \<times> int" where
  "factor_trials [] poly parameter work = (Inl ErrDecodeFailure, work)"
| "factor_trials (trial # trials) poly parameter work =
     (let parameter1 = (if trial \<ge> mixedFactorTrials then push_bit (trial - mixedFactorTrials) 1 else parameter)
      in case factorTrialCost (int (length poly) - 1) of
           Inl e \<Rightarrow> (Inl e, work)
         | Inr cost \<Rightarrow>
             let work1 = work - cost
             in if work1 < 0 then (Inl ErrBudgetExhausted, work1)
                else
                  case traceMod poly parameter1 of
                    Inl e \<Rightarrow> (Inl e, work1)
                  | Inr trace \<Rightarrow>
                      (case polyGCD poly trace of
                         Inl e \<Rightarrow> (Inl e, work1)
                       | Inr factor \<Rightarrow>
                           if length factor > 1 \<and> length factor < length poly
                           then (case polyDiv poly factor of
                                   Inl e \<Rightarrow> (Inl e, work1)
                                 | Inr quot \<Rightarrow> (Inr (quot, factor), work1))
                           else factor_trials trials poly
                                  (if trial < mixedFactorTrials then nextFactorParameter parameter1 else parameter1)
                                  work1))"

text \<open>The two roots of a polynomial of degree two.\<close>

definition quadratic_roots :: "polynomial \<Rightarrow> u64 list result" where
  "quadratic_roots poly =
     (let linear = poly ! 1
      in if linear = 0 then Inl ErrDecodeFailure
         else case gf64Inv linear of
                None \<Rightarrow> Inl ErrDecodeFailure
              | Some recip \<Rightarrow>
                  (case solveQuadraticForm (Mul (poly ! 0) (Mul recip recip)) of
                     Inl e \<Rightarrow> Inl e
                   | Inr quadratic \<Rightarrow> let root = Mul quadratic linear in Inr [root, root XOR linear]))"

lemma polyDiv_loop_length: "polyDiv_loop divisor dividend q0 = Inr q \<Longrightarrow> length q = length q0"
proof (induction divisor dividend q0 rule: polyDiv_loop.induct)
  case (1 divisor dividend quot)
  show ?case
  proof (cases "length dividend < length divisor \<or> dividend = []")
    case True
    then show ?thesis using "1.prems" by (auto simp: polyDiv_loop.simps [of divisor dividend quot])
  next
    case False
    then show ?thesis using 1
      by (subst (asm) polyDiv_loop.simps [of divisor dividend quot])
        (fastforce simp: Let_def split: if_splits sum.splits)
  qed
qed

lemma polyDiv_length: "polyDiv p d = Inr q \<Longrightarrow> length q \<le> length p - length d + 1"
  using length_trim by (auto simp: polyDiv_def split: if_splits sum.splits dest!: polyDiv_loop_length) (metis Suc_eq_plus1)

lemma factor_trials_length:
  "factor_trials ts p par w = (Inr (q, f), w') \<Longrightarrow> 1 < length f \<and> length f < length p \<and> length q \<le> length p - length f + 1"
  by (induction ts p par w rule: factor_trials.induct)
    (auto simp: Let_def dest: polyDiv_length split: if_splits sum.splits)

text \<open>
  The stack of polynomials that are not split yet, its top first. Splitting a polynomial of length \<open>l\<close>
  leaves two whose lengths add up to at most \<open>l + 1\<close>, so the loop terminates.
\<close>

definition pending_weight :: "polynomial list \<Rightarrow> nat" where
  "pending_weight pending = sum_list (map (\<lambda>p. max 1 (2 * length p - 3)) pending)"

function findRootsWithBudget :: "polynomial list \<Rightarrow> u64 list \<Rightarrow> int \<Rightarrow> u64 list result \<times> int" where
  "findRootsWithBudget [] roots work = (Inr roots, work)"
| "findRootsWithBudget (poly # pending) roots work =
     (if length poly = 0 then (Inl ErrDecodeFailure, work)
      else if length poly = 1 then findRootsWithBudget pending roots work
      else if length poly = 2 then findRootsWithBudget pending (roots @ [poly ! 0]) work
      else if length poly = 3 then
        (case quadratic_roots poly of
           Inl e \<Rightarrow> (Inl e, work)
         | Inr rs \<Rightarrow> findRootsWithBudget pending (roots @ rs) work)
      else
        (case factor_trials [0..<factorTrials] poly factorParameterSeed work of
           (Inl e, work') \<Rightarrow> (Inl e, work')
         | (Inr (quot, factor), work') \<Rightarrow> findRootsWithBudget (factor # quot # pending) roots work'))"
  by pat_completeness auto
termination
proof (relation "measure (\<lambda>(pending, roots, work). pending_weight pending)", goal_cases)
  case (5 poly pending roots work x work' y quot factor)
  then have "1 < length factor \<and> length factor < length poly \<and> length quot \<le> length poly - length factor + 1"
    by (metis factor_trials_length)
  then show ?case by (auto simp: pending_weight_def max_def)
qed (auto simp: pending_weight_def)

definition findRoots :: "polynomial \<Rightarrow> u64 list result" where
  "findRoots poly =
     (case fst (findRootsWithBudget [poly] [] maxFactorWork) of
        Inl e \<Rightarrow> Inl (if e = ErrBudgetExhausted then ErrDecodeFailure else e)
      | Inr roots \<Rightarrow> Inr roots)"

section \<open>Decoding\<close>

text \<open>The budget is the pointer \<open>work\<close>: \<open>None\<close> is nil, and then \<open>findRoots\<close> uses a budget of its own.\<close>

definition decodePinSketch :: "u64 list \<Rightarrow> int \<Rightarrow> int option \<Rightarrow> u64 list result \<times> int option" where
  "decodePinSketch oddSyndromes maxElements work =
     (case berlekampMassey (reconstructSyndromes oddSyndromes) maxElements of
        Inl e \<Rightarrow> (Inl e, work)
      | Inr locator \<Rightarrow>
          if length locator = 1 then (Inr [], work)
          else
            let expected = length locator - 1;
                (found, work') =
                  (case work of
                     None \<Rightarrow> ((case findRoots (rev locator) of
                                Inl e \<Rightarrow> Inl (if e = ErrBudgetExhausted then ErrDecodeFailure else e)
                              | Inr roots \<Rightarrow> Inr roots), None)
                   | Some w \<Rightarrow> (let (r, w') = findRootsWithBudget [rev locator] [] w in (r, Some w')))
            in case found of
                 Inl e \<Rightarrow> (Inl e, work')
               | Inr roots \<Rightarrow>
                   if length roots \<noteq> expected \<or> containsZero roots then (Inl ErrDecodeFailure, work')
                   else (Inr (sort roots), work'))"

fun toggle_all :: "u64 list \<Rightarrow> sketch \<Rightarrow> sketch result" where
  "toggle_all [] s = Inr s"
| "toggle_all (v # vs) s = (case Toggle v s of Inl e \<Rightarrow> Inl e | Inr s' \<Rightarrow> toggle_all vs s')"

definition decodeAndVerifySketch :: "sketch \<Rightarrow> int \<Rightarrow> int option \<Rightarrow> u64 list result \<times> int option" where
  "decodeAndVerifySketch s maxElements work =
     (if int (length (Coordinates s)) < maxElements then (Inl RuntimePanic, work)
      else
        case decodePinSketch (take (nat maxElements) (Coordinates s)) maxElements work of
          (Inl e, work') \<Rightarrow> (Inl e, work')
        | (Inr decoded, work') \<Rightarrow>
            (if containsZero decoded then Inl ErrDecodeFailure
             else case NewSyndromeSketch (Capacity s) of
                    Inl e \<Rightarrow> Inl e
                  | Inr check0 \<Rightarrow>
                      (case toggle_all decoded check0 of
                         Inl e \<Rightarrow> Inl e
                       | Inr check \<Rightarrow> if \<not> equalSketch check s then Inl ErrDecodeFailure else Inr decoded),
             work'))"

definition DecodeElements :: "sketch \<Rightarrow> int \<Rightarrow> u64 list result" where
  "DecodeElements s maxElements =
     (if maxElements \<le> 0 \<or> maxElements > Capacity s \<or> maxElements > MaxLocalSketchDecodeCapacity
      then Inl ErrInvalidSketchCapacity
      else fst (decodeAndVerifySketch s maxElements None))"

section \<open>Indices stay in range\<close>

text \<open>\<open>add_scaled\<close> is the sum of the polynomial and a shifted multiple of the other, when that fits.\<close>

lemma add_scaled_ok:
  assumes "k + length cs \<le> length p"
  shows "\<exists>q. add_scaled p (int k) s cs = Inr q \<and> length q = length p \<and>
    (\<forall>i<length p. Gf (q ! i) = Gf (p ! i) + (if k \<le> i \<and> i < k + length cs then Gf s * Gf (cs ! (i - k)) else 0))"
  using assms
proof (induction cs arbitrary: k p)
  case (Cons c cs)
  let ?p = "p[k := p ! k XOR Mul s c]"
  have "int k + 1 = int (Suc k)" by simp
  then have u: "add_scaled p (int k) s (c # cs) = add_scaled ?p (int (Suc k)) s cs"
    using Cons.prems by (simp only: add_scaled.simps nat_int) simp
  obtain q where q: "add_scaled ?p (int (Suc k)) s cs = Inr q" "length q = length p"
    "\<forall>i<length p. Gf (q ! i) = Gf (?p ! i) + (if Suc k \<le> i \<and> i < Suc k + length cs then Gf s * Gf (cs ! (i - Suc k)) else 0)"
    using Cons.IH [of "Suc k" ?p] Cons.prems by auto
  have "Gf (q ! i) = Gf (p ! i) + (if k \<le> i \<and> i < k + length (c # cs) then Gf s * Gf ((c # cs) ! (i - k)) else 0)"
    if i: "i < length p" for i
  proof (cases "i \<le> k")
    case True
    then show ?thesis using q(3) i by (auto simp: nth_list_update Gf_xor Gf_Mul)
  next
    case False
    then have "i - k = Suc (i - Suc k)" by simp
    then show ?thesis using False q(3) i by (simp add: nth_list_update)
  qed
  then show ?case unfolding u using q(1,2) by blast
qed auto

text \<open>Berlekamp-Massey: the degrees of the two polynomials leave room for the update.\<close>

definition bm_shape :: "int \<Rightarrow> nat \<Rightarrow> bm_state \<Rightarrow> bool" where
  "bm_shape maxDegree n s \<longleftrightarrow> current s \<noteq> [] \<and> previous s \<noteq> [] \<and>
     length (current s) + length (previous s) \<le> n + 2 \<and> int (length (current s)) \<le> maxDegree + 1 \<and>
     previousDiscrepancy s \<noteq> 0"

text \<open>A step with a discrepancy, in natural numbers. The new length is the larger of two.\<close>

lemma bm_step_form:
  assumes "current s \<noteq> []" "previous s \<noteq> []" "length (current s) + length (previous s) \<le> n + 2"
    and "previousDiscrepancy s \<noteq> 0" and d: "bm_discrepancy syndromes (current s) n = d" "d \<noteq> 0"
  defines "shift \<equiv> n + 3 - length (current s) - length (previous s)"
    and "swap \<equiv> (length (current s) - 1) * 2 \<le> n"
  shows "\<exists>q. length q = max (length (current s)) (n + 3 - length (current s)) \<and> 1 \<le> shift \<and>
    shift + length (previous s) \<le> length q \<and>
    (\<forall>i<length q. Gf (q ! i) = (if i < length (current s) then Gf (current s ! i) else 0) +
      (if shift \<le> i \<and> i < shift + length (previous s)
       then Gf d * inverse (Gf (previousDiscrepancy s)) * Gf (previous s ! (i - shift)) else 0)) \<and>
    bm_step syndromes maxDegree n s =
      (if swap \<and> int n + 2 - int (length (current s)) > maxDegree then Inl ErrDecodeFailure
       else Inr (if swap then \<lparr>current = q, previous = current s, previousDiscrepancy = d\<rparr> else s\<lparr>current := q\<rparr>))"
proof -
  have ne: "1 \<le> length (current s)" "1 \<le> length (previous s)" using assms(1,2) by (simp_all add: Suc_le_eq)
  have shift: "int n + 1 - (int (length (current s)) - 1) - (int (length (previous s)) - 1) = int shift"
    using assms(3) by (simp add: shift_def)
  have swap_iff: "((int (length (current s)) - 1) * 2 \<le> int n) = swap"
    using ne by (simp add: swap_def) linarith
  have newLen: "length (previous s) + shift = n + 3 - length (current s)" using assms(3) ne by (simp add: shift_def)
  define v where "v = word_of (inverse (Gf (previousDiscrepancy s)))"
  have v: "gf64Inv (previousDiscrepancy s) = Some v" using assms(4) by (simp add: Gf_gf64Inv v_def)
  define cur where "cur = (if swap \<and> n + 3 - length (current s) > length (current s)
    then current s @ replicate (n + 3 - length (current s) - length (current s)) 0 else current s)"
  have len: "length cur = max (length (current s)) (n + 3 - length (current s))"
    using ne by (auto simp: cur_def swap_def)
  then have fit: "shift + length (previous s) \<le> length cur" using newLen by simp
  have cur: "Gf (cur ! i) = (if i < length (current s) then Gf (current s ! i) else 0)" if "i < length cur" for i
    using that by (auto simp: cur_def nth_append split: if_splits)
  obtain q where q: "add_scaled cur (int shift) (Mul d v) (previous s) = Inr q" "length q = length cur"
    "\<forall>i<length cur. Gf (q ! i) = Gf (cur ! i) + (if shift \<le> i \<and> i < shift + length (previous s)
      then Gf (Mul d v) * Gf (previous s ! (i - shift)) else 0)"
    using add_scaled_ok [OF fit] by blast
  have nl: "int (length (previous s)) + int shift = int n + 3 - int (length (current s))"
    using newLen assms(3) by linarith
  have "bm_step syndromes maxDegree n s =
      (if swap \<and> int n + 2 - int (length (current s)) > maxDegree then Inl ErrDecodeFailure
       else Inr (if swap then \<lparr>current = q, previous = current s, previousDiscrepancy = d\<rparr> else s\<lparr>current := q\<rparr>))"
  proof -
    have c: "(if swap \<and> int n + 3 - int (length (current s)) > int (length (current s))
        then current s @ replicate (nat (int n + 3 - int (length (current s))) - length (current s)) 0 else current s) = cur"
      using assms(3) by (auto simp: cur_def nat_diff_distrib nat_add_distrib)
    show ?thesis
      unfolding bm_step_def Let_def shift swap_iff d(1) nl c v q(1) option.case sum.case
      using d(2) by simp
  qed
  moreover have "1 \<le> shift" using assms(3) by (simp add: shift_def)
  ultimately show ?thesis
    using len q(2,3) fit cur by (intro exI [of _ q]) (simp add: Gf_Mul v_def)
qed

lemma bm_step_shape:
  assumes "bm_shape maxDegree n s"
  shows "case bm_step syndromes maxDegree n s of
      Inl e \<Rightarrow> e = ErrDecodeFailure | Inr s' \<Rightarrow> bm_shape maxDegree (Suc n) s'"
proof (cases "bm_discrepancy syndromes (current s) n = 0")
  case True
  then show ?thesis using assms by (simp add: bm_step_def bm_shape_def)
next
  case False
  note sh = assms [unfolded bm_shape_def]
  from bm_step_form [of s n syndromes, OF _ _ _ _ refl False] sh obtain q where
    q: "length q = max (length (current s)) (n + 3 - length (current s))"
      "bm_step syndromes maxDegree n s =
      (if (length (current s) - 1) * 2 \<le> n \<and> int n + 2 - int (length (current s)) > maxDegree then Inl ErrDecodeFailure
       else Inr (if (length (current s) - 1) * 2 \<le> n
         then \<lparr>current = q, previous = current s, previousDiscrepancy = bm_discrepancy syndromes (current s) n\<rparr>
         else s\<lparr>current := q\<rparr>))" by blast
  have "1 \<le> length (current s)" using sh by (simp add: Suc_le_eq)
  then show ?thesis using sh False q(1) unfolding q(2) by (auto simp: bm_shape_def max_def)
qed

lemma bm_loop_shape:
  "bm_shape maxDegree n s \<Longrightarrow>
   case bm_loop syndromes maxDegree [n..<n + k] s of
     Inl e \<Rightarrow> e = ErrDecodeFailure | Inr s' \<Rightarrow> bm_shape maxDegree (n + k) s'"
proof (induction k arbitrary: n s)
  case (Suc k)
  have u: "[n..<n + Suc k] = n # [Suc n..<Suc n + k]" by (simp add: upt_conv_Cons del: upt_Suc)
  show ?case
    unfolding u bm_loop.simps
  proof (cases "bm_step syndromes maxDegree n s")
    case (Inr s')
    then have "bm_shape maxDegree (Suc n) s'" using bm_step_shape [OF Suc.prems, of syndromes] by simp
    from Suc.IH [OF this] show "case (case bm_step syndromes maxDegree n s of Inl e \<Rightarrow> Inl e
        | Inr s' \<Rightarrow> bm_loop syndromes maxDegree [Suc n..<Suc n + k] s') of
      Inl e \<Rightarrow> e = ErrDecodeFailure | Inr s' \<Rightarrow> bm_shape maxDegree (n + Suc k) s'"
      by (simp only: Inr sum.case add_Suc add_Suc_right)
  qed (use bm_step_shape [OF Suc.prems, of syndromes] in simp)
qed simp

lemma berlekampMassey_cases:
  assumes "0 \<le> maxDegree"
  shows "case berlekampMassey syndromes maxDegree of
      Inl e \<Rightarrow> e = ErrDecodeFailure
    | Inr c \<Rightarrow> c \<noteq> [] \<and> int (length c) \<le> maxDegree + 1 \<and> last c \<noteq> 0"
proof -
  have "bm_shape maxDegree 0 \<lparr>current = [1], previous = [1], previousDiscrepancy = 1\<rparr>"
    using assms by (simp add: bm_shape_def)
  from bm_loop_shape [OF this, of "length syndromes" syndromes] show ?thesis
    by (auto simp: berlekampMassey_def bm_shape_def split: sum.splits)
qed

text \<open>The only failure of the polynomial functions is \<open>ErrDecodeFailure\<close>: no index is out of range.\<close>

definition soft :: "'a result \<Rightarrow> bool" where
  "soft r \<longleftrightarrow> (case r of Inl e \<Rightarrow> e = ErrDecodeFailure | Inr x \<Rightarrow> True)"

lemma soft_simps [simp]: "soft (Inr x)" "soft (Inl e) \<longleftrightarrow> e = ErrDecodeFailure"
  by (simp_all add: soft_def)

lemma softD: "soft r \<Longrightarrow> r = Inl e \<Longrightarrow> e = ErrDecodeFailure"
  by simp

lemma add_scaled_fits:
  assumes "0 \<le> k" "nat k + length cs \<le> length p"
  obtains q where "add_scaled p k s cs = Inr q" "length q = length p"
  using add_scaled_ok [OF assms(2), of s] assms(1) by auto

lemma makeMonic_soft: "soft (makeMonic p)"
  by (auto simp: makeMonic_def Let_def split: option.splits)

lemma polyMod_loop_soft: "modulus \<noteq> [] \<Longrightarrow> soft (polyMod_loop modulus v0)"
proof (induction modulus v0 rule: polyMod_loop.induct)
  case (1 modulus v0)
  show ?case
  proof (cases "length v0 < length modulus \<or> v0 = [] \<or> last v0 = 0")
    case True
    then show ?thesis using 1 by (subst polyMod_loop.simps) auto
  next
    case False
    define off where "off = int (length (butlast v0)) - (int (length modulus) - 1)"
    have "0 \<le> off" "nat off + length (butlast modulus) \<le> length (butlast v0)"
      using False "1.prems" by (auto simp: off_def Suc_le_eq le_diff_conv2)
    then obtain q where "add_scaled (butlast v0) off (last v0) (butlast modulus) = Inr q"
      by (rule add_scaled_fits)
    then show ?thesis using False 1 \<open>0 \<le> off\<close> by (subst polyMod_loop.simps) (simp add: off_def Let_def)
  qed
qed

lemma polyMod_soft: "soft (polyMod modulus v)"
  using polyMod_loop_soft [of modulus v] by (auto simp: polyMod_def split: sum.splits)

lemma polyDiv_loop_soft:
  "divisor \<noteq> [] \<Longrightarrow> length p < length divisor + length q \<Longrightarrow> soft (polyDiv_loop divisor p q)"
proof (induction "length p" arbitrary: p q rule: less_induct)
  case less
  show ?case
  proof (cases "length p < length divisor \<or> p = []")
    case True
    then show ?thesis by (subst polyDiv_loop.simps) auto
  next
    case False
    define off where "off = int (length (butlast p)) - (int (length divisor) - 1)"
    have off: "0 \<le> off" "nat off + length (butlast divisor) \<le> length (butlast p)" "off < int (length q)"
      using False less.prems by (auto simp: off_def Suc_le_eq le_diff_conv2)
    obtain r where r: "add_scaled (butlast p) off (last p) (butlast divisor) = Inr r" "length r = length (butlast p)"
      using off(1,2) by (rule add_scaled_fits)
    have "soft (polyDiv_loop divisor (butlast p) (q[nat off := last p]))" if "last p = 0"
      using False less.prems by (intro less.hyps) auto
    moreover have "soft (polyDiv_loop divisor r (q[nat off := last p]))" if "last p \<noteq> 0"
      using False less.prems r(2) by (intro less.hyps) auto
    ultimately show ?thesis
      using False off r by (subst polyDiv_loop.simps) (simp add: off_def Let_def)
  qed
qed

lemma polyDiv_soft: "soft (polyDiv p d)"
  using polyDiv_loop_soft [of d p "replicate (length p - length d + 1) 0"]
  by (auto simp: polyDiv_def split: sum.splits)

lemma polyGCD_loop_soft: "soft (polyGCD_loop l r)"
proof (induction l r rule: polyGCD_loop.induct)
  case (1 l r)
  then show ?case
    by (subst polyGCD_loop.simps)
      (auto simp: makeMonic_soft split: sum.splits dest: softD [OF makeMonic_soft] softD [OF polyMod_soft])
qed

lemma polyGCD_soft: "soft (polyGCD l r)"
  by (simp add: polyGCD_def polyGCD_loop_soft)

lemma trace_loop_soft: "soft (trace_loop n modulus par t)"
  by (induction n arbitrary: t) (auto simp: Let_def split: sum.splits dest: softD [OF polyMod_soft])

lemma read_solution_soft: "soft (read_solution rows sol)"
  by (induction rows arbitrary: sol) auto

lemma solveQuadraticForm_soft: "soft (solveQuadraticForm t)"
  using read_solution_soft by (auto simp: solveQuadraticForm_def Let_def split: prod.splits sum.splits dest: softD)

lemma quadratic_roots_soft: "soft (quadratic_roots p)"
  using solveQuadraticForm_soft by (auto simp: quadratic_roots_def Let_def split: option.splits sum.splits dest: softD)

lemma factorTrialCost_soft: "soft (factorTrialCost d)"
  by (auto simp: factorTrialCost_def Let_def)

lemma factor_trials_error:
  "fst (factor_trials ts p par w) = Inl e \<Longrightarrow> e = ErrDecodeFailure \<or> e = ErrBudgetExhausted"
proof (induction ts p par w rule: factor_trials.induct)
  case (2 trial trials p par w)
  have "soft (traceMod p x)" for x by (simp add: traceMod_def trace_loop_soft)
  note err = softD [OF this] softD [OF factorTrialCost_soft] softD [OF polyGCD_soft] softD [OF polyDiv_soft]
  show ?case using 2 by (auto simp: Let_def split: sum.splits if_splits dest: err)
qed simp

lemma findRoots_error:
  "fst (findRootsWithBudget pending roots w) = Inl e \<Longrightarrow> e = ErrDecodeFailure \<or> e = ErrBudgetExhausted"
proof (induction pending roots w rule: findRootsWithBudget.induct)
  case (2 poly pending roots work)
  then show ?case
    using quadratic_roots_soft [of poly] factor_trials_error [of "[0..<factorTrials]" poly factorParameterSeed work]
    by (auto split: if_splits sum.splits prod.splits)
qed simp

section \<open>Decoding is sound\<close>

lemma findRoots_soft: "soft (findRoots p)"
  using findRoots_error [of "[p]" "[]" maxFactorWork] by (auto simp: findRoots_def split: sum.splits)

lemma decodePinSketch_cases:
  assumes "0 \<le> m" and "decodePinSketch ods m work = (r, work')"
  shows "case r of
      Inl e \<Rightarrow> e = ErrDecodeFailure \<or> work \<noteq> None \<and> e = ErrBudgetExhausted
    | Inr xs \<Rightarrow> sorted xs \<and> 0 \<notin> set xs \<and> int (length xs) \<le> m"
proof (cases "berlekampMassey (reconstructSyndromes ods) m")
  case (Inl e)
  then have "r = Inl e" using assms(2) by (simp add: decodePinSketch_def)
  moreover have "e = ErrDecodeFailure" using berlekampMassey_cases [OF assms(1), of "reconstructSyndromes ods"] Inl by simp
  ultimately show ?thesis by simp
next
  case (Inr c)
  then have c: "c \<noteq> []" "int (length c) \<le> m + 1"
    using berlekampMassey_cases [OF assms(1), of "reconstructSyndromes ods"] by auto
  then have len: "int (length c - 1) \<le> m" by (simp add: Suc_le_eq of_nat_diff)
  show ?thesis
  proof (cases work)
    case None
    then show ?thesis
      using assms Inr len findRoots_soft [of "rev c"]
      by (auto simp: decodePinSketch_def containsZero_def list_ex_iff Let_def split: sum.splits if_splits)
  next
    case (Some w)
    obtain r' w' where fr: "findRootsWithBudget [rev c] [] w = (r', w')" by force
    then show ?thesis
      using assms Inr len Some findRoots_error [of "[rev c]" "[]" w]
      by (auto simp: decodePinSketch_def containsZero_def list_ex_iff Let_def split: sum.splits if_splits)
  qed
qed

lemma toggle_all_ok:
  "0 \<notin> set xs \<Longrightarrow> toggle_all xs s = Inr \<lparr>Coordinates = coords.absorb xs (Coordinates s)\<rparr>"
  by (induction xs arbitrary: s) (auto simp: Toggle_def)

lemma equalSketch_iff: "equalSketch l r \<longleftrightarrow> l = r"
  by (cases l, cases r) (auto simp: equalSketch_def Capacity_def list_all_iff intro: nth_equalityI)

lemma decodeAndVerifySketch_cases:
  assumes "0 \<le> m" "m \<le> Capacity s" "1 \<le> Capacity s" "Capacity s \<le> 32"
    and "decodeAndVerifySketch s m work = (r, work')"
  shows "case r of
      Inl e \<Rightarrow> e = ErrDecodeFailure \<or> work \<noteq> None \<and> e = ErrBudgetExhausted
    | Inr xs \<Rightarrow> sorted xs \<and> 0 \<notin> set xs \<and> int (length xs) \<le> m \<and>
        Coordinates s = sketch_of (length (Coordinates s)) (odd_set xs)"
proof -
  obtain d w where d: "decodePinSketch (take (nat m) (Coordinates s)) m work = (d, w)" by force
  note c = decodePinSketch_cases [OF assms(1) d]
  have new: "NewSyndromeSketch (Capacity s) = Inr \<lparr>Coordinates = sketch_of (length (Coordinates s)) {}\<rparr>"
    using assms(3,4) by (auto simp: NewSyndromeSketch_def MaxSketchCapacity_def Capacity_def sketch_of_empty)
  show ?thesis
  proof (cases d)
    case (Inl e)
    then show ?thesis using c assms(2,5) d by (auto simp: decodeAndVerifySketch_def Capacity_def)
  next
    case (Inr xs)
    then have "toggle_all xs \<lparr>Coordinates = sketch_of (length (Coordinates s)) {}\<rparr> =
        Inr \<lparr>Coordinates = sketch_of (length (Coordinates s)) (odd_set xs)\<rparr>"
      using c by (simp add: toggle_all_ok absorb_sketch_of)
    then have "decodeAndVerifySketch s m work = (if equalSketch \<lparr>Coordinates = sketch_of (length (Coordinates s)) (odd_set xs)\<rparr> s
        then Inr xs else Inl ErrDecodeFailure, w)"
      using assms(2) d Inr c new
      by (simp add: decodeAndVerifySketch_def Capacity_def containsZero_def list_ex_iff)
    then show ?thesis using assms(5) c Inr by (cases s) (auto simp: equalSketch_iff)
  qed
qed

end
