(* ===== verification/FieldPoly.thy ===== *)
theory FieldPoly
  imports PinSketch
begin

text \<open>
  Polynomials over the field as the lists of words that \<open>reconcile/pinsketch.go\<close> works on: values and roots,
  what each polynomial function of the code computes, and the trace, which the root finder splits by.
\<close>

section \<open>Values\<close>

fun peval :: "polynomial \<Rightarrow> gf64 \<Rightarrow> gf64" where
  "peval [] a = 0"
| "peval (c # cs) a = Gf c + a * peval cs a"

lemma peval_sum: "peval p a = (\<Sum>i<length p. Gf (p ! i) * a ^ i)"
proof (induction p)
  case (Cons c p)
  have "(\<Sum>i<length (c # p). Gf ((c # p) ! i) * a ^ i) = Gf c + a * (\<Sum>i<length p. Gf (p ! i) * a ^ i)"
    by (simp add: lessThan_Suc_eq_insert_0 sum.reindex sum_distrib_left mult_ac)
  then show ?case using Cons by simp
qed simp

lemma peval_append: "peval (p @ q) a = peval p a + a ^ length p * peval q a"
  by (induction p) (simp_all add: algebra_simps)

lemma peval_replicate_0 [simp]: "peval (replicate n 0) a = 0"
  by (induction n) simp_all

lemma peval_last: "p \<noteq> [] \<Longrightarrow> peval p a = peval (butlast p) a + a ^ (length p - 1) * Gf (last p)"
  by (metis append_butlast_last_id length_butlast peval.simps peval_append add_0_right mult_zero_right)

lemma peval_map_Mul: "peval (map (\<lambda>c. Mul c k) p) a = Gf k * peval p a"
  by (induction p) (simp_all add: Gf_Mul algebra_simps)

lemma peval_trim [simp]: "peval (trim p) a = peval p a"
proof (induction p rule: rev_induct)
  case (snoc c p)
  then show ?case by (auto simp: trim_def peval_append)
qed (simp add: trim_def)

lemma last_trim: "trim p \<noteq> [] \<Longrightarrow> last (trim p) \<noteq> 0"
  using hd_dropWhile [of "\<lambda>c. c = 0" "rev p"] by (auto simp: trim_def last_rev)

lemma trim_id: "p \<noteq> [] \<Longrightarrow> last p \<noteq> 0 \<Longrightarrow> trim p = p"
  by (cases p rule: rev_cases) (auto simp: trim_def)

text \<open>Sums and products of values are values of lists of the expected length.\<close>

fun padd :: "polynomial \<Rightarrow> polynomial \<Rightarrow> polynomial" where
  "padd [] q = q"
| "padd p [] = p"
| "padd (c # p) (d # q) = (c XOR d) # padd p q"

lemma peval_padd: "peval (padd p q) a = peval p a + peval q a"
  by (induction p q rule: padd.induct) (simp_all add: Gf_xor algebra_simps)

lemma length_padd: "length (padd p q) = max (length p) (length q)"
  by (induction p q rule: padd.induct) simp_all

lemma padd_eq_Nil [simp]: "padd p q = [] \<longleftrightarrow> p = [] \<and> q = []"
  by (induction p q rule: padd.induct) simp_all

lemma last_padd: "length p < length q \<Longrightarrow> last (padd p q) = last q"
  by (induction p q rule: padd.induct) auto

fun pmul :: "polynomial \<Rightarrow> polynomial \<Rightarrow> polynomial" where
  "pmul [] q = []"
| "pmul (c # p) q = padd (map (\<lambda>d. Mul d c) q) (0 # pmul p q)"

lemma peval_pmul: "peval (pmul p q) a = peval p a * peval q a"
  by (induction p) (simp_all add: peval_padd peval_map_Mul algebra_simps)

lemma length_pmul: "length (pmul p q) \<le> length p + length q"
  by (induction p) (simp_all add: length_padd)

lemma length_pmul_tight: "p \<noteq> [] \<Longrightarrow> q \<noteq> [] \<Longrightarrow> length (pmul p q) = length p + length q - 1"
  by (induction p rule: list_nonempty_induct) (auto simp: length_padd max_def le_Suc_eq)

section \<open>Roots\<close>

text \<open>Division by a linear factor.\<close>

fun synthetic :: "gf64 \<Rightarrow> polynomial \<Rightarrow> polynomial" where
  "synthetic a [] = []"
| "synthetic a [c] = []"
| "synthetic a (c # d # cs) = word_of (peval (d # cs) a) # synthetic a (d # cs)"

lemma length_synthetic: "length (synthetic a p) = length p - 1"
  by (induction a p rule: synthetic.induct) simp_all

lemma last_synthetic: "synthetic a p \<noteq> [] \<Longrightarrow> last (synthetic a p) = last p"
proof (induction a p rule: synthetic.induct)
  case (3 a c d cs)
  then show ?case by (cases cs) auto
qed simp_all

lemma peval_synthetic: "peval p b + peval p a = (b + a) * peval (synthetic a p) b"
proof (induction a p rule: synthetic.induct)
  case (3 a c d cs)
  let ?q = "d # cs"
  have "peval (c # ?q) b + peval (c # ?q) a = b * (peval ?q b + peval ?q a) + (b + a) * peval ?q a"
    by (simp add: algebra_simps)
  also have "\<dots> = (b + a) * peval (synthetic a (c # ?q)) b"
    unfolding 3 by (simp add: algebra_simps)
  finally show ?case .
qed simp_all

lemma gf64_add_eq_0: "(a :: gf64) + b = 0 \<longleftrightarrow> a = b"
  by (metis add_eq_0_iff gf64_minus(1))

text \<open>A monic polynomial with as many roots as its degree is the product of the linear factors.\<close>

lemma monic_roots:
  assumes "finite R" "length p = card R + 1" "last p = 1" "\<forall>x\<in>R. peval p x = 0"
  shows "peval p b = (\<Prod>x\<in>R. b + x)"
  using assms
proof (induction R arbitrary: p rule: finite_induct)
  case empty
  then show ?case by (cases p) auto
next
  case (insert a R)
  let ?q = "synthetic a p"
  have l: "length ?q = card R + 1" using insert by (simp add: length_synthetic)
  then have "last ?q = 1" using last_synthetic [of a p] insert.prems by force
  moreover have "peval ?q x = 0" if "x \<in> R" for x
  proof -
    have "(x + a) * peval ?q x = 0" using peval_synthetic [of p x a] insert.prems that by simp
    moreover have "x + a \<noteq> 0" using insert.hyps that by (auto simp: gf64_add_eq_0)
    ultimately show ?thesis by simp
  qed
  ultimately have "peval ?q b = (\<Prod>x\<in>R. b + x)" using insert.IH l by blast
  then show ?case using peval_synthetic [of p b a] insert by simp
qed

lemma roots_bound:
  assumes "finite R" "p \<noteq> []" "last p \<noteq> 0" "\<forall>x\<in>R. peval p x = 0"
  shows "card R < length p"
  using assms
proof (induction R arbitrary: p rule: finite_induct)
  case (insert a R)
  let ?q = "synthetic a p"
  have "?q \<noteq> []"
  proof
    assume "?q = []"
    then have "length p = 1" using length_synthetic [of a p] insert.prems by (cases p) auto
    then obtain c where c: "p = [c]" by (auto simp: length_Suc_conv)
    have "peval p a = 0" using insert.prems by simp
    with c show False using insert.prems by simp
  qed
  moreover from this have "last ?q \<noteq> 0" using last_synthetic insert.prems by metis
  moreover have "peval ?q x = 0" if "x \<in> R" for x
  proof -
    have "(x + a) * peval ?q x = 0" using peval_synthetic [of p x a] insert.prems that by simp
    moreover have "x + a \<noteq> 0" using insert.hyps that by (auto simp: gf64_add_eq_0)
    ultimately show ?thesis by simp
  qed
  ultimately have "card R < length ?q" using insert.IH by blast
  then show ?case using insert.hyps by (simp add: length_synthetic)
qed simp

text \<open>There is a monic polynomial for every set of roots.\<close>

lemma locator_exists:
  "finite R \<Longrightarrow> \<exists>p. length p = card R + 1 \<and> last p = 1 \<and> (\<forall>b. peval p b = (\<Prod>x\<in>R. b + x))"
proof (induction R rule: finite_induct)
  case empty
  then show ?case by (intro exI [of _ "[1]"]) simp
next
  case (insert a R)
  then obtain p where p: "length p = card R + 1" "last p = 1" "\<And>b. peval p b = (\<Prod>x\<in>R. b + x)" by blast
  let ?q = "padd (map (\<lambda>c. Mul c (word_of a)) p) (0 # p)"
  have "last ?q = last (0 # p)" using p(1) by (intro last_padd) simp
  then have "last ?q = 1" using p(1,2) by (cases p) (auto split: if_splits)
  moreover have "peval ?q b = (\<Prod>x\<in>insert a R. b + x)" for b
    using insert.hyps by (simp add: peval_padd peval_map_Mul p(3) algebra_simps)
  ultimately show ?case using insert.hyps p(1) by (intro exI [of _ ?q]) (simp add: length_padd)
qed

section \<open>The polynomial functions\<close>

lemma peval_update: "k < length p \<Longrightarrow> peval (p[k := p ! k XOR d]) a = peval p a + Gf d * a ^ k"
  by (induction p arbitrary: k) (auto simp: nth_Cons Gf_xor algebra_simps split: nat.splits)

lemma peval_add_scaled:
  "add_scaled p k s cs = Inr q \<Longrightarrow> peval q a = peval p a + Gf s * a ^ nat k * peval cs a"
proof (induction p k s cs rule: add_scaled.induct)
  case (2 p k s c cs)
  then have "nat (k + 1) = Suc (nat k)" by (auto split: if_splits)
  with 2 show ?case by (auto simp: peval_update Gf_Mul algebra_simps split: if_splits)
qed simp

definition monic :: "polynomial \<Rightarrow> bool" where
  "monic p \<longleftrightarrow> p \<noteq> [] \<and> last p = 1"

lemma peval_monic: "monic p \<Longrightarrow> peval p a = peval (butlast p) a + a ^ (length p - 1)"
  by (simp add: monic_def peval_last)

text \<open>One step of a division: the leading term goes, a multiple of the divisor is added.\<close>

lemma division_step:
  assumes "monic d" "length d \<le> length p"
  obtains r where "add_scaled (butlast p) (int (length p - length d)) (last p) (butlast d) = Inr r"
    and "length r = length p - 1"
    and "\<And>a. peval p a = Gf (last p) * a ^ (length p - length d) * peval d a + peval r a"
proof -
  have ne: "p \<noteq> []" "d \<noteq> []" using assms by (auto simp: monic_def)
  have "(length p - length d) + length (butlast d) \<le> length (butlast p)"
    using assms(2) ne by (simp add: Suc_le_eq)
  from add_scaled_ok [OF this] obtain r where
    r: "add_scaled (butlast p) (int (length p - length d)) (last p) (butlast d) = Inr r" "length r = length p - 1"
    by auto
  have "length p - 1 = (length p - length d) + (length d - 1)" using assms(2) ne by (simp add: Suc_le_eq)
  then have "peval p a = Gf (last p) * a ^ (length p - length d) * peval d a + peval r a" for a
    using peval_add_scaled [OF r(1), of a] peval_last [OF ne(1), of a] peval_monic [OF assms(1), of a]
    by (simp add: algebra_simps power_add)
  with r that show ?thesis by blast
qed

lemma polyMod_loop_ok:
  assumes "monic d"
  shows "\<exists>r q. polyMod_loop d p = Inr r \<and> length r < length d \<and> length q \<le> length p + 1 - length d \<and>
    (\<forall>a. peval p a = peval q a * peval d a + peval r a)"
proof (induction "length p" arbitrary: p rule: less_induct)
  case less
  have ne: "d \<noteq> []" using assms by (auto simp: monic_def)
  show ?case
  proof (cases "length p < length d")
    case True
    then show ?thesis by (subst polyMod_loop.simps) (auto intro: exI [of _ "[]"])
  next
    case False
    then have p: "p \<noteq> []" using ne by auto
    have off: "int (length (butlast p)) - (int (length d) - 1) = int (length p - length d)"
      using False p by (simp add: of_nat_diff Suc_le_eq)
    obtain r0 where r0: "add_scaled (butlast p) (int (length p - length d)) (last p) (butlast d) = Inr r0"
      "length r0 = length p - 1"
      "\<And>a. peval p a = Gf (last p) * a ^ (length p - length d) * peval d a + peval r0 a"
      using division_step [OF assms] False by (metis not_less)
    define p' where "p' = (if last p = 0 then butlast p else r0)"
    have p': "length p' < length p" "polyMod_loop d p = polyMod_loop d p'" "length p' = length p - 1"
      "\<And>a. peval p a = Gf (last p) * a ^ (length p - length d) * peval d a + peval p' a"
      using False p r0 off peval_last [OF p]
      by (auto simp: p'_def polyMod_loop.simps [of d p] Let_def)
    from less [OF p'(1)] obtain r q where rq: "polyMod_loop d p' = Inr r" "length r < length d"
      "length q \<le> length p' + 1 - length d" "\<And>a. peval p' a = peval q a * peval d a + peval r a" by blast
    let ?q = "padd q (replicate (length p - length d) 0 @ [last p])"
    have "length ?q \<le> length p + 1 - length d" using rq(3) p'(3) False by (simp add: length_padd)
    moreover have "peval p a = peval ?q a * peval d a + peval r a" for a
      by (simp add: p'(4) rq(4) peval_padd peval_append algebra_simps)
    ultimately show ?thesis using rq(1,2) p'(2) by metis
  qed
qed

lemma polyMod_ok:
  assumes "monic d"
  obtains r q where "polyMod d p = Inr r" and "length r < length d" and "r \<noteq> [] \<longrightarrow> last r \<noteq> 0"
    and "length q \<le> length p + 1 - length d" and "\<And>a. peval p a = peval q a * peval d a + peval r a"
proof -
  obtain r q where rq: "polyMod_loop d p = Inr r" "length r < length d" "length q \<le> length p + 1 - length d"
    "\<forall>a. peval p a = peval q a * peval d a + peval r a" using polyMod_loop_ok [OF assms] by blast
  then have "polyMod d p = Inr (trim r)" using assms by (auto simp: polyMod_def monic_def)
  with rq that [of "trim r" q] show ?thesis
    using le_less_trans [OF length_trim] last_trim by simp
qed

lemma makeMonic_ok:
  assumes "p \<noteq> []" "last p \<noteq> 0"
  obtains q k where "makeMonic p = Inr q" and "monic q" and "length q = length p" and "k \<noteq> 0"
    and "\<And>a. peval q a = k * peval p a"
proof (cases "last p = 1")
  case True
  then show ?thesis using assms that [of p 1] by (simp add: makeMonic_def monic_def Let_def)
next
  case False
  let ?q = "map (\<lambda>c. Mul c (word_of (inverse (Gf (last p))))) p"
  have "Gf (last ?q) = 1" using assms by (simp add: last_map Gf_Mul)
  then have "last ?q = 1" by (metis Gf_simps(2,3))
  then show ?thesis
    using assms False that [of ?q "inverse (Gf (last p))"]
    by (simp add: makeMonic_def monic_def Let_def Gf_gf64Inv peval_map_Mul)
qed

text \<open>Divisibility of values, with the degree of the cofactor.\<close>

definition divides :: "polynomial \<Rightarrow> polynomial \<Rightarrow> bool" where
  "divides g p \<longleftrightarrow> (\<exists>q. length q \<le> length p + 1 - length g \<and> (\<forall>a. peval p a = peval q a * peval g a))"

lemma divides_combine:
  assumes "divides g d" "divides g r" "length g \<le> length d" "length r < length d" "length d \<le> length p"
    and "length q \<le> length p + 1 - length d" and "\<And>a. peval p a = peval q a * peval d a + peval r a"
  shows "divides g p"
proof -
  obtain u where u: "length u \<le> length d + 1 - length g" "\<And>a. peval d a = peval u a * peval g a"
    using assms(1) by (auto simp: divides_def)
  obtain v where v: "length v \<le> length r + 1 - length g" "\<And>a. peval r a = peval v a * peval g a"
    using assms(2) by (auto simp: divides_def)
  have "length (pmul q u) \<le> length p + 1 - length g"
  proof (cases "q = [] \<or> u = []")
    case True
    then show ?thesis using length_pmul [of q u] assms(3,6) by auto
  next
    case False
    then have "length (pmul q u) = length q + length u - 1" by (intro length_pmul_tight) auto
    then show ?thesis using assms(3,5,6) u(1) by linarith
  qed
  then have "length (padd (pmul q u) v) \<le> length p + 1 - length g"
    using v(1) assms(4,5) by (simp add: length_padd)
  moreover have "peval p a = peval (padd (pmul q u) v) a * peval g a" for a
    by (simp add: assms(7) u(2) v(2) peval_padd peval_pmul algebra_simps)
  ultimately show ?thesis unfolding divides_def by blast
qed

lemma divides_scale:
  assumes "divides g q" "length q = length p" "k \<noteq> 0" "\<And>a. peval q a = k * peval p a"
  shows "divides g p"
proof -
  obtain u where u: "length u \<le> length q + 1 - length g" "\<And>a. peval q a = peval u a * peval g a"
    using assms(1) by (auto simp: divides_def)
  let ?u = "map (\<lambda>c. Mul c (word_of (inverse k))) u"
  have "peval p a = inverse k * peval q a" for a using assms(3,4) by simp
  then have "peval p a = peval ?u a * peval g a" for a by (simp add: peval_map_Mul u(2))
  then show ?thesis using u(1) assms(2) unfolding divides_def by (intro exI [of _ ?u]) simp
qed

lemma polyGCD_loop_ok:
  assumes "l \<noteq> []" "last l \<noteq> 0" "r \<noteq> [] \<longrightarrow> last r \<noteq> 0" "length r \<le> length l"
  shows "\<exists>g. polyGCD_loop l r = Inr g \<and> monic g \<and> length g \<le> length l \<and> (r \<noteq> [] \<longrightarrow> length g \<le> length r) \<and>
    divides g l \<and> divides g r \<and> (\<forall>a. peval g a = 0 \<longleftrightarrow> peval l a = 0 \<and> peval r a = 0)"
  using assms
proof (induction "length r" arbitrary: l r rule: less_induct)
  case less
  show ?case
  proof (cases "r = []")
    case True
    obtain g k where g: "makeMonic l = Inr g" "monic g" "length g = length l" "k \<noteq> 0" "\<And>a. peval g a = k * peval l a"
      using makeMonic_ok [OF less.prems(1,2)] by blast
    have "divides g g" unfolding divides_def by (intro exI [of _ "[1]"]) simp
    then have "divides g l" using g by (intro divides_scale [of g g l k])
    moreover have "divides g []" unfolding divides_def by (intro exI [of _ "[]"]) simp
    ultimately show ?thesis using True g by (subst polyGCD_loop.simps) simp
  next
    case False
    obtain d k where d: "makeMonic r = Inr d" "monic d" "length d = length r" "k \<noteq> 0" "\<And>a. peval d a = k * peval r a"
      using makeMonic_ok [of r] less.prems False by blast
    obtain m q where m: "polyMod d l = Inr m" "length m < length d" "m \<noteq> [] \<longrightarrow> last m \<noteq> 0"
      "length q \<le> length l + 1 - length d" "\<And>a. peval l a = peval q a * peval d a + peval m a"
      using polyMod_ok [OF d(2), of l] by blast
    have "length m < length r" "d \<noteq> []" "last d \<noteq> 0" "length m \<le> length d" using d m by (auto simp: monic_def)
    from less.hyps [OF this(1-3) m(3) this(4)] obtain g where
      g: "polyGCD_loop d m = Inr g" "monic g" "length g \<le> length d" "divides g d" "divides g m"
        "\<And>a. peval g a = 0 \<longleftrightarrow> peval d a = 0 \<and> peval m a = 0" by blast
    have "divides g l" using divides_combine [OF g(4,5,3) m(2) _ m(4,5)] less.prems(4) d(3) by simp
    moreover have "divides g r" by (rule divides_scale [OF g(4) d(3,4,5)])
    moreover have "polyGCD_loop l r = Inr g" using False d(1) m(1) g(1) by (subst polyGCD_loop.simps) simp
    moreover have "peval g a = 0 \<longleftrightarrow> peval l a = 0 \<and> peval r a = 0" for a
      using d(4) by (auto simp: g(6) d(5) m(5))
    ultimately show ?thesis using g(2,3) d(3) less.prems(4) by auto
  qed
qed

lemma divides_length: "divides g p \<Longrightarrow> g \<noteq> [] \<Longrightarrow> length p < length g \<Longrightarrow> peval p a = 0"
  by (auto simp: divides_def)

text \<open>A polynomial that is the product of different linear factors with non-zero roots.\<close>

definition splits :: "polynomial \<Rightarrow> gf64 set \<Rightarrow> bool" where
  "splits p R \<longleftrightarrow> finite R \<and> 0 \<notin> R \<and> length p = card R + 1 \<and> last p = 1 \<and> (\<forall>x\<in>R. peval p x = 0)"

lemma splits_peval: "splits p R \<Longrightarrow> peval p b = (\<Prod>x\<in>R. b + x)"
  by (auto simp: splits_def intro: monic_roots)

lemma splits_monic: "splits p R \<Longrightarrow> monic p"
  by (auto simp: splits_def monic_def)

lemma splits_at_0: "splits p R \<Longrightarrow> peval p 0 \<noteq> 0"
  unfolding splits_peval by (auto simp: splits_def)

text \<open>A monic divisor of such a polynomial is the product of the factors at its own roots.\<close>

lemma splits_divisor:
  assumes p: "splits p R" and g: "monic g" "divides g p" "length g \<le> length p"
  shows "splits g {x\<in>R. peval g x = 0}"
proof -
  let ?Z = "{x\<in>R. peval g x = 0}"
  obtain q where q: "length q \<le> length p + 1 - length g" "\<And>a. peval p a = peval q a * peval g a"
    using g(2) by (auto simp: divides_def)
  have R: "finite R" "0 \<notin> R" "length p = card R + 1" using p by (auto simp: splits_def)
  have "peval (trim q) 0 \<noteq> 0" using splits_at_0 [OF p] q(2) [of 0] by auto
  then have tq: "trim q \<noteq> []" by (metis peval.simps(1))
  have "\<forall>x\<in>R - ?Z. peval (trim q) x = 0"
    using p q(2) by (auto simp: splits_def)
  then have "card (R - ?Z) < length (trim q)"
    using R(1) by (intro roots_bound tq last_trim) auto
  moreover have "card R = card ?Z + card (R - ?Z)"
    using R(1) by (metis (no_types, lifting) card_Un_disjoint Diff_disjoint finite_Diff finite_subset mem_Collect_eq subsetI Un_Diff_cancel sup.absorb2)
  ultimately have "length g \<le> card ?Z + 1"
    using q(1) length_trim [of q] R(3) g(3) by linarith
  moreover have "card ?Z < length g" using R(1) g(1) by (intro roots_bound) (auto simp: monic_def)
  ultimately show ?thesis using R g(1) by (auto simp: splits_def monic_def)
qed

lemma polyGCD_splits:
  assumes p: "splits p R" and t: "length t < length p" "t \<noteq> [] \<longrightarrow> last t \<noteq> 0"
  shows "\<exists>g. polyGCD p t = Inr g \<and> splits g {x\<in>R. peval t x = 0}"
proof -
  have "p \<noteq> []" "last p \<noteq> 0" "length t \<le> length p" "\<not> length p < length t"
    using splits_monic [OF p] t by (auto simp: monic_def)
  from polyGCD_loop_ok [OF this(1,2) t(2) this(3)] this(4) obtain g where
    g: "polyGCD p t = Inr g" "monic g" "length g \<le> length p" "divides g p"
      "\<And>a. peval g a = 0 \<longleftrightarrow> peval p a = 0 \<and> peval t a = 0" by (auto simp: polyGCD_def)
  have "{x\<in>R. peval g x = 0} = {x\<in>R. peval t x = 0}" using g(5) p by (auto simp: splits_def)
  with splits_divisor [OF p g(2,4,3)] g(1) show ?thesis by metis
qed

text \<open>The quotient: every step fills the position of the leading term.\<close>

lemma polyDiv_loop_ok:
  assumes "monic d" "length p < length d + length q0"
    and "\<And>i. i + length d \<le> length p \<Longrightarrow> q0 ! i = 0"
  shows "\<exists>q r. polyDiv_loop d p q0 = Inr q \<and> length q = length q0 \<and> length r < length d \<and>
    (\<forall>i<length q0. length p < i + length d \<longrightarrow> q ! i = q0 ! i) \<and>
    (length d \<le> length p \<longrightarrow> q ! (length p - length d) = last p) \<and>
    (\<forall>a. peval q a * peval d a + peval r a = peval q0 a * peval d a + peval p a)"
  using assms(2,3)
proof (induction "length p" arbitrary: p q0 rule: less_induct)
  case less
  have ne: "d \<noteq> []" using assms(1) by (auto simp: monic_def)
  show ?case
  proof (cases "length p < length d")
    case True
    then show ?thesis by (subst polyDiv_loop.simps) auto
  next
    case False
    define k where "k = length p - length d"
    have p: "p \<noteq> []" "length d \<le> length p" "k < length q0" "q0 ! k = 0"
      using False ne less.prems by (auto simp: k_def)
    have off: "int (length (butlast p)) - (int (length d) - 1) = int k"
      using p ne by (simp add: k_def of_nat_diff Suc_le_eq)
    obtain r0 where r0: "add_scaled (butlast p) (int k) (last p) (butlast d) = Inr r0"
      "length r0 = length p - 1" "\<And>a. peval p a = Gf (last p) * a ^ k * peval d a + peval r0 a"
      using division_step [OF assms(1) p(2)] unfolding k_def by metis
    define p' where "p' = (if last p = 0 then butlast p else r0)"
    let ?q0 = "q0[k := last p]"
    have p': "length p' < length p" "polyDiv_loop d p q0 = polyDiv_loop d p' ?q0" "length p' = length p - 1"
      "\<And>a. peval p a = Gf (last p) * a ^ k * peval d a + peval p' a"
      using False p r0 off peval_last [OF p(1)]
      by (auto simp: p'_def polyDiv_loop.simps [of d p] Let_def)
    have q0: "peval ?q0 a = peval q0 a + Gf (last p) * a ^ k" for a
      using peval_update [OF p(3), of "last p" a] p(4) by simp
    have "length p' < length d + length ?q0" "\<And>i. i + length d \<le> length p' \<Longrightarrow> ?q0 ! i = 0"
      using less.prems p'(1) p ne by (auto simp: k_def nth_list_update)
    from less.hyps [OF p'(1) this] obtain q r where qr:
      "polyDiv_loop d p' ?q0 = Inr q" "length q = length q0" "length r < length d"
      "\<And>i. i < length q0 \<Longrightarrow> length p' < i + length d \<Longrightarrow> q ! i = ?q0 ! i"
      "\<And>a. peval q a * peval d a + peval r a = peval ?q0 a * peval d a + peval p' a"
      by auto
    have "q ! i = q0 ! i" if "i < length q0" "length p < i + length d" for i
      using qr(4) [OF that(1)] that p'(1) p(2) by (auto simp: nth_list_update k_def)
    moreover have "peval q a * peval d a + peval r a = peval q0 a * peval d a + peval p a" for a
      using qr(5) [of a] by (simp add: q0 p'(4) algebra_simps)
    moreover have "q ! (length p - length d) = last p"
    proof -
      have "length p' < k + length d" using p'(1) p(2) unfolding k_def by linarith
      then have "q ! k = last p" using qr(4) [OF p(3)] p(3) by simp
      then show ?thesis by (simp add: k_def)
    qed
    ultimately show ?thesis using p'(2) qr(1,2,3) by (intro exI [of _ q] exI [of _ r]) simp
  qed
qed

lemma polyDiv_splits:
  assumes p: "splits p R" and g: "splits g R1" "R1 \<subseteq> R"
  shows "\<exists>q. polyDiv p g = Inr q \<and> splits q (R - R1)"
proof -
  have R: "finite R" "finite R1" "0 \<notin> R" "length p = card R + 1" "length g = card R1 + 1"
    using p g by (auto simp: splits_def)
  have le: "card R1 \<le> card R" by (rule card_mono) (use R g(2) in auto)
  have mg: "monic g" "monic p" using p g by (auto intro: splits_monic)
  let ?n = "length p - length g + 1"
  have "length p < length g + ?n" using le R by simp
  from polyDiv_loop_ok [OF mg(1), of p "replicate ?n 0"] this obtain q r where qr:
    "polyDiv_loop g p (replicate ?n 0) = Inr q" "length q = ?n" "length r < length g"
    "length g \<le> length p \<longrightarrow> q ! (length p - length g) = last p" "\<And>a. peval q a * peval g a + peval r a = peval p a"
    by (auto simp del: replicate_Suc)
  have "peval r x = 0" if "x \<in> R1" for x
    using qr(5) [of x] p g that by (auto simp: splits_def)
  then have "trim r = []"
    using roots_bound [of R1 "trim r"] last_trim [of r] qr(3) length_trim [of r] R by fastforce
  then have "peval r a = 0" for a using peval_trim [of r a] by simp
  then have v: "peval p a = peval q a * peval g a" for a using qr(5) [of a] by simp
  have zero: "peval q x = 0" if "x \<in> R - R1" for x
  proof -
    have "peval g x \<noteq> 0" unfolding splits_peval [OF g(1)] using that R(2) by (auto simp: gf64_add_eq_0)
    then show ?thesis using v [of x] p that by (auto simp: splits_def)
  qed
  have c: "card (R - R1) = card R - card R1" using g(2) R(2) by (rule card_Diff_subset [rotated])
  have "q \<noteq> []" using qr(2) by auto
  then have "last q = 1"
    using qr(2,4) R le mg(2) last_conv_nth [of q] by (auto simp: monic_def)
  then have "trim q = q" using trim_id [of q] \<open>q \<noteq> []\<close> by simp
  moreover have "polyDiv p g = Inr (trim q)"
    using mg R le qr(1) by (auto simp: polyDiv_def monic_def)
  moreover have "length q = card (R - R1) + 1" using qr(2) R le c by simp
  ultimately show ?thesis using zero R \<open>last q = 1\<close> by (auto simp: splits_def)
qed

section \<open>The trace\<close>

definition trace :: "gf64 \<Rightarrow> gf64" where
  "trace y = (\<Sum>i<64. y ^ (2 ^ i))"

lemma trace_add: "trace (a + b) = trace a + trace b"
  by (simp add: trace_def frobenius_add sum.distrib)

lemma trace_0 [simp]: "trace 0 = 0"
  by (simp add: trace_def power_0_left)

lemma trace_sum: "trace (sum f A) = (\<Sum>k\<in>A. trace (f k))"
  by (induction A rule: infinite_finite_induct) (simp_all add: trace_add)

lemma trace_01: "trace a = 0 \<or> trace a = 1"
proof -
  have "trace a * trace a = trace a ^ (2 ^ 1)" by (simp add: power2_eq_square)
  also have "\<dots> = (\<Sum>i<64. a ^ (2 ^ Suc i))"
    unfolding trace_def frobenius_sum by (simp add: power_mult [symmetric] mult.commute)
  also have "\<dots> = trace a"
  proof -
    have "(\<Sum>i<64. a ^ (2 ^ Suc i)) + a ^ (2 ^ 0) = (\<Sum>i<Suc 64. a ^ (2 ^ i))"
      by (simp only: sum.lessThan_Suc_shift) simp
    also have "\<dots> = trace a + a" by (simp only: sum.lessThan_Suc trace_def frobenius_64)
    finally show ?thesis by simp
  qed
  finally show ?thesis by (rule idempotent_cases)
qed

text \<open>The trace is not zero: it is 1 at X^61, whose conjugates are the following table.\<close>

definition trace_table :: "u64 list" where
  "trace_table = [
     2305843009213693952, 7782220156096217088, 15812138291697811483, 7905724998709412100,
     15811494920390574091, 8698574560164539827, 9570966715775812805, 10426747374265274875,
     14580375713938380035, 8335224843717625496, 15429889943182191600, 4582458014458591389,
     8075104509142693770, 15228176957017567727, 3059065299487483000, 3381503070123966044,
     8793946142089117008, 9348631325178317419, 9609733268784987871, 15036015173826416915,
     4559818751775698216, 2613180426339615836, 2999649363800383824, 7750040023598786480,
     15776253710006808540, 2953819393297103818, 3158998165256030872, 7774461740358851712,
     15830514024905191532, 4464657239223220234, 3848702713036283368, 2515994361725707675,
     2895351595298490345, 3062781027177877318, 4538367625923791999, 7304294018471076434,
     10208527138311808948, 15436275414054463626, 8848765762373613237, 10736338722401918589,
     16138086616133762572, 7516792384447164877, 15839364442739064209, 9052656650472474604,
     9619118483142075431, 10424356945657508600, 14562383825421111233, 8339852408536320839,
     15524159974525946558, 7680768318293095698, 14626440984854862808, 2882045242173787057,
     4455204976787085569, 7000915663247879021, 15879546623169438458, 7593557251641939118,
     11154177182981447315, 9847792050979685935, 10851118706499433236, 9983019738712637578,
     15564302870940583705, 9211268615011959047, 9223512770048229390, 13835058058503389193,
     2305843009213693952]"

lemma trace_table_chain: "square_chain trace_table"
  unfolding trace_table_def square_chain.simps
  by (intro conjI TrueI) (simp_all add: square_table_def)

lemma trace_nonzero: "trace (Gf (2 ^ 61)) = 1"
proof -
  have l: "length trace_table = 65" "hd trace_table = 2 ^ 61" by (simp_all add: trace_table_def)
  have "trace (Gf (2 ^ 61)) = (\<Sum>i<64. Gf (trace_table ! i))"
    unfolding trace_def using square_chain_nth [OF trace_table_chain] l by (intro sum.cong) auto
  also have "\<dots> = (\<Sum>x\<leftarrow>take 64 trace_table. Gf x)"
    using l(1) by (simp add: sum_list_sum_nth atLeast0LessThan)
  also have "\<dots> = 1"
    by (simp add: trace_table_def flip: Gf_xor one_gf64.abs_eq)
  finally show ?thesis .
qed

text \<open>Some basis element of the field separates two different elements by the trace.\<close>

lemma trace_separates:
  assumes "x \<noteq> y"
  shows "\<exists>k<64. trace (Gf (push_bit k 1) * x) \<noteq> trace (Gf (push_bit k 1) * y)"
proof (rule ccontr)
  assume no: "\<not> ?thesis"
  have eq: "trace (X ^ k * (x + y)) = 0" if "k < 64" for k
  proof -
    have "Gf (push_bit k 1) = X ^ k" using word_of_xpow_1 [OF that] by (metis xpow_X mult_1_right Gf_word_of)
    then have "trace (X ^ k * x) = trace (X ^ k * y)" using no that by metis
    then show ?thesis by (simp add: distrib_left trace_add)
  qed
  have nz: "x + y \<noteq> 0" using assms by (simp add: gf64_add_eq_0)
  have z: "trace (a * (x + y)) = 0" for a
  proof -
    have "a * (x + y) = (\<Sum>k<64. if coeff a k then X ^ k * (x + y) else 0)"
      by (subst basis_X) (auto simp: sum_distrib_right intro!: sum.cong)
    then show ?thesis using eq by (simp add: trace_sum sum.neutral)
  qed
  have "a * inverse (x + y) * (x + y) = a" for a using nz by simp
  then have "trace (Gf (2 ^ 61)) = 0" using z [of "Gf (2 ^ 61) * inverse (x + y)"] by (simp only:)
  then show False using trace_nonzero by (metis zero_neq_one)
qed

end
