(* ===== verification/Locator.thy ===== *)
theory Locator
  imports FieldPoly
begin

text \<open>
  \<open>berlekampMassey\<close> of \<open>reconcile/pinsketch.go\<close>: the loop keeps a shortest linear recurrence of the syndromes
  read so far, so on the syndromes of a set it ends with the polynomial whose roots are the set.
\<close>

section \<open>Syndromes are power sums\<close>

lemma reconstruct_loop_ok:
  assumes "length all = 2 * n" "i + length vs = n"
    and "\<And>j. j < length vs \<Longrightarrow> Gf (vs ! j) = power_sum (2 * (i + j) + 1) S"
    and "\<And>k. k < 2 * i \<Longrightarrow> Gf (all ! k) = power_sum (k + 1) S"
  shows "length (reconstruct_loop vs all i) = 2 * n \<and>
    (\<forall>k<2 * n. Gf (reconstruct_loop vs all i ! k) = power_sum (k + 1) S)"
  using assms
proof (induction vs arbitrary: i all)
  case (Cons v vs)
  let ?a = "all[i * 2 := v]"
  let ?b = "?a[i * 2 + 1 := Mul (?a ! i) (?a ! i)]"
  have i: "i < n" "i * 2 + 1 < length all" "all \<noteq> []" using Cons.prems(1,2) by auto
  have v: "Gf v = power_sum (2 * i + 1) S" using Cons.prems(3) [of 0] by simp
  have ai: "Gf (?a ! i) = power_sum (i + 1) S"
    using Cons.prems(4) [of i] i v by (cases "i = 0") (auto simp: nth_list_update)
  have b: "Gf (?b ! k) = power_sum (k + 1) S" if k: "k < 2 * Suc i" for k
  proof -
    have "k = 2 * i + 1 \<or> k = 2 * i \<or> k < 2 * i" using k by presburger
    then show ?thesis
    proof (elim disjE)
      assume "k = 2 * i + 1"
      then have "Gf (?b ! k) = power_sum (i + 1) S ^ 2" using i ai by (simp add: Gf_Mul power2_eq_square mult.commute)
      also have "\<dots> = power_sum (2 * (i + 1)) S" by (rule power_sum_even [symmetric])
      finally show ?thesis using \<open>k = 2 * i + 1\<close> by simp
    qed (use Cons.prems(4) i v in \<open>auto simp: nth_list_update\<close>)
  qed
  have "Gf (vs ! j) = power_sum (2 * (Suc i + j) + 1) S" if "j < length vs" for j
    using Cons.prems(3) [of "Suc j"] that by simp
  with Cons.IH [of ?b "Suc i"] Cons.prems(1,2) b show ?case by (simp add: Let_def)
qed simp

lemma reconstructSyndromes_ok:
  "length (reconstructSyndromes (sketch_of n S)) = 2 * n"
  "k < 2 * n \<Longrightarrow> Gf (reconstructSyndromes (sketch_of n S) ! k) = power_sum (k + 1) S"
  using reconstruct_loop_ok [of "replicate (n * 2) 0" n 0 "sketch_of n S" S] sketch_of_nth [of _ n S]
  by (auto simp: reconstructSyndromes_def)

section \<open>Linear recurrences\<close>

definition sconv :: "polynomial \<Rightarrow> (nat \<Rightarrow> gf64) \<Rightarrow> nat \<Rightarrow> gf64" where
  "sconv C s j = (\<Sum>i<length C. Gf (C ! i) * s (j - i))"

definition generates :: "polynomial \<Rightarrow> (nat \<Rightarrow> gf64) \<Rightarrow> nat \<Rightarrow> bool" where
  "generates C s n \<longleftrightarrow> C \<noteq> [] \<and> C ! 0 = 1 \<and> (\<forall>j. length C - 1 \<le> j \<and> j < n \<longrightarrow> sconv C s j = 0)"

lemma generates_mono: "generates C s n \<Longrightarrow> m \<le> n \<Longrightarrow> generates C s m"
  by (auto simp: generates_def)

lemma generates_Suc: "generates C s n \<Longrightarrow> sconv C s n = 0 \<Longrightarrow> generates C s (Suc n)"
  by (auto simp: generates_def less_Suc_eq)

text \<open>A recurrence that fails at \<open>n\<close> forces every recurrence for one more term to be long.\<close>

lemma recurrence_length:
  assumes C: "generates C s n" "length C - 1 \<le> n" "sconv C s n \<noteq> 0" and D: "generates D s (Suc n)"
  shows "n + 3 \<le> length C + length D"
proof (rule ccontr)
  assume "\<not> n + 3 \<le> length C + length D"
  then have short: "length C + length D \<le> n + 2" by simp
  have ne: "0 < length C" "0 < length D" "D ! 0 = 1" using C(1) D by (auto simp: generates_def)
  have "(\<Sum>i<length C. \<Sum>k<length D. Gf (C ! i) * (Gf (D ! k) * s (n - i - k))) = 0"
  proof (rule sum.neutral, safe)
    fix i assume "i < length C"
    then have "length D - 1 \<le> n - i" using short by linarith
    then have "sconv D s (n - i) = 0" using D by (auto simp: generates_def)
    then show "(\<Sum>k<length D. Gf (C ! i) * (Gf (D ! k) * s (n - i - k))) = 0"
      by (simp add: sconv_def flip: sum_distrib_left)
  qed
  moreover have "(\<Sum>k<length D. Gf (D ! k) * sconv C s (n - k)) =
      (\<Sum>k<length D. \<Sum>i<length C. Gf (C ! i) * (Gf (D ! k) * s (n - i - k)))"
    by (simp add: sconv_def sum_distrib_left mult_ac add_ac)
  moreover have "(\<Sum>k<length D. Gf (D ! k) * sconv C s (n - k)) = sconv C s n"
  proof -
    have "sconv C s (n - k) = 0" if "k \<in> {..<length D} - {0}" for k
    proof -
      have "0 < k" "k < length D" using that by auto
      then have "length C - 1 \<le> n - k" "n - k < n" using short ne(1,2) C(2) by linarith+
      then show ?thesis using C(1) by (auto simp: generates_def)
    qed
    then have "(\<Sum>k\<in>{..<length D} - {0}. Gf (D ! k) * sconv C s (n - k)) = 0" by (intro sum.neutral) auto
    moreover have "(\<Sum>k<length D. Gf (D ! k) * sconv C s (n - k)) =
        Gf (D ! 0) * sconv C s (n - 0) + (\<Sum>k\<in>{..<length D} - {0}. Gf (D ! k) * sconv C s (n - k))"
      by (rule sum.remove) (use ne in auto)
    ultimately show ?thesis by (simp only: ne(3) Gf_simps(2) mult_1_left minus_nat.diff_0 add_0_right)
  qed
  ultimately have "sconv C s n = 0"
    using sum.swap [of "\<lambda>i k. Gf (C ! i) * (Gf (D ! k) * s (n - i - k))" "{..<length D}" "{..<length C}"] by simp
  then show False using C(3) by simp
qed

lemma bm_discrepancy_eq:
  assumes "generates C s m" "length C - 1 \<le> n" and syn: "\<And>j. j \<le> n \<Longrightarrow> Gf (syn ! j) = s j"
  shows "Gf (bm_discrepancy syn C n) = sconv C s n"
proof -
  have f: "Gf (foldl (\<lambda>d i. if i = 0 \<or> n < i then d else d XOR Mul (syn ! (n - i)) (C ! i)) d [0..<k]) =
      Gf d + (\<Sum>i<k. if i = 0 \<or> n < i then 0 else Gf (C ! i) * s (n - i))" for d k
    by (induction k) (auto simp: Gf_xor Gf_Mul syn add_ac mult.commute)
  have ne: "C \<noteq> []" "C ! 0 = 1" using assms(1) by (auto simp: generates_def)
  have "(\<Sum>i<length C. Gf (C ! i) * s (n - i)) =
      s n + (\<Sum>i\<in>{..<length C} - {0}. Gf (C ! i) * s (n - i))"
    using sum.remove [of "{..<length C}" 0 "\<lambda>i. Gf (C ! i) * s (n - i)"] ne by simp
  also have "(\<Sum>i\<in>{..<length C} - {0}. Gf (C ! i) * s (n - i)) =
      (\<Sum>i<length C. if i = 0 \<or> n < i then 0 else Gf (C ! i) * s (n - i))"
    using assms(2) by (intro sum.mono_neutral_cong_left) auto
  finally show ?thesis using syn [of n] by (simp add: bm_discrepancy_def f sconv_def)
qed

section \<open>The loop keeps a shortest recurrence\<close>

definition bm_inv :: "(nat \<Rightarrow> gf64) \<Rightarrow> nat \<Rightarrow> bm_state \<Rightarrow> bool" where
  "bm_inv s n st \<longleftrightarrow> generates (current st) s n \<and> length (current st) \<le> n + 1 \<and>
     (\<forall>D. generates D s n \<longrightarrow> length (current st) \<le> length D) \<and> previousDiscrepancy st \<noteq> 0 \<and>
     (length (current st) = 1 \<and> previous st = [1] \<or>
      (\<exists>m<n. length (current st) + length (previous st) = m + 3 \<and> generates (previous st) s m \<and>
         length (previous st) \<le> m + 1 \<and> sconv (previous st) s m = Gf (previousDiscrepancy st)))"

text \<open>The update of the recurrence: \<open>q\<close> is \<open>C\<close> plus \<open>k\<close> times \<open>B\<close> moved by \<open>sh\<close>.\<close>

definition combines :: "polynomial \<Rightarrow> polynomial \<Rightarrow> nat \<Rightarrow> gf64 \<Rightarrow> polynomial \<Rightarrow> bool" where
  "combines C B sh k q \<longleftrightarrow> length C \<le> length q \<and> sh + length B \<le> length q \<and>
     (\<forall>i<length q. Gf (q ! i) = (if i < length C then Gf (C ! i) else 0) +
        (if sh \<le> i \<and> i < sh + length B then k * Gf (B ! (i - sh)) else 0))"

lemma combines_sconv:
  assumes "combines C B sh k q"
  shows "sconv q s j = sconv C s j + k * sconv B s (j - sh)"
proof -
  note q = assms [unfolded combines_def]
  have "sconv q s j = (\<Sum>i<length q. (if i < length C then Gf (C ! i) * s (j - i) else 0) +
      (if sh \<le> i \<and> i < sh + length B then k * Gf (B ! (i - sh)) * s (j - i) else 0))"
    unfolding sconv_def using q by (intro sum.cong) (auto simp: algebra_simps)
  also have "\<dots> = (\<Sum>i<length q. if i < length C then Gf (C ! i) * s (j - i) else 0) +
      (\<Sum>i<length q. if sh \<le> i \<and> i < sh + length B then k * Gf (B ! (i - sh)) * s (j - i) else 0)"
    by (rule sum.distrib)
  also have "(\<Sum>i<length q. if i < length C then Gf (C ! i) * s (j - i) else 0) = sconv C s j"
    unfolding sconv_def using q by (intro sum.mono_neutral_cong_right) auto
  also have "(\<Sum>i<length q. if sh \<le> i \<and> i < sh + length B then k * Gf (B ! (i - sh)) * s (j - i) else 0) =
      (\<Sum>i\<in>{sh..<sh + length B}. k * Gf (B ! (i - sh)) * s (j - i))"
    using q by (intro sum.mono_neutral_cong_right) auto
  also have "\<dots> = k * sconv B s (j - sh)"
    by (subst sum.atLeastLessThan_shift_0) (simp add: sconv_def sum_distrib_left mult_ac atLeast0LessThan)
  finally show ?thesis .
qed

lemma combines_head:
  assumes "combines C B sh k q" "1 \<le> sh" "C \<noteq> []" "C ! 0 = 1"
  shows "q \<noteq> []" "q ! 0 = 1"
proof -
  note q = assms(1) [unfolded combines_def]
  show ne: "q \<noteq> []" using q assms(3) by auto
  have "\<not> sh \<le> 0" "0 < length q" "0 < length C" using assms(2,3) ne by simp_all
  then have "Gf (q ! 0) = Gf (C ! 0)" using q by (simp only: simp_thms if_True if_False add_0_right)
  then show "q ! 0 = 1" using assms(4) by (metis Gf_simps(3))
qed

lemma combines_generates:
  assumes inv: "bm_inv s n st" and disc: "Gf d = sconv (current st) s n"
    and q: "combines (current st) (previous st) (n + 3 - length (current st) - length (previous st))
      (Gf d * inverse (Gf (previousDiscrepancy st))) q"
    and len: "length q = max (length (current st)) (n + 3 - length (current st))"
    and sh: "1 \<le> n + 3 - length (current st) - length (previous st)"
  shows "generates q s (Suc n)"
proof -
  let ?C = "current st" and ?B = "previous st" and ?sh = "n + 3 - length (current st) - length (previous st)"
  note I = inv [unfolded bm_inv_def]
  have ne: "?C \<noteq> []" "?C ! 0 = 1" "?B \<noteq> []" using I by (auto simp: generates_def)
  have "sconv q s j = 0" if j: "length q - 1 \<le> j" "j < Suc n" for j
  proof (cases "length ?C = 1 \<and> ?B = [1]")
    case True
    then show ?thesis using j len by simp
  next
    case False
    then obtain m where m: "m < n" "length ?C + length ?B = m + 3" "generates ?B s m"
      "sconv ?B s m = Gf (previousDiscrepancy st)" using I by auto
    have sh': "?sh = n - m" using m(2) by simp
    have "1 \<le> length ?B" "?sh + length ?B \<le> length q" using ne(3) q by (simp_all add: Suc_le_eq combines_def)
    then have j': "length ?C - 1 \<le> j" "length ?B - 1 \<le> j - ?sh" "?sh \<le> j" using j len by linarith+
    show ?thesis
    proof (cases "j = n")
      case True
      then have "j - ?sh = m" using sh' m(1) by simp
      moreover have "Gf (previousDiscrepancy st) \<noteq> 0" using I by simp
      ultimately show ?thesis using True disc m(4) by (simp add: combines_sconv [OF q] mult.assoc)
    next
      case False
      then have "j < n" "j - ?sh < m" using j(2) j'(3) sh' m(1) by linarith+
      moreover have "generates ?C s n" using I by simp
      ultimately have "sconv ?C s j = 0" "sconv ?B s (j - ?sh) = 0"
        using m(3) j'(1,2) unfolding generates_def by blast+
      then show ?thesis by (simp add: combines_sconv [OF q])
    qed
  qed
  then show ?thesis using combines_head [OF q sh ne(1,2)] by (auto simp: generates_def)
qed

lemma bm_inv_step:
  assumes inv: "bm_inv s n st" and syn: "\<And>j. j \<le> n \<Longrightarrow> Gf (syn ! j) = s j"
    and D: "generates D s (Suc n)" "int (length D) \<le> maxDegree + 1"
  shows "\<exists>st'. bm_step syn maxDegree n st = Inr st' \<and> bm_inv s (Suc n) st'"
proof -
  let ?C = "current st" and ?B = "previous st"
  note I = inv [unfolded bm_inv_def]
  have C: "?C \<noteq> []" "?C ! 0 = 1" "length ?C - 1 \<le> n" using I by (auto simp: generates_def)
  have disc: "Gf (bm_discrepancy syn ?C n) = sconv ?C s n"
    using I C(3) syn by (intro bm_discrepancy_eq [of _ _ n]) auto
  show ?thesis
  proof (cases "bm_discrepancy syn ?C n = 0")
    case True
    then have "sconv ?C s n = 0" using disc by simp
    then have "generates ?C s (Suc n)" using I by (intro generates_Suc) auto
    then have "bm_inv s (Suc n) st"
      using I by (auto simp: bm_inv_def intro: less_SucI dest: generates_mono [of _ s "Suc n" n])
    then show ?thesis using True by (simp add: bm_step_def)
  next
    case nz: False
    let ?d = "bm_discrepancy syn ?C n" and ?sh = "n + 3 - length ?C - length ?B"
    have B: "?B \<noteq> []" "length ?C + length ?B \<le> n + 2" using I by (auto simp: generates_def)
    obtain q where q: "length q = max (length ?C) (n + 3 - length ?C)" "1 \<le> ?sh" "?sh + length ?B \<le> length q"
      "\<And>i. i < length q \<Longrightarrow> Gf (q ! i) = (if i < length ?C then Gf (?C ! i) else 0) +
        (if ?sh \<le> i \<and> i < ?sh + length ?B then Gf ?d * inverse (Gf (previousDiscrepancy st)) * Gf (?B ! (i - ?sh)) else 0)"
      "bm_step syn maxDegree n st =
        (if (length ?C - 1) * 2 \<le> n \<and> int n + 2 - int (length ?C) > maxDegree then Inl ErrDecodeFailure
         else Inr (if (length ?C - 1) * 2 \<le> n then \<lparr>current = q, previous = ?C, previousDiscrepancy = ?d\<rparr>
                   else st\<lparr>current := q\<rparr>))"
      using bm_step_form [of st n syn ?d maxDegree] C(1) B I nz by blast
    have long: "length q \<le> length E" if "generates E s (Suc n)" for E
    proof -
      have "n + 3 \<le> length ?C + length E"
        using I C(3) disc nz that by (intro recurrence_length [of _ s]) auto
      moreover have "length ?C \<le> length E" using I that generates_mono [of E s "Suc n" n] by auto
      ultimately show ?thesis using q(1) by simp
    qed
    have step: "bm_step syn maxDegree n st =
        Inr (if (length ?C - 1) * 2 \<le> n then \<lparr>current = q, previous = ?C, previousDiscrepancy = ?d\<rparr> else st\<lparr>current := q\<rparr>)"
      using q(5) long [OF D(1)] D(2) q(1) by auto
    have "combines ?C ?B ?sh (Gf ?d * inverse (Gf (previousDiscrepancy st))) q"
      using q(1,3,4) by (simp add: combines_def)
    then have gen: "generates q s (Suc n)" using combines_generates [OF inv disc _ q(1,2)] by blast
    have len: "length q \<le> Suc n + 1" using q(1) C(1) I by (auto simp: Suc_le_eq)
    show ?thesis
    proof (cases "(length ?C - 1) * 2 \<le> n")
      case True
      then have "length q + length ?C = n + 3" using q(1) C(1) by (auto simp: max_def)
      then have "bm_inv s (Suc n) \<lparr>current = q, previous = ?C, previousDiscrepancy = ?d\<rparr>"
        using gen len long nz I disc by (auto simp: bm_inv_def)
      then show ?thesis using step True by simp
    next
      case False
      then have "length q = length ?C" "length ?C \<noteq> 1" using q(1) by auto
      then have "bm_inv s (Suc n) (st\<lparr>current := q\<rparr>)"
        using gen len long I by (auto simp: bm_inv_def intro: less_SucI)
      then show ?thesis using step False by simp
    qed
  qed
qed

lemma bm_inv_loop:
  assumes syn: "\<And>j. j < n + k \<Longrightarrow> Gf (syn ! j) = s j"
    and D: "generates D s (n + k)" "int (length D) \<le> maxDegree + 1"
  shows "bm_inv s n st \<Longrightarrow> \<exists>st'. bm_loop syn maxDegree [n..<n + k] st = Inr st' \<and> bm_inv s (n + k) st'"
  using assms
proof (induction k arbitrary: n st)
  case (Suc k)
  have u: "[n..<n + Suc k] = n # [Suc n..<Suc n + k]" by (simp add: upt_conv_Cons del: upt_Suc)
  obtain st' where st': "bm_step syn maxDegree n st = Inr st'" "bm_inv s (Suc n) st'"
    using bm_inv_step [of s n st syn D maxDegree] Suc.prems generates_mono [of D s "n + Suc k" "Suc n"] by auto
  have "\<exists>st''. bm_loop syn maxDegree [Suc n..<Suc n + k] st' = Inr st'' \<and> bm_inv s (Suc n + k) st''"
    by (rule Suc.IH [OF st'(2)]) (use Suc.prems in auto)
  then show ?case unfolding u bm_loop.simps st'(1) by simp
qed simp

section \<open>The locator\<close>

text \<open>On power sums a recurrence is a combination of the values of the reversed polynomial.\<close>

lemma sconv_power_sums:
  assumes "length C - 1 \<le> j" "C \<noteq> []"
  shows "sconv C (\<lambda>k. \<Sum>x\<in>R. x ^ (k + 1)) j = (\<Sum>x\<in>R. peval (rev C) x * x ^ (j + 2 - length C))"
proof -
  have "sconv C (\<lambda>k. \<Sum>x\<in>R. x ^ (k + 1)) j = (\<Sum>x\<in>R. \<Sum>i<length C. Gf (C ! i) * x ^ (j - i + 1))"
    unfolding sconv_def sum_distrib_left by (rule sum.swap)
  also have "\<dots> = (\<Sum>x\<in>R. peval (rev C) x * x ^ (j + 2 - length C))"
  proof (rule sum.cong [OF refl])
    fix x
    have "(\<Sum>i<length C. Gf (C ! i) * x ^ (j - i + 1)) =
        (\<Sum>i<length C. Gf (C ! (length C - Suc i)) * x ^ (j - (length C - Suc i) + 1))"
      by (rule sum.nat_diff_reindex [symmetric])
    also have "\<dots> = (\<Sum>i<length C. Gf (rev C ! i) * x ^ i * x ^ (j + 2 - length C))"
    proof (rule sum.cong [OF refl])
      fix i assume i: "i \<in> {..<length C}"
      then have "j - (length C - Suc i) + 1 = i + (j + 2 - length C)" using assms by simp
      then show "Gf (C ! (length C - Suc i)) * x ^ (j - (length C - Suc i) + 1) =
          Gf (rev C ! i) * x ^ i * x ^ (j + 2 - length C)"
        using i by (simp only: power_add rev_nth lessThan_iff mult.assoc)
    qed
    finally show "(\<Sum>i<length C. Gf (C ! i) * x ^ (j - i + 1)) = peval (rev C) x * x ^ (j + 2 - length C)"
      by (simp add: peval_sum sum_distrib_right)
  qed
  finally show ?thesis .
qed

lemma berlekampMassey_locator:
  assumes S: "finite S" "0 \<notin> S" "card S \<le> n" "int (card S) \<le> maxDegree"
  shows "\<exists>c. berlekampMassey (reconstructSyndromes (sketch_of n S)) maxDegree = Inr c \<and> splits (rev c) (Gf ` S)"
proof -
  let ?R = "Gf ` S" and ?syn = "reconstructSyndromes (sketch_of n S)"
  let ?s = "\<lambda>k. \<Sum>x\<in>?R. x ^ (k + 1)"
  have R: "finite ?R" "0 \<notin> ?R" "card ?R = card S"
    using S(1,2) by (auto simp: card_image inj_on_def)
  have syn: "Gf (?syn ! j) = ?s j" if "j < 2 * n" for j
    using reconstructSyndromes_ok(2) [OF that] by (simp add: power_sum_Gf)
  obtain p where p: "length p = card ?R + 1" "last p = 1" "\<And>b. peval p b = (\<Prod>x\<in>?R. b + x)"
    using locator_exists [OF R(1)] by blast
  have D: "generates (rev p) ?s (2 * n)"
  proof -
    have ne: "p \<noteq> []" using p(1) by auto
    have "peval p x = 0" if "x \<in> ?R" for x using that R(1) unfolding p(3) by (intro prod_zero bexI [of _ x]) auto
    then have "sconv (rev p) ?s j = 0" if "length p - 1 \<le> j" for j
      using sconv_power_sums [of "rev p" j ?R] that ne by (simp add: sum.neutral)
    then show ?thesis using p(2) ne by (simp add: generates_def rev_nth last_conv_nth)
  qed
  have init: "bm_inv ?s 0 \<lparr>current = [1], previous = [1], previousDiscrepancy = 1\<rparr>"
    by (auto simp: bm_inv_def generates_def Suc_le_eq)
  obtain st where st: "bm_loop ?syn maxDegree [0..<2 * n] \<lparr>current = [1], previous = [1], previousDiscrepancy = 1\<rparr> = Inr st"
    "bm_inv ?s (2 * n) st"
    using bm_inv_loop [of 0 "2 * n" ?syn ?s "rev p" maxDegree, OF _ _ _ init] syn D p(1) R(3) S(4) by auto
  let ?C = "current st"
  have C: "?C \<noteq> []" "?C ! 0 = 1" "generates ?C ?s (2 * n)" "length ?C \<le> card ?R + 1"
    using st(2) D p(1) by (auto simp: bm_inv_def generates_def)
  have zero: "peval (rev ?C) x = 0" if "x \<in> ?R" for x
  proof (rule weighted_power_sums_zero [OF R(1,2) order_refl that])
    fix k assume k: "1 \<le> k" "k \<le> card ?R"
    let ?j = "length ?C + k - 2"
    have j: "length ?C - 1 \<le> ?j" "?j < 2 * n" "?j + 2 - length ?C = k"
    proof -
      have "1 \<le> length ?C" using C(1) by (simp add: Suc_le_eq)
      then show "length ?C - 1 \<le> ?j" "?j < 2 * n" "?j + 2 - length ?C = k" using k C(4) R(3) S(3) by linarith+
    qed
    then have "sconv ?C ?s ?j = 0" using C(3) by (auto simp: generates_def)
    then show "(\<Sum>x\<in>?R. peval (rev ?C) x * x ^ k) = 0"
      using sconv_power_sums [OF j(1) C(1), of ?R] j(3) by simp
  qed
  have "last (rev ?C) = 1" using C(1,2) by (simp add: last_rev hd_conv_nth)
  moreover from this have "card ?R < length (rev ?C)"
    using C(1) zero R(1) by (intro roots_bound) auto
  ultimately have sp: "splits (rev ?C) ?R" using R zero C(4) by (simp add: splits_def)
  have "Gf (last ?C) \<noteq> 0"
  proof -
    have "peval (rev ?C) 0 = Gf (last ?C)" using C(1) by (cases "?C" rule: rev_cases) auto
    then show ?thesis using splits_at_0 [OF sp] by simp
  qed
  then have "berlekampMassey ?syn maxDegree = Inr ?C"
    using st(1) C(1) by (simp add: berlekampMassey_def reconstructSyndromes_ok(1))
  with sp show ?thesis by blast
qed

end
