(* ===== verification/Quadratic.thy ===== *)
theory Quadratic
  imports FieldPoly
begin

text \<open>
  \<open>solveQuadraticForm\<close> of \<open>reconcile/pinsketch.go\<close>: the Gaussian elimination over 64 rows of bits keeps the
  solutions, ends in echelon form, and so finds a solution of \<open>y^2 + y = t\<close> exactly when there is one.
\<close>

section \<open>Systems of equations over bits\<close>

lemma of_nat_gf64: "(of_nat n :: gf64) = of_bool (odd n)"
  by (induction n) auto

lemma of_bool_neq: "(of_bool (p \<noteq> q) :: gf64) = of_bool p + of_bool q"
  by auto

lemma of_bool_gf64_eq [simp]: "(of_bool p :: gf64) = of_bool q \<longleftrightarrow> p = q"
  by auto

definition par :: "u64 \<Rightarrow> u64 \<Rightarrow> gf64" where
  "par a x = (\<Sum>i<64. of_bool (bit a i \<and> bit x i))"

lemma par_xor: "par (a XOR b) x = par a x + par b x"
  by (auto simp: par_def bit_xor_iff of_bool_def simp flip: sum.distrib intro!: sum.cong)

lemma par_0 [simp]: "par 0 x = 0"
  by (simp add: par_def)

definition sat :: "u64 \<Rightarrow> row \<Rightarrow> bool" where
  "sat x r \<longleftrightarrow> par (coefficients r) x = of_bool (rhs r)"

lemma sat_xor_row: "sat x p \<Longrightarrow> sat x (xor_row r p) \<longleftrightarrow> sat x r"
  by (simp add: sat_def xor_row_def par_xor of_bool_neq gf64_add_eq_0 del: of_bool_gf64_eq)

lemma and_bit: "k < 64 \<Longrightarrow> (w :: u64) AND push_bit k 1 \<noteq> 0 \<longleftrightarrow> bit w k"
  by (simp add: and_exp_eq_0_iff_not_bit)

lemma bit_foldl_or:
  "bit (foldl (\<lambda>c column. if P column then c OR push_bit column 1 else c) (w :: u64) [0..<n]) i \<longleftrightarrow>
   bit w i \<or> i < n \<and> i < 64 \<and> P i"
  by (induction n) (auto simp: bit_or_iff bit_push_bit_iff bit_1_iff less_Suc_eq dest: bit_imp_le_length simp del: push_bit_of_1)

lemma quadratic_rows_nth:
  assumes "r < 64"
  shows "i < 64 \<Longrightarrow> bit (coefficients (quadratic_rows t ! r)) i \<longleftrightarrow> bit (quadratic_image i) r"
    and "rhs (quadratic_rows t ! r) \<longleftrightarrow> bit t r"
  using assms by (simp_all add: quadratic_rows_def bit_foldl_or and_bit del: push_bit_of_1)

lemma quadratic_image_sum: "Gf x ^ 2 + Gf x = (\<Sum>i<64. if bit x i then Gf (quadratic_image i) else 0)"
proof -
  have im: "Gf (quadratic_image i) = (X ^ i) ^ 2 + X ^ i" if "i < 64" for i
  proof -
    have "Gf (push_bit i 1) = X ^ i" using word_of_xpow_1 [OF that] by (metis xpow_X mult_1_right Gf_word_of)
    then show ?thesis by (simp add: quadratic_image_def Let_def Gf_xor Gf_Mul power2_eq_square del: push_bit_of_1)
  qed
  have x: "Gf x = (\<Sum>i<64. if bit x i then X ^ i else 0)" by (subst basis_X) (simp add: coeff_def)
  then have "Gf x ^ 2 = (\<Sum>i<64. (if bit x i then X ^ i else 0) ^ 2)"
    using frobenius_sum [of "\<lambda>i. if bit x i then X ^ i else 0" "{..<64}" 1] by simp
  then have "Gf x ^ 2 + Gf x = (\<Sum>i<64. (if bit x i then X ^ i else 0) ^ 2 + (if bit x i then X ^ i else 0))"
    by (subst (2) x) (simp add: sum.distrib)
  then show ?thesis using im by (auto intro!: sum.cong)
qed

text \<open>The rows are the bits of the equation.\<close>

lemma quadratic_rows_sat: "(\<forall>r<64. sat x (quadratic_rows t ! r)) \<longleftrightarrow> Gf x ^ 2 + Gf x = Gf t"
proof -
  have "sat x (quadratic_rows t ! r) \<longleftrightarrow> coeff (Gf x ^ 2 + Gf x) r = coeff (Gf t) r" if r: "r < 64" for r
  proof -
    have "coeff (Gf x ^ 2 + Gf x) r = odd (card {i\<in>{..<64}. coeff (if bit x i then Gf (quadratic_image i) else 0) r})"
      unfolding quadratic_image_sum by (rule coeff_sum) simp
    also have "{i\<in>{..<64}. coeff (if bit x i then Gf (quadratic_image i) else 0) r} =
        {i\<in>{..<64}. bit (coefficients (quadratic_rows t ! r)) i \<and> bit x i}"
      using r by (auto simp: coeff_def quadratic_rows_nth zero_gf64.rep_eq split: if_splits)
    also have "of_bool (odd (card \<dots>)) = par (coefficients (quadratic_rows t ! r)) x"
      by (simp add: par_def of_bool_def sum.If_cases of_nat_gf64 Int_def)
    finally have "par (coefficients (quadratic_rows t ! r)) x = of_bool (coeff (Gf x ^ 2 + Gf x) r)" by simp
    then show ?thesis using r by (simp add: sat_def quadratic_rows_nth coeff_def)
  qed
  then show ?thesis by (auto intro: gf64_eqI)
qed

section \<open>Elimination\<close>

text \<open>After \<open>c\<close> columns the first \<open>rank\<close> rows have pivots that no other row has, and the others are zero there.\<close>

definition echelon :: "nat \<Rightarrow> row list \<Rightarrow> nat \<Rightarrow> (nat \<Rightarrow> nat) \<Rightarrow> bool" where
  "echelon c rows rank piv \<longleftrightarrow> length rows = 64 \<and> rank \<le> 64 \<and>
     (\<forall>r<rank. piv r < c \<and> bit (coefficients (rows ! r)) (piv r) \<and>
        (\<forall>r'<64. r' \<noteq> r \<longrightarrow> \<not> bit (coefficients (rows ! r')) (piv r)) \<and>
        (\<forall>k<piv r. \<not> bit (coefficients (rows ! r)) k)) \<and>
     (\<forall>r. rank \<le> r \<and> r < 64 \<longrightarrow> (\<forall>k<c. \<not> bit (coefficients (rows ! r)) k))"

text \<open>The rows \<open>f\<close> after one column: row \<open>p\<close> moved up to \<open>rank\<close> by \<open>\<sigma>\<close> and added to the others that have the bit.\<close>

lemma echelon_column:
  assumes e: "echelon c rows rank piv" and p: "rank \<le> p" "p < 64" "bit (coefficients (rows ! p)) c" and rank: "rank < 64"
    and s: "\<And>r. r < 64 \<Longrightarrow> \<sigma> r < 64" "\<And>r. r < 64 \<Longrightarrow> rank \<le> r \<Longrightarrow> rank \<le> \<sigma> r" "\<sigma> rank = p"
      "\<And>r r'. r < 64 \<Longrightarrow> r' < rank \<Longrightarrow> \<sigma> r = r' \<longleftrightarrow> r = r'"
    and fb: "\<And>r k. r < 64 \<Longrightarrow> bit (coefficients (f r)) k \<longleftrightarrow>
      bit (coefficients (rows ! \<sigma> r)) k \<noteq> (r \<noteq> rank \<and> bit (coefficients (rows ! \<sigma> r)) c \<and> bit (coefficients (rows ! p)) k)"
  shows "echelon (Suc c) (map f [0..<64]) (rank + 1) (piv(rank := c))"
proof -
  have low: "\<not> bit (coefficients (rows ! r)) k" if "rank \<le> r" "r < 64" "k < c" for r k
    using e that by (auto simp: echelon_def)
  have piv: "piv r < c" "bit (coefficients (rows ! r)) (piv r)" "r' < 64 \<Longrightarrow> r' \<noteq> r \<Longrightarrow> \<not> bit (coefficients (rows ! r')) (piv r)"
      "k < piv r \<Longrightarrow> \<not> bit (coefficients (rows ! r)) k" if "r < rank" for r r' k
    using e that by (auto simp: echelon_def)
  have pz: "\<not> bit (coefficients (rows ! p)) k" if "k < c" for k using low p that by blast
  have col: "\<not> bit (coefficients (f r)) c" if "r < 64" "r \<noteq> rank" for r
    using fb [OF that(1), of c] that(2) p(3) by blast
  show ?thesis
    unfolding echelon_def
  proof (intro conjI allI impI)
    show "length (map f [0..<64]) = 64" by simp
    show "rank + 1 \<le> 64" using rank by simp
  next
    fix r assume "r < rank + 1"
    then consider "r = rank" | "r < rank" by linarith
    note cases = this
    then show "(piv(rank := c)) r < Suc c" using piv(1) [of r] by cases auto
    show "bit (coefficients (map f [0..<64] ! r)) ((piv(rank := c)) r)"
      using cases
    proof cases
      case 2
      then have "\<sigma> r = r" "\<not> bit (coefficients (rows ! p)) (piv r)" using s(4) [of r r] 2 rank pz piv(1) by auto
      then show ?thesis using fb [of r "piv r"] piv(2) [OF 2] 2 rank by simp
    qed (use fb [OF rank] p(3) rank s(3) in simp)
    fix r' assume r': "r' < (64 :: nat)" "r' \<noteq> r"
    show "\<not> bit (coefficients (map f [0..<64] ! r')) ((piv(rank := c)) r)"
      using cases
    proof cases
      case 2
      then have "\<sigma> r' \<noteq> r" using s(4) [OF r'(1) 2] r'(2) by blast
      then have "\<not> bit (coefficients (rows ! \<sigma> r')) (piv r)" using piv(3) [OF 2] s(1) [OF r'(1)] by blast
      then show ?thesis using fb [OF r'(1), of "piv r"] pz [OF piv(1) [OF 2]] r'(1) 2 by simp
    qed (use col r' in simp)
  next
    fix r k assume "r < rank + 1" "k < (piv(rank := c)) r"
    then consider "r = rank" "k < c" | "r < rank" "k < piv r" by (cases "r = rank") auto
    then show "\<not> bit (coefficients (map f [0..<64] ! r)) k"
    proof cases
      case 1
      then show ?thesis using fb [OF rank, of k] pz s(3) rank by simp
    next
      case 2
      then have "k < c" "\<sigma> r = r" using piv(1) [of r] s(4) [of r r] rank by auto
      then show ?thesis using fb [of r k] pz piv(4) [OF 2] 2(1) rank by simp
    qed
  next
    fix r k assume r: "rank + 1 \<le> r \<and> r < 64" "k < Suc c"
    then have f: "r < 64" "r \<noteq> rank" "rank \<le> \<sigma> r" using s(2) by auto
    show "\<not> bit (coefficients (map f [0..<64] ! r)) k"
    proof (cases "k = c")
      case False
      then have "k < c" using r by simp
      then show ?thesis using fb [OF f(1), of k] pz low [OF f(3) s(1) [OF f(1)]] f(1) by simp
    qed (use col f in simp)
  qed
qed

lemma eliminate_step:
  assumes e: "echelon c rows rank piv" and c: "c < 64"
  shows "\<exists>rows' rank' piv'. eliminate c (rows, rank) = (rows', rank') \<and> echelon (Suc c) rows' rank' piv' \<and>
    ((\<forall>r<64. sat x (rows' ! r)) \<longleftrightarrow> (\<forall>r<64. sat x (rows ! r)))"
proof (cases "find (\<lambda>r. coefficients (rows ! r) AND push_bit c 1 \<noteq> 0) [rank..<64]")
  case None
  then have "\<not> bit (coefficients (rows ! r)) c" if "rank \<le> r" "r < 64" for r
    using that c by (simp add: find_None_iff and_bit del: push_bit_of_1)
  then have "echelon (Suc c) rows rank piv"
    using e by (auto simp: echelon_def less_Suc_eq)
  then show ?thesis using None by (auto simp: eliminate_def)
next
  case (Some p)
  then have p: "rank \<le> p" "p < 64" "bit (coefficients (rows ! p)) c"
    using c by (auto simp: find_Some_iff and_bit simp del: push_bit_of_1)
  have len: "length rows = 64" and rank: "rank < 64" using e p by (auto simp: echelon_def)
  define rows1 where "rows1 = rows[rank := rows ! p, p := rows ! rank]"
  define f where "f r = (if r \<noteq> rank \<and> bit (coefficients (rows1 ! r)) c
    then xor_row (rows1 ! r) (rows1 ! rank) else rows1 ! r)" for r
  have el: "eliminate c (rows, rank) = (map f [0..<64], rank + 1)"
    using Some c by (simp add: eliminate_def rows1_def f_def Let_def and_bit del: push_bit_of_1 cong: map_cong)
  have r1: "rows1 ! r = (if r = rank then rows ! p else if r = p then rows ! rank else rows ! r)" if "r < 64" for r
    using that len rank p by (auto simp: rows1_def nth_list_update)
  define \<sigma> where "\<sigma> r = (if r = rank then p else if r = p then rank else r)" for r
  have s: "rows1 ! r = rows ! \<sigma> r" "\<sigma> r < 64" "rank \<le> r \<Longrightarrow> rank \<le> \<sigma> r" "r' < rank \<Longrightarrow> \<sigma> r = r' \<longleftrightarrow> r = r'" if "r < 64" for r r'
    using that r1 rank p by (auto simp: \<sigma>_def)
  have fb: "bit (coefficients (f r)) k \<longleftrightarrow>
      bit (coefficients (rows ! \<sigma> r)) k \<noteq> (r \<noteq> rank \<and> bit (coefficients (rows ! \<sigma> r)) c \<and> bit (coefficients (rows ! p)) k)"
    if "r < 64" for r k
    using s(1) [OF that] s(1) [OF rank] by (auto simp: f_def xor_row_def bit_xor_iff \<sigma>_def)
  have "echelon (Suc c) (map f [0..<64]) (rank + 1) (piv(rank := c))"
    by (rule echelon_column [OF e p rank, of \<sigma>]) (use s fb in \<open>auto simp: \<sigma>_def\<close>)
  moreover have "(\<forall>r<64. sat x (map f [0..<64] ! r)) \<longleftrightarrow> (\<forall>r<64. sat x (rows ! r))"
  proof -
    have "sat x (f r) \<longleftrightarrow> sat x (rows1 ! r)" if "sat x (rows1 ! rank)" for r
      using that by (simp add: f_def sat_xor_row)
    moreover have "f rank = rows1 ! rank" by (simp add: f_def)
    ultimately have "(\<forall>r<64. sat x (f r)) \<longleftrightarrow> (\<forall>r<64. sat x (rows1 ! r))" using rank by metis
    also have "\<dots> \<longleftrightarrow> (\<forall>r<64. sat x (rows ! r))"
      using r1 rank p by (auto simp: all_conj_distrib) metis+
    finally show ?thesis by simp
  qed
  ultimately show ?thesis unfolding el by blast
qed

text \<open>After all columns.\<close>

lemma eliminate_all:
  "n \<le> 64 \<Longrightarrow> \<exists>rows rank piv. foldl (\<lambda>s column. eliminate column s) (quadratic_rows t, 0) [0..<n] = (rows, rank) \<and>
     echelon n rows rank piv \<and> ((\<forall>r<64. sat x (rows ! r)) \<longleftrightarrow> Gf x ^ 2 + Gf x = Gf t)"
proof (induction n)
  case 0
  have "echelon 0 (quadratic_rows t) 0 (\<lambda>_. 0)" by (simp add: echelon_def quadratic_rows_def)
  then show ?case using quadratic_rows_sat [of x t] by auto
next
  case (Suc n)
  then obtain rows rank piv where IH: "foldl (\<lambda>s column. eliminate column s) (quadratic_rows t, 0) [0..<n] = (rows, rank)"
    "echelon n rows rank piv" "(\<forall>r<64. sat x (rows ! r)) \<longleftrightarrow> Gf x ^ 2 + Gf x = Gf t" by auto
  with eliminate_step [OF IH(2), of x] Suc.prems show ?case by auto
qed

lemma trailing_zeros_pivot:
  assumes "bit w k" "\<forall>j<k. \<not> bit w j"
  shows "TrailingZeros64 w = k"
proof -
  have k: "k < 64" using bit_imp_le_length [OF assms(1)] by simp
  then have "[0..<64] = [0..<k] @ k # [Suc k..<64]"
    by (metis le_add_diff_inverse less_imp_le_nat upt_add_eq_append upt_conv_Cons zero_le)
  moreover have "takeWhile (\<lambda>i. \<not> bit w i) ([0..<k] @ k # [Suc k..<64]) = [0..<k] @ takeWhile (\<lambda>i. \<not> bit w i) (k # [Suc k..<64])"
    using assms(2) by (intro takeWhile_append2) auto
  ultimately show ?thesis using assms(1) by (simp add: TrailingZeros64_def)
qed

lemma read_solution_ok:
  assumes "\<forall>r\<in>set rows. coefficients r \<noteq> 0"
  shows "\<exists>sol. read_solution rows s = Inr sol \<and>
    (\<forall>k. bit sol k \<longleftrightarrow> bit s k \<or> k < 64 \<and> (\<exists>r\<in>set rows. rhs r \<and> TrailingZeros64 (coefficients r) = k))"
  using assms
proof (induction rows arbitrary: s)
  case (Cons r rows)
  let ?s = "if rhs r then s OR push_bit (TrailingZeros64 (coefficients r)) 1 else s"
  have "bit ?s k \<longleftrightarrow> bit s k \<or> k < 64 \<and> rhs r \<and> TrailingZeros64 (coefficients r) = k" for k
    by (auto simp: bit_or_iff bit_push_bit_iff bit_1_iff dest: bit_imp_le_length simp del: push_bit_of_1)
  with Cons.IH [of ?s] Cons.prems show ?case by (auto simp del: push_bit_of_1)
qed (auto dest: bit_imp_le_length)

text \<open>The solver returns a solution of the equation exactly when there is one.\<close>

lemma solveQuadraticForm_complete:
  assumes "Gf x ^ 2 + Gf x = Gf t"
  shows "\<exists>y. solveQuadraticForm t = Inr y"
proof -
  obtain rows rank piv where el: "foldl (\<lambda>s column. eliminate column s) (quadratic_rows t, 0) [0..<64] = (rows, rank)"
    "echelon 64 rows rank piv" "(\<forall>r<64. sat x (rows ! r)) \<longleftrightarrow> Gf x ^ 2 + Gf x = Gf t"
    using eliminate_all [of 64 t x] by auto
  have len: "length rows = 64" "rank \<le> 64" using el(2) by (auto simp: echelon_def)
  have piv: "piv r < 64" "bit (coefficients (rows ! r)) (piv r)"
      "r' < 64 \<Longrightarrow> r' \<noteq> r \<Longrightarrow> \<not> bit (coefficients (rows ! r')) (piv r)"
      "TrailingZeros64 (coefficients (rows ! r)) = piv r" if "r < rank" for r r'
    using el(2) that trailing_zeros_pivot [of "coefficients (rows ! r)" "piv r"] by (auto simp: echelon_def)
  have zero: "coefficients (rows ! r) = 0" if "rank \<le> r" "r < 64" for r
    using el(2) that by (intro bit_word_eqI) (auto simp: echelon_def)
  have sx: "sat x (rows ! r)" if "r < 64" for r using el(3) assms that by blast
  have "\<not> rhs (rows ! r)" if "r < 64" "coefficients (rows ! r) = 0" for r
    using sx [OF that(1)] that(2) by (simp add: sat_def)
  then have no: "\<not> list_ex (\<lambda>row. coefficients row = 0 \<and> rhs row) rows"
    using len(1) by (auto simp: list_ex_iff in_set_conv_nth)
  have nz: "coefficients r \<noteq> 0" if r: "r \<in> set (take rank rows)" for r
  proof -
    obtain i where i: "i < rank" "r = rows ! i" using r len by (auto simp: in_set_conv_nth)
    then show ?thesis using piv(2) [OF i(1)] by auto
  qed
  obtain sol where sol: "read_solution (take rank rows) 0 = Inr sol"
    "\<And>k. bit sol k \<longleftrightarrow> k < 64 \<and> (\<exists>r\<in>set (take rank rows). rhs r \<and> TrailingZeros64 (coefficients r) = k)"
    using read_solution_ok [of "take rank rows" 0] nz by auto
  have "set (take rank rows) = (!) rows ` {0..<rank}" using len by (simp add: nth_image)
  then have sb: "bit sol k \<longleftrightarrow> k < 64 \<and> (\<exists>i<rank. rhs (rows ! i) \<and> piv i = k)" for k
    unfolding sol(2) using piv(4) by auto
  have bs: "bit sol (piv r) \<longleftrightarrow> rhs (rows ! r)" if r: "r < rank" for r
  proof -
    have "piv r' \<noteq> piv r" if "r' < rank" "r' \<noteq> r" for r'
      using piv(2) [OF that(1)] piv(3) [OF r, of r'] that len(2) by auto
    then show ?thesis
      unfolding sb using r piv(1) [OF r] by metis
  qed
  have "sat sol (rows ! r)" if r: "r < 64" for r
  proof (cases "r < rank")
    case True
    have "bit (coefficients (rows ! r)) k \<and> bit sol k \<longleftrightarrow> k = piv r \<and> rhs (rows ! r)" if "k < 64" for k
    proof (cases "k = piv r")
      case False
      have "\<not> bit (coefficients (rows ! r)) k" if "bit sol k"
        using that piv(3) r False unfolding sb by metis
      then show ?thesis using False by blast
    qed (use True piv(2) bs in auto)
    then have "par (coefficients (rows ! r)) sol = (\<Sum>k<64. if k = piv r then of_bool (rhs (rows ! r)) else 0)"
      unfolding par_def by (intro sum.cong) auto
    then show ?thesis using piv(1) [OF True] by (simp add: sat_def)
  next
    case False
    then show ?thesis using zero [of r] sx [OF r] r by (simp add: sat_def)
  qed
  then have "Gf sol ^ 2 + Gf sol = Gf t"
    using eliminate_all [of 64 t sol] el(1) by auto
  then have "Mul sol sol XOR sol = t" by (metis Gf_Mul Gf_xor Gf_simps(3) power2_eq_square)
  then show ?thesis
    using el(1) sol(1) no by (simp add: solveQuadraticForm_def)
qed

lemma solveQuadraticForm_sound: "solveQuadraticForm t = Inr y \<Longrightarrow> Gf y ^ 2 + Gf y = Gf t"
  by (auto simp: solveQuadraticForm_def Let_def Gf_Mul Gf_xor power2_eq_square
      split: prod.splits if_splits sum.splits simp flip: Gf_Mul Gf_xor)

section \<open>Properties\<close>

text \<open>The solver of \<open>y^2 + y = t\<close> is complete. It returns a solution when the field has one and fails only
  when no word is a solution.\<close>

theorem solveQuadraticForm_decides:
  "case solveQuadraticForm t of
      Inr y \<Rightarrow> Mul y y XOR y = t
    | Inl e \<Rightarrow> e = ErrDecodeFailure \<and> \<not> (\<exists>x. Mul x x XOR x = t)"
proof (cases "solveQuadraticForm t")
  case (Inl e)
  have "Mul x x XOR x \<noteq> t" for x
  proof
    assume "Mul x x XOR x = t"
    then have "Gf x ^ 2 + Gf x = Gf t" by (metis Gf_Mul Gf_xor power2_eq_square)
    then show False using solveQuadraticForm_complete [of x t] Inl by auto
  qed
  then show ?thesis using Inl softD [OF solveQuadraticForm_soft Inl] by simp
next
  case (Inr y)
  then have "Gf (Mul y y XOR y) = Gf t" using solveQuadraticForm_sound [OF Inr] by (simp add: Gf_Mul Gf_xor power2_eq_square)
  then show ?thesis using Inr by simp
qed

end
