(* ===== verification/Decoding.thy ===== *)
theory Decoding
  imports Locator Quadratic
begin

text \<open>
  The root finder of \<open>reconcile/pinsketch.go\<close> and the decoder as a whole: traces split every product of
  different linear factors, the budget suffices for 16 roots, and what \<open>DecodeElements\<close> returns is exactly
  the set whose sketch it was given.
\<close>

section \<open>The trace polynomial\<close>

lemma polySquare_nth:
  "n \<le> length p \<Longrightarrow> k < length p * 2 - 1 \<Longrightarrow>
   foldl (\<lambda>s i. s[i * 2 := Mul (p ! i) (p ! i)]) (replicate (length p * 2 - 1) 0) [0..<n] ! k =
   (if even k \<and> k div 2 < n then Mul (p ! (k div 2)) (p ! (k div 2)) else 0)"
proof (induction n)
  case (Suc n)
  have len: "length (foldl (\<lambda>s i. s[i * 2 := Mul (p ! i) (p ! i)]) s [0..<m]) = length s" for s m
    by (induction m) simp_all
  have "k div 2 < Suc n \<longleftrightarrow> k div 2 < n \<or> k = n * 2" if "even k" using that by auto
  then show ?case using Suc by (auto simp: nth_list_update len)
qed simp

lemma polySquare_coeff:
  assumes "p \<noteq> []" "k < length p * 2 - 1"
  shows "polySquare p ! k = (if even k \<and> k div 2 < length p then Mul (p ! (k div 2)) (p ! (k div 2)) else 0)"
  unfolding polySquare_def if_not_P [OF assms(1)] by (rule polySquare_nth [OF order_refl assms(2)])

lemma length_polySquare: "length (polySquare p) = length p * 2 - 1"
proof -
  have "length (foldl (\<lambda>s i. s[i * 2 := Mul (p ! i) (p ! i)]) s [0..<m]) = length s" for s m
    by (induction m) simp_all
  then show ?thesis by (simp add: polySquare_def)
qed

lemma peval_polySquare: "peval (polySquare p) a = peval p a ^ 2"
proof (cases "p = []")
  case False
  let ?c = "\<lambda>k. (if even k \<and> k div 2 < length p then Gf (p ! (k div 2)) ^ 2 else 0) * a ^ k"
  have "peval (polySquare p) a = (\<Sum>k<length p * 2 - 1. ?c k)"
    using False unfolding peval_sum length_polySquare
    by (intro sum.cong) (auto simp: polySquare_coeff Gf_Mul power2_eq_square simp del: One_nat_def)
  also have "\<dots> = (\<Sum>k\<in>(\<lambda>i. i * 2) ` {..<length p}. ?c k)"
    using False by (intro sum.mono_neutral_right) (auto simp: image_iff)
  also have "\<dots> = (\<Sum>i<length p. (Gf (p ! i) * a ^ i) ^ 2)"
    by (subst sum.reindex) (auto simp: inj_on_def power_mult power_mult_distrib intro!: sum.cong)
  also have "\<dots> = peval p a ^ 2"
    unfolding peval_sum using frobenius_sum [of "\<lambda>i. Gf (p ! i) * a ^ i" "{..<length p}" 1] by simp
  finally show ?thesis .
qed (simp add: polySquare_def)

lemma trace_step:
  fixes t :: polynomial
  defines "sq \<equiv> polySquare t"
  defines "sq2 \<equiv> (if length sq < 2 then sq @ replicate (2 - length sq) 0 else sq)"
  shows "peval (sq2[1 := \<beta>]) a = peval t a ^ 2 + Gf \<beta> * a"
proof -
  have len: "1 < length sq2" by (simp add: sq2_def)
  have "sq2 ! 1 = 0"
  proof (cases "length sq < 2")
    case True
    then show ?thesis by (cases sq) (auto simp: sq2_def)
  next
    case False
    then have "1 < length t * 2 - 1" "t \<noteq> []" by (auto simp: sq_def length_polySquare)
    then show ?thesis using False polySquare_coeff [of t 1] by (simp add: sq2_def sq_def)
  qed
  moreover have "peval sq2 a = peval t a ^ 2" by (simp add: sq2_def sq_def peval_append peval_polySquare)
  ultimately show ?thesis using peval_update [OF len, of \<beta> a] by simp
qed

lemma trace_round_ok:
  fixes t :: polynomial
  defines "sq \<equiv> polySquare t"
  defines "sq2 \<equiv> (if length sq < 2 then sq @ replicate (2 - length sq) 0 else sq)"
  assumes p: "splits p R" and t: "\<forall>x\<in>R. peval t x = (\<Sum>i<k. (Gf \<beta> * x) ^ (2 ^ i))"
  shows "\<exists>t'. polyMod p (sq2[1 := \<beta>]) = Inr t' \<and> length t' < length p \<and> (t' \<noteq> [] \<longrightarrow> last t' \<noteq> 0) \<and>
    (\<forall>x\<in>R. peval t' x = (\<Sum>i<Suc k. (Gf \<beta> * x) ^ (2 ^ i)))"
proof -
  obtain t' q where t': "polyMod p (sq2[1 := \<beta>]) = Inr t'" "length t' < length p" "t' \<noteq> [] \<longrightarrow> last t' \<noteq> 0"
    "\<And>a. peval (sq2[1 := \<beta>]) a = peval q a * peval p a + peval t' a"
    using polyMod_ok [OF splits_monic [OF p]] by metis
  have "peval t' x = (\<Sum>i<Suc k. (Gf \<beta> * x) ^ (2 ^ i))" if x: "x \<in> R" for x
  proof -
    have "peval p x = 0" using p x by (simp add: splits_def)
    then have "peval t' x = peval t x ^ 2 + Gf \<beta> * x"
      using t'(4) [of x] trace_step [of t \<beta> x] unfolding sq2_def sq_def by simp
    also have "peval t x ^ 2 = (\<Sum>i<k. (Gf \<beta> * x) ^ (2 ^ Suc i))"
      using t x frobenius_sum [of "\<lambda>i. (Gf \<beta> * x) ^ (2 ^ i)" "{..<k}" 1]
      by (simp add: power_mult [symmetric] mult.commute)
    also have "\<dots> + Gf \<beta> * x = (\<Sum>i<Suc k. (Gf \<beta> * x) ^ (2 ^ i))"
      by (simp only: sum.lessThan_Suc_shift) simp
    finally show ?thesis .
  qed
  then show ?thesis using t'(1-3) by blast
qed

lemma trace_loop_ok:
  assumes p: "splits p R"
  shows "\<forall>x\<in>R. peval t x = (\<Sum>i<k. (Gf \<beta> * x) ^ (2 ^ i)) \<Longrightarrow>
    \<exists>t'. trace_loop (Suc n) p \<beta> t = Inr t' \<and> length t' < length p \<and> (t' \<noteq> [] \<longrightarrow> last t' \<noteq> 0) \<and>
      (\<forall>x\<in>R. peval t' x = (\<Sum>i<k + Suc n. (Gf \<beta> * x) ^ (2 ^ i)))"
proof (induction n arbitrary: t k)
  case 0
  from trace_round_ok [OF p 0] show ?case by (auto simp: Let_def)
next
  case (Suc n)
  from trace_round_ok [OF p Suc.prems] obtain t' where
    t': "trace_loop (Suc (Suc n)) p \<beta> t = trace_loop (Suc n) p \<beta> t'"
      "\<forall>x\<in>R. peval t' x = (\<Sum>i<Suc k. (Gf \<beta> * x) ^ (2 ^ i))"
    unfolding trace_loop.simps(2) [of "Suc n"] Let_def by (metis old.sum.simps(6))
  from Suc.IH [OF t'(2)] show ?case unfolding t'(1) by simp
qed

lemma traceMod_ok:
  assumes "splits p R"
  shows "\<exists>t. traceMod p \<beta> = Inr t \<and> length t < length p \<and> (t \<noteq> [] \<longrightarrow> last t \<noteq> 0) \<and>
    (\<forall>x\<in>R. peval t x = trace (Gf \<beta> * x))"
proof -
  have "\<forall>x\<in>R. peval [0, \<beta>] x = (\<Sum>i<1. (Gf \<beta> * x) ^ (2 ^ i))" by (simp add: mult.commute)
  from trace_loop_ok [OF assms this, of 62] show ?thesis
    by (simp add: traceMod_def traceSquares_def trace_def)
qed

section \<open>Splitting\<close>

definition trial_cost :: "nat \<Rightarrow> int" where
  "trial_cost d = int d * int d * 63"

lemma factorTrialCost_ok:
  assumes "d \<le> 1000"
  shows "factorTrialCost (int d) = Inr (trial_cost d)"
proof (cases "d = 0")
  case False
  have "int d * int d \<le> 1000 * 1000" using assms by (intro mult_mono) auto
  moreover have "maxInt div 1000 \<le> maxInt div int d"
    using assms False by (intro zdiv_mono2) (auto simp: maxInt_def)
  ultimately show ?thesis
    using assms False by (simp add: factorTrialCost_def trial_cost_def maxInt_def traceSquares_def Let_def)
qed (simp add: factorTrialCost_def trial_cost_def)

lemma splits_degree: "splits p R \<Longrightarrow> int (length p) - 1 = int (card R)"
  by (simp add: splits_def)

text \<open>One trial: the elements whose trace is zero, and the others, when there are both.\<close>

lemma trial_ok:
  assumes p: "splits p R" and R1: "R1 = {x\<in>R. trace (Gf par1 * x) = 0}"
  shows "\<exists>t g. traceMod p par1 = Inr t \<and> polyGCD p t = Inr g \<and> splits g R1 \<and>
    (1 < length g \<and> length g < length p \<longleftrightarrow> R1 \<noteq> {} \<and> R1 \<noteq> R) \<and>
    (\<exists>q. polyDiv p g = Inr q \<and> splits q (R - R1))"
proof -
  obtain t where t: "traceMod p par1 = Inr t" "length t < length p" "t \<noteq> [] \<longrightarrow> last t \<noteq> 0"
    "\<forall>x\<in>R. peval t x = trace (Gf par1 * x)" using traceMod_ok [OF p] by blast
  obtain g where g: "polyGCD p t = Inr g" "splits g R1"
  proof -
    have "{x\<in>R. peval t x = 0} = R1" using t(4) R1 by auto
    then show ?thesis using polyGCD_splits [OF p t(2,3)] that by auto
  qed
  have "R1 \<subseteq> R" "finite R" using R1 p by (auto simp: splits_def)
  then have "card R1 < card R \<longleftrightarrow> R1 \<noteq> R" by (auto intro: psubset_card_mono)
  moreover have "0 < card R1 \<longleftrightarrow> R1 \<noteq> {}" using \<open>R1 \<subseteq> R\<close> \<open>finite R\<close> by (auto simp: card_gt_0_iff intro: finite_subset)
  ultimately have "1 < length g \<and> length g < length p \<longleftrightarrow> R1 \<noteq> {} \<and> R1 \<noteq> R"
    using g(2) p by (auto simp: splits_def)
  with polyDiv_splits [OF p g(2) \<open>R1 \<subseteq> R\<close>] t(1) g show ?thesis by blast
qed

text \<open>The trials succeed once a basis element separates two roots.\<close>

lemma factor_trials_ok:
  assumes p: "splits p R" and small: "card R \<le> 1000"
    and sep: "k < 64" "x \<in> R" "y \<in> R" "trace (Gf (push_bit k 1) * x) \<noteq> trace (Gf (push_bit k 1) * y)"
  shows "mixedFactorTrials + k \<in> set ts \<Longrightarrow> int (length ts) * trial_cost (card R) \<le> work \<Longrightarrow>
    \<exists>q f R1 work'. factor_trials ts p par1 work = (Inr (q, f), work') \<and> R1 \<subseteq> R \<and> R1 \<noteq> {} \<and> R1 \<noteq> R \<and>
      splits f R1 \<and> splits q (R - R1) \<and> work - int (length ts) * trial_cost (card R) \<le> work' \<and> work' \<le> work"
proof (induction ts arbitrary: par1 work)
  case (Cons t ts)
  define par2 where "par2 = (if t \<ge> mixedFactorTrials then push_bit (t - mixedFactorTrials) 1 else par1)"
  define R1 where "R1 = {x\<in>R. trace (Gf par2 * x) = 0}"
  let ?c = "trial_cost (card R)"
  have c: "0 \<le> ?c" by (simp add: trial_cost_def)
  have cost: "factorTrialCost (int (length p) - 1) = Inr ?c"
    unfolding splits_degree [OF p] by (rule factorTrialCost_ok [OF small])
  have w: "\<not> work - ?c < 0" "int (length ts) * ?c \<le> work - ?c" "work - int (length (t # ts)) * ?c = (work - ?c) - int (length ts) * ?c"
    using Cons.prems(2) c by (auto simp: algebra_simps) (smt (verit) mult_nonneg_nonneg of_nat_0_le_iff)
  obtain tr g where tr: "traceMod p par2 = Inr tr" "polyGCD p tr = Inr g" "splits g R1"
    "1 < length g \<and> length g < length p \<longleftrightarrow> R1 \<noteq> {} \<and> R1 \<noteq> R" "\<exists>q. polyDiv p g = Inr q \<and> splits q (R - R1)"
    using trial_ok [OF p R1_def] by blast
  show ?case
  proof (cases "R1 \<noteq> {} \<and> R1 \<noteq> R")
    case True
    then obtain q where q: "polyDiv p g = Inr q" "splits q (R - R1)" using tr(5) by blast
    have "factor_trials (t # ts) p par1 work = (Inr (q, g), work - ?c)"
      using True tr q(1) w(1) cost by (simp add: par2_def Let_def)
    moreover have "R1 \<subseteq> R" by (auto simp: R1_def)
    moreover have "work - int (length (t # ts)) * ?c \<le> work - ?c"
      unfolding w(3) using c by simp
    ultimately show ?thesis using True tr(3) q(2) c
      by (intro exI [of _ q] exI [of _ g] exI [of _ R1] exI [of _ "work - ?c"] conjI) auto
  next
    case False
    have "t \<noteq> mixedFactorTrials + k"
    proof
      assume "t = mixedFactorTrials + k"
      then have "R1 = {x\<in>R. trace (Gf (push_bit k 1) * x) = 0}" by (simp add: R1_def par2_def)
      then show False using False sep(2,3,4) trace_01 by (smt (verit) empty_iff mem_Collect_eq)
    qed
    then have t: "mixedFactorTrials + k \<in> set ts" using Cons.prems(1) by auto
    let ?par3 = "if t < mixedFactorTrials then nextFactorParameter par2 else par2"
    have st: "factor_trials (t # ts) p par1 work = factor_trials ts p ?par3 (work - ?c)"
    proof -
      have "\<not> (1 < length g \<and> length g < length p)" using tr(4) False by blast
      then show ?thesis
        unfolding factor_trials.simps Let_def cost par2_def [symmetric]
        by (simp only: tr(1,2) w(1) sum.case if_False)
    qed
    from Cons.IH [OF t w(2), of ?par3] obtain q f R2 work' where
      e: "factor_trials ts p ?par3 (work - ?c) = (Inr (q, f), work')" "R2 \<subseteq> R" "R2 \<noteq> {}" "R2 \<noteq> R"
        "splits f R2" "splits q (R - R2)" "work - ?c - int (length ts) * ?c \<le> work'" "work' \<le> work - ?c" by blast
    moreover have "work' \<le> work" using e(8) c by linarith
    ultimately show ?thesis unfolding st w(3) by blast
  qed
qed simp

text \<open>Work that suffices for a polynomial of degree \<open>d\<close>: all trials, on every degree from \<open>d\<close> down to 3.\<close>

fun work_bound :: "nat \<Rightarrow> int" where
  "work_bound 0 = 0"
| "work_bound (Suc d) = work_bound d + (if d < 2 then 0 else 72 * trial_cost (Suc d))"

lemma work_bound_nonneg: "0 \<le> work_bound d"
  by (induction d) (auto simp: trial_cost_def)

lemma work_bound_split: "1 \<le> a \<Longrightarrow> work_bound a + work_bound (Suc b) \<le> work_bound (a + b)"
proof (induction b)
  case (Suc b)
  have "trial_cost (Suc (Suc b)) \<le> trial_cost (a + Suc b)"
    unfolding trial_cost_def using Suc.prems by (intro mult_mono) auto
  moreover have "0 \<le> trial_cost d" for d by (simp add: trial_cost_def)
  moreover have "\<not> a + b < 2" if "1 \<le> b" using that Suc.prems by simp
  ultimately show ?case using Suc by (cases "b = 0") auto
qed simp

lemma work_bound_16: "work_bound 16 \<le> maxFactorWork"
  by (simp add: eval_nat_numeral trial_cost_def maxFactorWork_def)

lemma work_bound_mono: "a \<le> b \<Longrightarrow> work_bound a \<le> work_bound b"
  by (induction b) (auto simp: le_Suc_eq trial_cost_def intro: add_increasing2)

section \<open>All roots are found\<close>

lemma quadratic_roots_ok:
  assumes p: "splits p R" and R: "card R = 2"
  shows "\<exists>a b. quadratic_roots p = Inr [a, b] \<and> mset_set R = {# Gf a, Gf b #}"
proof -
  obtain x y where xy: "R = {x, y}" "x \<noteq> y" using R by (auto simp: card_2_iff)
  have "length p = 3" "last p = 1" using p R by (auto simp: splits_def)
  then obtain c l where pc: "p = [c, l, 1]" by (auto simp: numeral_3_eq_3 length_Suc_conv)
  have ev: "Gf c + x * (Gf l + x) = 0" "Gf c + y * (Gf l + y) = 0"
    using p by (auto simp: splits_def xy pc)
  have l: "Gf l = x + y"
  proof -
    have "(x + y) * (Gf l + (x + y)) = (Gf c + x * (Gf l + x)) + (Gf c + y * (Gf l + y))"
      by (simp add: algebra_simps)
    then have "(x + y) * (Gf l + (x + y)) = 0" unfolding ev by simp
    moreover have "x + y \<noteq> 0" using xy by (simp add: gf64_add_eq_0)
    ultimately show ?thesis by (simp add: gf64_add_eq_0)
  qed
  then have nz: "Gf l \<noteq> 0" using xy by (simp add: gf64_add_eq_0)
  have c: "Gf c = x * y" using ev(1) l by (simp add: gf64_add_eq_0 algebra_simps)
  define inv where "inv = word_of (inverse (Gf l))"
  define t where "t = Mul c (Mul inv inv)"
  have i: "gf64Inv l = Some inv" using nz by (simp add: Gf_gf64Inv inv_def)
  have tx: "Gf t = (x / Gf l) ^ 2 + x / Gf l"
  proof -
    have "(x / Gf l) ^ 2 + x / Gf l = (x * x + x * Gf l) / (Gf l * Gf l)"
      using nz by (simp add: divide_simps power2_eq_square algebra_simps)
    also have "x * x + x * Gf l = Gf c" unfolding l c by (simp add: algebra_simps)
    finally show ?thesis by (simp add: t_def inv_def Gf_Mul field_simps)
  qed
  obtain q where q: "solveQuadraticForm t = Inr q"
    using solveQuadraticForm_complete [of "word_of (x / Gf l)" t] tx by auto
  have "Gf q ^ 2 + Gf q = (x / Gf l) ^ 2 + x / Gf l" using solveQuadraticForm_sound [OF q] tx by simp
  then have "(Gf q + x / Gf l) * (Gf q + x / Gf l) = Gf q + x / Gf l"
    by (simp add: power2_eq_square algebra_simps) (metis add.commute add.left_commute gf64_add_left_self)
  then have "Gf q + x / Gf l = 0 \<or> Gf q + x / Gf l = 1" by (rule idempotent_cases)
  then have "Gf q = x / Gf l \<or> Gf q = x / Gf l + 1"
    by (metis add.commute gf64_add_left_self add_0_right)
  then have "Gf (Mul q l) = x \<or> Gf (Mul q l) = y"
    using nz l by (auto simp: Gf_Mul field_simps)
  then have "mset_set R = {# Gf (Mul q l), Gf (Mul q l XOR l) #}"
    using xy l by (auto simp: Gf_xor add_ac)
  moreover have "quadratic_roots p = Inr [Mul q l, Mul q l XOR l]"
    using nz i q by (simp add: quadratic_roots_def pc t_def Let_def)
  ultimately show ?thesis by blast
qed

text \<open>The whole stack: every root once.\<close>

text \<open>One split: the trials find a proper factor within their share of the work, and the parts need less.\<close>

lemma factor_step:
  assumes "splits poly R" "2 < card R" "card R \<le> 1000" and work: "work_bound (card R) \<le> work"
  obtains q f R1 work1 where "factor_trials [0..<factorTrials] poly factorParameterSeed work = (Inr (q, f), work1)"
    "splits f R1" "splits q (R - R1)" "card R1 \<le> card R" "card (R - R1) \<le> card R" "mset_set R1 + mset_set (R - R1) = mset_set R"
    "work - work_bound (card R) + work_bound (card R1) + work_bound (card (R - R1)) \<le> work1" "work1 \<le> work"
proof -
  have fin: "finite R" using assms(1) by (simp add: splits_def)
  obtain x y where xy: "x \<in> R" "y \<in> R" "x \<noteq> y"
    using assms(2) fin by (metis card_le_Suc0_iff_eq le_eq_less_or_eq less_Suc_eq_le linorder_not_less numeral_2_eq_2)
  obtain k where k: "k < 64" "trace (Gf (push_bit k 1) * x) \<noteq> trace (Gf (push_bit k 1) * y)"
    using trace_separates [OF xy(3)] by blast
  have B: "work_bound (card R) = work_bound (card R - 1) + 72 * trial_cost (card R)" using assms(2) by (cases "card R") auto
  have lt: "int (length [0..<factorTrials]) = 72" by (simp add: factorTrials_def mixedFactorTrials_def)
  have in_ts: "mixedFactorTrials + k \<in> set [0..<factorTrials]" using k(1) by (simp add: factorTrials_def)
  have enough: "int (length [0..<factorTrials]) * trial_cost (card R) \<le> work"
    unfolding lt using work B work_bound_nonneg [of "card R - 1"] by simp
  from factor_trials_ok [OF assms(1,3) k(1) xy(1,2) k(2) in_ts enough, of factorParameterSeed, unfolded lt]
  obtain q f R1 work1 where ft: "factor_trials [0..<factorTrials] poly factorParameterSeed work = (Inr (q, f), work1)"
    "R1 \<subseteq> R" "R1 \<noteq> {}" "R1 \<noteq> R" "splits f R1" "splits q (R - R1)"
    "work - 72 * trial_cost (card R) \<le> work1" "work1 \<le> work" by blast
  have f: "finite R1" using ft(2) fin by (rule finite_subset)
  have cards: "1 \<le> card R1" "1 \<le> card (R - R1)" "card R1 + card (R - R1) = card R"
    using f fin ft(2-4) card_Diff_subset [OF f ft(2)] card_mono [OF fin ft(2)] by (auto simp: Suc_le_eq card_gt_0_iff)
  then have "work_bound (card R1) + work_bound (card (R - R1)) \<le> work_bound (card R - 1)"
    using work_bound_split [of "card R1" "card (R - R1) - 1"] by simp
  moreover have "mset_set R1 + mset_set (R - R1) = mset_set R"
    using fin ft(2) by (metis Diff_disjoint Un_Diff_cancel finite_Diff finite_subset mset_set_Union sup.absorb2)
  ultimately show thesis using that [OF ft(1,5,6)] cards ft(7,8) B by simp
qed

lemma findRoots_ok:
  assumes "list_all2 splits pending Rs" "\<forall>R\<in>set Rs. card R \<le> 1000"
    and "(\<Sum>R\<leftarrow>Rs. work_bound (card R)) \<le> work"
  shows "\<exists>xs work'. findRootsWithBudget pending roots work = (Inr (roots @ xs), work') \<and>
    image_mset Gf (mset xs) = (\<Sum>R\<leftarrow>Rs. mset_set R) \<and>
    work - (\<Sum>R\<leftarrow>Rs. work_bound (card R)) \<le> work' \<and> work' \<le> work"
  using assms
proof (induction pending roots work arbitrary: Rs rule: findRootsWithBudget.induct)
  case (1 roots work)
  then show ?case by simp
next
  case (2 poly pending roots work)
  then obtain R Rs' where Rs: "Rs = R # Rs'" "splits poly R" "list_all2 splits pending Rs'"
    by (auto simp: list_all2_Cons1)
  have len: "length poly = card R + 1" "last poly = 1" "finite R" using Rs(2) by (auto simp: splits_def)
  note rest = "2.prems"(2,3) [unfolded Rs(1)]
  have wb: "0 \<le> work_bound (card R)" by (rule work_bound_nonneg)
  consider "card R = 0" | "card R = 1" | "card R = 2" | "2 < card R" by linarith
  then show ?case
  proof cases
    case 1
    then have "R = {}" using len by simp
    moreover obtain xs work' where "findRootsWithBudget pending roots work = (Inr (roots @ xs), work')"
      "image_mset Gf (mset xs) = (\<Sum>R\<leftarrow>Rs'. mset_set R)"
      "work - (\<Sum>R\<leftarrow>Rs'. work_bound (card R)) \<le> work'" "work' \<le> work"
      using "2.IH"(1) [of Rs'] 1 len Rs(3) rest wb by auto
    ultimately show ?thesis using 1 len Rs(1) by auto
  next
    case 2
    then obtain x where x: "R = {x}" by (auto simp: card_1_singleton_iff)
    have "\<exists>c. poly = [c, 1]" using len 2 by (auto simp: length_Suc_conv)
    then obtain c where c: "poly = [c, 1]" by blast
    have "Gf c = x" using Rs(2) by (simp add: splits_def x c gf64_add_eq_0)
    moreover obtain xs work' where "findRootsWithBudget pending (roots @ [poly ! 0]) work = (Inr ((roots @ [poly ! 0]) @ xs), work')"
      "image_mset Gf (mset xs) = (\<Sum>R\<leftarrow>Rs'. mset_set R)"
      "work - (\<Sum>R\<leftarrow>Rs'. work_bound (card R)) \<le> work'" "work' \<le> work"
      using "2.IH"(2) [of Rs'] 2 len Rs(3) rest wb by auto
    ultimately show ?thesis using 2 c Rs(1) x by (intro exI [of _ "c # xs"] exI [of _ work']) auto
  next
    case 3
    obtain a b where ab: "quadratic_roots poly = Inr [a, b]" "mset_set R = {# Gf a, Gf b #}"
      using quadratic_roots_ok [OF Rs(2) 3] by blast
    obtain xs work' where "findRootsWithBudget pending (roots @ [a, b]) work = (Inr ((roots @ [a, b]) @ xs), work')"
      "image_mset Gf (mset xs) = (\<Sum>R\<leftarrow>Rs'. mset_set R)"
      "work - (\<Sum>R\<leftarrow>Rs'. work_bound (card R)) \<le> work'" "work' \<le> work"
      using "2.IH"(3) [of "[a, b]" Rs'] 3 len Rs(3) rest wb ab(1) by auto
    then show ?thesis using 3 len Rs(1) ab wb by (intro exI [of _ "a # b # xs"] exI [of _ work']) auto
  next
    case 4
    let ?rest = "\<Sum>R\<leftarrow>Rs'. work_bound (card R)"
    have "0 \<le> ?rest" by (intro sum_list_nonneg) (auto simp: work_bound_nonneg)
    then have enough: "work_bound (card R) \<le> work" using rest(2) by simp
    have "card R \<le> 1000" using rest(1) by simp
    from factor_step [OF Rs(2) 4 this enough]
    obtain q f R1 work1 where ft: "factor_trials [0..<factorTrials] poly factorParameterSeed work = (Inr (q, f), work1)"
      "splits f R1" "splits q (R - R1)" "card R1 \<le> card R" "card (R - R1) \<le> card R" "mset_set R1 + mset_set (R - R1) = mset_set R"
      "work - work_bound (card R) + work_bound (card R1) + work_bound (card (R - R1)) \<le> work1" "work1 \<le> work" .
    let ?Rs = "R1 # (R - R1) # Rs'"
    have "\<exists>xs work'. findRootsWithBudget (f # q # pending) roots work1 = (Inr (roots @ xs), work') \<and>
        image_mset Gf (mset xs) = (\<Sum>R\<leftarrow>?Rs. mset_set R) \<and>
        work1 - (\<Sum>R\<leftarrow>?Rs. work_bound (card R)) \<le> work' \<and> work' \<le> work1"
    proof (rule "2.IH"(4))
      show "(Inr (q, f), work1) = factor_trials [0..<factorTrials] poly factorParameterSeed work" by (rule ft(1) [symmetric])
      show "list_all2 splits (f # q # pending) ?Rs" using ft(2,3) Rs(3) by simp
      show "\<forall>R\<in>set ?Rs. card R \<le> 1000" using rest(1) ft(4,5) by auto
      show "(\<Sum>R\<leftarrow>?Rs. work_bound (card R)) \<le> work1" using ft(7) rest(2) by simp
    qed (use 4 len in auto)
    moreover have "findRootsWithBudget (poly # pending) roots work = findRootsWithBudget (f # q # pending) roots work1"
      using 4 len(1) ft(1) by (auto simp add: findRootsWithBudget.simps(2) [of poly pending roots work] simp del: findRootsWithBudget.simps)
    ultimately show ?thesis using ft(6-8) Rs(1) by (auto simp: add.assoc [symmetric] simp del: findRootsWithBudget.simps)
  qed
qed

section \<open>Decoding\<close>

lemma sort_roots:
  assumes "image_mset Gf (mset xs) = mset_set (Gf ` S)" "finite S"
  shows "sort xs = sorted_list_of_set S"
proof -
  have "image_mset Gf (mset_set S) = mset_set (Gf ` S)"
    by (rule image_mset_mset_set) (simp add: inj_on_def)
  then have "image_mset Gf (mset xs) = image_mset Gf (mset_set S)" using assms(1) by simp
  then have "image_mset word_of (image_mset Gf (mset xs)) = image_mset word_of (image_mset Gf (mset_set S))" by simp
  then have "mset xs = mset_set S" by (simp add: multiset.map_comp o_def)
  then show ?thesis by (metis sorted_list_of_multiset_mset sorted_list_of_mset_set)
qed

text \<open>The number of elements that any budget of the code suffices for is the parameter of the work bound.\<close>

lemma decodePinSketch_ok:
  assumes S: "finite S" "0 \<notin> S" "card S \<le> n" "int (card S) \<le> m" "card S \<le> 1000"
    and work: "work_bound (card S) \<le> (case work of None \<Rightarrow> maxFactorWork | Some w \<Rightarrow> w)"
  shows "\<exists>work'. decodePinSketch (sketch_of n S) m work = (Inr (sorted_list_of_set S), work') \<and>
    (case work of None \<Rightarrow> work' = None
     | Some w \<Rightarrow> \<exists>w'. work' = Some w' \<and> w - work_bound (card S) \<le> w' \<and> w' \<le> w)"
proof -
  obtain c where c: "berlekampMassey (reconstructSyndromes (sketch_of n S)) m = Inr c" "splits (rev c) (Gf ` S)"
    using berlekampMassey_locator [OF S(1-4)] by blast
  have len: "length c = card S + 1" using c(2) by (simp add: splits_def card_image inj_on_def)
  show ?thesis
  proof (cases "S = {}")
    case True
    then show ?thesis using c(1) len by (auto simp: decodePinSketch_def split: option.split)
  next
    case False
    then have ne: "length c \<noteq> 1" using len S(1) by simp
    have find: "\<exists>xs w'. findRootsWithBudget [rev c] [] w = (Inr xs, w') \<and> length xs = card S \<and> \<not> containsZero xs \<and>
        sort xs = sorted_list_of_set S \<and> w - work_bound (card S) \<le> w' \<and> w' \<le> w" if wb: "work_bound (card S) \<le> w" for w
    proof -
      have "card (Gf ` S) = card S" by (simp add: card_image inj_on_def)
      then obtain xs w' where f: "findRootsWithBudget [rev c] [] w = (Inr xs, w')"
        "image_mset Gf (mset xs) = mset_set (Gf ` S)" "w - work_bound (card S) \<le> w'" "w' \<le> w"
        using findRoots_ok [of "[rev c]" "[Gf ` S]" w "[]"] c(2) wb S(5) by (auto simp del: findRootsWithBudget.simps)
      have s: "sort xs = sorted_list_of_set S" by (rule sort_roots [OF f(2) S(1)])
      then have "set xs = S" "length xs = card S"
        using S(1) by (metis set_sort set_sorted_list_of_set, metis length_sort length_sorted_list_of_set)
      then show ?thesis using f s S(2) by (auto simp: containsZero_def list_ex_iff)
    qed
    show ?thesis
    proof (cases work)
      case None
      with find [of maxFactorWork] work obtain xs w' where "findRootsWithBudget [rev c] [] maxFactorWork = (Inr xs, w')"
        "length xs = card S" "\<not> containsZero xs" "sort xs = sorted_list_of_set S" by (auto simp del: findRootsWithBudget.simps)
      then show ?thesis using None c(1) ne len by (simp add: decodePinSketch_def findRoots_def Let_def del: findRootsWithBudget.simps)
    next
      case (Some w)
      with find [of w] work obtain xs w' where "findRootsWithBudget [rev c] [] w = (Inr xs, w')"
        "length xs = card S" "\<not> containsZero xs" "sort xs = sorted_list_of_set S"
        "w - work_bound (card S) \<le> w'" "w' \<le> w" by (auto simp del: findRootsWithBudget.simps)
      then show ?thesis using Some c(1) ne len by (simp add: decodePinSketch_def Let_def del: findRootsWithBudget.simps)
    qed
  qed
qed

lemma take_sketch_of: "m \<le> n \<Longrightarrow> take m (sketch_of n S) = sketch_of m S"
  by (simp add: sketch_of_def take_map)

lemma decodeAndVerifySketch_ok:
  assumes S: "finite S" "0 \<notin> S" "card S \<le> m" "1 \<le> n" "m \<le> n" "n \<le> 32"
    and work: "work_bound (card S) \<le> (case work of None \<Rightarrow> maxFactorWork | Some w \<Rightarrow> w)"
  shows "\<exists>work'. decodeAndVerifySketch \<lparr>Coordinates = sketch_of n S\<rparr> (int m) work = (Inr (sorted_list_of_set S), work') \<and>
    (case work of None \<Rightarrow> work' = None
     | Some w \<Rightarrow> \<exists>w'. work' = Some w' \<and> w - work_bound (card S) \<le> w' \<and> w' \<le> w)"
proof -
  have "card S \<le> 1000" using S(3,5,6) by simp
  then obtain work' where d: "decodePinSketch (sketch_of m S) (int m) work = (Inr (sorted_list_of_set S), work')"
    "case work of None \<Rightarrow> work' = None | Some w \<Rightarrow> \<exists>w'. work' = Some w' \<and> w - work_bound (card S) \<le> w' \<and> w' \<le> w"
    using decodePinSketch_ok [OF S(1,2,3), of "int m" work] S(3) work by auto
  have z: "\<not> containsZero (sorted_list_of_set S)" using S(1,2) by (auto simp: containsZero_def list_ex_iff)
  have new: "NewSyndromeSketch (int n) = Inr \<lparr>Coordinates = sketch_of n {}\<rparr>"
    using S(4,6) by (simp add: NewSyndromeSketch_def MaxSketchCapacity_def sketch_of_empty)
  have "toggle_all (sorted_list_of_set S) \<lparr>Coordinates = sketch_of n {}\<rparr> = Inr \<lparr>Coordinates = sketch_of n S\<rparr>"
    using S(1,2) by (simp add: toggle_all_ok absorb_sketch_of odd_set_distinct)
  then have "decodeAndVerifySketch \<lparr>Coordinates = sketch_of n S\<rparr> (int m) work = (Inr (sorted_list_of_set S), work')"
    using S(5) d(1) z new
    by (simp add: decodeAndVerifySketch_def take_sketch_of Capacity_def equalSketch_iff)
  with d(2) show ?thesis by blast
qed

text \<open>What is decoded has no repetitions: the locator of the odd elements has as many roots as were found.\<close>

lemma decodePinSketch_length:
  "decodePinSketch ods m work = (Inr xs, work') \<Longrightarrow> berlekampMassey (reconstructSyndromes ods) m = Inr l \<Longrightarrow>
   length xs = length l - 1"
  by (auto simp: decodePinSketch_def Let_def simp del: findRootsWithBudget.simps split: if_splits sum.splits prod.splits)

lemma decodeAndVerifySketch_InrD:
  assumes "decodeAndVerifySketch s m work = (Inr xs, work')"
  shows "decodePinSketch (take (nat m) (Coordinates s)) m work = (Inr xs, work')"
proof -
  obtain d w where d: "decodePinSketch (take (nat m) (Coordinates s)) m work = (d, w)" by force
  then show ?thesis using assms
    by (cases d) (auto simp: decodeAndVerifySketch_def split: if_splits sum.splits)
qed

lemma decodeAndVerifySketch_exact:
  assumes "0 \<le> m" "m \<le> Capacity s" "1 \<le> Capacity s" "Capacity s \<le> 32"
    and d: "decodeAndVerifySketch s m work = (Inr xs, work')"
  shows "sorted xs \<and> distinct xs \<and> 0 \<notin> set xs \<and> int (length xs) \<le> m \<and>
    Coordinates s = sketch_of (length (Coordinates s)) (set xs)"
proof -
  let ?S = "odd_set xs"
  have c: "sorted xs" "0 \<notin> set xs" "int (length xs) \<le> m" "Coordinates s = sketch_of (length (Coordinates s)) ?S"
    using decodeAndVerifySketch_cases [OF assms(1-4) d] by auto
  have S: "finite ?S" "0 \<notin> ?S" using c(2) odd_set_subset [of xs] by auto
  have card: "card ?S \<le> length xs" by (meson card_length card_mono finite_set odd_set_subset order_trans)
  then have cm: "card ?S \<le> nat m" "int (card ?S) \<le> m" using c(3) by linarith+
  have t: "take (nat m) (Coordinates s) = sketch_of (nat m) ?S"
    using assms(2) take_sketch_of [of "nat m" "length (Coordinates s)" ?S] by (subst c(4)) (simp add: Capacity_def)
  obtain l where l: "berlekampMassey (reconstructSyndromes (sketch_of (nat m) ?S)) m = Inr l" "splits (rev l) (Gf ` ?S)"
    using berlekampMassey_locator [OF S cm] by blast
  have len: "length l = card ?S + 1" using l(2) by (simp add: splits_def card_image inj_on_def)
  have "length xs = card ?S"
    using decodePinSketch_length [OF decodeAndVerifySketch_InrD [OF d, unfolded t] l(1)] len by simp
  then have e: "card (set xs) = length xs" "card ?S = card (set xs)"
    using card_length [of xs] card_mono [OF _ odd_set_subset [of xs]] by auto
  moreover have "?S = set xs" by (rule card_subset_eq [OF finite_set odd_set_subset e(2)])
  ultimately have "card (set xs) = length xs" "?S = set xs" by blast+
  then show ?thesis using c by (metis card_distinct)
qed

section \<open>The budget\<close>

text \<open>The root finder without its budget: the result, and the degree of the polynomial in every trial, in order.\<close>

fun unpaid_trials :: "nat list \<Rightarrow> polynomial \<Rightarrow> u64 \<Rightarrow> (polynomial \<times> polynomial) result \<times> nat list" where
  "unpaid_trials [] poly parameter = (Inl ErrDecodeFailure, [])"
| "unpaid_trials (trial # trials) poly parameter =
     (let parameter1 = (if trial \<ge> mixedFactorTrials then push_bit (trial - mixedFactorTrials) 1 else parameter)
      in if trial_cost (length poly - 1) > maxInt then (Inl ErrDecodeFailure, [])
         else
           let (r, ds) =
             (case traceMod poly parameter1 of
                Inl e \<Rightarrow> (Inl e, [])
              | Inr tr \<Rightarrow>
                  (case polyGCD poly tr of
                     Inl e \<Rightarrow> (Inl e, [])
                   | Inr factor \<Rightarrow>
                       if length factor > 1 \<and> length factor < length poly
                       then (case polyDiv poly factor of Inl e \<Rightarrow> (Inl e, []) | Inr quot \<Rightarrow> (Inr (quot, factor), []))
                       else unpaid_trials trials poly
                              (if trial < mixedFactorTrials then nextFactorParameter parameter1 else parameter1)))
           in (r, (length poly - 1) # ds))"

lemma unpaid_trials_length:
  "unpaid_trials ts p par1 = (Inr (q, f), ds) \<Longrightarrow> 1 < length f \<and> length f < length p \<and> length q \<le> length p - length f + 1"
  by (induction ts p par1 arbitrary: ds rule: unpaid_trials.induct)
    (auto simp: Let_def dest: polyDiv_length split: if_splits sum.splits prod.splits)

function unpaid_roots :: "polynomial list \<Rightarrow> u64 list \<Rightarrow> u64 list result \<times> nat list" where
  "unpaid_roots [] roots = (Inr roots, [])"
| "unpaid_roots (poly # pending) roots =
     (if length poly = 0 then (Inl ErrDecodeFailure, [])
      else if length poly = 1 then unpaid_roots pending roots
      else if length poly = 2 then unpaid_roots pending (roots @ [poly ! 0])
      else if length poly = 3 then
        (case quadratic_roots poly of Inl e \<Rightarrow> (Inl e, []) | Inr rs \<Rightarrow> unpaid_roots pending (roots @ rs))
      else
        (case unpaid_trials [0..<factorTrials] poly factorParameterSeed of
           (Inl e, ds) \<Rightarrow> (Inl e, ds)
         | (Inr (quot, factor), ds) \<Rightarrow> (case unpaid_roots (factor # quot # pending) roots of (r, ds') \<Rightarrow> (r, ds @ ds'))))"
  by pat_completeness auto
termination
proof (relation "measure (\<lambda>(pending, roots). pending_weight pending)", goal_cases)
  case (5 poly pending roots x ds y quot factor)
  then have "1 < length factor \<and> length factor < length poly \<and> length quot \<le> length poly - length factor + 1"
    by (metis unpaid_trials_length)
  then show ?case by (auto simp: pending_weight_def max_def)
qed (auto simp: pending_weight_def)

text \<open>Paying for the trials in order: what is left, or the negative rest when the budget does not suffice.\<close>

fun pay :: "int \<Rightarrow> nat list \<Rightarrow> int + int" where
  "pay work [] = Inr work"
| "pay work (d # ds) = (if work - trial_cost d < 0 then Inl (work - trial_cost d) else pay (work - trial_cost d) ds)"

lemma pay_append: "pay work (ds @ ds') = (case pay work ds of Inl w \<Rightarrow> Inl w | Inr w \<Rightarrow> pay w ds')"
  by (induction ds arbitrary: work) auto

lemma trial_cost_nonneg: "0 \<le> trial_cost d"
  by (simp add: trial_cost_def)

lemma pay_enough: "(\<Sum>d\<leftarrow>ds. trial_cost d) \<le> work \<Longrightarrow> pay work ds = Inr (work - (\<Sum>d\<leftarrow>ds. trial_cost d))"
proof (induction ds arbitrary: work)
  case (Cons d ds)
  have "0 \<le> (\<Sum>d\<leftarrow>ds. trial_cost d)" by (intro sum_list_nonneg) (auto simp: trial_cost_nonneg)
  then show ?case using Cons by simp
qed simp


text \<open>The root finder is the unpaid one, stopped at the first trial that cannot be paid.\<close>

lemma factorTrialCost_eq:
  "factorTrialCost (int d) = (if trial_cost d > maxInt then Inl ErrDecodeFailure else Inr (trial_cost d))"
proof (cases "d = 0")
  case False
  have "int d \<le> maxInt div int d \<longleftrightarrow> int d * int d \<le> maxInt"
  proof
    assume "int d \<le> maxInt div int d"
    then have "int d * int d \<le> int d * (maxInt div int d)" by (rule mult_left_mono) simp
    also have "\<dots> \<le> maxInt" using mult_div_mod_eq [of "int d" maxInt] False pos_mod_sign [of "int d" maxInt] by linarith
    finally show "int d * int d \<le> maxInt" .
  next
    assume "int d * int d \<le> maxInt"
    then have "int d * int d div int d \<le> maxInt div int d" using False by (intro zdiv_mono1) simp_all
    then show "int d \<le> maxInt div int d" using False by simp
  qed
  then have d: "int d > maxInt div int d \<longleftrightarrow> int d * int d > maxInt" by linarith
  have sq: "x > maxInt div int traceSquares \<longleftrightarrow> x * 63 > maxInt" for x
    unfolding maxInt_def traceSquares_def by simp presburger
  have v: "int d * int d * int traceSquares = trial_cost d" by (simp add: trial_cost_def traceSquares_def)
  have "x > maxInt \<Longrightarrow> x * 63 > maxInt" for x by (simp add: maxInt_def)
  then have "int d * int d > maxInt \<Longrightarrow> trial_cost d > maxInt" unfolding trial_cost_def .
  then show ?thesis
    using False d sq [of "int d * int d"] unfolding factorTrialCost_def Let_def v trial_cost_def [symmetric] by simp
qed (simp add: factorTrialCost_def trial_cost_def maxInt_def)

lemma factor_trials_pay:
  assumes "p \<noteq> []"
  shows "factor_trials ts p par1 work =
    (case unpaid_trials ts p par1 of (r, ds) \<Rightarrow>
       (case pay work ds of Inr w \<Rightarrow> (r, w) | Inl w \<Rightarrow> (Inl ErrBudgetExhausted, w)))"
proof (induction ts arbitrary: par1 work)
  case (Cons t ts)
  have "int (length p) - 1 = int (length p - 1)" using assms by (simp add: of_nat_diff Suc_le_eq)
  note cost = factorTrialCost_eq [of "length p - 1", folded this]
  define par2 where "par2 = (if t \<ge> mixedFactorTrials then push_bit (t - mixedFactorTrials) 1 else par1)"
  let ?par3 = "if t < mixedFactorTrials then nextFactorParameter par2 else par2"
  obtain r ds where u: "unpaid_trials ts p ?par3 = (r, ds)" by force
  note ih = Cons.IH [of ?par3, unfolded u prod.case]
  show ?case unfolding factor_trials.simps unpaid_trials.simps Let_def cost par2_def [symmetric] u ih
    by (cases "traceMod p par2"; cases "polyGCD p (projr (traceMod p par2))";
        cases "polyDiv p (projr (polyGCD p (projr (traceMod p par2))))") simp_all
qed simp

lemma findRoots_pay:
  "findRootsWithBudget pending roots work =
    (case unpaid_roots pending roots of (r, ds) \<Rightarrow>
       (case pay work ds of Inr w \<Rightarrow> (r, w) | Inl w \<Rightarrow> (Inl ErrBudgetExhausted, w)))"
proof (induction pending roots arbitrary: work rule: unpaid_roots.induct)
  case (2 poly pending roots)
  show ?case
  proof (cases "length poly \<le> 3")
    case True
    then consider "length poly = 0" | "length poly = 1" | "length poly = 2" | "length poly = 3" by linarith
    then show ?thesis
    proof cases
      case 4
      then show ?thesis using 2 by (cases "quadratic_roots poly") auto
    qed (use 2 in auto)
  next
    case False
    then have l: "length poly \<noteq> 0" "length poly \<noteq> 1" "length poly \<noteq> 2" "length poly \<noteq> 3" by auto
    obtain t ds where t: "unpaid_trials [0..<factorTrials] poly factorParameterSeed = (t, ds)" by force
    have ft: "factor_trials [0..<factorTrials] poly factorParameterSeed work =
        (case pay work ds of Inr w \<Rightarrow> (t, w) | Inl w \<Rightarrow> (Inl ErrBudgetExhausted, w))"
      using factor_trials_pay [of poly "[0..<factorTrials]" factorParameterSeed work] l(1) t by simp
    show ?thesis
    proof (cases t)
      case (Inl e)
      then show ?thesis unfolding findRootsWithBudget.simps(2) [of poly] unpaid_roots.simps(2) [of poly] t ft
        using l by (simp split: sum.splits)
    next
      case (Inr qf)
      obtain q f where qf: "qf = (q, f)" by force
      note ih = "2.IH"(4) [OF l t [symmetric] Inr qf [symmetric]]
      show ?thesis unfolding findRootsWithBudget.simps(2) [of poly] unpaid_roots.simps(2) [of poly] t ft Inr qf
        using l by (cases "pay work ds"; cases "unpaid_roots (f # q # pending) roots")
          (simp_all add: ih pay_append del: findRootsWithBudget.simps unpaid_roots.simps)
    qed
  qed
qed simp

text \<open>How many trials there are, and what they cost at most.\<close>

lemma unpaid_trials_degrees:
  "unpaid_trials ts p par1 = (r, ds) \<Longrightarrow> length ds \<le> length ts \<and> set ds \<subseteq> {length p - 1}"
  by (induction ts arbitrary: par1 r ds) (fastforce simp: Let_def split: if_splits sum.splits prod.splits)+

lemma unpaid_trials_cost:
  assumes "unpaid_trials [0..<factorTrials] p par1 = (r, ds)"
  shows "(\<Sum>d\<leftarrow>ds. trial_cost d) \<le> 72 * trial_cost (length p - 1)"
proof -
  have ds: "length ds \<le> 72" "ds = replicate (length ds) (length p - 1)"
    using unpaid_trials_degrees [OF assms] replicate_eqI [of ds "length ds" "length p - 1"]
    by (auto simp: factorTrials_def mixedFactorTrials_def)
  have "(\<Sum>d\<leftarrow>ds. trial_cost d) = int (length ds) * trial_cost (length p - 1)"
    by (subst ds(2)) (simp add: sum_list_replicate)
  also have "\<dots> \<le> 72 * trial_cost (length p - 1)" using ds(1) by (intro mult_right_mono) (simp_all add: trial_cost_nonneg)
  finally show ?thesis .
qed

lemma unpaid_roots_bounds:
  "unpaid_roots pending roots = (r, ds) \<Longrightarrow>
   length ds \<le> 72 * pending_weight pending \<and> (\<Sum>d\<leftarrow>ds. trial_cost d) \<le> (\<Sum>p\<leftarrow>pending. work_bound (length p - 1))"
proof (induction pending roots arbitrary: r ds rule: unpaid_roots.induct)
  case (2 poly pending roots)
  have wb: "0 \<le> (\<Sum>p\<leftarrow>pending. work_bound (length p - 1))" "0 \<le> work_bound (length poly - 1)"
    by (intro sum_list_nonneg) (auto simp: work_bound_nonneg)
  have pw: "pending_weight pending \<le> pending_weight (poly # pending)" by (simp add: pending_weight_def)
  show ?case
  proof (cases "length poly \<le> 3")
    case True
    then consider "length poly = 0" | "length poly = 1" | "length poly = 2" | "length poly = 3" by linarith
    then show ?thesis
    proof cases
      case 4
      then show ?thesis using 2 wb pw by (cases "quadratic_roots poly") fastforce+
    qed (use 2 wb pw in fastforce)+
  next
    case False
    then have l: "length poly \<noteq> 0" "length poly \<noteq> 1" "length poly \<noteq> 2" "length poly \<noteq> 3" by auto
    obtain t ds1 where t: "unpaid_trials [0..<factorTrials] poly factorParameterSeed = (t, ds1)" by force
    have n: "length ds1 \<le> 72" using unpaid_trials_degrees [OF t] by (simp add: factorTrials_def mixedFactorTrials_def)
    have B: "work_bound (length poly - 1) = work_bound (length poly - 2) + 72 * trial_cost (length poly - 1)"
    proof -
      obtain d where "length poly - 1 = Suc d" "2 \<le> d" "length poly - 2 = d" using False by (cases "length poly - 1") auto
      then show ?thesis by simp
    qed
    note c = unpaid_trials_cost [OF t]
    show ?thesis
    proof (cases t)
      case (Inl e)
      then have "ds = ds1" using "2.prems" l t by simp
      moreover have "1 \<le> pending_weight (poly # pending)" by (simp add: pending_weight_def)
      ultimately show ?thesis using n c B wb work_bound_nonneg [of "length poly - 2"] by simp
    next
      case (Inr qf)
      obtain q f where qf: "qf = (q, f)" by force
      obtain r' ds' where r': "unpaid_roots (f # q # pending) roots = (r', ds')" by force
      have ds: "ds = ds1 @ ds'" using "2.prems" l t Inr qf r' by simp
      note ih = "2.IH"(4) [OF l t [symmetric] Inr qf [symmetric] r']
      have len: "1 < length f" "length f < length poly" "length q \<le> length poly - length f + 1"
        using unpaid_trials_length [OF t [unfolded Inr qf]] by simp_all
      then have "pending_weight (f # q # pending) < pending_weight (poly # pending)"
        by (auto simp: pending_weight_def max_def)
      moreover have "work_bound (length f - 1) + work_bound (length q - 1) \<le> work_bound (length poly - 2)"
      proof -
        have "work_bound (length q - 1) \<le> work_bound (Suc (length poly - length f - 1))"
          using len by (intro work_bound_mono) simp
        moreover have "length f - 1 + (length poly - length f - 1) = length poly - 2" using len by simp
        moreover have "1 \<le> length f - 1" using len(1) by simp
        ultimately show ?thesis using work_bound_split [of "length f - 1" "length poly - length f - 1"] by (simp del: work_bound.simps)
      qed
      ultimately show ?thesis using ih n c B by (simp add: ds)
    qed
  qed
qed (simp add: pending_weight_def)

text \<open>No sketch, decodable or not, costs more than the bound of its capacity.\<close>

lemma findRoots_spends:
  assumes "work_bound (length p - 1) \<le> w"
  shows "\<exists>r w'. findRootsWithBudget [p] roots w = (r, w') \<and> w - work_bound (length p - 1) \<le> w'"
proof -
  obtain r ds where u: "unpaid_roots [p] roots = (r, ds)" by force
  have "(\<Sum>d\<leftarrow>ds. trial_cost d) \<le> work_bound (length p - 1)" using unpaid_roots_bounds [OF u] by simp
  then show ?thesis using findRoots_pay [of "[p]" roots w] pay_enough [of ds w] assms u by simp
qed

lemma decodePinSketch_spends:
  assumes "0 \<le> m" "work_bound (nat m) \<le> w"
  shows "\<exists>r w'. decodePinSketch ods m (Some w) = (r, Some w') \<and> w - work_bound (nat m) \<le> w'"
proof (cases "berlekampMassey (reconstructSyndromes ods) m")
  case (Inl e)
  then show ?thesis using work_bound_nonneg [of "nat m"] by (simp add: decodePinSketch_def)
next
  case (Inr c)
  then have "length c - 1 \<le> nat m" using berlekampMassey_cases [OF assms(1), of "reconstructSyndromes ods"] by auto
  then have b: "work_bound (length (rev c) - 1) \<le> work_bound (nat m)" using work_bound_mono by simp
  then have "work_bound (length (rev c) - 1) \<le> w" using assms(2) by linarith
  then obtain r w' where "findRootsWithBudget [rev c] [] w = (r, w')" "w - work_bound (nat m) \<le> w'"
    using findRoots_spends [of "rev c" w "[]"] b by fastforce
  then show ?thesis using Inr work_bound_nonneg [of "nat m"]
    by (auto simp: decodePinSketch_def Let_def simp del: findRootsWithBudget.simps split: sum.splits)
qed

lemma decodeAndVerifySketch_spends:
  assumes "0 \<le> m" "m \<le> Capacity s" "work_bound (nat m) \<le> w"
  shows "\<exists>r w'. decodeAndVerifySketch s m (Some w) = (r, Some w') \<and> w - work_bound (nat m) \<le> w'"
proof -
  obtain r w' where "decodePinSketch (take (nat m) (Coordinates s)) m (Some w) = (r, Some w')" "w - work_bound (nat m) \<le> w'"
    using decodePinSketch_spends [OF assms(1,3)] by blast
  then show ?thesis using assms(2) by (cases r) (auto simp: decodeAndVerifySketch_def Capacity_def)
qed

section \<open>Properties\<close>

text \<open>C28: reconciliation by sketches is exact. Two parties whose sets of non-zero identifiers differ in at
  most \<open>m\<close> and at most 16 elements subtract their sketches of a capacity from \<open>m\<close> to 32 and decode precisely
  the symmetric difference, in increasing order: Berlekamp-Massey finds the locator, traces split it into
  linear factors and the work budget of eight million does not run out.\<close>

theorem reconciliation_decodes:
  assumes "finite L" and "finite T" and "0 \<notin> L" and "0 \<notin> T" and "1 \<le> m" and "m \<le> n" and "n \<le> 32"
    and "card (symdiff L T) \<le> m" and "card (symdiff L T) \<le> 16"
  shows "\<exists>d. Subtract \<lparr>Coordinates = sketch_of n L\<rparr> \<lparr>Coordinates = sketch_of n T\<rparr> = Inr d \<and>
    DecodeElements d (int m) = Inr (sorted_list_of_set (symdiff L T))"
proof -
  let ?S = "symdiff L T"
  have S: "finite ?S" "0 \<notin> ?S" using assms by (auto simp: in_symdiff)
  have "work_bound (card ?S) \<le> maxFactorWork"
    using work_bound_mono [OF assms(9)] work_bound_16 by simp
  then have "fst (decodeAndVerifySketch \<lparr>Coordinates = sketch_of n ?S\<rparr> (int m) None) = Inr (sorted_list_of_set ?S)"
    using decodeAndVerifySketch_ok [OF S assms(8) _ assms(6,7), of None] assms(5,6) by auto
  then show ?thesis
    using assms by (simp add: Subtract_def Capacity_def xor_sketch_of DecodeElements_def MaxLocalSketchDecodeCapacity_def MaxSketchCapacity_def)
qed

theorem reconciliation_decodes_witness:
  "\<exists>d. Subtract \<lparr>Coordinates = sketch_of 4 {5, 9}\<rparr> \<lparr>Coordinates = sketch_of 4 {9, 11, 12}\<rparr> = Inr d \<and>
    DecodeElements d 3 = Inr [5, 11, 12]"
proof -
  have "symdiff {5, 9} {9, 11, 12 :: u64} = {5, 11, 12}" by (auto simp: symdiff_def)
  then show ?thesis using reconciliation_decodes [of "{5, 9}" "{9, 11, 12}" 3 4] by simp
qed

text \<open>C29: what \<open>DecodeElements\<close> returns can be relied on. The elements are in increasing order without
  repetition and non-zero, at most as many as asked for, the sketch is their sketch, and no other set of
  at most as many elements as the capacity has this sketch.\<close>

theorem DecodeElements_exact:
  assumes "DecodeElements s m = Inr xs"
  shows "sorted xs \<and> distinct xs \<and> 0 \<notin> set xs \<and> int (length xs) \<le> m \<and>
    Coordinates s = sketch_of (length (Coordinates s)) (set xs) \<and>
    (\<forall>S. finite S \<and> 0 \<notin> S \<and> int (card S) \<le> Capacity s \<and> Coordinates s = sketch_of (length (Coordinates s)) S \<longrightarrow> S = set xs)"
proof -
  obtain w where d: "0 < m" "m \<le> Capacity s" "decodeAndVerifySketch s m None = (Inr xs, w)"
    using assms by (cases "decodeAndVerifySketch s m None") (auto simp: DecodeElements_def split: if_splits)
  have "is_ok (NewSyndromeSketch (Capacity s))"
    using d(3) by (auto simp: decodeAndVerifySketch_def split: if_splits sum.splits prod.splits)
  then have "Capacity s \<le> 32" by (auto simp: NewSyndromeSketch_def MaxSketchCapacity_def split: if_splits)
  then have e: "sorted xs" "distinct xs" "0 \<notin> set xs" "int (length xs) \<le> m"
    "Coordinates s = sketch_of (length (Coordinates s)) (set xs)"
    using decodeAndVerifySketch_exact [OF _ d(2) _ _ d(3)] d(1,2) by auto
  moreover have "S = set xs" if S: "finite S" "0 \<notin> S" "int (card S) \<le> Capacity s"
    "Coordinates s = sketch_of (length (Coordinates s)) S" for S
  proof (rule sketch_unique [OF S(1) finite_set S(2) e(3)])
    have "symdiff S (set xs) \<subseteq> S \<union> set xs" by (auto simp: symdiff_def)
    then have "card (symdiff S (set xs)) \<le> card (S \<union> set xs)" using S(1) by (intro card_mono) auto
    also have "\<dots> \<le> card S + card (set xs)" by (rule card_Un_le)
    also have "\<dots> \<le> 2 * length (Coordinates s)"
      using S(3) e(4) d(2) card_length [of xs] by (simp add: Capacity_def)
    finally show "card (symdiff S (set xs)) \<le> 2 * length (Coordinates s)" .
    show "sketch_of (length (Coordinates s)) S = sketch_of (length (Coordinates s)) (set xs)" using S(4) e(5) by simp
  qed
  ultimately show ?thesis by blast
qed

theorem DecodeElements_exact_witness:
  "DecodeElements \<lparr>Coordinates = sketch_of 2 {7}\<rparr> 2 = Inr [7] \<and> Coordinates \<lparr>Coordinates = sketch_of 2 {7}\<rparr> = sketch_of 2 (set [7])"
proof -
  have "DecodeElements \<lparr>Coordinates = sketch_of 2 {7}\<rparr> (int 2) = Inr (sorted_list_of_set {7})"
  proof -
    have "work_bound (card {7 :: u64}) \<le> maxFactorWork" by (simp add: maxFactorWork_def)
    then show ?thesis
      using decodeAndVerifySketch_ok [of "{7}" 2 2 None]
      by (auto simp: DecodeElements_def Capacity_def MaxLocalSketchDecodeCapacity_def MaxSketchCapacity_def)
  qed
  then have "DecodeElements \<lparr>Coordinates = sketch_of 2 {7}\<rparr> 2 = Inr [7]" by simp
  with DecodeElements_exact [OF this] show ?thesis by simp
qed

text \<open>Decoding is total. For a sketch of capacity 1 to 32 the only errors are the refusal of a number of
  elements outside 1 to the capacity and the decode failure; no index is out of range, and the internal
  exhaustion of the work budget is reported as a decode failure.\<close>

theorem DecodeElements_errors:
  assumes "1 \<le> Capacity s" and "Capacity s \<le> 32"
  shows "case DecodeElements s m of
      Inr xs \<Rightarrow> 1 \<le> m \<and> m \<le> Capacity s
    | Inl e \<Rightarrow> (if m \<le> 0 \<or> Capacity s < m then e = ErrInvalidSketchCapacity else e = ErrDecodeFailure)"
proof -
  obtain r w where d: "decodeAndVerifySketch s m None = (r, w)" by force
  show ?thesis
    using assms decodeAndVerifySketch_cases [OF _ _ assms d] d
    by (auto simp: DecodeElements_def MaxLocalSketchDecodeCapacity_def MaxSketchCapacity_def split: sum.splits)
qed

theorem DecodeElements_errors_witness:
  "DecodeElements \<lparr>Coordinates = [1, 2]\<rparr> 3 = Inl ErrInvalidSketchCapacity"
  using DecodeElements_errors [of "\<lparr>Coordinates = [1, 2]\<rparr>" 3]
  by (simp add: Capacity_def DecodeElements_def split: sum.splits)



end
