(* ===== verification/Triage.thy ===== *)
theory Triage
  imports Resident Decoding "HOL-Library.Signed_Division"
begin

text \<open>
  Package \<open>reconcile\<close>, \<open>reconcile/triage.go\<close>: bucket requests and their validation, the estimate of the
  difference from the strata, and the decoding of concatenated bucket sketches. A bucket of depth \<open>d\<close> and prefix
  \<open>p\<close> is the interval of the 32-bit index space whose top \<open>d\<close> bits are \<open>p\<close>. A Go \<open>int\<close> is an \<open>int\<close>.
\<close>

section \<open>Requests\<close>

definition MaxBucketedSketchCapacity :: int where "MaxBucketedSketchCapacity = 4096"
definition MaxBucketSketchCapacity :: int where "MaxBucketSketchCapacity = 32"

record bucket_request =
  Depth :: u8
  Prefix :: u32
  ReqCapacity :: int

record bucket_decode_success =
  SuccDepth :: u8
  SuccPrefix :: u32
  SuccRoots :: "u64 list"

record failed_bucket =
  FailDepth :: u8
  FailPrefix :: u32

record bucket_decode_batch =
  SuccessfulBuckets :: "bucket_decode_success list"
  FailedBuckets :: "failed_bucket list"

definition bucket_start :: "u8 \<Rightarrow> u32 \<Rightarrow> u64" where
  "bucket_start depth prefix = (let shift = 32 - depth in push_bit (unat shift) (ucast prefix))"

definition bucket_end :: "u8 \<Rightarrow> u32 \<Rightarrow> u64" where
  "bucket_end depth prefix = (let shift = 32 - depth in bucket_start depth prefix + push_bit (unat shift) 1)"

fun validate_loop :: "bucket_request list \<Rightarrow> int \<Rightarrow> u64 \<Rightarrow> unit result" where
  "validate_loop [] totalCapacity previousEnd = Inr ()"
| "validate_loop (req # requests) totalCapacity previousEnd =
     (if ReqCapacity req \<le> 0 \<or> ReqCapacity req > MaxBucketSketchCapacity then Inl ErrInvalidSketchCapacity
      else if Depth req > 32 then Inl ErrInvalidBucketIndex
      else if Depth req < 32 \<and> Prefix req \<ge> push_bit (unat (Depth req)) 1 then Inl ErrInvalidBucketIndex
      else
        let total = totalCapacity + ReqCapacity req
        in if total > MaxBucketedSketchCapacity then Inl ErrInvalidSketchCapacity
           else
             let start = bucket_start (Depth req) (Prefix req);
                 end1 = bucket_end (Depth req) (Prefix req)
             in if start < previousEnd then Inl ErrInvalidBucketIndex
                else validate_loop requests total end1)"

definition ValidateBucketRequests :: "bucket_request list \<Rightarrow> unit result" where
  "ValidateBucketRequests requests = validate_loop requests 0 0"

section \<open>The strata estimate\<close>

definition fallbackEstimate :: u64 where "fallbackEstimate = push_bit 31 8"

text \<open>The loop from stratum \<open>n - 1\<close> down to 0; the value and its flag, or an error.\<close>

fun estimate_loop :: "nat \<Rightarrow> u64 list list \<Rightarrow> u64 list list \<Rightarrow> int \<Rightarrow> (u64 \<times> bool) result" where
  "estimate_loop 0 local remote work = Inr (0, True)"
| "estimate_loop (Suc stratum) local remote work =
     (let residual = map (\<lambda>i. local ! stratum ! i XOR remote ! stratum ! i) [0..<StratumCapacity]
      in case decodePinSketch residual (int StratumCapacity) (Some work) of
           (Inl e, work') \<Rightarrow>
             (if e = ErrBudgetExhausted then Inr (0, False)
              else if e = ErrDecodeFailure then Inr (fallbackEstimate, True)
              else Inl e)
         | (Inr roots, work') \<Rightarrow>
             (let cardinality = of_nat (length roots) :: u64
              in if cardinality = 0 then estimate_loop stratum local remote (the work')
                 else if stratum = 31 then
                   (if cardinality > drop_bit 31 (- 1) then Inr (fallbackEstimate, True)
                    else Inr (push_bit 31 cardinality, True))
                 else
                   let shift = stratum + 1
                   in if cardinality > drop_bit shift (- 1) then Inr (fallbackEstimate, True)
                      else Inr (push_bit shift cardinality, True)))"

definition EstimateDelta :: "u64 list list \<Rightarrow> u64 list list \<Rightarrow> (u64 \<times> bool) result" where
  "EstimateDelta local remote = estimate_loop StrataCount local remote maxFactorWork"

section \<open>Concatenated bucket sketches\<close>

definition safeMul :: "int \<Rightarrow> int \<Rightarrow> int option" where
  "safeMul a b = (if a = 0 \<or> b = 0 then Some 0 else if a > maxInt sdiv b then None else Some (a * b))"

definition safeAdd :: "int \<Rightarrow> int \<Rightarrow> int option" where
  "safeAdd a b = (if b > maxInt - a then None else Some (a + b))"

definition add_success :: "bucket_request \<Rightarrow> u64 list \<Rightarrow> bucket_decode_batch \<Rightarrow> bucket_decode_batch" where
  "add_success r roots batch = batch\<lparr>SuccessfulBuckets := SuccessfulBuckets batch @
     [\<lparr>SuccDepth = Depth r, SuccPrefix = Prefix r, SuccRoots = roots\<rparr>]\<rparr>"

definition add_failed :: "bucket_request \<Rightarrow> bucket_decode_batch \<Rightarrow> bucket_decode_batch" where
  "add_failed r batch = batch\<lparr>FailedBuckets := FailedBuckets batch @ [\<lparr>FailDepth = Depth r, FailPrefix = Prefix r\<rparr>]\<rparr>"

fun decode_buckets_loop ::
  "bytes \<Rightarrow> bucket_request list \<Rightarrow> int \<Rightarrow> int \<Rightarrow> bucket_decode_batch \<Rightarrow> (int \<times> bucket_decode_batch) result" where
  "decode_buckets_loop encoded [] offset work batch = Inr (offset, batch)"
| "decode_buckets_loop encoded (request # requests) offset work batch =
     (case safeMul (ReqCapacity request) 8 of
        None \<Rightarrow> Inl ErrInvalidSketchLength
      | Some byteLen \<Rightarrow>
          (case safeAdd offset byteLen of
             None \<Rightarrow> Inl ErrInvalidSketchLength
           | Some end1 \<Rightarrow>
               if end1 > int (length encoded) then Inl ErrInvalidSketchLength
               else
                 let bs = take (nat (end1 - offset)) (drop (nat offset) encoded)
                 in case newSketchFromEncodedBytes (ReqCapacity request) bs of
                      Inl e \<Rightarrow> Inl e
                    | Inr sk \<Rightarrow>
                        (case decodeAndVerifySketch sk (ReqCapacity request) (Some work) of
                           (Inl e, work') \<Rightarrow>
                             (if e = ErrDecodeFailure \<or> e = ErrBudgetExhausted
                              then decode_buckets_loop encoded requests end1 (the work') (add_failed request batch)
                              else Inl e)
                         | (Inr roots, work') \<Rightarrow>
                             decode_buckets_loop encoded requests end1 (the work') (add_success request roots batch))))"

definition DecodeBucketSketches :: "bytes \<Rightarrow> bucket_request list \<Rightarrow> bucket_decode_batch result" where
  "DecodeBucketSketches encoded requests =
     (case ValidateBucketRequests requests of
        Inl e \<Rightarrow> Inl e
      | Inr _ \<Rightarrow>
          (case decode_buckets_loop encoded requests 0 maxFactorWork \<lparr>SuccessfulBuckets = [], FailedBuckets = []\<rparr> of
             Inl e \<Rightarrow> Inl e
           | Inr (offset, batch) \<Rightarrow> if offset \<noteq> int (length encoded) then Inl ErrInvalidSketchLength else Inr batch))"

section \<open>Buckets as intervals\<close>

text \<open>The indices below 2^32 whose top bits are the prefix.\<close>

definition bucket_size :: "u8 \<Rightarrow> nat" where
  "bucket_size d = 2 ^ (32 - unat d)"

definition bucket_set :: "u8 \<Rightarrow> u32 \<Rightarrow> nat set" where
  "bucket_set d p = {unat p * bucket_size d ..< (unat p + 1) * bucket_size d}"

definition well_formed :: "bucket_request \<Rightarrow> bool" where
  "well_formed r \<longleftrightarrow> 1 \<le> ReqCapacity r \<and> ReqCapacity r \<le> 32 \<and> unat (Depth r) \<le> 32 \<and> unat (Prefix r) < 2 ^ unat (Depth r)"

lemma depth_le: "d \<le> (32 :: u8) \<longleftrightarrow> unat d \<le> 32"
  by (simp add: word_le_nat_alt)

lemma shift_eq: "unat d \<le> 32 \<Longrightarrow> unat (32 - d) = 32 - unat (d :: u8)"
  by (simp add: unat_sub word_le_nat_alt)

lemma u32_less: "unat (p :: u32) < 4294967296"
  using unsigned_less [of p] by simp

lemma prefix_check:
  assumes "unat d \<le> 32"
  shows "d < 32 \<and> push_bit (unat d) 1 \<le> p \<longleftrightarrow> \<not> unat (p :: u32) < 2 ^ unat (d :: u8)"
proof (cases "d < 32")
  case True
  then have "unat d < 32" by (simp add: word_less_nat_alt)
  then have "(2 :: nat) ^ unat d < 2 ^ 32" by (intro power_strict_increasing) auto
  moreover have "push_bit (unat d) (1 :: u32) = of_nat (2 ^ unat d)" by simp
  ultimately have "unat (push_bit (unat d) 1 :: u32) = 2 ^ unat d" by (simp only: unat_of_nat) simp
  then show ?thesis using True by (simp add: word_le_nat_alt not_less)
next
  case False
  then have "unat d = 32" using assms by (simp add: word_less_nat_alt)
  then show ?thesis using False u32_less [of p] by simp
qed

lemma bucket_fits: "unat p < 2 ^ unat d \<Longrightarrow> unat d \<le> 32 \<Longrightarrow> (unat p + 1) * bucket_size d \<le> 2 ^ 32"
proof -
  assume p: "unat p < 2 ^ unat d" and d: "unat d \<le> 32"
  have "(unat p + 1) * bucket_size d \<le> 2 ^ unat d * bucket_size d" using p by (intro mult_right_mono) auto
  also have "\<dots> = 2 ^ 32" unfolding bucket_size_def power_add [symmetric] using d by simp
  finally show ?thesis .
qed

lemma bucket_start_nat:
  assumes "unat p < 2 ^ unat d" "unat d \<le> 32"
  shows "unat (bucket_start d p) = unat p * bucket_size d" "unat (bucket_end d p) = (unat p + 1) * bucket_size d"
proof -
  have b: "(unat p + 1) * bucket_size d \<le> 2 ^ 32" by (rule bucket_fits [OF assms])
  have e: "bucket_start d p = of_nat (unat p * bucket_size d)" "bucket_end d p = of_nat ((unat p + 1) * bucket_size d)"
    by (simp_all add: bucket_start_def bucket_end_def Let_def shift_eq [OF assms(2)] push_bit_eq_mult bucket_size_def algebra_simps)
  show "unat (bucket_start d p) = unat p * bucket_size d" "unat (bucket_end d p) = (unat p + 1) * bucket_size d"
    unfolding e using b by (simp_all only: unat_of_nat) simp_all
qed

section \<open>Validation\<close>

text \<open>Requests are in order when every bucket ends where the next one starts, or before.\<close>

fun in_order :: "nat \<Rightarrow> bucket_request list \<Rightarrow> bool" where
  "in_order lo [] \<longleftrightarrow> True"
| "in_order lo (r # rs) \<longleftrightarrow>
     lo \<le> unat (Prefix r) * bucket_size (Depth r) \<and> in_order ((unat (Prefix r) + 1) * bucket_size (Depth r)) rs"

definition total_capacity :: "bucket_request list \<Rightarrow> int" where
  "total_capacity rs = (\<Sum>r\<leftarrow>rs. ReqCapacity r)"

lemma total_capacity_simps [simp]:
  "total_capacity [] = 0" "total_capacity (r # rs) = ReqCapacity r + total_capacity rs"
  by (simp_all add: total_capacity_def)

lemma total_capacity_nonneg: "\<forall>r\<in>set rs. well_formed r \<Longrightarrow> 0 \<le> total_capacity rs"
  by (induction rs) (auto simp: well_formed_def)

lemma validate_loop_iff:
  "validate_loop rs tot prev = Inr () \<longleftrightarrow>
   (\<forall>r\<in>set rs. well_formed r) \<and> (rs = [] \<or> tot + total_capacity rs \<le> 4096) \<and> in_order (unat prev) rs"
proof (induction rs arbitrary: tot prev)
  case (Cons r rs)
  show ?case
  proof (cases "well_formed r")
    case True
    then have w: "\<not> (ReqCapacity r \<le> 0 \<or> ReqCapacity r > 32)" "\<not> Depth r > 32"
      "\<not> (Depth r < 32 \<and> push_bit (unat (Depth r)) 1 \<le> Prefix r)"
      using prefix_check [of "Depth r" "Prefix r"] by (auto simp: well_formed_def depth_le not_less)
    have u: "unat (bucket_start (Depth r) (Prefix r)) = unat (Prefix r) * bucket_size (Depth r)"
      "unat (bucket_end (Depth r) (Prefix r)) = (unat (Prefix r) + 1) * bucket_size (Depth r)"
      using bucket_start_nat True by (auto simp: well_formed_def)
    have lt: "bucket_start (Depth r) (Prefix r) < prev \<longleftrightarrow> \<not> unat prev \<le> unat (Prefix r) * bucket_size (Depth r)"
      by (simp add: word_less_nat_alt u(1) not_le)
    have nn: "0 \<le> total_capacity rs" if "\<forall>r\<in>set rs. well_formed r" using that by (rule total_capacity_nonneg)
    show ?thesis
      using w True nn
      by (auto simp: Let_def lt MaxBucketSketchCapacity_def MaxBucketedSketchCapacity_def Cons.IH u(2) simp del: push_bit_of_1)
  next
    case False
    then have "\<not> (validate_loop (r # rs) tot prev = Inr ())"
      using prefix_check [of "Depth r" "Prefix r"]
      by (auto simp: well_formed_def MaxBucketSketchCapacity_def depth_le not_less Let_def simp del: push_bit_of_1 split: if_splits)
    then show ?thesis using False by auto
  qed
qed simp

text \<open>Buckets in order are disjoint.\<close>

lemma in_order_above: "in_order k rs \<Longrightarrow> r \<in> set rs \<Longrightarrow> k \<le> unat (Prefix r) * bucket_size (Depth r)"
proof (induction k rs rule: in_order.induct)
  case (2 k r' rs)
  then show ?case by (auto simp: add_mult_distrib)
qed simp

lemma in_order_disjoint:
  "in_order k rs \<Longrightarrow> i < j \<Longrightarrow> j < length rs \<Longrightarrow>
   bucket_set (Depth (rs ! i)) (Prefix (rs ! i)) \<inter> bucket_set (Depth (rs ! j)) (Prefix (rs ! j)) = {}"
proof (induction k rs arbitrary: i j rule: in_order.induct)
  case (2 k r rs)
  obtain j' where j: "j = Suc j'" "j' < length rs" using 2(3,4) by (cases j) auto
  show ?case
  proof (cases i)
    case 0
    have "(unat (Prefix r) + 1) * bucket_size (Depth r) \<le> unat (Prefix (rs ! j')) * bucket_size (Depth (rs ! j'))"
      using in_order_above [of _ rs "rs ! j'"] 2(2) j by auto
    then show ?thesis using 0 j by (auto simp: bucket_set_def)
  next
    case (Suc i')
    then show ?thesis using 2 j by simp
  qed
qed simp

section \<open>The estimate\<close>

text \<open>What the estimate is meant to be: the number of differences in the highest stratum that has any,
  scaled by the share of the elements that reach it.\<close>

fun strata_estimate :: "(nat \<Rightarrow> u64 set) \<Rightarrow> nat \<Rightarrow> u64" where
  "strata_estimate D 0 = 0"
| "strata_estimate D (Suc i) =
     (if D i = {} then strata_estimate D i else of_nat (card (D i) * 2 ^ min 31 (i + 1)))"

lemma estimate_loop_ok: "is_ok (estimate_loop n local remote work)"
proof (induction n arbitrary: work)
  case (Suc n)
  let ?res = "map (\<lambda>i. local ! n ! i XOR remote ! n ! i) [0..<StratumCapacity]"
  obtain r w where d: "decodePinSketch ?res (int StratumCapacity) (Some work) = (r, w)" by force
  show ?case using Suc d decodePinSketch_cases [OF _ d] by (auto simp: Let_def split: sum.splits)
qed simp

lemma small_shift:
  assumes "0 < c" "c \<le> 8" "k \<le> 32"
  shows "(of_nat c :: u64) \<noteq> 0" "\<not> (of_nat c :: u64) > drop_bit k (- 1)"
proof -
  have c: "unat (of_nat c :: u64) = c" using assms(2) by (simp add: unat_of_nat)
  then show "(of_nat c :: u64) \<noteq> 0" using assms(1) by auto
  have "(2 :: nat) ^ k \<le> 2 ^ 32" using assms(3) by (intro power_increasing) auto
  then have "(2 ^ 64 - 1) div 2 ^ 32 \<le> (2 ^ 64 - 1) div (2 :: nat) ^ k" by (intro div_le_mono2) auto
  then have "8 \<le> (2 ^ 64 - 1) div (2 :: nat) ^ k" by simp
  also have "\<dots> = drop_bit k (unat (- 1 :: u64))"
    by (simp add: drop_bit_eq_div unsigned_minus_1_eq_mask mask_eq_exp_minus_1)
  also have "\<dots> = unat (drop_bit k (- 1 :: u64))" by (subst unsigned_drop_bit_eq) (simp add: unsigned_minus_1_eq_mask)
  finally show "\<not> (of_nat c :: u64) > drop_bit k (- 1)" using c assms(2) by (simp add: word_less_nat_alt)
qed

lemma work_bound_8: "work_bound 8 \<le> maxFactorWork"
  using work_bound_mono [of 8 16] work_bound_16 by simp

lemma estimate_loop_populations:
  assumes D: "\<And>i. finite (D i) \<and> 0 \<notin> D i"
    and res: "\<And>i j. i < 32 \<Longrightarrow> j < 8 \<Longrightarrow> local ! i ! j XOR remote ! i ! j = sketch_of 8 (D i) ! j"
    and highest: "\<And>i. i < n \<Longrightarrow> \<forall>j. i < j \<and> j < n \<longrightarrow> D j = {} \<Longrightarrow> card (D i) \<le> 8"
    and work: "work_bound 8 \<le> work"
  shows "n \<le> 32 \<Longrightarrow> estimate_loop n local remote work = Inr (strata_estimate D n, True)"
  using highest work
proof (induction n arbitrary: work)
  case (Suc n)
  have "map (\<lambda>i. local ! n ! i XOR remote ! n ! i) [0..<StratumCapacity] = sketch_of 8 (D n)"
    using res [of n] Suc.prems(1) by (intro nth_equalityI) (auto simp: StratumCapacity_def)
  moreover have c8: "card (D n) \<le> 8" by (rule Suc.prems(2)) auto
  moreover from c8 have wb: "work_bound (card (D n)) \<le> work" using work_bound_mono [of "card (D n)" 8] Suc.prems(3) by simp
  ultimately obtain w where d: "decodePinSketch (map (\<lambda>i. local ! n ! i XOR remote ! n ! i) [0..<StratumCapacity])
      (int StratumCapacity) (Some work) = (Inr (sorted_list_of_set (D n)), Some w)" "work - work_bound (card (D n)) \<le> w"
    using decodePinSketch_ok [of "D n" 8 8 "Some work"] D [of n] by (auto simp: StratumCapacity_def)
  show ?case
  proof (cases "D n = {}")
    case True
    then have "estimate_loop n local remote w = Inr (strata_estimate D n, True)"
      using Suc.prems d(2) by (intro Suc.IH) (auto simp: less_Suc_eq)
    then show ?thesis using True d(1) by (simp add: Let_def)
  next
    case False
    then have c: "0 < card (D n)" using D by (simp add: card_gt_0_iff)
    have p: "push_bit k (of_nat m :: u64) = of_nat (m * 2 ^ k)" for k m by (simp add: push_bit_eq_mult)
    have n: "Suc n \<le> 32" "31 \<le> (32 :: nat)" using Suc.prems(1) by auto
    show ?thesis
    proof (cases "n = 31")
      case True
      then show ?thesis unfolding estimate_loop.simps strata_estimate.simps
        using d(1) D [of n] small_shift [OF c c8 n(2)] False
        by (simp add: Let_def p del: of_nat_mult)
    next
      case n31: False
      then have "min 31 (n + 1) = n + 1" using Suc.prems(1) by simp
      then show ?thesis using d(1) D [of n] small_shift [OF c c8 n(1)] False n31
        by (simp add: Let_def p del: of_nat_mult)
    qed
  qed
qed simp

section \<open>Batches\<close>

definition wire :: "nat \<Rightarrow> u64 set \<Rightarrow> bytes" where
  "wire n S = concat (map (le_bytes 8) (sketch_of n S))"

lemma length_wire: "length (wire n S) = n * 8"
  by (simp add: wire_def length_concat_le8)

lemma newSketch_wire:
  "newSketchFromEncodedBytes (int n) (wire n S) = Inr \<lparr>Coordinates = sketch_of n S\<rparr>"
  using concat_le8_chunks [of "sketch_of n S"] by (simp add: newSketchFromEncodedBytes_def length_wire) (simp add: wire_def)

lemma le8_chunks_concat:
  "length bs = n * 8 \<Longrightarrow> concat (map (le_bytes 8) (map (\<lambda>i. le_word (take 8 (drop (i * 8) bs)) :: u64) [0..<n])) = bs"
proof (induction n arbitrary: bs)
  case (Suc n)
  have u: "[0..<Suc n] = 0 # map Suc [0..<n]" by (simp only: map_Suc_upt upt_conv_Cons [OF zero_less_Suc])
  have "le_bytes 8 (le_word (take 8 bs) :: u64) = take 8 bs" using Suc.prems by (intro le_bytes_le_word) auto
  moreover have "drop (Suc i * 8) bs = drop (i * 8) (drop 8 bs)" for i by (simp add: add.commute)
  ultimately show ?case using Suc.IH [of "drop 8 bs"] Suc.prems
    unfolding u by (simp del: upt_Suc add: o_def)
qed simp

text \<open>The result of each request in order: the decoded roots, or none for a bucket that failed.\<close>

fun extend_batch :: "bucket_decode_batch \<Rightarrow> (bucket_request \<times> u64 list option) list \<Rightarrow> bucket_decode_batch" where
  "extend_batch batch [] = batch"
| "extend_batch batch ((r, None) # ros) = extend_batch (add_failed r batch) ros"
| "extend_batch batch ((r, Some roots) # ros) = extend_batch (add_success r roots batch) ros"

fun outcomes_ok :: "bytes \<Rightarrow> nat \<Rightarrow> (bucket_request \<times> u64 list option) list \<Rightarrow> bool" where
  "outcomes_ok encoded offset [] \<longleftrightarrow> offset = length encoded"
| "outcomes_ok encoded offset ((r, res) # ros) \<longleftrightarrow>
     (let n = nat (ReqCapacity r) in
        (case res of
           None \<Rightarrow> True
         | Some roots \<Rightarrow> sorted roots \<and> distinct roots \<and> 0 \<notin> set roots \<and> length roots \<le> n \<and>
             take (n * 8) (drop offset encoded) = wire n (set roots)) \<and>
        outcomes_ok encoded (offset + n * 8) ros)"

lemma safe_ops:
  assumes "well_formed r" "off \<le> len" "int len \<le> maxInt"
  shows "safeMul (ReqCapacity r) 8 = Some (int (nat (ReqCapacity r) * 8))"
    and "safeAdd (int off) (int (nat (ReqCapacity r) * 8)) = None \<or>
      safeAdd (int off) (int (nat (ReqCapacity r) * 8)) = Some (int (off + nat (ReqCapacity r) * 8))"
proof -
  have "maxInt sdiv 8 = 1152921504606846975" by (simp add: maxInt_def signed_divide_int_def)
  then show "safeMul (ReqCapacity r) 8 = Some (int (nat (ReqCapacity r) * 8))"
    using assms(1) by (auto simp: safeMul_def well_formed_def)
qed (simp add: safeAdd_def)

lemma decode_buckets_loop_sound:
  assumes "\<forall>r\<in>set rs. well_formed r" "off \<le> length encoded" "int (length encoded) \<le> maxInt"
    and "decode_buckets_loop encoded rs (int off) work batch = Inr (int (length encoded), batch')"
  shows "\<exists>os. length os = length rs \<and> batch' = extend_batch batch (zip rs os) \<and> outcomes_ok encoded off (zip rs os)"
  using assms
proof (induction rs arbitrary: off work batch)
  case (Cons r rs)
  let ?n = "nat (ReqCapacity r)" and ?bs = "take (nat (ReqCapacity r) * 8) (drop off encoded)"
  have wf: "well_formed r" using Cons.prems by simp
  then have n: "1 \<le> ?n" "?n \<le> 32" "int ?n = ReqCapacity r" by (auto simp: well_formed_def)
  note ops = safe_ops [OF wf Cons.prems(2,3)]
  have sa: "safeAdd (int off) (int (?n * 8)) = Some (int (off + ?n * 8))"
    using Cons.prems(4) ops by auto
  have fits: "off + ?n * 8 \<le> length encoded"
    using Cons.prems(4) ops(1) sa by (auto split: if_splits)
  define cs where "cs = map (\<lambda>i. le_word (take 8 (drop (i * 8) ?bs)) :: u64) [0..<?n]"
  have lbs: "length ?bs = ?n * 8" using fits by simp
  have new: "newSketchFromEncodedBytes (ReqCapacity r) ?bs = Inr \<lparr>Coordinates = cs\<rparr>"
    using lbs n by (simp add: newSketchFromEncodedBytes_def cs_def)
  have csl: "length cs = ?n" by (simp add: cs_def)
  have cap: "Capacity \<lparr>Coordinates = cs\<rparr> = ReqCapacity r" using csl n by (simp add: Capacity_def)
  obtain d w where d: "decodeAndVerifySketch \<lparr>Coordinates = cs\<rparr> (ReqCapacity r) (Some work) = (d, w)" by force
  have c: "0 \<le> ReqCapacity r" "1 \<le> Capacity \<lparr>Coordinates = cs\<rparr>" "Capacity \<lparr>Coordinates = cs\<rparr> \<le> 32" "ReqCapacity r \<le> Capacity \<lparr>Coordinates = cs\<rparr>"
    using n cap by auto
  note step = decode_buckets_loop.simps(2) [of encoded r rs "int off" work batch]
  have bs: "take (nat (int (off + ?n * 8) - int off)) (drop (nat (int off)) encoded) = ?bs" by (simp add: nat_mult_distrib)
  have lp: "decode_buckets_loop encoded (r # rs) (int off) work batch =
      (case d of
         Inl e \<Rightarrow> (if e = ErrDecodeFailure \<or> e = ErrBudgetExhausted
                   then decode_buckets_loop encoded rs (int (off + ?n * 8)) (the w) (add_failed r batch) else Inl e)
       | Inr roots \<Rightarrow> decode_buckets_loop encoded rs (int (off + ?n * 8)) (the w) (add_success r roots batch))"
  proof -
    have nf: "\<not> int (off + ?n * 8) > int (length encoded)" using fits by linarith
    show ?thesis unfolding step ops(1) option.case sa Let_def bs new sum.case d prod.case
      by (cases d) (simp_all only: nf if_False sum.case)
  qed
  show ?case
  proof (cases d)
    case (Inl e)
    then obtain os where "length os = length rs" "batch' = extend_batch (add_failed r batch) (zip rs os)"
      "outcomes_ok encoded (off + ?n * 8) (zip rs os)"
      using Cons.IH [of "off + ?n * 8" "the w" "add_failed r batch"] Cons.prems fits lp by (auto split: if_splits)
    then show ?thesis by (intro exI [of _ "None # os"]) (simp add: Let_def)
  next
    case (Inr roots)
    then obtain os where "length os = length rs" "batch' = extend_batch (add_success r roots batch) (zip rs os)"
      "outcomes_ok encoded (off + ?n * 8) (zip rs os)"
      using Cons.IH [of "off + ?n * 8" "the w" "add_success r roots batch"] Cons.prems fits lp by auto
    moreover have "sorted roots \<and> distinct roots \<and> 0 \<notin> set roots \<and> int (length roots) \<le> ReqCapacity r \<and> cs = sketch_of (length cs) (set roots)"
      using decodeAndVerifySketch_exact [OF c(1,4,2,3) d [unfolded Inr]] by simp
    moreover from this have "?bs = wire ?n (set roots)"
      using le8_chunks_concat [OF lbs] csl unfolding cs_def [symmetric] wire_def by metis
    ultimately show ?thesis using n by (intro exI [of _ "Some roots # os"]) (auto simp: Let_def)
  qed
qed simp

text \<open>A set of differences fits a request when the capacity suffices for it; what a bucket costs at most.\<close>

definition fits :: "bucket_request \<Rightarrow> u64 set \<Rightarrow> bool" where
  "fits r S \<longleftrightarrow> int (card S) \<le> ReqCapacity r"

definition bucket_work :: "bucket_request \<Rightarrow> u64 set \<Rightarrow> int" where
  "bucket_work r S = work_bound (if fits r S then card S else nat (ReqCapacity r))"

lemma decode_bucket_ok:
  assumes "well_formed r" "finite S" "0 \<notin> S" "bucket_work r S \<le> work"
  shows "\<exists>d w. decodeAndVerifySketch \<lparr>Coordinates = sketch_of (nat (ReqCapacity r)) S\<rparr> (ReqCapacity r) (Some work) = (d, Some w) \<and>
    work - bucket_work r S \<le> w \<and> (fits r S \<longrightarrow> d = Inr (sorted_list_of_set S)) \<and>
    (\<forall>e. d = Inl e \<longrightarrow> e = ErrDecodeFailure \<or> e = ErrBudgetExhausted)"
proof -
  let ?n = "nat (ReqCapacity r)" and ?s = "\<lparr>Coordinates = sketch_of (nat (ReqCapacity r)) S\<rparr>"
  have n: "1 \<le> ?n" "?n \<le> 32" "int ?n = ReqCapacity r" using assms(1) by (auto simp: well_formed_def)
  have cap: "Capacity ?s = ReqCapacity r" using n by (simp add: Capacity_def)
  show ?thesis
  proof (cases "fits r S")
    case True
    then have "card S \<le> ?n" using n(3) by (simp add: fits_def)
    moreover have "work_bound (card S) \<le> (case Some work of None \<Rightarrow> maxFactorWork | Some w \<Rightarrow> w)"
      using True assms(4) by (simp add: bucket_work_def)
    ultimately obtain w where "decodeAndVerifySketch ?s (ReqCapacity r) (Some work) = (Inr (sorted_list_of_set S), Some w)"
      "work - work_bound (card S) \<le> w"
      using decodeAndVerifySketch_ok [OF assms(2,3) _ n(1) order_refl n(2), of "Some work"] n(3) by auto
    then show ?thesis using True by (simp add: bucket_work_def)
  next
    case False
    then obtain d w where "decodeAndVerifySketch ?s (ReqCapacity r) (Some work) = (d, Some w)" "work - bucket_work r S \<le> w"
      using decodeAndVerifySketch_spends [of "ReqCapacity r" ?s work] assms(4) n cap by (auto simp: bucket_work_def)
    then show ?thesis
      using False decodeAndVerifySketch_cases [of "ReqCapacity r" ?s "Some work" d "Some w"] n cap by fastforce
  qed
qed

text \<open>Every bucket that fits is decoded, whatever the others hold.\<close>

lemma decode_buckets_loop_complete:
  assumes "list_all2 (\<lambda>r S. well_formed r \<and> finite S \<and> 0 \<notin> S) rs Ss"
    and "int (length encoded) \<le> maxInt" "off \<le> length encoded"
    and "drop off encoded = concat (map2 (\<lambda>r S. wire (nat (ReqCapacity r)) S) rs Ss)"
    and "(\<Sum>(r, S)\<leftarrow>zip rs Ss. bucket_work r S) \<le> work"
  shows "\<exists>os. decode_buckets_loop encoded rs (int off) work batch = Inr (int (length encoded), extend_batch batch (zip rs os)) \<and>
    list_all2 (\<lambda>(r, S) res. fits r S \<longrightarrow> res = Some (sorted_list_of_set S)) (zip rs Ss) os"
  using assms
proof (induction rs arbitrary: Ss off work batch)
  case (Cons r rs)
  then obtain S Ss' where Ss: "Ss = S # Ss'" "well_formed r" "finite S" "0 \<notin> S"
    "list_all2 (\<lambda>r S. well_formed r \<and> finite S \<and> 0 \<notin> S) rs Ss'"
    by (auto simp: list_all2_Cons1)
  let ?n = "nat (ReqCapacity r)" and ?tail = "concat (map2 (\<lambda>r S. wire (nat (ReqCapacity r)) S) rs Ss')"
  have n: "int ?n = ReqCapacity r" using Ss(2) by (auto simp: well_formed_def)
  have e: "drop off encoded = wire ?n S @ ?tail" using Cons.prems(4) Ss(1) by simp
  then have "length (drop off encoded) = ?n * 8 + length ?tail" by (simp only: length_append length_wire)
  then have off: "off + ?n * 8 \<le> length encoded" using Cons.prems(3) by simp
  have tl: "drop (off + ?n * 8) encoded = ?tail"
  proof -
    have "drop (?n * 8) (drop off encoded) = ?tail" unfolding e by (simp add: length_wire)
    then show ?thesis by (simp add: add.commute)
  qed
  have hd: "take (nat (int (off + ?n * 8) - int off)) (drop (nat (int off)) encoded) = wire ?n S"
    using e by (simp add: nat_mult_distrib length_wire)
  note ops = safe_ops [OF Ss(2) Cons.prems(3,2)]
  have sa: "safeAdd (int off) (int (?n * 8)) = Some (int (off + ?n * 8))"
    using ops(2) off Cons.prems(2) by (auto simp: safeAdd_def)
  have rnn: "0 \<le> (\<Sum>(r, S)\<leftarrow>zip rs Ss'. bucket_work r S)"
    by (intro sum_list_nonneg) (auto simp: bucket_work_def work_bound_nonneg)
  then have "bucket_work r S \<le> work" using Cons.prems(5) Ss(1) by simp
  then obtain d w where
    d: "decodeAndVerifySketch \<lparr>Coordinates = sketch_of ?n S\<rparr> (ReqCapacity r) (Some work) = (d, Some w)"
      "work - bucket_work r S \<le> w" "fits r S \<longrightarrow> d = Inr (sorted_list_of_set S)"
      "\<forall>e. d = Inl e \<longrightarrow> e = ErrDecodeFailure \<or> e = ErrBudgetExhausted"
    using decode_bucket_ok [OF Ss(2-4)] by blast
  have nf: "\<not> int (off + ?n * 8) > int (length encoded)" using off by linarith
  have new: "newSketchFromEncodedBytes (ReqCapacity r) (wire ?n S) = Inr \<lparr>Coordinates = sketch_of ?n S\<rparr>"
    using newSketch_wire [of ?n S] n by simp
  define res where "res = (case d of Inl _ \<Rightarrow> None | Inr roots \<Rightarrow> Some roots)"
  have "decode_buckets_loop encoded (r # rs) (int off) work batch =
      decode_buckets_loop encoded rs (int (off + ?n * 8)) w (extend_batch batch [(r, res)])"
    unfolding decode_buckets_loop.simps(2) ops(1) option.case sa Let_def hd new sum.case d(1) prod.case
    using nf d(4) by (cases d) (simp_all add: res_def)
  moreover obtain os where "decode_buckets_loop encoded rs (int (off + ?n * 8)) w (extend_batch batch [(r, res)]) =
      Inr (int (length encoded), extend_batch (extend_batch batch [(r, res)]) (zip rs os))"
    "list_all2 (\<lambda>(r, S) res. fits r S \<longrightarrow> res = Some (sorted_list_of_set S)) (zip rs Ss') os"
    using Cons.IH [OF Ss(5) Cons.prems(2) off tl, of w "extend_batch batch [(r, res)]"] d(2) Cons.prems(5) Ss(1) by auto
  moreover have "extend_batch (extend_batch batch [(r, res)]) (zip rs os) = extend_batch batch (zip (r # rs) (res # os))" for os
    by (cases res) simp_all
  ultimately show ?case using Ss(1) d(3) by (intro exI [of _ "res # os"]) (auto simp: res_def)
qed auto

definition sample_request :: bucket_request where
  "sample_request = \<lparr>Depth = 0, Prefix = 0, ReqCapacity = 4\<rparr>"

lemma sample_valid: "ValidateBucketRequests [sample_request] = Inr ()"
  unfolding ValidateBucketRequests_def validate_loop_iff by (simp add: sample_request_def well_formed_def)

lemma sample_decodes:
  "DecodeBucketSketches (wire 4 {7, 9}) [sample_request] =
    Inr (extend_batch \<lparr>SuccessfulBuckets = [], FailedBuckets = []\<rparr> [(sample_request, Some [7, 9])])"
proof -
  have "\<exists>os. decode_buckets_loop (wire 4 {7, 9}) [sample_request] (int 0) maxFactorWork \<lparr>SuccessfulBuckets = [], FailedBuckets = []\<rparr> =
      Inr (int (length (wire 4 {7, 9})), extend_batch \<lparr>SuccessfulBuckets = [], FailedBuckets = []\<rparr> (zip [sample_request] os)) \<and>
      list_all2 (\<lambda>(r, S) res. fits r S \<longrightarrow> res = Some (sorted_list_of_set S)) (zip [sample_request] [{7, 9}]) os"
    by (rule decode_buckets_loop_complete)
      (simp_all add: sample_request_def well_formed_def maxInt_def length_wire maxFactorWork_def bucket_work_def fits_def)
  then have "decode_buckets_loop (wire 4 {7, 9}) [sample_request] (int 0) maxFactorWork \<lparr>SuccessfulBuckets = [], FailedBuckets = []\<rparr> =
      Inr (int (length (wire 4 {7, 9})), extend_batch \<lparr>SuccessfulBuckets = [], FailedBuckets = []\<rparr> [(sample_request, Some [7, 9])])"
    by (auto simp: list_all2_Cons1 fits_def sample_request_def)
  then show ?thesis unfolding DecodeBucketSketches_def sample_valid by simp
qed

section \<open>Properties\<close>

text \<open>C35: validation accepts exactly the lists of non-empty requests whose capacities are 1 to 32 and sum to at
  most 4096, whose prefixes fit their depth of at most 32, and whose buckets come in increasing order and do not
  overlap. Accepted buckets are pairwise disjoint intervals of the 32-bit space, so no element is asked for twice.\<close>

theorem ValidateBucketRequests_iff:
  "(ValidateBucketRequests rs = Inr () \<longleftrightarrow>
     (\<forall>r\<in>set rs. well_formed r) \<and> total_capacity rs \<le> 4096 \<and> in_order 0 rs) \<and>
   (ValidateBucketRequests rs = Inr () \<and> i < j \<and> j < length rs \<longrightarrow>
     bucket_set (Depth (rs ! i)) (Prefix (rs ! i)) \<inter> bucket_set (Depth (rs ! j)) (Prefix (rs ! j)) = {} \<and>
     bucket_set (Depth (rs ! i)) (Prefix (rs ! i)) \<subseteq> {..<2 ^ 32})"
proof -
  have v: "ValidateBucketRequests rs = Inr () \<longleftrightarrow>
      (\<forall>r\<in>set rs. well_formed r) \<and> total_capacity rs \<le> 4096 \<and> in_order 0 rs"
    unfolding ValidateBucketRequests_def validate_loop_iff by (cases rs) auto
  have "bucket_set (Depth r) (Prefix r) \<subseteq> {..<2 ^ 32}" if "well_formed r" for r
    using bucket_fits [of "Prefix r" "Depth r"] that by (auto simp: well_formed_def bucket_set_def)
  moreover have "i < length rs" if "i < j" "j < length rs" using that by simp
  ultimately show ?thesis unfolding v using in_order_disjoint [of 0 rs i j] nth_mem by blast
qed

theorem ValidateBucketRequests_iff_witness:
  "ValidateBucketRequests [\<lparr>Depth = 1, Prefix = 0, ReqCapacity = 4\<rparr>, \<lparr>Depth = 1, Prefix = 1, ReqCapacity = 4\<rparr>] = Inr () \<and>
   bucket_set 1 0 \<inter> bucket_set 1 1 = {}"
proof -
  let ?rs = "[\<lparr>Depth = 1, Prefix = 0, ReqCapacity = 4\<rparr>, \<lparr>Depth = 1, Prefix = 1, ReqCapacity = 4\<rparr>]"
  have v: "ValidateBucketRequests ?rs = Inr ()"
    using ValidateBucketRequests_iff [of ?rs 0 1] by (simp add: well_formed_def bucket_size_def)
  then show ?thesis using ValidateBucketRequests_iff [of ?rs 0 1] by simp
qed

text \<open>The estimate of the difference of two populations. If the highest stratum with differences has at most
  8 of them, the estimate is their number times the share of that stratum, and it is zero when there are
  none; the estimator never fails and never panics.\<close>

theorem EstimateDelta_populations:
  assumes "0 \<notin> set vs" and "0 \<notin> set ws"
    and "D = (\<lambda>i. symdiff (odd_set (filter (\<lambda>v. stratum_index v = i) vs)) (odd_set (filter (\<lambda>v. stratum_index v = i) ws)))"
    and "\<forall>i<32. (\<forall>j. i < j \<and> j < 32 \<longrightarrow> D j = {}) \<longrightarrow> card (D i) \<le> 8"
  shows "EstimateDelta (strata_of vs) (strata_of ws) = Inr (strata_estimate D 32, True) \<and> is_ok (EstimateDelta l r)"
proof
  have D: "finite (D i) \<and> 0 \<notin> D i" for i
    using assms(1,2) odd_set_subset [of "filter (\<lambda>v. stratum_index v = i) vs"] odd_set_subset [of "filter (\<lambda>v. stratum_index v = i) ws"]
    by (auto simp: assms(3) in_symdiff)
  have res: "strata_of vs ! i ! j XOR strata_of ws ! i ! j = sketch_of 8 (D i) ! j" if "i < 32" "j < 8" for i j
  proof -
    have "sketch_of 8 (D i) = map2 (XOR) (stratum_of vs i) (stratum_of ws i)"
      by (simp add: assms(3) stratum_of_def StratumCapacity_def xor_sketch_of)
    then show ?thesis using that by (simp add: strata_of_def StrataCount_def stratum_of_def StratumCapacity_def)
  qed
  show "EstimateDelta (strata_of vs) (strata_of ws) = Inr (strata_estimate D 32, True)"
    unfolding EstimateDelta_def StrataCount_def
    by (rule estimate_loop_populations [OF D res _ work_bound_8]) (use assms(4) in auto)
  show "is_ok (EstimateDelta l r)" unfolding EstimateDelta_def by (rule estimate_loop_ok)
qed

theorem EstimateDelta_populations_witness:
  "EstimateDelta (strata_of [5]) (strata_of []) = Inr (strata_estimate (\<lambda>i. if i = 0 then {5} else {}) 32, True)"
proof -
  have "stratum_index 5 = 0"
    by (simp add: stratum_index_def TrailingZeros64_def StrataCount_def upt_conv_Cons)
  then have "(\<lambda>i. symdiff (odd_set (filter (\<lambda>v. stratum_index v = i) [5])) (odd_set (filter (\<lambda>v. stratum_index v = i) []))) =
      (\<lambda>i. if i = 0 then {5} else {})" by (auto simp: fun_eq_iff)
  then show ?thesis using EstimateDelta_populations [of "[5]" "[]" "\<lambda>i. if i = 0 then {5} else {}" "[]" "[]"] by simp
qed

text \<open>C34: a decoded batch accounts for every request in order: each is decoded or failed. The encoding has
  exactly the length of all sketches, and the roots of a decoded bucket are increasing, different, non-zero,
  at most as many as its capacity, and the bytes of the bucket are the wire form of precisely their sketch.\<close>

theorem DecodeBucketSketches_sound:
  assumes "int (length encoded) \<le> maxInt" and "DecodeBucketSketches encoded rs = Inr batch"
  shows "\<exists>os. length os = length rs \<and>
    batch = extend_batch \<lparr>SuccessfulBuckets = [], FailedBuckets = []\<rparr> (zip rs os) \<and> outcomes_ok encoded 0 (zip rs os)"
proof -
  have "ValidateBucketRequests rs = Inr ()" "decode_buckets_loop encoded rs (int 0) maxFactorWork
      \<lparr>SuccessfulBuckets = [], FailedBuckets = []\<rparr> = Inr (int (length encoded), batch)"
    using assms(2) by (auto simp: DecodeBucketSketches_def split: sum.splits if_splits)
  moreover from this have "\<forall>r\<in>set rs. well_formed r"
    by (auto simp: ValidateBucketRequests_def validate_loop_iff)
  ultimately show ?thesis using decode_buckets_loop_sound [of rs 0 encoded] assms(1) by simp
qed

text \<open>C33: the batch decoder finds the differences of every bucket that fits. Each bucket differs in some finite set of
  identifiers; when the work bounds of the buckets (of the differences of those that fit, of the capacity of the others)
  add up to at most the shared budget, the batch is decoded as a whole, and each bucket whose capacity suffices gives exactly
  its differences, whether or not other buckets are overfull and wherever they stand.\<close>

theorem DecodeBucketSketches_complete:
  assumes "ValidateBucketRequests rs = Inr ()" and "list_all2 (\<lambda>r S. finite S \<and> 0 \<notin> S) rs Ss"
    and "(\<Sum>(r, S)\<leftarrow>zip rs Ss. work_bound (if int (card S) \<le> ReqCapacity r then card S else nat (ReqCapacity r))) \<le> maxFactorWork"
  shows "\<exists>os. DecodeBucketSketches (concat (map2 (\<lambda>r S. wire (nat (ReqCapacity r)) S) rs Ss)) rs =
      Inr (extend_batch \<lparr>SuccessfulBuckets = [], FailedBuckets = []\<rparr> (zip rs os)) \<and> length os = length rs \<and>
    (\<forall>i<length rs. int (card (Ss ! i)) \<le> ReqCapacity (rs ! i) \<longrightarrow> os ! i = Some (sorted_list_of_set (Ss ! i)))"
proof -
  let ?enc = "concat (map2 (\<lambda>r S. wire (nat (ReqCapacity r)) S) rs Ss)"
  have wf: "\<forall>r\<in>set rs. well_formed r" and tc: "total_capacity rs \<le> 4096"
    using assms(1) by (auto simp: ValidateBucketRequests_def validate_loop_iff)
  have "int (length (concat (map2 (\<lambda>r S. wire (nat (ReqCapacity r)) S) rs Ss))) = total_capacity rs * 8"
    using assms(2) wf by (induction rs Ss rule: list_all2_induct) (auto simp: length_wire well_formed_def)
  then have len: "int (length ?enc) \<le> maxInt" using tc by (simp add: maxInt_def)
  have all: "list_all2 (\<lambda>r S. well_formed r \<and> finite S \<and> 0 \<notin> S) rs Ss"
    using assms(2) wf by (auto simp: list_all2_conv_all_nth)
  have work: "(\<Sum>(r, S)\<leftarrow>zip rs Ss. bucket_work r S) \<le> maxFactorWork"
    using assms(3) by (simp add: bucket_work_def fits_def)
  obtain os where "decode_buckets_loop ?enc rs (int 0) maxFactorWork \<lparr>SuccessfulBuckets = [], FailedBuckets = []\<rparr> =
      Inr (int (length ?enc), extend_batch \<lparr>SuccessfulBuckets = [], FailedBuckets = []\<rparr> (zip rs os))"
    "list_all2 (\<lambda>(r, S) res. fits r S \<longrightarrow> res = Some (sorted_list_of_set S)) (zip rs Ss) os"
    using decode_buckets_loop_complete [OF all len _ _ work, of 0] by auto
  moreover have "length rs = length Ss" using assms(2) by (rule list_all2_lengthD)
  ultimately show ?thesis using assms(1)
    by (intro exI [of _ os]) (auto simp: DecodeBucketSketches_def list_all2_conv_all_nth fits_def)
qed

text \<open>An overfull bucket of capacity one before a bucket that fits.\<close>

theorem DecodeBucketSketches_complete_witness:
  "\<exists>res. DecodeBucketSketches (wire 1 {1, 2, 5} @ wire 4 {7, 9})
      [\<lparr>Depth = 1, Prefix = 0, ReqCapacity = 1\<rparr>, \<lparr>Depth = 1, Prefix = 1, ReqCapacity = 4\<rparr>] =
    Inr (extend_batch \<lparr>SuccessfulBuckets = [], FailedBuckets = []\<rparr>
      [(\<lparr>Depth = 1, Prefix = 0, ReqCapacity = 1\<rparr>, res), (\<lparr>Depth = 1, Prefix = 1, ReqCapacity = 4\<rparr>, Some [7, 9])])"
proof -
  let ?rs = "[\<lparr>Depth = 1, Prefix = 0, ReqCapacity = 1\<rparr>, \<lparr>Depth = 1, Prefix = 1, ReqCapacity = 4\<rparr>]"
  let ?Ss = "[{1, 2, 5}, {7, 9}] :: u64 set list"
  have v: "ValidateBucketRequests ?rs = Inr ()"
    unfolding ValidateBucketRequests_def validate_loop_iff by (simp add: well_formed_def bucket_size_def)
  have "(\<Sum>(r, S)\<leftarrow>zip ?rs ?Ss. work_bound (if int (card S) \<le> ReqCapacity r then card S else nat (ReqCapacity r))) \<le> maxFactorWork"
    by (simp add: card_insert_if maxFactorWork_def)
  moreover have "list_all2 (\<lambda>r S. finite S \<and> 0 \<notin> S) ?rs ?Ss" by simp
  ultimately obtain os where
    os: "DecodeBucketSketches (concat (map2 (\<lambda>r S. wire (nat (ReqCapacity r)) S) ?rs ?Ss)) ?rs =
      Inr (extend_batch \<lparr>SuccessfulBuckets = [], FailedBuckets = []\<rparr> (zip ?rs os))" "length os = length ?rs"
      "\<forall>i<length ?rs. int (card (?Ss ! i)) \<le> ReqCapacity (?rs ! i) \<longrightarrow> os ! i = Some (sorted_list_of_set (?Ss ! i))"
    using DecodeBucketSketches_complete [OF v] by blast
  have "os ! 1 = Some [7, 9]" using os(3) [rule_format, of 1] by simp
  then obtain res where "os = [res, Some [7, 9]]" using os(2) by (auto simp: length_Suc_conv numeral_2_eq_2)
  then show ?thesis using os(1) by (intro exI [of _ res]) simp
qed

theorem DecodeBucketSketches_sound_witness:
  "\<exists>os. length os = 1 \<and> outcomes_ok (wire 4 {7, 9}) 0 (zip [sample_request] os)"
  using DecodeBucketSketches_sound [OF _ sample_decodes] by (auto simp: length_wire maxInt_def)

end
