(* ===== verification/Client.thy ===== *)
theory Client
  imports Triage "HOL-Library.Sublist"
begin

text \<open>
  Package \<open>reconcile\<close>, \<open>reconcile/client.go\<close>: the requester's policy. It compares the digests, provisions
  buckets from the estimated difference, and after each batch resolves, retries failed buckets with more
  capacity, splits them, or falls back. A Go \<open>int\<close> is an \<open>int\<close>, \<open>uint64\<close> arithmetic is on words.
\<close>

section \<open>The client\<close>

definition MaxReconciliationRounds :: int where "MaxReconciliationRounds = 20"

record client =
  maxSketchCapacity :: int
  maxRounds :: int
  gateThreshold :: "u64 option"

definition gateThresholdForRounds :: "int \<Rightarrow> u64" where
  "gateThresholdForRounds rounds =
     (if rounds \<le> 0 then 0
      else
        let r = of_int rounds :: u64;
            maxThreshold = - 1 div of_int MaxBucketedSketchCapacity
        in if r > maxThreshold then - 1 else r * of_int MaxBucketedSketchCapacity)"

definition NewReconciliationClient :: "int \<Rightarrow> client result" where
  "NewReconciliationClient maxCapacity =
     (if maxCapacity \<le> 0 \<or> maxCapacity > MaxLocalSketchDecodeCapacity then Inl ErrInvalidSketchCapacity
      else Inr \<lparr>maxSketchCapacity = maxCapacity, maxRounds = MaxReconciliationRounds,
                gateThreshold = Some (gateThresholdForRounds MaxReconciliationRounds)\<rparr>)"

definition WithMaxRounds :: "client \<Rightarrow> int \<Rightarrow> client" where
  "WithMaxRounds c rounds = c\<lparr>maxRounds := rounds, gateThreshold := Some (gateThresholdForRounds rounds)\<rparr>"

definition WithGateThreshold :: "client \<Rightarrow> u64 option \<Rightarrow> client" where
  "WithGateThreshold c threshold = c\<lparr>gateThreshold := threshold\<rparr>"

definition AllowUnlimitedDelta :: "client \<Rightarrow> client" where
  "AllowUnlimitedDelta c = c\<lparr>gateThreshold := None\<rparr>"

definition MaxRounds :: "client \<Rightarrow> int" where
  "MaxRounds c = maxRounds c"

definition GateThreshold :: "client \<Rightarrow> u64 \<times> bool" where
  "GateThreshold c = (case gateThreshold c of None \<Rightarrow> (0, False) | Some t \<Rightarrow> (t, True))"

record remote_digest =
  Digest :: bytes
  KnownEventCount :: u64
  RemoteStrata :: "u64 list list"
  FrameMatches :: bool
  HasUnknownExtremity :: bool

datatype client_action_type =
  ActionSynchronized | ActionExtremityDiff | ActionBucketSketches | ActionResolveRoots

record client_action =
  ActionType :: client_action_type
  Requests :: "bucket_request list"
  AccumulatedRoots :: "u64 list"
  Roots :: "u64 list"

definition action :: "client_action_type \<Rightarrow> client_action" where
  "action t = \<lparr>ActionType = t, Requests = [], AccumulatedRoots = [], Roots = []\<rparr>"

section \<open>Provisioning\<close>

definition absDiffU64 :: "u64 \<Rightarrow> u64 \<Rightarrow> u64" where
  "absDiffU64 a b = (if a \<ge> b then a - b else b - a)"

text \<open>The steps that both provisioning functions share: half as much again, rounded up, and four more.\<close>

definition provision_value :: "u64 \<Rightarrow> u64 option" where
  "provision_value target =
     (let half = target div 2
      in if target > - 1 - half then None
         else
           let v1 = target + half; remainder = target mod 2
           in if v1 > - 1 - remainder then None
              else let v2 = v1 + remainder in if v2 > - 1 - 4 then None else Some (v2 + 4))"

definition provisionCapacity :: "u64 \<Rightarrow> int \<Rightarrow> int" where
  "provisionCapacity estimatedDelta headroom =
     (case provision_value estimatedDelta of
        None \<Rightarrow> - 1
      | Some v \<Rightarrow>
          if headroom > 0 \<and> headroom > maxInt then - 1
          else if headroom > 0 \<and> v > - 1 - of_int headroom then - 1
          else
            let v' = (if headroom > 0 then v + of_int headroom else v)
            in if v' > of_int maxInt then - 1 else uint v')"

definition ceilDiv :: "int \<Rightarrow> int \<Rightarrow> int" where
  "ceilDiv n d =
     (if d \<le> 0 then 0 else if n \<le> 0 then 0
      else let q = n div d in if n mod d \<noteq> 0 then q + 1 else q)"

definition maxU64 :: "u64 \<Rightarrow> u64 \<Rightarrow> u64" where
  "maxU64 a b = (if a > b then a else b)"

definition provisionBucketCapacity :: "u64 \<Rightarrow> int \<Rightarrow> int option" where
  "provisionBucketCapacity target lower =
     (case provision_value target of
        None \<Rightarrow> None
      | Some v \<Rightarrow>
          if v > of_int maxInt then None
          else
            let c1 = uint v;
                c2 = (if c1 < lower then lower else c1);
                c3 = (if c2 > MaxBucketSketchCapacity then MaxBucketSketchCapacity else c2)
            in Some c3)"

section \<open>Selecting the first action\<close>

text \<open>The loop doubles the number of buckets until they can hold the target or the depth is 6.\<close>

function bucket_loop :: "u8 \<Rightarrow> int \<Rightarrow> int \<Rightarrow> u8 \<times> int" where
  "bucket_loop depth buckets targetCapacity =
     (if buckets * 32 < targetCapacity \<and> depth < 6 then bucket_loop (depth + 1) (buckets * 2) targetCapacity
      else (depth, buckets))"
  by pat_completeness auto
termination
proof (relation "measure (\<lambda>(depth, buckets, targetCapacity). 6 - unat depth)", goal_cases)
  case (2 depth buckets targetCapacity)
  then have "unat depth < 6" by (simp add: word_less_nat_alt)
  moreover from this have "unat (depth + 1) = unat depth + 1" by (simp add: unat_word_ariths)
  ultimately show ?case by simp
qed simp

declare bucket_loop.simps [simp del]

definition provision_requests :: "int \<Rightarrow> bucket_request list" where
  "provision_requests targetCapacity =
     (let (depth, buckets) = bucket_loop 0 1 targetCapacity;
          p1 = ceilDiv targetCapacity buckets;
          p2 = (if p1 < 4 then 4 else p1);
          perBucket = (if p2 > MaxBucketSketchCapacity then MaxBucketSketchCapacity else p2)
      in map (\<lambda>prefix. \<lparr>Depth = depth, Prefix = of_nat prefix, ReqCapacity = perBucket\<rparr>) [0..<nat buckets])"

definition estimated_delta :: "resident_kernel \<Rightarrow> remote_digest \<Rightarrow> u64" where
  "estimated_delta local remote =
     (let countDelta = absDiffU64 (acc_count (accumulator_of local)) (KnownEventCount remote)
      in case EstimateDelta (Strata local) (RemoteStrata remote) of
           Inl e \<Rightarrow> countDelta
         | Inr (v, ok) \<Rightarrow> if ok \<and> v > countDelta then v else countDelta)"

definition SelectAction :: "client \<Rightarrow> resident_kernel \<Rightarrow> remote_digest \<Rightarrow> int \<Rightarrow> client_action" where
  "SelectAction c local remote concurrencyHeadroom =
     (if \<not> FrameMatches remote \<or> HasUnknownExtremity remote then action ActionExtremityDiff
      else if acc_digest (accumulator_of local) = Digest remote \<and> acc_count (accumulator_of local) = KnownEventCount remote
      then action ActionSynchronized
      else
        let estimatedDelta = estimated_delta local remote
        in if (case gateThreshold c of None \<Rightarrow> False | Some t \<Rightarrow> estimatedDelta > t) then action ActionExtremityDiff
           else
             let provisioned = provisionCapacity estimatedDelta concurrencyHeadroom;
                 targetCapacity = (if provisioned < 0 then maxInt else provisioned)
             in (action ActionBucketSketches)\<lparr>Requests := provision_requests targetCapacity\<rparr>)"

definition BuildSketch :: "client \<Rightarrow> int \<Rightarrow> element_hash list \<Rightarrow> sketch result" where
  "BuildSketch c capacity hashes =
     (if capacity \<le> 0 \<or> capacity > maxSketchCapacity c then Inl ErrInvalidSketchCapacity
      else case NewSyndromeSketch capacity of
             Inl e \<Rightarrow> Inl e
           | Inr s \<Rightarrow> toggle_all (map H64 hashes) s)"

section \<open>After a batch\<close>

text \<open>The requests for the failed buckets: \<open>None\<close> is the early return of the extremity-diff fallback.\<close>

fun transition_loop ::
  "failed_bucket list \<Rightarrow> bucket_request list \<Rightarrow> u64 \<Rightarrow> int \<Rightarrow> int \<Rightarrow> bucket_request list \<Rightarrow> bucket_request list option" where
  "transition_loop [] previousRequests share aggregateLimit total1 requests = Some requests"
| "transition_loop (failed # fs) previousRequests share aggregateLimit total1 requests =
     (case find (\<lambda>r. Prefix r = FailPrefix failed \<and> Depth r = FailDepth failed) previousRequests of
        None \<Rightarrow> None
      | Some prev \<Rightarrow>
          if ReqCapacity prev < MaxBucketSketchCapacity then
            let lower = ReqCapacity prev + 1;
                target = maxU64 share (of_int lower)
            in case provisionBucketCapacity target lower of
                 None \<Rightarrow> None
               | Some capacity \<Rightarrow>
                   let total2 = total1 + capacity
                   in if total2 > aggregateLimit then None
                      else transition_loop fs previousRequests share aggregateLimit total2
                             (requests @ [\<lparr>Depth = Depth prev, Prefix = FailPrefix failed, ReqCapacity = capacity\<rparr>])
          else if Depth prev \<ge> 32 then None
          else
            let target = maxU64 (share div 2) 4
            in case provisionBucketCapacity target 4 of
                 None \<Rightarrow> None
               | Some capacity \<Rightarrow>
                   let nextDepth = Depth prev + 1;
                       child = (\<lambda>sub. \<lparr>Depth = nextDepth, Prefix = push_bit 1 (Prefix prev) OR sub, ReqCapacity = capacity\<rparr>)
                   in if total1 + capacity > aggregateLimit then None
                      else if total1 + capacity + capacity > aggregateLimit then None
                      else transition_loop fs previousRequests share aggregateLimit (total1 + capacity + capacity)
                             (requests @ [child 0, child 1]))"

definition TransitionBucketBatch ::
  "client \<Rightarrow> bucket_decode_batch \<Rightarrow> bucket_request list \<Rightarrow> u64 list \<Rightarrow> u64 option \<Rightarrow> int \<Rightarrow> int \<Rightarrow> client_action" where
  "TransitionBucketBatch c batch previousRequests accumulatedRoots globalEstimate exchangeRound aggregateCap =
     (let accumulated = accumulatedRoots @ concat (map SuccRoots (SuccessfulBuckets batch))
      in if FailedBuckets batch = [] then (action ActionResolveRoots)\<lparr>Roots := accumulated\<rparr>
         else if exchangeRound \<ge> maxRounds c then action ActionExtremityDiff
         else
           let resolvedCount = of_nat (length accumulated) :: u64;
               unaccounted = (case globalEstimate of None \<Rightarrow> 0
                              | Some g \<Rightarrow> if g > resolvedCount then g - resolvedCount else 0);
               failedCount = of_nat (length (FailedBuckets batch)) :: u64;
               share = unaccounted div failedCount;
               aggregateLimit = (if aggregateCap > MaxBucketedSketchCapacity then MaxBucketedSketchCapacity else aggregateCap)
           in case transition_loop (FailedBuckets batch) previousRequests share aggregateLimit 0 [] of
                None \<Rightarrow> action ActionExtremityDiff
              | Some requests \<Rightarrow>
                  (action ActionBucketSketches)\<lparr>Requests := requests, AccumulatedRoots := accumulated\<rparr>)"

definition VerifyGlobalResidual :: "bytes \<Rightarrow> bytes list \<Rightarrow> bytes list \<Rightarrow> bool" where
  "VerifyGlobalResidual expectedResidual localRoots remoteRoots =
     (foldl xor_bytes (foldl xor_bytes (replicate 16 0) localRoots) remoteRoots = expectedResidual)"

section \<open>Provisioning is exact\<close>

lemma u64_le_sub: "(v :: u64) > - 1 - w \<longleftrightarrow> 2 ^ 64 \<le> uint v + uint w"
proof -
  have w: "uint w < 2 ^ 64" "uint v < 2 ^ 64" using unsigned_less [of w] unsigned_less [of v] by simp_all
  have "uint (- 1 - w) = 2 ^ 64 - 1 - uint w"
  proof -
    have "- 1 - w = NOT w" by (simp add: not_eq_complement)
    moreover have "take_bit 64 (uint w) = uint w" using w by (simp add: take_bit_int_eq_self_iff)
    ultimately show ?thesis by (simp add: unsigned_not_eq take_bit_not_eq_mask_diff mask_eq_exp_minus_1)
  qed
  then show ?thesis using w by (auto simp: word_less_alt)
qed

lemma u64_add: "uint (v :: u64) + uint w < 2 ^ 64 \<Longrightarrow> uint (v + w) = uint v + uint w"
  by (simp add: uint_word_ariths)

lemma u64_sub_le: "(n :: u64) < g \<Longrightarrow> uint (g - n) \<le> uint g"
  using uint_minus_simple_alt [of n g] uint_ge_0 [of n] by (simp add: word_le_def word_less_alt)

lemma provision_value_cases:
  "case provision_value t of
     None \<Rightarrow> 2 ^ 64 \<le> uint t + (uint t + 1) div 2 + 4
   | Some v \<Rightarrow> uint v = uint t + (uint t + 1) div 2 + 4"
proof -
  define h where "h = t div 2"
  define r where "r = t mod 2"
  have h: "uint h = uint t div 2" and r: "uint r = uint t mod 2"
    by (simp_all add: h_def r_def uint_div_distrib uint_mod_distrib)
  have c: "uint t div 2 + uint t mod 2 = (uint t + 1) div 2" by presburger
  have nn: "0 \<le> uint r" "uint r \<le> 1" unfolding r by auto
  have pv: "provision_value t = (if t > - 1 - h then None else if t + h > - 1 - r then None
      else if t + h + r > - 1 - 4 then None else Some (t + h + r + 4))"
    by (simp add: provision_value_def Let_def h_def r_def)
  have o1: "t > - 1 - h \<longleftrightarrow> 2 ^ 64 \<le> uint t + uint h" by (rule u64_le_sub)
  have o2: "t + h > - 1 - r \<longleftrightarrow> 2 ^ 64 \<le> uint (t + h) + uint r" by (rule u64_le_sub)
  have o3: "t + h + r > - 1 - 4 \<longleftrightarrow> 2 ^ 64 \<le> uint (t + h + r) + 4" unfolding u64_le_sub by simp
  show ?thesis
  proof (cases "t > - 1 - h")
    case True
    then have "2 ^ 64 \<le> uint t + (uint t + 1) div 2 + 4" using o1 c h nn r by linarith
    then show ?thesis unfolding pv using True by (simp only: if_True option.case)
  next
    case n1: False
    then have v1: "uint (t + h) = uint t + uint h" using o1 by (intro u64_add) linarith
    show ?thesis
    proof (cases "t + h > - 1 - r")
      case True
      then have "2 ^ 64 \<le> uint t + (uint t + 1) div 2 + 4" using o2 v1 c h r by linarith
      then show ?thesis unfolding pv using True n1 by (simp only: if_True if_False option.case)
    next
      case n2: False
      then have v2: "uint (t + h + r) = uint (t + h) + uint r" using o2 by (intro u64_add) linarith
      have v: "uint (t + h + r) = uint t + (uint t + 1) div 2" using v1 v2 c h r by linarith
      show ?thesis
      proof (cases "t + h + r > - 1 - 4")
        case True
        then have "2 ^ 64 \<le> uint t + (uint t + 1) div 2 + 4" using o3 v by linarith
        then show ?thesis unfolding pv using True n1 n2 by (simp only: if_True if_False option.case)
      next
        case n3: False
        then have "uint (t + h + r + 4) = uint (t + h + r) + uint (4 :: u64)"
          using o3 by (intro u64_add) simp
        then have "uint (t + h + r + 4) = uint t + (uint t + 1) div 2 + 4" using v by simp
        then show ?thesis unfolding pv using n1 n2 n3 by (simp only: if_False option.case)
      qed
    qed
  qed
qed

lemma uint_maxInt: "uint (of_int maxInt :: u64) = maxInt"
  by (simp add: maxInt_def)

lemma provisionCapacity_eq:
  assumes "headroom \<le> maxInt" and need_def: "need = uint delta + (uint delta + 1) div 2 + 4 + max 0 headroom"
  shows "provisionCapacity delta headroom = (if need \<le> maxInt then need else - 1)"
proof -
  have mi: "maxInt < 2 ^ 64" by (simp add: maxInt_def)
  show ?thesis
  proof (cases "provision_value delta")
    case None
    then have "2 ^ 64 \<le> uint delta + (uint delta + 1) div 2 + 4" using provision_value_cases [of delta] by simp
    then have "\<not> need \<le> maxInt" using mi unfolding need_def by linarith
    then show ?thesis using None by (simp add: provisionCapacity_def)
  next
    case (Some v)
    then have v: "uint v = uint delta + (uint delta + 1) div 2 + 4" using provision_value_cases [of delta] by simp
    show ?thesis
    proof (cases "headroom > 0")
      case False
      then have "need = uint v" by (simp add: need_def v)
      then show ?thesis using False Some uint_maxInt by (simp add: provisionCapacity_def word_less_alt not_less)
    next
      case True
      have h: "uint (of_int headroom :: u64) = headroom"
        using True assms(1) mi by (simp add: uint_word_of_int take_bit_int_eq_self_iff maxInt_def)
      have n: "need = uint v + headroom" using True by (simp add: need_def v)
      show ?thesis
      proof (cases "v > - 1 - of_int headroom")
        case o: True
        then have "2 ^ 64 \<le> uint v + headroom" unfolding u64_le_sub h .
        then have "\<not> need \<le> maxInt" using n mi by linarith
        then show ?thesis using True Some o assms(1) by (simp add: provisionCapacity_def)
      next
        case o: False
        then have "uint (v + of_int headroom) = need" using u64_add [of v "of_int headroom"] unfolding u64_le_sub h n by linarith
        then show ?thesis using True Some o assms(1) uint_maxInt
          by (simp add: provisionCapacity_def word_less_alt not_less)
      qed
    qed
  qed
qed

lemma provisionBucketCapacity_eq:
  assumes "lower \<le> uint target + 4" "lower \<le> 32"
  shows "provisionBucketCapacity target lower =
    (let need = uint target + (uint target + 1) div 2 + 4 in if need \<le> maxInt then Some (min 32 need) else None)"
proof (cases "provision_value target")
  case None
  then have "2 ^ 64 \<le> uint target + (uint target + 1) div 2 + 4" using provision_value_cases [of target] by simp
  moreover have "maxInt < 2 ^ 64" by (simp add: maxInt_def)
  ultimately show ?thesis using None by (simp add: provisionBucketCapacity_def Let_def)
next
  case (Some v)
  then have v: "uint v = uint target + (uint target + 1) div 2 + 4" using provision_value_cases [of target] by simp
  moreover have "0 \<le> (uint target + 1) div 2" by simp
  ultimately have "\<not> uint v < lower" using assms(1) by linarith
  then show ?thesis using Some v uint_maxInt
    by (auto simp: provisionBucketCapacity_def Let_def word_less_alt MaxBucketSketchCapacity_def min_def)
qed

section \<open>The first requests cover the index space\<close>

lemma bucket_loop_ok:
  "k \<le> 6 \<Longrightarrow> \<exists>m. k \<le> m \<and> m \<le> 6 \<and> bucket_loop (of_nat k) (2 ^ k) t = (of_nat m, 2 ^ m) \<and>
    (t \<le> 2 ^ m * 32 \<or> m = 6) \<and> (\<forall>j. k \<le> j \<and> j < m \<longrightarrow> 2 ^ j * 32 < t)"
proof (induction "6 - k" arbitrary: k)
  case 0
  then show ?case by (intro exI [of _ k]) (simp add: bucket_loop.simps [of 6])
next
  case (Suc j)
  have k: "k < 6" using Suc.hyps(2) by simp
  have lt: "(of_nat k :: u8) < 6" using k by (simp add: word_less_nat_alt unat_of_nat)
  show ?case
  proof (cases "2 ^ k * 32 < t")
    case True
    have "j = 6 - Suc k" "Suc k \<le> 6" using Suc.hyps(2) k by simp_all
    from Suc.hyps(1) [OF this] obtain m where m: "Suc k \<le> m" "m \<le> 6"
      "bucket_loop (of_nat (Suc k)) (2 ^ Suc k) t = (of_nat m, 2 ^ m)" "t \<le> 2 ^ m * 32 \<or> m = 6"
      "\<forall>j. Suc k \<le> j \<and> j < m \<longrightarrow> 2 ^ j * 32 < t" by blast
    have "bucket_loop (of_nat k) (2 ^ k) t = bucket_loop (of_nat k + 1) (2 ^ k * 2) t"
      by (subst bucket_loop.simps) (simp only: True lt simp_thms if_True)
    also have "\<dots> = bucket_loop (of_nat (Suc k)) (2 ^ Suc k) t" by (simp add: add.commute mult.commute)
    moreover have "\<forall>j. k \<le> j \<and> j < m \<longrightarrow> 2 ^ j * 32 < t" using m(5) True by (metis Suc_leI le_neq_implies_less)
    ultimately show ?thesis using m by (intro exI [of _ m]) simp
  next
    case False
    then show ?thesis using k by (intro exI [of _ k]) (simp add: bucket_loop.simps)
  qed
qed

text \<open>The layout for a capacity \<open>need\<close>: the fewest buckets of 32, a power of two up to 64, that hold it (64 when
  none does), each of an equal share of it, rounded up, but at least 4 and at most 32.\<close>

definition bucket_layout :: "int \<Rightarrow> bucket_request list \<Rightarrow> bool" where
  "bucket_layout need rs \<longleftrightarrow>
     (\<exists>m\<le>6. (need \<le> 2 ^ m * 32 \<or> m = 6) \<and> (\<forall>k<m. 2 ^ k * 32 < need) \<and>
        rs = map (\<lambda>i. \<lparr>Depth = of_nat m, Prefix = of_nat i, ReqCapacity = min 32 (max 4 ((need + 2 ^ m - 1) div 2 ^ m))\<rparr>)
               [0..<2 ^ m])"

lemma ceilDiv_eq:
  assumes "0 \<le> t" "0 < d"
  shows "ceilDiv t d = (t + d - 1) div d"
proof (cases "t mod d = 0")
  case True
  then obtain q where "t = d * q" by auto
  then have "(t + d - 1) div d = q + (d - 1) div d" using assms(2) by (simp add: add.commute [of _ "d * q"] add_diff_eq [symmetric])
  moreover have "t div d = q" using \<open>t = d * q\<close> assms(2) by simp
  ultimately show ?thesis using assms True by (cases "t = 0") (auto simp: ceilDiv_def Let_def)
next
  case False
  have m: "0 < t mod d" "t mod d < d"
    using False assms(2) pos_mod_sign [of d t] pos_mod_bound [of d t] by linarith+
  have "(t + d - 1) div d = t div d + (t mod d + d - 1) div d"
    using div_mult_self1 [of d "t mod d + d - 1" "t div d"] assms(2) mult_div_mod_eq [of d t]
    by (simp add: algebra_simps)
  moreover have "(t mod d + d - 1) div d = 1" using m by (intro int_div_pos_eq [of _ _ _ "t mod d - 1"]) simp_all
  ultimately show ?thesis using assms False by (auto simp: ceilDiv_def Let_def)
qed

lemma provision_requests_layout:
  assumes "0 \<le> t"
  shows "bucket_layout t (provision_requests t)"
proof -
  obtain m where m: "m \<le> 6" "bucket_loop 0 1 t = (of_nat m, 2 ^ m)" "t \<le> 2 ^ m * 32 \<or> m = 6" "\<forall>j<m. 2 ^ j * 32 < t"
    using bucket_loop_ok [of 0 t] by auto
  have "ceilDiv t (2 ^ m) = (t + 2 ^ m - 1) div 2 ^ m" using assms by (rule ceilDiv_eq) simp
  then have "provision_requests t = map (\<lambda>i. \<lparr>Depth = of_nat m, Prefix = of_nat i,
      ReqCapacity = min 32 (max 4 ((t + 2 ^ m - 1) div 2 ^ m))\<rparr>) [0..<2 ^ m]"
    by (auto simp: provision_requests_def m(2) Let_def MaxBucketSketchCapacity_def nat_power_eq min_def max_def)
  then show ?thesis unfolding bucket_layout_def using m by (intro exI [of _ m]) simp
qed

text \<open>Beyond 2048 the layout no longer depends on the capacity: 64 buckets of 32.\<close>

lemma bucket_layout_large:
  assumes "2048 \<le> t" "2048 \<le> u"
  shows "bucket_layout t rs \<Longrightarrow> bucket_layout u rs"
proof -
  have l: "bucket_layout v rs \<longleftrightarrow> rs = map (\<lambda>i. \<lparr>Depth = 6, Prefix = of_nat i, ReqCapacity = 32\<rparr>) [0..<64]" if "2048 \<le> v" for v
  proof -
    have "(32 :: int) \<le> (v + 63) div 64" using that by presburger
    then have c: "min 32 (max 4 ((v + 2 ^ 6 - 1) div 2 ^ 6)) = (32 :: int)" by simp
    have p: "2 ^ k * 32 < v" if "k < 6" for k
    proof -
      have "(2 :: int) ^ k \<le> 2 ^ 5" using that by (intro power_increasing) auto
      then show ?thesis using \<open>2048 \<le> v\<close> by simp
    qed
    have m6: "m \<le> 6 \<and> (v \<le> 2 ^ m * 32 \<or> m = 6) \<and> (\<forall>k<m. 2 ^ k * 32 < v) \<longleftrightarrow> m = 6" for m
    proof (cases "m < 6")
      case True
      then have "\<not> v \<le> 2 ^ m * 32" using p [of m] by linarith
      then show ?thesis using True by simp
    qed (use p in auto)
    have "bucket_layout v rs \<longleftrightarrow> (\<exists>m. (m \<le> 6 \<and> (v \<le> 2 ^ m * 32 \<or> m = 6) \<and> (\<forall>k<m. 2 ^ k * 32 < v)) \<and>
        rs = map (\<lambda>i. \<lparr>Depth = of_nat m, Prefix = of_nat i, ReqCapacity = min 32 (max 4 ((v + 2 ^ m - 1) div 2 ^ m))\<rparr>)
               [0..<2 ^ m])"
      unfolding bucket_layout_def by (simp only: conj_assoc)
    also have "\<dots> \<longleftrightarrow> rs = map (\<lambda>i. \<lparr>Depth = of_nat 6, Prefix = of_nat i,
        ReqCapacity = min 32 (max 4 ((v + 2 ^ 6 - 1) div 2 ^ 6))\<rparr>) [0..<2 ^ 6]"
      unfolding m6 by blast
    finally show ?thesis unfolding c by simp
  qed
  show "bucket_layout t rs \<Longrightarrow> bucket_layout u rs" using l assms by simp
qed

lemma in_order_map:
  assumes "\<And>i. i < b \<Longrightarrow> Depth (f i) = d \<and> unat (Prefix (f i)) = i"
  shows "a \<le> b \<Longrightarrow> in_order (a * bucket_size d) (map f [a..<b])"
proof (induction "b - a" arbitrary: a)
  case (Suc n)
  then have u: "[a..<b] = a # [Suc a..<b]" by (simp add: upt_conv_Cons)
  have "in_order (Suc a * bucket_size d) (map f [Suc a..<b])" by (rule Suc.hyps(1)) (use Suc.hyps(2) in auto)
  then show ?case using assms [of a] Suc.hyps(2) by (simp add: u)
qed simp

text \<open>Blocks of one size cover a range; rounded quotients.\<close>

lemma UN_blocks:
  fixes w n :: nat
  assumes "0 < w"
  shows "(\<Union>i\<in>{..<n}. {i * w..<(i + 1) * w}) = {..<n * w}"
proof (intro set_eqI iffI)
  fix x assume "x \<in> (\<Union>i\<in>{..<n}. {i * w..<(i + 1) * w})"
  then obtain i where i: "i < n" "x < (i + 1) * w" by auto
  have "(i + 1) * w \<le> n * w" using i(1) by (intro mult_right_mono) auto
  then show "x \<in> {..<n * w}" using i(2) by simp
next
  fix x assume "x \<in> {..<n * w}"
  then have "x div w < n" by (simp add: less_mult_imp_div_less)
  moreover have "x \<in> {x div w * w..<(x div w + 1) * w}"
    using div_times_less_eq_dividend [of x w] dividend_less_div_times [OF assms, of x] by simp
  ultimately show "x \<in> (\<Union>i\<in>{..<n}. {i * w..<(i + 1) * w})" by blast
qed

lemma ceilDiv_ge:
  assumes "0 \<le> t" "0 < d"
  shows "t \<le> d * ceilDiv t d"
proof (cases "t = 0")
  case False
  then have "ceilDiv t d = t div d + (if t mod d \<noteq> 0 then 1 else 0)" using assms by (simp add: ceilDiv_def Let_def)
  then have "d * ceilDiv t d = d * (t div d) + (if t mod d \<noteq> 0 then d else 0)" by (simp add: distrib_left)
  moreover have "d * (t div d) + t mod d = t" by (rule mult_div_mod_eq)
  moreover have "t mod d \<le> (if t mod d \<noteq> 0 then d else 0)" using assms(2) by (simp add: less_imp_le)
  ultimately show ?thesis by linarith
qed (simp add: ceilDiv_def)

lemma ceilDiv_le:
  assumes "t \<le> d * k" "0 < d" "0 \<le> k"
  shows "ceilDiv t d \<le> k"
proof -
  have "t div d \<le> k" using zdiv_mono1 [OF assms(1,2)] assms(2) by simp
  moreover have "t mod d = 0" if "t div d = k"
  proof -
    have "d * k + t mod d = t" using mult_div_mod_eq [of d t] that by simp
    moreover have "0 \<le> t mod d" using assms(2) by simp
    ultimately show ?thesis using assms(1) by linarith
  qed
  ultimately show ?thesis using assms(3) by (cases "t div d = k") (auto simp: ceilDiv_def Let_def)
qed

lemma provision_requests_ok:
  assumes "0 \<le> t"
  shows "ValidateBucketRequests (provision_requests t) = Inr ()"
    and "(\<Union>r\<in>set (provision_requests t). bucket_set (Depth r) (Prefix r)) = {..<2 ^ 32}"
    and "min t 2048 \<le> total_capacity (provision_requests t)"
    and "\<forall>r\<in>set (provision_requests t). unat (Depth r) \<le> 6 \<and> 4 \<le> ReqCapacity r"
proof -
  obtain m where m: "m \<le> 6" "bucket_loop 0 1 t = (of_nat m, 2 ^ m)" "t \<le> 2 ^ m * 32 \<or> m = 6"
    using bucket_loop_ok [of 0 t] by auto
  define q where "q = ceilDiv t (2 ^ m)"
  define c where "c = (if (if q < 4 then 4 else q) > 32 then 32 else (if q < 4 then 4 else q))"
  define f where "f i = \<lparr>Depth = of_nat m, Prefix = of_nat i, ReqCapacity = c\<rparr>" for i :: nat
  have rs: "provision_requests t = map f [0..<2 ^ m]"
    by (simp add: provision_requests_def m(2) Let_def q_def c_def f_def MaxBucketSketchCapacity_def nat_power_eq)
  have c: "4 \<le> c" "c \<le> 32" by (auto simp: c_def)
  have d: "unat (of_nat m :: u8) = m" using m(1) by (simp add: unat_of_nat)
  have p: "(2 :: nat) ^ m \<le> 2 ^ 6" using m(1) by (intro power_increasing) auto
  have pre: "Depth (f i) = of_nat m \<and> unat (Prefix (f i)) = i" if "i < 2 ^ m" for i
    using that p by (simp add: f_def unat_of_nat)
  have size: "bucket_size (of_nat m) = 2 ^ (32 - m)" by (simp add: bucket_size_def d)
  have wf: "well_formed (f i)" if "i < 2 ^ m" for i
    using pre [OF that] that c m(1) by (simp add: well_formed_def d f_def)
  have tc: "total_capacity (provision_requests t) = 2 ^ m * c"
    by (simp add: rs total_capacity_def o_def f_def sum_list_triv)
  have "(2 :: int) ^ m \<le> 2 ^ 6" using m(1) by (intro power_increasing) auto
  then have "2 ^ m * c \<le> 2 ^ 6 * 32" using c by (intro mult_mono) auto
  then show "ValidateBucketRequests (provision_requests t) = Inr ()"
    using in_order_map [of "2 ^ m" f "of_nat m" 0] pre wf tc
    unfolding ValidateBucketRequests_def validate_loop_iff rs by auto
  show "\<forall>r\<in>set (provision_requests t). unat (Depth r) \<le> 6 \<and> 4 \<le> ReqCapacity r"
    using m(1) c d by (auto simp: rs f_def)
  show "(\<Union>r\<in>set (provision_requests t). bucket_set (Depth r) (Prefix r)) = {..<2 ^ 32}"
  proof -
    have "bucket_set (Depth (f i)) (Prefix (f i)) = {i * 2 ^ (32 - m)..<(i + 1) * 2 ^ (32 - m)}" if "i < 2 ^ m" for i
      using pre [OF that] by (simp add: bucket_set_def size)
    then have "(\<Union>r\<in>set (provision_requests t). bucket_set (Depth r) (Prefix r)) =
        (\<Union>i\<in>{..<2 ^ m}. {i * 2 ^ (32 - m)..<(i + 1) * 2 ^ (32 - m)})"
      by (auto simp: rs)
    also have "\<dots> = {..<2 ^ m * 2 ^ (32 - m)}" by (rule UN_blocks) simp
    also have "2 ^ m * 2 ^ (32 - m) = (2 :: nat) ^ 32" unfolding power_add [symmetric] using m(1) by simp
    finally show ?thesis .
  qed
  show "min t 2048 \<le> total_capacity (provision_requests t)"
  proof (cases "q \<le> 32")
    case True
    then have "q \<le> c" by (auto simp: c_def)
    moreover have "t \<le> 2 ^ m * q" unfolding q_def using assms by (intro ceilDiv_ge) simp_all
    ultimately have "t \<le> 2 ^ m * c" by (meson mult_left_mono order_trans zero_le_numeral zero_le_power)
    then show ?thesis unfolding tc by simp
  next
    case False
    have "m = 6" using m(3) False ceilDiv_le [of t "2 ^ m" 32] by (auto simp: q_def)
    moreover have "c = 32" using False by (simp add: c_def)
    ultimately show ?thesis unfolding tc by simp
  qed
qed

section \<open>Retries and splits\<close>

definition bucket_lo :: "bucket_request \<Rightarrow> nat" where
  "bucket_lo r = unat (Prefix r) * bucket_size (Depth r)"

definition bucket_hi :: "bucket_request \<Rightarrow> nat" where
  "bucket_hi r = (unat (Prefix r) + 1) * bucket_size (Depth r)"

lemma bucket_lo_hi: "bucket_lo r < bucket_hi r" "bucket_set (Depth r) (Prefix r) = {bucket_lo r..<bucket_hi r}"
  by (simp_all add: bucket_lo_def bucket_hi_def bucket_set_def bucket_size_def)

lemma in_order_Cons: "in_order k (r # rs) \<longleftrightarrow> k \<le> bucket_lo r \<and> in_order (bucket_hi r) rs"
  by (simp add: bucket_lo_def bucket_hi_def)

lemma in_order_mono: "in_order k rs \<Longrightarrow> j \<le> k \<Longrightarrow> in_order j rs"
  by (cases rs) auto

lemma in_order_subseq: "in_order k rs \<Longrightarrow> subseq qs rs \<Longrightarrow> in_order k qs"
proof (induction rs arbitrary: k qs)
  case Nil
  then have "qs = []" using list_emb_Nil2 by blast
  then show ?case by simp
next
  case (Cons r rs)
  then have k: "k \<le> bucket_lo r" "in_order (bucket_hi r) rs" unfolding in_order_Cons by auto
  show ?case
  proof (cases "qs \<noteq> [] \<and> hd qs = r \<and> subseq (tl qs) rs")
    case True
    then have "qs = r # tl qs" by (cases qs) auto
    then show ?thesis using Cons.IH [OF k(2), of "tl qs"] k(1) True by (metis in_order_Cons)
  next
    case False
    then have "subseq qs rs" using Cons.prems(2) by (cases qs) (auto split: if_splits)
    then show ?thesis using Cons.IH [OF k(2)] k(1) bucket_lo_hi(1) [of r] by (meson in_order_mono less_imp_le order_trans)
  qed
qed

text \<open>The same bucket occurs once.\<close>

lemma in_order_unique:
  assumes "in_order k rs" "r \<in> set rs" "q \<in> set rs" "Prefix r = Prefix q" "Depth r = Depth q"
  shows "r = q"
proof -
  obtain i j where ij: "i < length rs" "rs ! i = r" "j < length rs" "rs ! j = q"
    using assms(2,3) by (auto simp: in_set_conv_nth)
  have ne: "bucket_set (Depth r) (Prefix r) \<noteq> {}" using bucket_lo_hi [of r] by auto
  consider "i < j" | "j < i" | "i = j" by linarith
  then show ?thesis
  proof cases
    case 1
    then show ?thesis using in_order_disjoint [OF assms(1), of i j] ij assms(4,5) ne by auto
  next
    case 2
    then show ?thesis using in_order_disjoint [OF assms(1), of j i] ij assms(4,5) ne by auto
  qed (use ij in simp)
qed

lemma find_request:
  assumes "in_order k rs" "q \<in> set rs"
  shows "find (\<lambda>r. Prefix r = Prefix q \<and> Depth r = Depth q) rs = Some q"
proof (cases "find (\<lambda>r. Prefix r = Prefix q \<and> Depth r = Depth q) rs")
  case None
  then show ?thesis using assms(2) by (auto simp: find_None_iff)
next
  case (Some r)
  then have "r \<in> set rs" "Prefix r = Prefix q" "Depth r = Depth q" by (auto simp: find_Some_iff)
  then show ?thesis using Some in_order_unique [OF assms(1) _ assms(2)] by auto
qed

definition request_measure :: "bucket_request \<Rightarrow> nat" where
  "request_measure r = (32 - unat (Depth r)) * 33 + (32 - nat (ReqCapacity r))"

text \<open>What a failed request may become: itself with more capacity, or when that was 32 its two halves.\<close>

definition replaces :: "bucket_request \<Rightarrow> bucket_request list \<Rightarrow> bool" where
  "replaces q rs \<longleftrightarrow> (\<forall>r\<in>set rs. well_formed r \<and> request_measure r < request_measure q) \<and>
     (\<forall>k ts. in_order k (rs @ ts) \<longleftrightarrow> in_order k (q # ts)) \<and>
     (\<Union>r\<in>set rs. bucket_set (Depth r) (Prefix r)) = bucket_set (Depth q) (Prefix q) \<and>
     (ReqCapacity q < 32 \<and> (\<exists>c. rs = [q\<lparr>ReqCapacity := c\<rparr>]) \<or> ReqCapacity q = 32 \<and> length rs = 2)"

lemma retry_replaces:
  assumes "well_formed q" "ReqCapacity q < c" "c \<le> 32"
  shows "replaces q [\<lparr>Depth = Depth q, Prefix = Prefix q, ReqCapacity = c\<rparr>]"
proof -
  have "nat (ReqCapacity q) < nat c" "nat c \<le> 32" using assms by (auto simp: well_formed_def)
  then show ?thesis
    using assms by (cases q) (auto simp: replaces_def well_formed_def request_measure_def)
qed

lemma split_replaces:
  assumes "well_formed q" "ReqCapacity q = 32" "\<not> Depth q \<ge> 32" "1 \<le> c" "c \<le> 32"
  defines "child \<equiv> \<lambda>sub. \<lparr>Depth = Depth q + 1, Prefix = push_bit 1 (Prefix q) OR sub, ReqCapacity = c\<rparr>"
  shows "replaces q [child 0, child 1]"
proof -
  have d: "unat (Depth q) < 32" using assms(3) by (simp add: word_le_nat_alt)
  then have d1: "unat (Depth q + 1) = unat (Depth q) + 1" by (simp add: unat_word_ariths)
  have p: "unat (Prefix q) < 2 ^ unat (Depth q)" using assms(1) by (simp add: well_formed_def)
  have "(2 :: nat) ^ unat (Depth q) \<le> 2 ^ 31" using d by (intro power_increasing) auto
  then have p31: "unat (Prefix q) < 2 ^ 31" using p by linarith
  have u0: "unat (push_bit 1 (Prefix q)) = 2 * unat (Prefix q)"
    using p31 by (simp add: unat_word_ariths push_bit_eq_mult)
  have "push_bit 1 (Prefix q) + 1 = push_bit 1 (Prefix q) OR 1"
    by (rule disjunctive_add) (simp add: bit_push_bit_iff bit_1_iff del: push_bit_of_1 push_bit_Suc One_nat_def)
  then have or1: "push_bit 1 (Prefix q) OR 1 = push_bit 1 (Prefix q) + 1" by (rule sym)
  then have u1: "unat (push_bit 1 (Prefix q) OR 1) = 2 * unat (Prefix q) + 1"
    using u0 p31 unfolding or1 by (simp add: unat_word_ariths)
  have size: "bucket_size (Depth q) = 2 * bucket_size (Depth q + 1)"
    using d unfolding bucket_size_def d1 by (metis Suc_diff_Suc Suc_eq_plus1 power_Suc)
  have lohi: "bucket_lo (child 0) = bucket_lo q" "bucket_hi (child 0) = bucket_lo (child 1)" "bucket_hi (child 1) = bucket_hi q"
    unfolding child_def bucket_lo_def bucket_hi_def size bucket_request.simps or.right_neutral u0 u1
    by (simp_all add: algebra_simps)
  have wf: "well_formed (child 0)" "well_formed (child 1)"
    using assms(4,5) d p unfolding child_def well_formed_def bucket_request.simps or.right_neutral u0 u1 d1 by simp_all
  have "in_order k ([child 0, child 1] @ ts) \<longleftrightarrow> in_order k (q # ts)" for k ts
    by (simp add: in_order_Cons lohi del: in_order.simps)
  moreover have "bucket_set (Depth (child 0)) (Prefix (child 0)) \<union> bucket_set (Depth (child 1)) (Prefix (child 1)) =
      bucket_set (Depth q) (Prefix q)"
    unfolding bucket_lo_hi(2) lohi using bucket_lo_hi(1) [of "child 0"] bucket_lo_hi(1) [of "child 1"] lohi by auto
  moreover have "request_measure (child 0) < request_measure q" "request_measure (child 1) < request_measure q"
    using d assms(2,4) unfolding request_measure_def by (simp_all add: child_def d1)
  ultimately show ?thesis using wf assms(2) by (simp add: replaces_def del: in_order.simps)
qed

lemma uint_of_int_small: "0 \<le> x \<Longrightarrow> x < 2 ^ 64 \<Longrightarrow> uint (of_int x :: u64) = x"
  by (simp add: uint_word_of_int)

text \<open>The loop replaces every failed request, in order.\<close>

lemma transition_loop_ok:
  assumes prev: "in_order k prevs" "\<forall>r\<in>set prevs. well_formed r"
  shows "\<lbrakk>set qs \<subseteq> set prevs;
    transition_loop (map (\<lambda>r. \<lparr>FailDepth = Depth r, FailPrefix = Prefix r\<rparr>) qs) prevs share limit tot acc = Some requests\<rbrakk> \<Longrightarrow>
    \<exists>rss. list_all2 replaces qs rss \<and> requests = acc @ concat rss \<and> (qs = [] \<or> tot + total_capacity (concat rss) \<le> limit)"
proof (induction qs arbitrary: tot acc)
  case (Cons q qs)
  have q: "q \<in> set prevs" "well_formed q" using Cons.prems(1) prev(2) by auto
  note f = find_request [OF prev(1) q(1)]
  note step = Cons.prems(2) [simplified, unfolded f option.case]
  show ?case
  proof (cases "ReqCapacity q < 32")
    case True
    define lower where "lower = ReqCapacity q + 1"
    define t where "t = maxU64 share (of_int lower)"
    have "uint (of_int lower :: u64) = lower"
      using q(2) True unfolding lower_def by (intro uint_of_int_small) (auto simp: well_formed_def)
    then have lt: "lower \<le> uint t" unfolding t_def maxU64_def by (auto simp: word_less_alt)
    obtain c where c: "provisionBucketCapacity t lower = Some c"
      using step True by (auto simp: MaxBucketSketchCapacity_def Let_def lower_def t_def split: option.splits)
    define h where "h = (uint t + 1) div 2"
    have h: "0 \<le> h" by (simp add: h_def)
    have l32: "lower \<le> 32" using True by (simp add: lower_def)
    have "c = min 32 (uint t + h + 4)"
      using c provisionBucketCapacity_eq [of lower t] lt l32 by (simp add: Let_def h_def split: if_splits)
    then have "lower \<le> c" "c \<le> 32" using lt l32 h by linarith+
    then have cr: "ReqCapacity q < c" "c \<le> 32" unfolding lower_def by simp_all
    let ?r = "\<lparr>Depth = Depth q, Prefix = Prefix q, ReqCapacity = c\<rparr>"
    have "tot + c \<le> limit \<and> transition_loop (map (\<lambda>r. \<lparr>FailDepth = Depth r, FailPrefix = Prefix r\<rparr>) qs) prevs share limit
        (tot + c) (acc @ [?r]) = Some requests"
      using step True c by (simp add: MaxBucketSketchCapacity_def Let_def lower_def t_def split: if_splits)
    moreover from this obtain rss where "list_all2 replaces qs rss" "requests = (acc @ [?r]) @ concat rss"
      "qs = [] \<or> (tot + c) + total_capacity (concat rss) \<le> limit"
      using Cons.IH [of "tot + c" "acc @ [?r]"] Cons.prems(1) by auto
    ultimately show ?thesis using retry_replaces [OF q(2) cr] by (intro exI [of _ "[?r] # rss"]) auto
  next
    case False
    then have q32: "ReqCapacity q = 32" using q(2) by (simp add: well_formed_def)
    have d: "\<not> Depth q \<ge> 32" using step False by (auto simp: MaxBucketSketchCapacity_def split: if_splits)
    obtain c where c: "provisionBucketCapacity (maxU64 (share div 2) 4) 4 = Some c"
      using step False d by (auto simp: MaxBucketSketchCapacity_def Let_def split: option.splits)
    have t4: "4 \<le> uint (maxU64 (share div 2) 4)" by (auto simp: maxU64_def word_less_alt)
    have "0 \<le> (uint (maxU64 (share div 2) 4) + 1) div 2" by simp
    then have cr: "1 \<le> c" "c \<le> 32"
      using c provisionBucketCapacity_eq [of 4 "maxU64 (share div 2) 4"] t4 by (auto simp: Let_def split: if_splits)
    let ?child = "\<lambda>sub. \<lparr>Depth = Depth q + 1, Prefix = push_bit 1 (Prefix q) OR sub, ReqCapacity = c\<rparr>"
    have "tot + c + c \<le> limit \<and> transition_loop (map (\<lambda>r. \<lparr>FailDepth = Depth r, FailPrefix = Prefix r\<rparr>) qs) prevs share limit
        (tot + c + c) (acc @ [?child 0, ?child 1]) = Some requests"
      using step False d c unfolding Let_def by (simp add: MaxBucketSketchCapacity_def split: if_splits)
    moreover from this obtain rss where "list_all2 replaces qs rss" "requests = (acc @ [?child 0, ?child 1]) @ concat rss"
      "qs = [] \<or> (tot + c + c) + total_capacity (concat rss) \<le> limit"
      using Cons.IH [of "tot + c + c" "acc @ [?child 0, ?child 1]"] Cons.prems(1) by auto
    ultimately show ?thesis using split_replaces [OF q(2) q32 d cr] by (intro exI [of _ "[?child 0, ?child 1] # rss"]) auto
  qed
qed simp


text \<open>Replaced requests keep the order, the indices and decrease as a multiset of measures.\<close>

lemma replaces_in_order:
  "list_all2 replaces qs rss \<Longrightarrow> in_order k (concat rss @ ts) \<longleftrightarrow> in_order k (qs @ ts)"
proof (induction qs rss arbitrary: k rule: list_all2_induct)
  case (Cons q qs rs rss)
  have "in_order k (concat (rs # rss) @ ts) \<longleftrightarrow> in_order k (rs @ (concat rss @ ts))" by simp
  also have "\<dots> \<longleftrightarrow> in_order k (q # (concat rss @ ts))" using Cons(1) unfolding replaces_def by blast
  also have "\<dots> \<longleftrightarrow> in_order k (q # (qs @ ts))" unfolding in_order_Cons Cons.IH ..
  finally show ?case by simp
qed simp

lemma replaces_sets:
  "list_all2 replaces qs rss \<Longrightarrow>
   (\<Union>r\<in>set (concat rss). bucket_set (Depth r) (Prefix r)) = (\<Union>q\<in>set qs. bucket_set (Depth q) (Prefix q))"
proof (induction qs rss rule: list_all2_induct)
  case (Cons q qs rs rss)
  have "(\<Union>r\<in>set rs. bucket_set (Depth r) (Prefix r)) = bucket_set (Depth q) (Prefix q)"
    using Cons(1) unfolding replaces_def by blast
  then show ?case using Cons.IH by (simp only: concat.simps set_append UN_Un list.set UN_insert)
qed simp

lemma replaces_well_formed:
  "list_all2 replaces qs rss \<Longrightarrow> r \<in> set (concat rss) \<Longrightarrow> well_formed r"
  by (induction qs rss rule: list_all2_induct) (auto simp: replaces_def)

definition request_measures :: "bucket_request list \<Rightarrow> nat multiset" where
  "request_measures rs = image_mset request_measure (mset rs)"

lemma replaces_smaller:
  assumes "list_all2 replaces qs rss" "qs \<noteq> []"
  shows "(request_measures (concat rss), request_measures qs) \<in> mult less_than"
proof -
  have "\<forall>m\<in>#request_measures (concat rss). \<exists>n\<in>#request_measures qs. (m, n) \<in> less_than"
    using assms(1) by (induction qs rss rule: list_all2_induct) (auto simp: request_measures_def replaces_def)
  then have "({#} + request_measures (concat rss), {#} + request_measures qs) \<in> mult less_than"
    using assms(2) by (intro one_step_implies_mult) (auto simp: request_measures_def)
  then show ?thesis by simp
qed

lemma foldl_xor_absorb:
  "\<forall>h\<in>set hs. length (H128 h) = 16 \<Longrightarrow> foldl xor_bytes d (map H128 hs) = digest.absorb (map H128 hs) d"
  by (induction hs arbitrary: d) (simp_all add: digest_step_eq)

lemma residual_eq:
  assumes "holds hs r" "holds gs r'" "mset hs + mset ts = mset gs + mset ls"
    "\<forall>h\<in>set ls \<union> set ts. length (H128 h) = 16"
  shows "xor_bytes (acc_digest r) (acc_digest r') =
    foldl xor_bytes (foldl xor_bytes (replicate 16 0) (map H128 ls)) (map H128 ts)"
proof -
  define z where "z = (replicate 16 0 :: bytes)"
  have z: "length z = 16" by (simp add: z_def)
  have dr: "acc_digest r = digest.absorb (map H128 hs) z" and dg: "acc_digest r' = digest.absorb (map H128 gs) z"
    using assms(1,2) by (simp_all add: holds_def foldl_digest z_def)
  have abs: "xor_bytes (digest.absorb xs d) e = digest.absorb xs (xor_bytes d e)"
    if "length d = 16" "length e = 16" for xs and d e :: bytes
    using that
  proof (induction xs arbitrary: d)
    case (Cons x xs)
    have "length (digest_step x d) = 16" using Cons.prems(1) by (rule digest.ins_inv)
    moreover have "xor_bytes (digest_step x d) e = digest_step x (xor_bytes d e)"
      unfolding digest_step_def by (rule xor_bytes_simps(4))
    ultimately show ?case using Cons.IH [of "digest_step x d"] Cons.prems(2) by simp
  qed simp
  have zx: "xor_bytes z e = e" if "length e = 16" for e
    using that by (intro nth_equalityI) (simp_all add: xor_bytes_def z_def)
  define T where "T = digest.absorb (map H128 ts) z"
  define L where "L = digest.absorb (map H128 ls) z"
  have len: "length T = 16" "length L = 16" "length (acc_digest r) = 16" "length (acc_digest r') = 16"
    unfolding T_def L_def dr dg by (simp_all add: digest.absorb_inv z)
  have comb: "digest.absorb (xs @ ys) z = xor_bytes (digest.absorb xs z) (digest.absorb ys z)" for xs ys
  proof -
    have "digest.absorb ys (digest.absorb xs z) = digest.absorb ys (xor_bytes z (digest.absorb xs z))"
      using zx digest.absorb_inv [OF z] by simp
    also have "\<dots> = xor_bytes (digest.absorb ys z) (digest.absorb xs z)"
      using abs [OF z digest.absorb_inv [OF z], of ys xs] by simp
    finally show ?thesis by (simp add: xor_bytes_simps(3))
  qed
  have "mset (map H128 hs @ map H128 ts) = mset (map H128 gs @ map H128 ls)"
    using arg_cong [OF assms(3), of "image_mset H128"] by simp
  then have "digest.absorb (map H128 hs @ map H128 ts) z = digest.absorb (map H128 gs @ map H128 ls) z"
    by (intro digest.absorb_mset z)
  then have eq: "xor_bytes (acc_digest r) T = xor_bytes (acc_digest r') L" unfolding comb dr dg T_def L_def .
  have "xor_bytes (acc_digest r) (acc_digest r') = xor_bytes (xor_bytes (xor_bytes (acc_digest r) (acc_digest r')) T) T"
    by (rule xor_bytes_simps(2) [symmetric]) (simp add: len xor_bytes_simps(1))
  also have "\<dots> = xor_bytes (xor_bytes (xor_bytes (acc_digest r) T) (acc_digest r')) T"
    by (simp only: xor_bytes_simps(4) [of "acc_digest r"])
  also have "\<dots> = xor_bytes (xor_bytes (xor_bytes L (acc_digest r')) (acc_digest r')) T"
    by (simp only: eq xor_bytes_simps(3) [of "acc_digest r'" L])
  also have "\<dots> = xor_bytes L T" by (subst xor_bytes_simps(2)) (simp_all add: len)
  also have "\<dots> = digest.absorb (map H128 ts) L"
    using comb [of "map H128 ls" "map H128 ts"] by (simp add: L_def T_def)
  finally show ?thesis using assms(4) unfolding z_def [symmetric] L_def by (simp add: foldl_xor_absorb)
qed


definition failed_of :: "bucket_request \<Rightarrow> failed_bucket" where
  "failed_of r = \<lparr>FailDepth = Depth r, FailPrefix = Prefix r\<rparr>"

lemma failed_of_simps [simp]: "FailDepth (failed_of r) = Depth r" "FailPrefix (failed_of r) = Prefix r"
  by (simp_all add: failed_of_def)

lemma failed_extend_batch:
  "length os = length rs \<Longrightarrow> FailedBuckets (extend_batch batch (zip rs os)) =
    FailedBuckets batch @ map failed_of (map fst (filter (\<lambda>(r, x). x = None) (zip rs os)))"
proof (induction rs arbitrary: os batch)
  case (Cons r rs)
  then obtain x xs where xs: "os = x # xs" "length xs = length rs" by (cases os) auto
  show ?case
    using Cons.IH [OF xs(2), of "add_failed r batch"] Cons.IH [OF xs(2), of "add_success r (the x) batch"]
    by (cases x) (simp_all add: xs(1) add_failed_def add_success_def failed_of_def)
qed simp

text \<open>The failed buckets of a decoded batch are requests, in their order.\<close>

lemma failed_subseq:
  assumes "int (length encoded) \<le> maxInt" "DecodeBucketSketches encoded rs = Inr batch"
  shows "\<exists>qs. subseq qs rs \<and> FailedBuckets batch = map failed_of qs"
proof -
  have v: "ValidateBucketRequests rs = Inr ()" "decode_buckets_loop encoded rs (int 0) maxFactorWork
      \<lparr>SuccessfulBuckets = [], FailedBuckets = []\<rparr> = Inr (int (length encoded), batch)"
    using assms(2) by (auto simp: DecodeBucketSketches_def split: sum.splits if_splits)
  then have "\<forall>r\<in>set rs. well_formed r" by (auto simp: ValidateBucketRequests_def validate_loop_iff)
  from decode_buckets_loop_sound [OF this _ assms(1) v(2)] obtain os
    where os: "length os = length rs" "batch = extend_batch \<lparr>SuccessfulBuckets = [], FailedBuckets = []\<rparr> (zip rs os)" by auto
  let ?qs = "map fst (filter (\<lambda>(r, x). x = None) (zip rs os))"
  have "subseq ?qs (map fst (zip rs os))" by (intro subseq_map) simp
  then have "subseq ?qs rs" using os(1) by simp
  moreover have "FailedBuckets batch = map failed_of ?qs" using failed_extend_batch [OF os(1)] os(2) by simp
  ultimately show ?thesis by blast
qed

text \<open>Sharing the remaining estimate cannot fail while capacity is left.\<close>

lemma transition_loop_succeeds:
  assumes prev: "in_order k prevs" "\<forall>r\<in>set prevs. well_formed r"
    and share: "uint share < 2 ^ 62"
  shows "\<lbrakk>set qs \<subseteq> set prevs; \<forall>q\<in>set qs. ReqCapacity q = 32 \<longrightarrow> Depth q < 32; tot + 64 * int (length qs) \<le> limit\<rbrakk> \<Longrightarrow>
    transition_loop (map failed_of qs) prevs share limit tot acc \<noteq> None"
proof (induction qs arbitrary: tot acc)
  case (Cons q qs)
  have q: "q \<in> set prevs" "well_formed q" using Cons.prems(1) prev(2) by auto
  note f = find_request [OF prev(1) q(1)]
  have small: "\<exists>c. provisionBucketCapacity t lower = Some c \<and> c \<le> 32"
    if t: "uint t < 2 ^ 62" and l: "lower \<le> uint t" "lower \<le> 32" for t lower
  proof -
    have "(uint t + 1) div 2 * 2 \<le> uint t + 1" by simp
    then have "uint t + (uint t + 1) div 2 + 4 \<le> maxInt" using t by (simp add: maxInt_def)
    then show ?thesis using provisionBucketCapacity_eq [of lower t] l by (auto simp: Let_def)
  qed
  have IH: "transition_loop (map failed_of qs) prevs share limit tot' acc' \<noteq> None" if "tot' \<le> tot + 64" for tot' acc'
    using Cons.prems that by (intro Cons.IH) auto
  show ?case
  proof (cases "ReqCapacity q < 32")
    case True
    define lower where "lower = ReqCapacity q + 1"
    have lb: "0 \<le> lower" "lower < 2 ^ 64" and l32: "lower \<le> 32"
      using q(2) True unfolding lower_def by (auto simp: well_formed_def)
    note l = uint_of_int_small [OF lb] l32
    have "uint (maxU64 share (of_int lower)) < 2 ^ 62" "lower \<le> uint (maxU64 share (of_int lower))"
      using share l unfolding maxU64_def by (auto simp: word_less_alt)
    from small [OF this l(2)] obtain c where c: "provisionBucketCapacity (maxU64 share (of_int lower)) lower = Some c" "c \<le> 32"
      by blast
    have "tot + c \<le> limit" using Cons.prems(3) c(2) by simp
    then show ?thesis using f True c(1) IH [of "tot + c"] c(2)
      by (simp add: MaxBucketSketchCapacity_def Let_def lower_def [symmetric])
  next
    case False
    then have d: "\<not> Depth q \<ge> 32" using Cons.prems(2) q(2) by (auto simp: well_formed_def)
    have "uint (share div 2) < 2 ^ 62" using share by (simp add: uint_div_distrib)
    then have "uint (maxU64 (share div 2) 4) < 2 ^ 62" "4 \<le> uint (maxU64 (share div 2) 4)"
      unfolding maxU64_def by (auto simp: word_less_alt)
    from small [OF this] obtain c where c: "provisionBucketCapacity (maxU64 (share div 2) 4) 4 = Some c" "c \<le> 32" by auto
    have t: "tot + c \<le> limit" "tot + c + c \<le> limit" using Cons.prems(3) c(2) by simp_all
    then show ?thesis using f False d c(1) IH [of "tot + c + c"] c(2)
      by (simp add: MaxBucketSketchCapacity_def Let_def)
  qed
qed simp


section \<open>Properties\<close>

text \<open>C38: the provisioning arithmetic never wraps around. For every estimate and head room that an \<open>int\<close> holds
  the capacity is one and a half times the estimate, rounded up, plus 4 and the head room, or -1 when this
  does not fit an \<open>int\<close>; a bucket gets the same without head room cut to 32; the gate is 4096 per round,
  saturated at 2^64 - 1.\<close>

theorem provisioning_exact:
  assumes "headroom \<le> maxInt" and "0 \<le> rounds" and "rounds \<le> maxInt" and "lower \<le> uint delta + 4" and "lower \<le> 32"
  shows "(let need = uint delta + (uint delta + 1) div 2 + 4 in
     provisionCapacity delta headroom = (if need + max 0 headroom \<le> maxInt then need + max 0 headroom else - 1) \<and>
     provisionBucketCapacity delta lower = (if need \<le> maxInt then Some (min 32 need) else None)) \<and>
    uint (gateThresholdForRounds rounds) = (if rounds * 4096 < 2 ^ 64 then rounds * 4096 else 2 ^ 64 - 1)"
proof -
  have r: "uint (of_int rounds :: u64) = rounds" using assms(2,3) by (intro uint_of_int_small) (auto simp: maxInt_def)
  have mt: "uint (- 1 div 4096 :: u64) = 4503599627370495" by (simp add: uint_div_distrib unsigned_minus_1_eq_mask mask_eq_exp_minus_1)
  have "uint (gateThresholdForRounds rounds) = (if rounds * 4096 < 2 ^ 64 then rounds * 4096 else 2 ^ 64 - 1)"
  proof (cases "(of_int rounds :: u64) > - 1 div 4096")
    case True
    then have "4503599627370495 < rounds" unfolding word_less_alt r mt .
    then show ?thesis using True
      by (simp add: gateThresholdForRounds_def MaxBucketedSketchCapacity_def unsigned_minus_1_eq_mask mask_eq_exp_minus_1)
  next
    case False
    then have l: "rounds \<le> 4503599627370495" unfolding word_less_alt r mt by simp
    then have "uint ((of_int rounds :: u64) * 4096) = rounds * 4096" using assms(2) by (simp add: uint_word_ariths r)
    then show ?thesis using False l assms(2)
      by (simp add: gateThresholdForRounds_def MaxBucketedSketchCapacity_def)
  qed
  then show ?thesis
    using provisionCapacity_eq [OF assms(1) refl, of delta] provisionBucketCapacity_eq [OF assms(4,5)] by (simp add: Let_def)
qed

theorem provisioning_exact_witness:
  "provisionCapacity 9 3 = 21 \<and> provisionBucketCapacity 9 5 = Some 18 \<and> uint (gateThresholdForRounds 20) = 81920"
  using provisioning_exact [of 3 20 5 9] by (simp add: maxInt_def Let_def)

text \<open>The estimate is the difference of the counts, or what the strata show when that is more.\<close>

lemma uint_absDiffU64: "uint (absDiffU64 x y) = \<bar>uint x - uint y\<bar>"
proof (cases "y \<le> x")
  case True
  then show ?thesis using uint_minus_simple_alt [of y x] by (simp add: absDiffU64_def word_le_def)
next
  case False
  then show ?thesis using uint_minus_simple_alt [of x y] by (simp add: absDiffU64_def word_le_def)
qed

lemma estimated_delta_eq:
  "uint (estimated_delta r remote) =
    (let difference = \<bar>uint (acc_count (accumulator_of r)) - uint (KnownEventCount remote)\<bar>
     in case EstimateDelta (Strata r) (RemoteStrata remote) of
          Inr (v, True) \<Rightarrow> max difference (uint v)
        | _ \<Rightarrow> difference)"
  unfolding estimated_delta_def Let_def uint_absDiffU64 [symmetric]
  by (auto simp: word_less_alt max_def split: sum.splits bool.splits)

text \<open>C32: what the client does first. For a population and a peer that shows the resident state of its own, it
  falls back if and only if the frames differ, an extremity is unknown, or the accumulators differ and the estimate
  exceeds the gate; it is synchronised if and only if it does not fall back on the frame and the accumulators agree,
  so in particular when the populations have the same elements; otherwise it asks for buckets. The estimate is the
  difference of the populations' sizes, or what the strata show when that is more. The requests pass the validation of
  the peer, cover all 2^32 indices, and are exactly the layout for the estimate, half as much again rounded up, 4 more
  and the headroom, computed without bound: the fewest buckets, of equal capacity between 4 and 32, that hold it, or 64
  buckets of 32; together they have that capacity, up to 2048.\<close>

theorem SelectAction_requests:
  assumes "population hs r" and "population gs r'" and "headroom \<le> maxInt"
    and "Digest remote = acc_digest (Accumulator r')" and "KnownEventCount remote = acc_count (Accumulator r')"
    and "RemoteStrata remote = Strata r'"
  shows "let a = SelectAction c r remote headroom; delta = estimated_delta r remote;
      foreign = (\<not> FrameMatches remote \<or> HasUnknownExtremity remote);
      need = uint delta + (uint delta + 1) div 2 + 4 + max 0 headroom in
    (mset hs = mset gs \<and> \<not> foreign \<longrightarrow> a = action ActionSynchronized) \<and>
    (a = action ActionSynchronized \<longleftrightarrow> \<not> foreign \<and> Accumulator r = Accumulator r') \<and>
    (ActionType a = ActionExtremityDiff \<longleftrightarrow>
       foreign \<or> Accumulator r \<noteq> Accumulator r' \<and> (\<exists>t. gateThreshold c = Some t \<and> t < delta)) \<and>
    ActionType a \<in> {ActionSynchronized, ActionExtremityDiff, ActionBucketSketches} \<and>
    uint delta = (case EstimateDelta (Strata r) (Strata r') of
        Inr (v, True) \<Rightarrow> max \<bar>int (length hs) - int (length gs)\<bar> (uint v)
      | _ \<Rightarrow> \<bar>int (length hs) - int (length gs)\<bar>) \<and>
    (ActionType a = ActionBucketSketches \<longrightarrow>
       bucket_layout need (Requests a) \<and> ValidateBucketRequests (Requests a) = Inr () \<and>
       (\<Union>q\<in>set (Requests a). bucket_set (Depth q) (Prefix q)) = {..<2 ^ 32} \<and>
       min need 2048 \<le> total_capacity (Requests a))"
proof -
  let ?a = "SelectAction c r remote headroom" and ?delta = "estimated_delta r remote"
  have h: "holds hs (accumulator_of r)" "holds gs (accumulator_of r')"
    using population_ok [OF assms(1)] population_ok [OF assms(2)] by (auto simp: resident_ok_def)
  have same: "accumulator_of r = accumulator_of r'" if "mset hs = mset gs" using holds_unique [OF h that] .
  have sync: "acc_digest (accumulator_of r) = Digest remote \<and> acc_count (accumulator_of r) = KnownEventCount remote \<longleftrightarrow>
      Accumulator r = Accumulator r'"
    by (cases "accumulator_of r", cases "accumulator_of r'") (simp add: assms(4,5) Accumulator_def)
  define foreign where "foreign \<longleftrightarrow> \<not> FrameMatches remote \<or> HasUnknownExtremity remote"
  define gated where "gated = (\<exists>t. gateThreshold c = Some t \<and> t < ?delta)"
  define need where "need = uint ?delta + (uint ?delta + 1) div 2 + 4 + max 0 headroom"
  define target where "target = (if provisionCapacity ?delta headroom < 0 then maxInt else provisionCapacity ?delta headroom)"
  have a: "?a = (if foreign then action ActionExtremityDiff
      else if Accumulator r = Accumulator r' then action ActionSynchronized
      else if gated then action ActionExtremityDiff
      else (action ActionBucketSketches)\<lparr>Requests := provision_requests target\<rparr>)"
    unfolding SelectAction_def Let_def sync foreign_def [symmetric]
    by (cases "gateThreshold c") (simp_all add: gated_def target_def)
  have need0: "0 \<le> need" by (simp add: need_def)
  have tgt: "target = (if need \<le> maxInt then need else maxInt)"
    using provisionCapacity_eq [OF assms(3) need_def] need0 by (auto simp: target_def)
  have big: "2048 \<le> maxInt" by (simp add: maxInt_def)
  have target: "0 \<le> target" "min need 2048 \<le> min target 2048" using need0 big unfolding tgt by auto
  have layout: "bucket_layout need (provision_requests target)"
    using provision_requests_layout [OF target(1)] bucket_layout_large [of target need] big unfolding tgt
    by (auto split: if_splits)
  have "uint (acc_count (accumulator_of r)) = int (length hs)" "uint (KnownEventCount remote) = int (length gs)"
    using h by (simp_all add: uint_nat holds_def assms(5) Accumulator_def)
  then have dl: "uint ?delta = (case EstimateDelta (Strata r) (Strata r') of
      Inr (v, True) \<Rightarrow> max \<bar>int (length hs) - int (length gs)\<bar> (uint v) | _ \<Rightarrow> \<bar>int (length hs) - int (length gs)\<bar>)"
    using estimated_delta_eq [of r remote] by (simp only: Let_def assms(6))
  have ty: "ActionType (action t) = t" for t by (simp add: action_def)
  have ne: "action ActionExtremityDiff \<noteq> action ActionSynchronized"
    "(action ActionBucketSketches)\<lparr>Requests := q\<rparr> \<noteq> action ActionSynchronized" for q by (simp_all add: action_def)
  show ?thesis
    unfolding Let_def need_def [symmetric] foreign_def [symmetric] gated_def [symmetric]
    using same provision_requests_ok [OF target(1)] target(2) layout dl ne
    unfolding a by (auto simp: ty Accumulator_def action_def)
qed

text \<open>Equal populations on one frame, and with an unknown extremity.\<close>

theorem SelectAction_requests_witness:
  "SelectAction \<lparr>maxSketchCapacity = 8, maxRounds = 20, gateThreshold = None\<rparr> NewResidentKernel
     \<lparr>Digest = acc_digest (Accumulator NewResidentKernel), KnownEventCount = acc_count (Accumulator NewResidentKernel),
      RemoteStrata = Strata NewResidentKernel, FrameMatches = True, HasUnknownExtremity = False\<rparr> 3 =
   action ActionSynchronized \<and>
   ActionType (SelectAction \<lparr>maxSketchCapacity = 8, maxRounds = 20, gateThreshold = None\<rparr> NewResidentKernel
     \<lparr>Digest = acc_digest (Accumulator NewResidentKernel), KnownEventCount = acc_count (Accumulator NewResidentKernel),
      RemoteStrata = Strata NewResidentKernel, FrameMatches = True, HasUnknownExtremity = True\<rparr> 3) =
   ActionExtremityDiff"
  using SelectAction_requests [OF population.empty population.empty, of 3
      "\<lparr>Digest = acc_digest (Accumulator NewResidentKernel), KnownEventCount = acc_count (Accumulator NewResidentKernel),
        RemoteStrata = Strata NewResidentKernel, FrameMatches = True, HasUnknownExtremity = False\<rparr>"
      "\<lparr>maxSketchCapacity = 8, maxRounds = 20, gateThreshold = None\<rparr>"]
    SelectAction_requests [OF population.empty population.empty, of 3
      "\<lparr>Digest = acc_digest (Accumulator NewResidentKernel), KnownEventCount = acc_count (Accumulator NewResidentKernel),
        RemoteStrata = Strata NewResidentKernel, FrameMatches = True, HasUnknownExtremity = True\<rparr>"
      "\<lparr>maxSketchCapacity = 8, maxRounds = 20, gateThreshold = None\<rparr>"]
  by (simp add: Let_def maxInt_def)

text \<open>The requests for the failed buckets \<open>qs\<close> of \<open>prevs\<close>: what they are, and when there are any.\<close>

lemma transition_loop_requests:
  assumes "in_order 0 prevs" "\<forall>r\<in>set prevs. well_formed r" "subseq qs prevs" "qs \<noteq> []" "limit \<le> 4096" "limit \<le> cap"
    and answer: "transition_loop (map failed_of qs) prevs share limit 0 [] = Some rs"
  shows "ValidateBucketRequests rs = Inr () \<and> total_capacity rs \<le> cap \<and>
      (\<Union>r\<in>set rs. bucket_set (Depth r) (Prefix r)) = (\<Union>q\<in>set qs. bucket_set (Depth q) (Prefix q)) \<and>
      (request_measures rs, request_measures qs) \<in> mult less_than \<and> (\<exists>rss. rs = concat rss \<and> list_all2 replaces qs rss)"
proof -
  have sub: "set qs \<subseteq> set prevs" using assms(3) by (auto dest: list_emb_set)
  obtain rss where rss: "list_all2 replaces qs rss" "rs = concat rss" "total_capacity (concat rss) \<le> limit"
    using transition_loop_ok [OF assms(1,2) sub answer [unfolded failed_of_def]] assms(4) by auto
  have "in_order 0 (concat rss)"
    using replaces_in_order [OF rss(1), of 0 "[]"] in_order_subseq [OF assms(1,3)] by simp
  then have "ValidateBucketRequests rs = Inr ()"
    using rss replaces_well_formed [OF rss(1)] assms(5) unfolding ValidateBucketRequests_def validate_loop_iff by auto
  then show ?thesis using rss replaces_sets [OF rss(1)] replaces_smaller [OF rss(1) assms(4)] assms(6) by auto
qed

text \<open>The share of each failed bucket in an estimate below \<open>2 ^ 62\<close>.\<close>

lemma share_bound:
  assumes "\<forall>g. estimate = Some g \<longrightarrow> uint g < 2 ^ 62"
  shows "uint ((case estimate of None \<Rightarrow> 0 | Some g \<Rightarrow> if g > n then g - n else 0) div (k :: u64)) < 2 ^ 62"
proof -
  define rest where "rest = (case estimate of None \<Rightarrow> 0 | Some g \<Rightarrow> if g > n then g - n else 0)"
  have "uint rest < 2 ^ 62"
    using assms u64_sub_le [of n] by (cases estimate) (auto simp: rest_def intro: order.strict_trans1)
  moreover have "unat (rest div k) \<le> unat rest" by (simp add: unat_div_distrib)
  then have "uint (rest div k) \<le> uint rest" by (simp only: uint_nat of_nat_le_iff)
  ultimately show ?thesis unfolding rest_def by simp
qed

text \<open>C31: the exchange of bucket batches makes progress until it resolves or falls back. After a batch decoded
  for validated requests the client resolves with all roots seen if and only if no bucket failed, and gives up
  at the round limit; otherwise its next requests are valid, cover exactly the indices of the failed buckets,
  respect the aggregate cap and are smaller in the multiset order of what is left to try; each failed bucket
  is asked again with more capacity or, from 32 on, split in two. It does ask again when the round, the cap of
  64 for each failed bucket, the depth and an estimate below 2^62 allow it.\<close>

theorem TransitionBucketBatch_progress:
  assumes "int (length encoded) \<le> maxInt" and "DecodeBucketSketches encoded prevs = Inr batch"
    and "a = TransitionBucketBatch c batch prevs roots estimate exchangeRound cap"
  shows "\<exists>qs. subseq qs prevs \<and> FailedBuckets batch = map failed_of qs \<and>
    (let resolved = roots @ concat (map SuccRoots (SuccessfulBuckets batch)) in
     (ActionType a = ActionResolveRoots \<longleftrightarrow> qs = []) \<and> ActionType a \<noteq> ActionSynchronized \<and>
     (qs = [] \<longrightarrow> Roots a = resolved) \<and>
     (qs \<noteq> [] \<and> maxRounds c \<le> exchangeRound \<longrightarrow> ActionType a = ActionExtremityDiff) \<and>
     (ActionType a = ActionBucketSketches \<longrightarrow>
        AccumulatedRoots a = resolved \<and> ValidateBucketRequests (Requests a) = Inr () \<and>
        total_capacity (Requests a) \<le> cap \<and>
        (\<Union>r\<in>set (Requests a). bucket_set (Depth r) (Prefix r)) = (\<Union>q\<in>set qs. bucket_set (Depth q) (Prefix q)) \<and>
        (request_measures (Requests a), request_measures qs) \<in> mult less_than \<and>
        (\<exists>rss. Requests a = concat rss \<and> list_all2 replaces qs rss)) \<and>
     (qs \<noteq> [] \<and> exchangeRound < maxRounds c \<and> 64 * int (length qs) \<le> min cap 4096 \<and>
      (\<forall>q\<in>set qs. ReqCapacity q = 32 \<longrightarrow> Depth q < 32) \<and> (\<forall>g. estimate = Some g \<longrightarrow> uint g < 2 ^ 62) \<longrightarrow>
        ActionType a = ActionBucketSketches))"
proof -
  obtain qs where qs: "subseq qs prevs" "FailedBuckets batch = map failed_of qs"
    using failed_subseq [OF assms(1,2)] by blast
  define resolved where "resolved = roots @ concat (map SuccRoots (SuccessfulBuckets batch))"
  define n where "n = (of_nat (length resolved) :: u64)"
  define rest where "rest = (case estimate of None \<Rightarrow> 0 | Some g \<Rightarrow> if g > n then g - n else 0)"
  define share where "share = rest div (of_nat (length qs) :: u64)"
  define limit where "limit = (if cap > 4096 then 4096 else cap)"
  define answer where "answer = transition_loop (map failed_of qs) prevs share limit 0 []"
  have a: "a = (if qs = [] then (action ActionResolveRoots)\<lparr>Roots := resolved\<rparr>
      else if maxRounds c \<le> exchangeRound then action ActionExtremityDiff
      else case answer of None \<Rightarrow> action ActionExtremityDiff
           | Some rs \<Rightarrow> (action ActionBucketSketches)\<lparr>Requests := rs, AccumulatedRoots := resolved\<rparr>)"
    unfolding assms(3) TransitionBucketBatch_def Let_def qs(2) MaxBucketedSketchCapacity_def
      resolved_def [symmetric] n_def [symmetric] rest_def [symmetric]
    by (simp add: answer_def share_def limit_def)
  have prev: "in_order 0 prevs" "\<forall>r\<in>set prevs. well_formed r"
    using assms(2) by (auto simp: DecodeBucketSketches_def ValidateBucketRequests_def validate_loop_iff split: sum.splits)
  have sub: "set qs \<subseteq> set prevs" using qs(1) by (auto dest: list_emb_set)
  have limit: "limit \<le> 4096" "limit \<le> cap" by (simp_all add: limit_def)
  note asks = transition_loop_requests [OF prev qs(1) _ limit, of share, folded answer_def]
  have goes: "answer \<noteq> None"
    if "64 * int (length qs) \<le> min cap 4096" "\<forall>q\<in>set qs. ReqCapacity q = 32 \<longrightarrow> Depth q < 32"
      "\<forall>g. estimate = Some g \<longrightarrow> uint g < 2 ^ 62"
    unfolding answer_def using that(1,2) share_bound [OF that(3), of n] sub
    by (intro transition_loop_succeeds [OF prev]) (auto simp: limit_def share_def rest_def)
  have ty: "ActionType (action t) = t" for t by (simp add: action_def)
  show ?thesis
    using asks goes qs unfolding Let_def resolved_def [symmetric] a
    by (intro exI [of _ qs]) (cases "answer", auto simp: ty action_def)
qed


theorem TransitionBucketBatch_progress_witness:
  "ActionType (TransitionBucketBatch \<lparr>maxSketchCapacity = 8, maxRounds = 20, gateThreshold = None\<rparr>
     (extend_batch \<lparr>SuccessfulBuckets = [], FailedBuckets = []\<rparr> [(sample_request, Some [7, 9])]) [sample_request] [3] None 1 4096) =
     ActionResolveRoots"
proof -
  have "int (length (wire 4 {7, 9})) \<le> maxInt" by (simp add: length_wire maxInt_def)
  note p = TransitionBucketBatch_progress [OF this sample_decodes refl,
      where c = "\<lparr>maxSketchCapacity = 8, maxRounds = 20, gateThreshold = None\<rparr>" and roots = "[3]" and
        estimate = None and exchangeRound = 1 and cap = 4096]
  show ?thesis using p by (auto simp: Let_def add_success_def)
qed

text \<open>The final check accepts the right answer and notices a single wrong root. For accumulators of two
  populations the residual of their digests is reproduced by the roots that only one side has (each with
  whatever both have), and adding to them one more root that is not all zeros is rejected.\<close>

theorem VerifyGlobalResidual_complete:
  assumes "holds hs r" and "holds gs r'" and "mset hs + mset ts = mset gs + mset ls"
    and "\<forall>h\<in>set (ls @ ts). length (H128 h) = 16"
  shows "VerifyGlobalResidual (xor_bytes (acc_digest r) (acc_digest r')) (map H128 ls) (map H128 ts) \<and>
    (length x = 16 \<and> x \<noteq> replicate 16 0 \<longrightarrow>
      \<not> VerifyGlobalResidual (xor_bytes (acc_digest r) (acc_digest r')) (map H128 ls) (map H128 ts @ [x]))"
proof -
  define d where "d = xor_bytes (acc_digest r) (acc_digest r')"
  have d: "d = foldl xor_bytes (foldl xor_bytes (replicate 16 0) (map H128 ls)) (map H128 ts)"
    unfolding d_def using residual_eq [OF assms(1-3)] assms(4) by auto
  have "length d = 16"
    unfolding d using assms(4) by (simp add: foldl_xor_absorb digest.absorb_inv)
  moreover have "x = replicate 16 0" if x: "xor_bytes d x = d" "length d = 16" "length x = 16"
  proof (intro nth_equalityI)
    fix i assume "i < length x"
    then have "d ! i XOR x ! i = d ! i" using x arg_cong [OF x(1), of "\<lambda>l. l ! i"]
      unfolding xor_bytes_def by (metis (no_types, lifting) case_prod_conv length_zip min.idem nth_map nth_zip)
    then have "d ! i XOR (d ! i XOR x ! i) = d ! i XOR d ! i" by simp
    then show "x ! i = replicate 16 0 ! i" using \<open>i < length x\<close> x(3) by simp
  qed (use x(3) in simp)
  ultimately show ?thesis
    unfolding VerifyGlobalResidual_def d_def [symmetric] foldl_append d [symmetric] by auto
qed

theorem VerifyGlobalResidual_complete_witness:
  "VerifyGlobalResidual (xor_bytes (replicate 16 3) (replicate 16 0)) [replicate 16 3] [] \<and>
   \<not> VerifyGlobalResidual (xor_bytes (replicate 16 3) (replicate 16 0)) [replicate 16 3] [replicate 16 1]"
proof -
  have "holds [\<lparr>H128 = replicate 16 3, H64 = 1\<rparr>] \<lparr>acc_digest = replicate 16 3, acc_count = 1\<rparr>"
    "holds [] \<lparr>acc_digest = replicate 16 0, acc_count = 0\<rparr>"
    by (simp_all add: holds_def xor_bytes_def)
  from VerifyGlobalResidual_complete [OF this, of "[]" "[\<lparr>H128 = replicate 16 3, H64 = 1\<rparr>]" "replicate 16 1"]
  show ?thesis by (simp add: replicate_eq_replicate)
qed

text \<open>Clients sketch within their limits. A client built by the code has a capacity from 1 to 32, and a
  sketch is built exactly for a capacity from 1 to this one and identifiers that are not zero; it is the
  sketch of the identifiers, whatever their order.\<close>

theorem BuildSketch_exact:
  assumes "NewReconciliationClient n = Inr c"
  shows "maxSketchCapacity c = n \<and> 1 \<le> n \<and> n \<le> 32 \<and> MaxRounds c = 20 \<and> GateThreshold c = (81920, True) \<and>
    BuildSketch c m hashes =
      (if m < 1 \<or> n < m then Inl ErrInvalidSketchCapacity
       else if 0 \<in> H64 ` set hashes then Inl ErrZeroShortIdentifier
       else Inr \<lparr>Coordinates = sketch_of (nat m) (odd_set (map H64 hashes))\<rparr>)"
proof -
  have c: "c = \<lparr>maxSketchCapacity = n, maxRounds = MaxReconciliationRounds,
      gateThreshold = Some (gateThresholdForRounds MaxReconciliationRounds)\<rparr>" "1 \<le> n" "n \<le> 32"
    using assms by (auto simp: NewReconciliationClient_def MaxLocalSketchDecodeCapacity_def MaxSketchCapacity_def split: if_splits)
  have g: "gateThresholdForRounds 20 = 81920"
    by (simp add: gateThresholdForRounds_def MaxReconciliationRounds_def MaxBucketedSketchCapacity_def)
  have z: "toggle_all xs s = Inl ErrZeroShortIdentifier" if "0 \<in> set xs" for xs s
    using that by (induction xs arbitrary: s) (auto simp: Toggle_def)
  have "toggle_all xs \<lparr>Coordinates = replicate k 0\<rparr> = Inr \<lparr>Coordinates = sketch_of k (odd_set xs)\<rparr>" if "0 \<notin> set xs" for xs k
    using toggle_all_ok [OF that, of "\<lparr>Coordinates = sketch_of k {}\<rparr>"] absorb_sketch_of [of "{}" xs k]
    by (simp add: sketch_of_empty)
  then show ?thesis
    using c(2,3) z [of "map H64 hashes"]
    by (auto simp: c(1) BuildSketch_def NewSyndromeSketch_def MaxSketchCapacity_def MaxRounds_def GateThreshold_def g
        MaxReconciliationRounds_def)
qed

theorem BuildSketch_exact_witness:
  "\<exists>c. NewReconciliationClient 8 = Inr c \<and>
     BuildSketch c 4 [\<lparr>H128 = [], H64 = 5\<rparr>] = Inr \<lparr>Coordinates = sketch_of 4 {5}\<rparr>"
proof -
  obtain c where c: "NewReconciliationClient 8 = Inr c"
    by (simp add: NewReconciliationClient_def MaxLocalSketchDecodeCapacity_def MaxSketchCapacity_def)
  show ?thesis using BuildSketch_exact [OF c, of 4 "[\<lparr>H128 = [], H64 = 5\<rparr>]"] c by simp
qed

end
