(* ===== verification/GoValue.thy ===== *)
theory GoValue
  imports Text
begin

text \<open>
  The dynamically typed values (\<open>any\<close>) the packages build and inspect. A constructor carries
  what the code can observe of a value: the dynamic type a type switch or assertion asks for
  and, for \<open>reflect\<close>, its kind. A Go map is an association list with distinct keys; the order of
  the list is the iteration order of the run, which the language leaves open.
\<close>

datatype int_kind = KInt | KInt8 | KInt16 | KInt32 | KInt64

datatype uint_kind = KUint | KUint8 | KUint16 | KUint32 | KUint64 | KUintptr

text \<open>A \<open>float64\<close>: the finite value \<open>m * 2 ^ e\<close>, a NaN, or an infinity (\<open>True\<close> for the negative one).\<close>

datatype f64 = F64 int int | F64NaN | F64Inf bool

text \<open>The operator \<open>==\<close> on floats.\<close>

definition f64_eq :: "f64 \<Rightarrow> f64 \<Rightarrow> bool" where
  "f64_eq x y =
     (case (x, y) of
        (F64 m e, F64 n f) \<Rightarrow> m * 2 ^ nat (e - f) = n * 2 ^ nat (f - e)
      | (F64Inf s, F64Inf t) \<Rightarrow> s = t
      | _ \<Rightarrow> False)"

text \<open>The slice types that are asserted for, and any other slice or array type.\<close>

datatype slice_kind = SliceAny | SliceUint32 | SliceOther

text \<open>
  Map types: \<open>map[string]any\<close>, which is asserted for; another map whose key type is \<open>string\<close>
  itself; a map whose key type is a defined type of kind string; any other key type.
\<close>

datatype map_kind = MapStringAny | MapStringOther | MapNamedString | MapNonString

datatype gval =
    GNil
  | GBool bool
  | GString bytes
  | GInt int_kind int
  | GUint uint_kind nat
  | GFloat f64
  | GNumber bytes
  | GSlice slice_kind "gval list"
  | GMap map_kind "(bytes \<times> gval) list"
  | GPtr "gval option"
  | GOther

type_synonym gmap = "(bytes \<times> gval) list"

text \<open>The static invariant of Go's types: keys of a map are distinct, integers fit their kind.\<close>

fun int_bits :: "int_kind \<Rightarrow> nat" where
  "int_bits KInt = 64" | "int_bits KInt8 = 8" | "int_bits KInt16 = 16"
| "int_bits KInt32 = 32" | "int_bits KInt64 = 64"

fun uint_bits :: "uint_kind \<Rightarrow> nat" where
  "uint_bits KUint = 64" | "uint_bits KUint8 = 8" | "uint_bits KUint16 = 16"
| "uint_bits KUint32 = 32" | "uint_bits KUint64 = 64" | "uint_bits KUintptr = 64"

primrec wf_gval :: "gval \<Rightarrow> bool" where
  "wf_gval GNil = True"
| "wf_gval (GBool b) = True"
| "wf_gval (GString s) = True"
| "wf_gval (GInt k i) = (- (2 ^ (int_bits k - 1)) \<le> i \<and> i < 2 ^ (int_bits k - 1))"
| "wf_gval (GUint k n) = (n < 2 ^ uint_bits k)"
| "wf_gval (GFloat f) = True"
| "wf_gval (GNumber s) = True"
| "wf_gval (GSlice k vs) = list_all id (map wf_gval vs)"
| "wf_gval (GMap k m) = (distinct (map fst m) \<and> list_all id (map snd (map (map_prod id wf_gval) m)))"
| "wf_gval (GPtr p) = pred_option id (map_option wf_gval p)"
| "wf_gval GOther = True"

text \<open>The type assertions of the packages.\<close>

fun as_string :: "gval option \<Rightarrow> bytes option" where
  "as_string (Some (GString s)) = Some s"
| "as_string _ = None"

fun as_map :: "gval option \<Rightarrow> gmap option" where
  "as_map (Some (GMap MapStringAny m)) = Some m"
| "as_map _ = None"

lemma as_string_Some_iff: "as_string v = Some s \<longleftrightarrow> v = Some (GString s)"
  by (cases v rule: as_string.cases) auto

lemma as_map_Some_iff: "as_map v = Some m \<longleftrightarrow> v = Some (GMap MapStringAny m)"
  by (cases v rule: as_map.cases) auto

text \<open>Storing into a map: replaces the entry of an existing key, adds a new entry otherwise.\<close>

fun map_put :: "'k \<Rightarrow> 'v \<Rightarrow> ('k \<times> 'v) list \<Rightarrow> ('k \<times> 'v) list" where
  "map_put k v [] = [(k, v)]"
| "map_put k v ((k', v') # m) = (if k = k' then (k, v) # m else (k', v') # map_put k v m)"

lemma map_of_map_put [simp]: "map_of (map_put k v m) = (map_of m)(k \<mapsto> v)"
  by (induction m) auto

lemma keys_map_put: "set (map fst (map_put k v m)) = insert k (set (map fst m))"
  by (induction k v m rule: map_put.induct) (simp_all add: insert_commute)

lemma distinct_map_put [intro]: "distinct (map fst m) \<Longrightarrow> distinct (map fst (map_put k v m))"
proof (induction k v m rule: map_put.induct)
  case (2 k v k' v' m)
  then show ?case using keys_map_put [of k v m] by (simp del: set_map)
qed simp

end
