(* ===== verification/MatrixJson.thy ===== *)
theory MatrixJson
  imports GoValue
begin

text \<open>
  Package \<open>matrixjson\<close> (\<open>matrixjson/canonical.go\<close>): Matrix Canonical JSON. The functions that
  append to a buffer return the bytes they append; on an error \<open>Canonical\<close> returns no bytes.

  The abstract side is the type \<open>json\<close> of JSON values with sorted objects, the function
  \<open>json_of\<close> that says which JSON value a Go value stands for (if any), and the printer
  \<open>print_json\<close>. The refinement lemma says the encoder prints \<open>json_of\<close>, the injectivity lemma
  that the printed bytes determine the JSON value: a hash of canonical JSON commits to the value.
\<close>

section \<open>The encoder\<close>

definition maxCanonicalInt :: int where
  "maxCanonicalInt = 2 ^ 53 - 1"

definition minCanonicalInt :: int where
  "minCanonicalInt = - maxCanonicalInt"

definition appendInt :: "int \<Rightarrow> bytes result" where
  "appendInt n =
     (if n < minCanonicalInt \<or> n > maxCanonicalInt then Inl ErrIntegerRange else Inr (format_int n))"

definition appendUint :: "nat \<Rightarrow> bytes result" where
  "appendUint u = (if int u > maxCanonicalInt then Inl ErrIntegerRange else Inr (format_uint u))"

definition appendJSONNumber :: "bytes \<Rightarrow> bytes result" where
  "appendJSONNumber s =
     (if 46 \<in> set s \<or> 101 \<in> set s \<or> 69 \<in> set s then Inl ErrUnsupportedType
      else case parse_int64 s of Inl e \<Rightarrow> Inl e | Inr i \<Rightarrow> appendInt i)"

definition hex_digit :: "nat \<Rightarrow> byte" where
  "hex_digit d = of_nat (if d < 10 then 48 + d else 87 + d)"

fun format_hex :: "nat \<Rightarrow> bytes" where
  "format_hex n = (if n < 16 then [hex_digit n] else format_hex (n div 16) @ [hex_digit (n mod 16)])"

declare format_hex.simps [simp del]

text \<open>What the loop of \<open>appendString\<close> writes for one rune.\<close>

definition escape_rune :: "nat \<Rightarrow> bytes" where
  "escape_rune r =
     (if r = 92 \<or> r = 34 then 92 # encode_rune r
      else if r = 8 then [92, 98]
      else if r = 12 then [92, 102]
      else if r = 10 then [92, 110]
      else if r = 13 then [92, 114]
      else if r = 9 then [92, 116]
      else if r < 32 then [92, 117, 48, 48] @ (if r < 16 then [48] else []) @ format_hex r
      else encode_rune r)"

definition appendString :: "bytes \<Rightarrow> bytes result" where
  "appendString s =
     (if \<not> valid_utf8 s then Inl ErrInvalidString
      else Inr ([34] @ concat (map escape_rune (runes s)) @ [34]))"

text \<open>The element loop of a slice or array; \<open>first\<close> is \<open>i = 0\<close>.\<close>

fun appendElems :: "bool \<Rightarrow> bytes result list \<Rightarrow> bytes result" where
  "appendElems first [] = Inr []"
| "appendElems first (r # rs) =
     (case r of Inl e \<Rightarrow> Inl e
      | Inr v \<Rightarrow> (case appendElems False rs of Inl e \<Rightarrow> Inl e
                 | Inr rest \<Rightarrow> Inr ((if first then [] else [44]) @ v @ rest)))"

definition appendSlice :: "bytes result list \<Rightarrow> bytes result" where
  "appendSlice rs = (case appendElems True rs of Inl e \<Rightarrow> Inl e | Inr b \<Rightarrow> Inr ([91] @ b @ [93]))"

text \<open>
  The key loop of \<open>appendMap\<close>. \<open>val k\<close> is the encoding of \<open>v.MapIndex(reflect.ValueOf(k))\<close>, which
  panics when the key type is a defined string type, since a \<open>string\<close> is not assignable to it.
\<close>

fun appendMembers :: "(bytes \<Rightarrow> bytes result) \<Rightarrow> bool \<Rightarrow> bytes list \<Rightarrow> bytes result" where
  "appendMembers val first [] = Inr []"
| "appendMembers val first (k # ks) =
     (case appendString k of Inl e \<Rightarrow> Inl e
      | Inr key \<Rightarrow>
          (case val k of Inl e \<Rightarrow> Inl e
           | Inr v \<Rightarrow>
               (case appendMembers val False ks of Inl e \<Rightarrow> Inl e
                | Inr rest \<Rightarrow> Inr ((if first then [] else [44]) @ key @ [58] @ v @ rest))))"

definition mapIndex :: "map_kind \<Rightarrow> (bytes \<times> bytes result) list \<Rightarrow> bytes \<Rightarrow> bytes result" where
  "mapIndex kind entries k =
     (if kind = MapNamedString then Inl RuntimePanic
      else case map_of entries k of None \<Rightarrow> Inr (str ''null'') | Some r \<Rightarrow> r)"

definition appendMap :: "map_kind \<Rightarrow> (bytes \<times> bytes result) list \<Rightarrow> bytes result" where
  "appendMap kind entries =
     (if kind = MapNonString then Inl ErrUnsupportedType
      else case appendMembers (mapIndex kind entries) True (sort (map fst entries)) of
             Inl e \<Rightarrow> Inl e
           | Inr b \<Rightarrow> Inr ([123] @ b @ [125]))"

primrec appendValue :: "gval \<Rightarrow> bytes result" where
  "appendValue GNil = Inr (str ''null'')"
| "appendValue (GBool b) = Inr (if b then str ''true'' else str ''false'')"
| "appendValue (GString s) = appendString s"
| "appendValue (GInt k i) = appendInt i"
| "appendValue (GUint k u) = appendUint u"
| "appendValue (GFloat f) = Inl ErrUnsupportedType"
| "appendValue (GNumber s) = appendJSONNumber s"
| "appendValue (GSlice k vs) = appendSlice (map appendValue vs)"
| "appendValue (GMap kind m) = appendMap kind (map (map_prod id appendValue) m)"
| "appendValue (GPtr p) = (case map_option appendValue p of None \<Rightarrow> Inr (str ''null'') | Some r \<Rightarrow> r)"
| "appendValue GOther = Inl ErrUnsupportedType"

definition Canonical :: "gval \<Rightarrow> bytes result" where
  "Canonical v = appendValue v"

section \<open>JSON values\<close>

datatype json = JNull | JBool bool | JInt int | JStr bytes | JArr "json list" | JObj "(bytes \<times> json) list"

text \<open>The JSON value a Go value stands for; \<open>None\<close> if it has no canonical encoding.\<close>

definition json_int :: "int \<Rightarrow> json option" where
  "json_int i = (if minCanonicalInt \<le> i \<and> i \<le> maxCanonicalInt then Some (JInt i) else None)"

definition json_object :: "(bytes \<times> json option) list \<Rightarrow> json option" where
  "json_object entries =
     (let ks = sort (map fst entries); val = (\<lambda>k. the (map_of entries k))
      in if \<forall>k \<in> set ks. valid_utf8 k \<and> val k \<noteq> None
         then Some (JObj (map (\<lambda>k. (k, the (val k))) ks))
         else None)"

primrec json_of :: "gval \<Rightarrow> json option" where
  "json_of GNil = Some JNull"
| "json_of (GBool b) = Some (JBool b)"
| "json_of (GString s) = (if valid_utf8 s then Some (JStr s) else None)"
| "json_of (GInt k i) = json_int i"
| "json_of (GUint k u) = json_int (int u)"
| "json_of (GFloat f) = None"
| "json_of (GNumber s) =
     (if 46 \<in> set s \<or> 101 \<in> set s \<or> 69 \<in> set s then None
      else case parse_int64 s of Inl e \<Rightarrow> None | Inr i \<Rightarrow> json_int i)"
| "json_of (GSlice k vs) = map_option JArr (those (map json_of vs))"
| "json_of (GMap kind m) =
     (if kind = MapNonString \<or> (kind = MapNamedString \<and> m \<noteq> []) then None
      else json_object (map (map_prod id json_of) m))"
| "json_of (GPtr p) = (case map_option json_of p of None \<Rightarrow> Some JNull | Some r \<Rightarrow> r)"
| "json_of GOther = None"

text \<open>Escaping byte by byte: on valid UTF-8 it is what the rune loop does.\<close>

definition escape_byte :: "byte \<Rightarrow> bytes" where
  "escape_byte b = (if b < 128 then escape_rune (unat b) else [b])"

definition print_string :: "bytes \<Rightarrow> bytes" where
  "print_string s = [34] @ concat (map escape_byte s) @ [34]"

fun join_comma :: "bytes list \<Rightarrow> bytes" where
  "join_comma [] = []"
| "join_comma [x] = x"
| "join_comma (x # xs) = x @ [44] @ join_comma xs"

definition print_member :: "bytes \<times> bytes \<Rightarrow> bytes" where
  "print_member m = print_string (fst m) @ [58] @ snd m"

primrec print_json :: "json \<Rightarrow> bytes" where
  "print_json JNull = str ''null''"
| "print_json (JBool b) = (if b then str ''true'' else str ''false'')"
| "print_json (JInt i) = format_int i"
| "print_json (JStr s) = print_string s"
| "print_json (JArr js) = [91] @ join_comma (map print_json js) @ [93]"
| "print_json (JObj ms) = [123] @ join_comma (map print_member (map (map_prod id print_json) ms)) @ [125]"

section \<open>The encoder prints the JSON value\<close>

lemma appendString_print:
  "appendString s = (if valid_utf8 s then Inr (print_string s) else Inl ErrInvalidString)"
proof -
  have "concat (map escape_rune (runes s)) = concat (map escape_byte s)" if "valid_utf8 s"
    using that
  proof (induction s rule: valid_utf8.induct)
    case (1 s)
    show ?case
    proof (cases "s = []")
      case False
      with "1.prems" obtain r k where h: "utf8_head (map unat s) = Some (r, k)" and v: "valid_utf8 (drop k s)"
        by (subst (asm) valid_utf8.simps) (auto split: option.splits)
      have IH: "concat (map escape_rune (runes (drop k s))) = concat (map escape_byte (drop k s))"
        using "1.IH" [OF False h refl] v by simp
      have head: "escape_rune r = concat (map escape_byte (take k s))"
      proof (cases "k = 1")
        case True
        from False obtain b t where s: "s = b # t" by (cases s) auto
        from h True have "r = unat b" "unat b < 128"
          by (cases rule: utf8_head_cases, simp_all add: s)+
        with True show ?thesis by (simp add: s escape_byte_def word_less_nat_alt)
      next
        case False
        have big: "\<forall>b \<in> set (take k s). 128 \<le> b"
          using utf8_head_multi [OF h False] by (auto simp: take_map word_le_nat_alt)
        have "concat (map escape_byte (take k s)) = concat (map (\<lambda>b. [b]) (take k s))"
          by (rule arg_cong [where f = concat], rule map_cong)
            (use big in \<open>auto simp: escape_byte_def\<close>)
        moreover have "escape_rune r = encode_rune r"
          using utf8_head_multi_rune [OF h False] by (simp add: escape_rune_def)
        moreover have "encode_rune r = take k s"
          using encode_rune_head [OF h] by (simp only: take_map map_of_nat_unat)
        ultimately show ?thesis by simp
      qed
      have "runes s = r # runes (drop k s)"
        using False h by (simp add: runes.simps [of s])
      moreover have "concat (map escape_byte (take k s)) @ concat (map escape_byte (drop k s))
          = concat (map escape_byte s)"
        by (simp flip: concat_append map_append)
      ultimately show ?thesis using IH head by simp
    qed simp
  qed
  then show ?thesis by (simp add: appendString_def print_string_def)
qed

lemma join_comma_Cons:
  "join_comma (x # xs) = x @ concat (map (\<lambda>y. 44 # y) xs)"
  by (induction xs arbitrary: x) simp_all

lemma appendElems_eq:
  "appendElems first rs =
     (case sequence_results rs of Inl e \<Rightarrow> Inl e
      | Inr vs \<Rightarrow> Inr (if first then join_comma vs else concat (map (\<lambda>y. 44 # y) vs)))"
  by (induction rs arbitrary: first) (auto split: sum.splits simp: join_comma_Cons)

lemma of_result_sequence: "of_result (sequence_results rs) = those (map of_result rs)"
proof (induction rs)
  case (Cons r rs)
  then show ?case by (cases r; cases "sequence_results rs") (simp_all flip: Cons.IH)
qed simp

lemma those_map_option: "those (map (\<lambda>x. map_option f (g x)) xs) = map_option (map f) (those (map g xs))"
  by (induction xs) (auto split: option.splits simp: option.map_comp o_def)

lemma of_result_eq_Some [simp]: "of_result r = Some x \<longleftrightarrow> r = Inr x"
  by (cases r) auto

lemma is_ok_of_result: "is_ok r \<longleftrightarrow> of_result r \<noteq> None"
  by (cases r) auto

lemma appendMembers_eq:
  "of_result (appendMembers val first ks) =
     (if \<forall>k \<in> set ks. valid_utf8 k \<and> of_result (val k) \<noteq> None
      then Some (let items = map (\<lambda>k. print_member (k, the (of_result (val k)))) ks
                 in if first then join_comma items else concat (map (\<lambda>y. 44 # y) items))
      else None)"
proof (induction ks arbitrary: first)
  case Nil
  then show ?case by simp
next
  case (Cons k ks)
  show ?case
  proof (cases "valid_utf8 k \<and> (\<exists>v. val k = Inr v)")
    case True
    then obtain v where v: "val k = Inr v" by blast
    show ?thesis
    proof (cases "appendMembers val False ks")
      case (Inl e)
      with Cons.IH [of False] True v show ?thesis
        by (auto simp: appendString_print split: if_splits)
    next
      case (Inr rest)
      with Cons.IH [of False] True v show ?thesis
        by (auto simp: appendString_print Let_def join_comma_Cons print_member_def split: if_splits)
    qed
  next
    case False
    then show ?thesis
      by (cases "val k") (auto simp: appendString_print)
  qed
qed

lemma map_of_map_prod_id: "map_of (map (map_prod id f) m) k = map_option f (map_of m k)"
  by (induction m) auto

lemma map_fst_map_prod_id [simp]: "map fst (map (map_prod id f) m) = map fst m"
  by (induction m) auto

lemma of_result_appendInt: "of_result (appendInt i) = map_option print_json (json_int i)"
  by (simp add: appendInt_def json_int_def)

lemma of_result_appendUint: "of_result (appendUint u) = map_option print_json (json_int (int u))"
  by (simp add: appendUint_def json_int_def minCanonicalInt_def maxCanonicalInt_def format_uint_def
      format_int_def)

lemma appendMap_refines:
  assumes "\<And>v. v \<in> snd ` set m \<Longrightarrow> of_result (appendValue v) = map_option print_json (json_of v)"
  shows "of_result (appendMap kind (map (map_prod id appendValue) m)) =
         map_option print_json (json_of (GMap kind m))"
proof (cases "kind = MapNonString \<or> (kind = MapNamedString \<and> m \<noteq> [])")
  case True
  then show ?thesis
  proof (elim disjE conjE)
    assume "kind = MapNamedString" "m \<noteq> []"
    then obtain k ks where "sort (map fst m) = k # ks"
      by (metis length_0_conv length_map length_sort neq_Nil_conv)
    with True show ?thesis
      by (auto simp: appendMap_def mapIndex_def appendString_print split: sum.splits)
  qed (simp add: appendMap_def)
next
  case False
  let ?ks = "sort (map fst m)"
  let ?val = "mapIndex kind (map (map_prod id appendValue) m)"
  have val: "of_result (?val k) = map_option print_json (json_of (the (map_of m k)))"
    "the (map_of (map (map_prod id json_of) m) k) = json_of (the (map_of m k))" if "k \<in> set ?ks" for k
  proof -
    from that obtain v where v: "map_of m k = Some v"
      by (metis list.set_map map_of_eq_None_iff not_Some_eq set_sort)
    then have "v \<in> snd ` set m" by (force dest: map_of_SomeD)
    with v False that show "of_result (?val k) = map_option print_json (json_of (the (map_of m k)))"
      using assms by (auto simp: mapIndex_def map_of_map_prod_id)
    show "the (map_of (map (map_prod id json_of) m) k) = json_of (the (map_of m k))"
      using v by (simp add: map_of_map_prod_id)
  qed
  have cond: "(\<forall>k \<in> set ?ks. valid_utf8 k \<and> of_result (?val k) \<noteq> None) \<longleftrightarrow>
      (\<forall>k \<in> set ?ks. valid_utf8 k \<and> the (map_of (map (map_prod id json_of) m) k) \<noteq> None)"
    using val by (simp del: set_sort)
  show ?thesis
  proof (cases "\<forall>k \<in> set ?ks. valid_utf8 k \<and> of_result (?val k) \<noteq> None")
    case True
    have eq: "map (\<lambda>k. print_member (k, the (of_result (?val k)))) ?ks =
        map print_member (map (map_prod id print_json)
          (map (\<lambda>k. (k, the (the (map_of (map (map_prod id json_of) m) k)))) ?ks))"
      using True val by (auto simp: option.map_sel simp del: set_sort)
    have "of_result (appendMembers ?val True ?ks) =
        Some (join_comma (map (\<lambda>k. print_member (k, the (of_result (?val k)))) ?ks))"
      unfolding appendMembers_eq using True by simp
    then have "appendMembers ?val True ?ks = Inr (join_comma (map print_member (map (map_prod id print_json)
          (map (\<lambda>k. (k, the (the (map_of (map (map_prod id json_of) m) k)))) ?ks))))"
      unfolding eq by simp
    then show ?thesis
      using False True cond
      by (auto simp: appendMap_def json_object_def Let_def simp del: set_sort)
  next
    case nok: False
    then have "of_result (appendMembers ?val True ?ks) = None"
      unfolding appendMembers_eq by simp
    then show ?thesis
      using False nok cond
      by (auto simp: appendMap_def json_object_def Let_def split: sum.splits simp del: set_sort)
  qed
qed

lemma appendValue_refines: "of_result (appendValue v) = map_option print_json (json_of v)"
proof (induction v)
  case (GString s)
  show ?case by (simp add: appendString_print)
next
  case (GNumber s)
  show ?case by (auto simp: appendJSONNumber_def of_result_appendInt split: sum.splits)
next
  case (GSlice k vs)
  have "those (map (\<lambda>v. of_result (appendValue v)) vs) = map_option (map print_json) (those (map json_of vs))"
    using GSlice by (simp add: those_map_option [symmetric] cong: map_cong)
  then have "of_result (sequence_results (map appendValue vs)) = map_option (map print_json) (those (map json_of vs))"
    by (simp add: of_result_sequence o_def)
  then show ?case
    by (cases "sequence_results (map appendValue vs)"; cases "those (map json_of vs)")
      (auto simp: appendSlice_def appendElems_eq)
next
  case (GMap kind m)
  have "of_result (appendMap kind (map (map_prod id appendValue) m)) =
      map_option print_json (json_of (GMap kind m))"
    by (rule appendMap_refines) (use GMap in \<open>force simp: snds.simps\<close>)
  then show ?case by simp
next
  case (GPtr p)
  then show ?case by (cases p) auto
qed (auto simp: of_result_appendInt of_result_appendUint)

section \<open>The printed bytes determine the JSON value\<close>

text \<open>A reader for one escaped byte: the escapes are a prefix code.\<close>

definition hex_value :: "byte \<Rightarrow> nat" where
  "hex_value c = (if c < 58 then unat c - 48 else unat c - 87)"

definition unescape :: "bytes \<Rightarrow> (byte \<times> bytes) option" where
  "unescape s =
     (case s of [] \<Rightarrow> None
      | b # t \<Rightarrow>
          if b \<noteq> 92 then Some (b, t)
          else if take 3 t = [117, 48, 48] then Some (of_nat (16 * hex_value (t ! 3) + hex_value (t ! 4)), drop 5 t)
          else (case t of [] \<Rightarrow> None
                | c # r \<Rightarrow>
                    Some (if c = 98 then 8 else if c = 102 then 12 else if c = 110 then 10
                          else if c = 114 then 13 else if c = 116 then 9 else c, r)))"

lemma byte_below: "b < of_nat n \<Longrightarrow> n < 256 \<Longrightarrow> (b :: byte) \<in> set (map of_nat [0..<n])"
proof -
  assume "b < of_nat n" and "n < 256"
  then have "unat b < n" by (simp add: word_less_nat_alt unat_of_nat)
  then show ?thesis by (auto simp: image_iff intro!: bexI [of _ "unat b"])
qed

lemma unescape_control:
  "\<forall>b \<in> set (map of_nat [0..<32]). unescape (escape_byte b @ r) = Some (b, r)"
  by (simp add: upt_rec escape_byte_def escape_rune_def encode_rune_def format_hex.simps
      hex_digit_def hex_value_def unescape_def)

lemma escape_byte_plain:
  assumes "32 \<le> b" "b \<noteq> 34" "b \<noteq> 92"
  shows "escape_byte b = [b]"
proof -
  have "unat b \<noteq> 34" "unat b \<noteq> 92" using assms(2,3) by (metis of_nat_numeral of_nat_unat_byte)+
  moreover have "32 \<le> unat b" using assms(1) by (simp add: word_le_nat_alt)
  moreover have "unat b < 128" if "b < 128" using that by (simp add: word_less_nat_alt)
  ultimately show ?thesis by (auto simp: escape_byte_def escape_rune_def encode_rune_def)
qed

lemma escape_byte_quoted: "escape_byte 34 = [92, 34]" "escape_byte 92 = [92, 92]"
  by (simp_all add: escape_byte_def escape_rune_def encode_rune_def)

lemma unescape_escape: "unescape (escape_byte b @ r) = Some (b, r)"
proof -
  consider "b < 32" | "b = 34" | "b = 92" | "32 \<le> b" "b \<noteq> 34" "b \<noteq> 92" by (meson not_less)
  then show ?thesis
  proof cases
    case 1
    show ?thesis by (rule bspec [OF unescape_control byte_below]) (use 1 in simp_all)
  next
    case 4
    then show ?thesis by (simp add: escape_byte_plain unescape_def)
  qed (simp_all add: escape_byte_quoted unescape_def)
qed

lemma escape_byte_append_inject: "escape_byte b @ r = escape_byte c @ r' \<longleftrightarrow> b = c \<and> r = r'"
  using unescape_escape by (metis option.inject prod.inject)

lemma escape_control_hd:
  "\<forall>b \<in> set (map of_nat [0..<32]). escape_byte b \<noteq> [] \<and> hd (escape_byte b) \<noteq> 34"
  by (simp add: upt_rec escape_byte_def escape_rune_def encode_rune_def format_hex.simps)

lemma escape_byte_hd: "escape_byte b \<noteq> [] \<and> hd (escape_byte b) \<noteq> 34"
proof -
  consider "b < 32" | "b = 34" | "b = 92" | "32 \<le> b" "b \<noteq> 34" "b \<noteq> 92" by (meson not_less)
  then show ?thesis
  proof cases
    case 1
    show ?thesis by (rule bspec [OF escape_control_hd byte_below]) (use 1 in simp_all)
  qed (simp_all add: escape_byte_plain escape_byte_quoted)
qed

lemma escape_bytes_inject:
  "concat (map escape_byte s) @ 34 # r = concat (map escape_byte t) @ 34 # r' \<Longrightarrow> s = t \<and> r = r'"
proof (induction s arbitrary: t)
  case Nil
  then show ?case using escape_byte_hd by (cases t) (auto simp: hd_append dest: arg_cong [where f = hd])
next
  case (Cons b s)
  show ?case
  proof (cases t)
    case Nil
    then show ?thesis
      using Cons.prems escape_byte_hd [of b] by (auto simp: hd_append dest: arg_cong [where f = hd])
  next
    case (Cons c t')
    then show ?thesis using Cons.prems Cons.IH [of t'] by (auto simp: escape_byte_append_inject)
  qed
qed

lemma print_string_inject: "print_string s @ r = print_string t @ r' \<Longrightarrow> s = t \<and> r = r'"
  by (auto simp: print_string_def dest: escape_bytes_inject)

text \<open>Integers end at a delimiter.\<close>

definition delim :: "bytes \<Rightarrow> bool" where
  "delim r \<longleftrightarrow> r = [] \<or> hd r \<in> {44, 93, 125}"

definition int_char :: "byte \<Rightarrow> bool" where
  "int_char c \<longleftrightarrow> c = 45 \<or> (48 \<le> c \<and> c \<le> 57)"

lemma dec_digits_inject: "dec_digits n = dec_digits m \<longleftrightarrow> n = m"
proof
  assume "dec_digits n = dec_digits m"
  then have "parse_digits (n + m) 0 (dec_digits n) = Inr m" by (simp add: parse_dec_digits)
  then show "n = m" by (simp add: parse_dec_digits)
qed simp

lemma dec_digits_int_char: "\<forall>c \<in> set (dec_digits n). int_char c"
  using dec_digits_range by (auto simp: int_char_def)

lemma minus_notin_digits: "45 \<notin> set (dec_digits n)"
  using dec_digits_range [of 45 n] by auto

lemma format_int_inject: "format_int i = format_int j \<longleftrightarrow> i = j"
proof -
  have "dec_digits n \<noteq> 45 # bs" "45 # bs \<noteq> dec_digits n" for n bs
    using minus_notin_digits [of n] by (metis list.set_intros(1))+
  then show ?thesis by (auto simp: format_int_def dec_digits_inject)
qed

lemma format_int_chars: "c \<in> set (format_int i) \<Longrightarrow> int_char c" "format_int i \<noteq> []"
  using dec_digits_int_char by (auto simp: format_int_def int_char_def split: if_splits)

lemma format_int_append_inject:
  assumes "format_int i @ r = format_int j @ r'" "delim r" "delim r'"
  shows "i = j \<and> r = r'"
proof -
  have stop: "takeWhile int_char q = []" if "delim q" for q
    using that by (cases q) (auto simp: delim_def int_char_def)
  have "takeWhile int_char (format_int x @ q) = format_int x" if "delim q" for x q
    using that format_int_chars(1) [of _ x] stop by (simp add: takeWhile_append2)
  then have "format_int i = format_int j" using assms by metis
  then show ?thesis using assms(1) by (simp add: format_int_inject)
qed

text \<open>A printer is readable at \<open>x\<close> if what it prints can be told from any other output.\<close>

definition readable :: "('a \<Rightarrow> bytes) \<Rightarrow> 'a \<Rightarrow> bool" where
  "readable f x \<longleftrightarrow> (\<forall>y r r'. delim r \<longrightarrow> delim r' \<longrightarrow> f x @ r = f y @ r' \<longrightarrow> x = y \<and> r = r')"

lemma readableD: "readable f x \<Longrightarrow> f x @ r = f y @ r' \<Longrightarrow> delim r \<Longrightarrow> delim r' \<Longrightarrow> x = y \<and> r = r'"
  by (simp add: readable_def)

lemma delim_tail: "c \<in> {93, 125} \<Longrightarrow> delim (concat (map (\<lambda>y. 44 # y) ys) @ c # r)"
  by (cases ys) (auto simp: delim_def)

lemma comma_tail_inject:
  assumes "\<And>x. x \<in> set xs \<Longrightarrow> readable f x" and c: "c \<in> {93, 125}"
    and "concat (map (\<lambda>y. 44 # f y) xs) @ c # r = concat (map (\<lambda>y. 44 # f y) ys) @ c # r'"
  shows "xs = ys \<and> r = r'"
  using assms(1,3)
proof (induction xs arbitrary: ys)
  case Nil
  then show ?case using c by (cases ys) auto
next
  case (Cons x xs)
  show ?case
  proof (cases ys)
    case Nil
    then show ?thesis using Cons.prems c by auto
  next
    case (Cons y ys')
    have "f x @ concat (map (\<lambda>y. 44 # f y) xs) @ c # r = f y @ concat (map (\<lambda>y. 44 # f y) ys') @ c # r'"
      using Cons.prems(2) Cons by simp
    moreover have "delim (concat (map (\<lambda>y. 44 # f y) zs) @ c # q)" for zs q
      using delim_tail [OF c, of "map f zs" q] by (simp add: o_def)
    ultimately have "x = y \<and> concat (map (\<lambda>y. 44 # f y) xs) @ c # r = concat (map (\<lambda>y. 44 # f y) ys') @ c # r'"
      using Cons.prems(1) by (intro readableD [of f]) auto
    then show ?thesis using Cons.IH [of ys'] Cons.prems(1) Cons by simp
  qed
qed

lemma join_comma_inject:
  assumes rd: "\<And>x. x \<in> set xs \<Longrightarrow> readable f x" and c: "c \<in> {93, 125}"
    and ne: "\<And>x. f x \<noteq> [] \<and> hd (f x) \<notin> {93, 125}"
    and eq: "join_comma (map f xs) @ c # r = join_comma (map f ys) @ c # r'"
  shows "xs = ys \<and> r = r'"
proof (cases xs; cases ys)
  fix x xs' y ys' assume xs: "xs = x # xs'" and ys: "ys = y # ys'"
  have "concat (map (\<lambda>y. 44 # y) (map f (x # xs'))) @ c # r = concat (map (\<lambda>y. 44 # y) (map f (y # ys'))) @ c # r'"
    using eq by (simp add: xs ys join_comma_Cons)
  then show ?thesis
    using comma_tail_inject [where f = f and xs = xs and ys = ys and c = c and r = r and r' = r'] rd c
    by (simp add: xs ys o_def)
next
  fix y ys' assume "xs = []" and "ys = y # ys'"
  then show ?thesis using eq ne [of y] c
    by (auto simp: join_comma_Cons hd_append dest: arg_cong [where f = hd])
next
  fix x xs' assume "xs = x # xs'" and "ys = []"
  then show ?thesis using eq ne [of x] c
    by (auto simp: join_comma_Cons hd_append dest: arg_cong [where f = hd])
qed (use eq in simp)

fun lead :: "byte \<Rightarrow> nat" where
  "lead c = (if c = 110 then 0 else if c = 116 \<or> c = 102 then 1 else if c = 34 then 3
             else if c = 91 then 4 else if c = 123 then 5 else 2)"

fun json_kind :: "json \<Rightarrow> nat" where
  "json_kind JNull = 0" | "json_kind (JBool b) = 1" | "json_kind (JInt i) = 2"
| "json_kind (JStr s) = 3" | "json_kind (JArr js) = 4" | "json_kind (JObj ms) = 5"

lemma print_json_hd:
  "print_json j \<noteq> []" "lead (hd (print_json j)) = json_kind j" "hd (print_json j) \<notin> {93, 125}"
proof -
  have "int_char (hd (format_int i))" for i
    using format_int_chars by (metis hd_in_set)
  then have "hd (format_int i) = 45 \<or> (48 \<le> hd (format_int i) \<and> hd (format_int i) \<le> 57)" for i
    by (simp add: int_char_def)
  moreover have "c \<notin> {110, 116, 102, 34, 91, 123, 93, 125}" if "c = 45 \<or> (48 \<le> c \<and> c \<le> (57 :: byte))" for c
    using that by auto
  ultimately have "hd (format_int i) \<notin> {110, 116, 102, 34, 91, 123, 93, 125}" for i by blast
  then show "print_json j \<noteq> []" "lead (hd (print_json j)) = json_kind j" "hd (print_json j) \<notin> {93, 125}"
    by (cases j; auto simp: print_string_def format_int_chars)+
qed

lemma print_json_kind: "print_json j @ r = print_json y @ r' \<Longrightarrow> json_kind j = json_kind y"
  using print_json_hd(1,2) by (metis hd_append2)

lemma print_member_hd:
  "print_member m \<noteq> [] \<and> hd (print_member m) \<notin> {93, 125}"
  by (simp add: print_member_def print_string_def)

lemma readable_member:
  assumes "readable print_json v"
  shows "readable (\<lambda>m. print_member (map_prod id print_json m)) (k, v)"
proof -
  have "(k, v) = y \<and> r = r'"
    if "delim r" "delim r'"
      and eq: "print_member (map_prod id print_json (k, v)) @ r = print_member (map_prod id print_json y) @ r'"
    for y r r'
  proof -
    obtain k' v' where y: "y = (k', v')" by (cases y)
    have "print_string k @ 58 # print_json v @ r = print_string k' @ 58 # print_json v' @ r'"
      using eq by (simp add: y print_member_def)
    then have "k = k'" "print_json v @ r = print_json v' @ r'" using print_string_inject by blast+
    with assms that show ?thesis by (auto simp: y dest: readableD)
  qed
  then show ?thesis unfolding readable_def by blast
qed

lemma readable_print_json: "readable print_json j"
proof (induction j)
  case (JInt i)
  have "JInt i = y \<and> r = r'" if "delim r" "delim r'" "print_json (JInt i) @ r = print_json y @ r'" for y r r'
    using that print_json_kind [OF that(3)] by (cases y) (auto dest: format_int_append_inject)
  then show ?case unfolding readable_def by blast
next
  case (JStr s)
  have "JStr s = y \<and> r = r'" if "print_json (JStr s) @ r = print_json y @ r'" for y r r'
    using that print_json_kind [OF that] by (cases y) (auto dest: print_string_inject)
  then show ?case unfolding readable_def by blast
next
  case (JArr js)
  have "JArr js = y \<and> r = r'" if eq: "print_json (JArr js) @ r = print_json y @ r'" for y r r'
  proof -
    obtain js' where y: "y = JArr js'" using print_json_kind [OF eq] by (cases y) auto
    have e: "join_comma (map print_json js) @ 93 # r = join_comma (map print_json js') @ 93 # r'"
      using eq by (simp add: y)
    have "js = js' \<and> r = r'"
      by (rule join_comma_inject [where f = print_json and c = 93, OF JArr _ _ e])
        (use print_json_hd in simp_all)
    then show ?thesis by (simp add: y)
  qed
  then show ?case unfolding readable_def by blast
next
  case (JObj ms)
  have rd: "readable (\<lambda>m. print_member (map_prod id print_json m)) m" if "m \<in> set ms" for m
  proof -
    obtain k v where m: "m = (k, v)" by (cases m)
    have "readable print_json v" by (rule JObj [OF that]) (simp add: m)
    then show ?thesis unfolding m by (rule readable_member)
  qed
  have "JObj ms = y \<and> r = r'" if eq: "print_json (JObj ms) @ r = print_json y @ r'" for y r r'
  proof -
    obtain ms' where y: "y = JObj ms'" using print_json_kind [OF eq] by (cases y) auto
    have e: "join_comma (map (\<lambda>m. print_member (map_prod id print_json m)) ms) @ 125 # r =
        join_comma (map (\<lambda>m. print_member (map_prod id print_json m)) ms') @ 125 # r'"
      using eq by (simp add: y o_def)
    have "ms = ms' \<and> r = r'"
      by (rule join_comma_inject [where f = "\<lambda>m. print_member (map_prod id print_json m)" and c = 125,
            OF rd _ print_member_hd e]) simp_all
    then show ?thesis by (simp add: y)
  qed
  then show ?case unfolding readable_def by blast
next
  case JNull
  have "JNull = y \<and> r = r'" if "print_json JNull @ r = print_json y @ r'" for y r r'
    using that print_json_kind [OF that] by (cases y) auto
  then show ?case unfolding readable_def by blast
next
  case (JBool b)
  have "JBool b = y \<and> r = r'" if "print_json (JBool b) @ r = print_json y @ r'" for y r r'
    using that print_json_kind [OF that] by (cases y) (auto split: if_splits)
  then show ?case unfolding readable_def by blast
qed

lemma print_json_inject: "print_json j = print_json y \<longleftrightarrow> j = y"
  using readableD [OF readable_print_json, of j "[]" y "[]"] by (auto simp: delim_def)

section \<open>Properties of Canonical\<close>

lemma Canonical_Inr_iff: "Canonical v = Inr bs \<longleftrightarrow> (\<exists>j. json_of v = Some j \<and> bs = print_json j)"
  using appendValue_refines [of v]
  by (cases "appendValue v"; cases "json_of v") (auto simp: Canonical_def)

lemma is_ok_Canonical: "is_ok (Canonical v) \<longleftrightarrow> json_of v \<noteq> None"
  using Canonical_Inr_iff [of v] by (auto simp: is_ok_iff)

lemma Canonical_inject:
  "Canonical v = Inr bs \<Longrightarrow> Canonical w = Inr bs \<Longrightarrow> json_of v = json_of w"
  by (auto simp: Canonical_Inr_iff print_json_inject)

lemma Canonical_cong: "json_of v = json_of w \<Longrightarrow> Canonical v = Inr bs \<Longrightarrow> Canonical w = Inr bs"
  by (simp add: Canonical_Inr_iff)

lemma json_of_map_order:
  assumes "distinct (map fst m)" and "mset m = mset m'"
  shows "json_of (GMap kind m) = json_of (GMap kind m')"
proof -
  have "mset (map fst m) = mset (map fst m')" using assms(2) by simp
  then have "sort (map fst m) = sort (map fst m')" by (intro properties_for_sort) simp_all
  moreover have "distinct (map fst m')"
    using assms by (metis mset_eq_imp_distinct_iff mset_map)
  then have "map_of (map (map_prod id f) m) = map_of (map (map_prod id f) m')" for f :: "gval \<Rightarrow> json option"
    using assms by (intro map_of_eqI) (auto simp: map_of_map_prod_id dest: mset_eq_setD intro!: ext map_of_eqI)
  ultimately show ?thesis using assms(2) by (auto simp: json_object_def)
qed


section \<open>Properties\<close>

text \<open>C39: the encoder refines its specification. \<open>Canonical\<close> prints the JSON value that a Go value
  stands for, and fails exactly when there is none: an integer outside plus or minus (2^53 - 1), a
  string or a key that is not UTF-8, a float, a fractional number, or a value of another kind.\<close>

theorem Canonical_refines_json: "of_result (Canonical v) = map_option print_json (json_of v)"
  by (simp add: Canonical_def appendValue_refines)

text \<open>C40: canonical bytes are a commitment. Two values have the same canonical encoding exactly when
  they stand for the same JSON value, so signatures and digests of the bytes are about the value.\<close>

theorem Canonical_commits:
  assumes "Canonical v = Inr bs"
  shows "Canonical w = Inr bs \<longleftrightarrow> json_of w = json_of v"
  using assms Canonical_inject [of w bs v] Canonical_cong [of v w bs] by auto

definition sample_object :: gmap where
  "sample_object = [(str ''b'', GNumber (str ''-12'')), (str ''a'', GSlice SliceAny [GBool True, GNil])]"

lemma sample_object_json:
  "json_of (GMap MapStringAny sample_object) =
     Some (JObj [(str ''a'', JArr [JBool True, JNull]), (str ''b'', JInt (- 12))])"
  by (simp add: sample_object_def json_object_def valid_utf8.simps utf8_class_def json_int_def
      minCanonicalInt_def maxCanonicalInt_def parse_int64_def parse_uint_def)

theorem Canonical_commits_witness:
  "Canonical (GMap MapStringAny sample_object) = Inr (str ''{\"a\":[true,null],\"b\":-12}'') \<and>
   Canonical (GMap MapStringOther (rev sample_object)) = Inr (str ''{\"a\":[true,null],\"b\":-12}'')"
proof -
  have p: "format_int (-12) = [45, 49, 50]"
    by (simp add: format_int_def format_uint_def dec_digits.simps)
  have c: "Canonical (GMap MapStringAny sample_object) = Inr (str ''{\"a\":[true,null],\"b\":-12}'')"
    unfolding Canonical_Inr_iff sample_object_json
    by (simp add: print_member_def print_string_def escape_byte_def
        escape_rune_def encode_rune_def p)
  moreover have "json_of (GMap MapStringOther (rev sample_object)) = json_of (GMap MapStringAny sample_object)"
    using json_of_map_order [of sample_object "rev sample_object" MapStringAny] by (simp add: sample_object_def)
  ultimately show ?thesis using Canonical_commits [OF c, of "GMap MapStringOther (rev sample_object)"] by simp
qed

text \<open>The iteration order of a Go map is not observable: two runs that enumerate the entries of a
  map differently encode it to the same bytes, or both fail.\<close>

theorem Canonical_map_order:
  assumes "distinct (map fst m)" and "mset m = mset m'"
  shows "of_result (Canonical (GMap kind m)) = of_result (Canonical (GMap kind m'))"
  using json_of_map_order [OF assms, of kind] by (simp only: Canonical_def appendValue_refines)

theorem Canonical_map_order_witness:
  "of_result (Canonical (GMap MapStringAny sample_object)) =
   of_result (Canonical (GMap MapStringAny (rev sample_object)))"
  by (rule Canonical_map_order) (simp_all add: sample_object_def)

end
