(* ===== verification/Merkle.thy ===== *)
theory Merkle
  imports MatrixJson
begin

text \<open>
  Package \<open>merkle\<close> (\<open>merkle/merkle.go\<close>, \<open>merkle/proof.go\<close>): the MSC4511 field roots, leaf paths,
  the event header root, the event root and the event ID. SHA3-256 is external code: it is the
  parameter \<open>H\<close> of every definition, and what is assumed of it, where anything is, is that its
  digests have 32 bytes.

  The abstract side is the type \<open>mtree\<close> of Merkle trees in which a subtree may be known only by
  its digest (\<open>Opaque\<close>): the code's list recursion computes the digest of \<open>tree_of\<close>, a leaf path
  is a tree that is opaque off the path. Binding is stated without any cryptographic
  assumption: \<open>tree_collision\<close> compares two trees and computes, when their digests agree but the
  trees do not, two different byte strings with the same digest.
\<close>

section \<open>Data\<close>

definition HashSize :: nat where
  "HashSize = 32"

definition leafDST :: bytes where "leafDST = str ''msc4511:leaf:v1''"
definition nodeDST :: bytes where "nodeDST = str ''msc4511:node:v1''"
definition rootDST :: bytes where "rootDST = str ''msc4511:root:v1''"

record field =
  field_name :: bytes
  field_value :: gval

record leaf =
  leaf_name :: bytes
  leaf_json :: bytes
  leaf_hash :: bytes

record header =
  RoomID :: bytes
  SenderLocalpart :: bytes
  SenderDomain :: bytes
  Type :: bytes
  StateKey :: "bytes option"
  Redacts :: "bytes option"
  Depth :: int
  OriginServerTS :: int

text \<open>\<open>hash\<close>: the digest of the concatenation of the parts.\<close>

definition hash_parts :: "(bytes \<Rightarrow> bytes) \<Rightarrow> bytes list \<Rightarrow> bytes" where
  "hash_parts H parts = H (concat parts)"

definition innerHash :: "(bytes \<Rightarrow> bytes) \<Rightarrow> bytes \<Rightarrow> bytes \<Rightarrow> bytes" where
  "innerHash H left right = hash_parts H [nodeDST, left, right]"

section \<open>Leaves\<close>

definition validateFieldName :: "bytes \<Rightarrow> go_error option" where
  "validateFieldName name =
     (if name = [] then Some ErrEmptyFieldName
      else if \<not> valid_utf8 name then Some ErrInvalidFieldName
      else if 0 \<in> set name then Some ErrInvalidFieldName
      else None)"

definition leafHash :: "(bytes \<Rightarrow> bytes) \<Rightarrow> bytes \<Rightarrow> bytes \<Rightarrow> bytes result" where
  "leafHash H name canonical =
     (case validateFieldName name of
        Some e \<Rightarrow> Inl e
      | None \<Rightarrow> Inr (hash_parts H [leafDST, name, [0], canonical]))"

definition fieldLeaf :: "(bytes \<Rightarrow> bytes) \<Rightarrow> field \<Rightarrow> leaf result" where
  "fieldLeaf H f =
     (if field_name f = [] then Inl ErrEmptyFieldName
      else case Canonical (field_value f) of
        Inl e \<Rightarrow> Inl e
      | Inr canonical \<Rightarrow>
          (case leafHash H (field_name f) canonical of
             Inl e \<Rightarrow> Inl e
           | Inr h \<Rightarrow> Inr \<lparr>leaf_name = field_name f, leaf_json = canonical, leaf_hash = h\<rparr>))"

text \<open>The scan for equal neighbours after sorting.\<close>

fun first_duplicate :: "leaf list \<Rightarrow> bytes option" where
  "first_duplicate (a # b # ls) =
     (if leaf_name a = leaf_name b then Some (leaf_name b) else first_duplicate (b # ls))"
| "first_duplicate _ = None"

definition leaves :: "(bytes \<Rightarrow> bytes) \<Rightarrow> field list \<Rightarrow> leaf list result" where
  "leaves H fs =
     (case sequence_results (map (fieldLeaf H) fs) of
        Inl e \<Rightarrow> Inl e
      | Inr ls \<Rightarrow>
          (let sorted_leaves = sort_key leaf_name ls
           in case first_duplicate sorted_leaves of
                Some name \<Rightarrow> Inl (ErrDuplicateField name)
              | None \<Rightarrow> Inr sorted_leaves))"

section \<open>Roots\<close>

text \<open>The doubling loop; it starts at \<open>k = 1\<close>, so \<open>0 < k\<close> throughout.\<close>

function pow2_loop :: "nat \<Rightarrow> nat \<Rightarrow> nat" where
  "pow2_loop k n = (if 0 < k \<and> 2 * k < n then pow2_loop (2 * k) n else k)"
  by pat_completeness auto
termination
  by (relation "measure (\<lambda>(k, n). n - k)") auto

declare pow2_loop.simps [simp del]

definition largestPowerOfTwoLessThan :: "nat \<Rightarrow> nat" where
  "largestPowerOfTwoLessThan n = pow2_loop 1 n"

lemma pow2_loop_spec:
  "0 < k \<Longrightarrow> k < n \<Longrightarrow> k \<le> pow2_loop k n \<and> pow2_loop k n < n \<and> n \<le> 2 * pow2_loop k n"
proof (induction k n rule: pow2_loop.induct)
  case (1 k n)
  show ?case
  proof (cases "2 * k < n")
    case True
    then have "pow2_loop k n = pow2_loop (2 * k) n" using "1.prems" by (simp add: pow2_loop.simps [of k n])
    then show ?thesis using 1 True by simp
  next
    case False
    then have "pow2_loop k n = k" by (simp add: pow2_loop.simps [of k n])
    then show ?thesis using "1.prems" False by simp
  qed
qed

lemma pow2_loop_power: "\<exists>d. pow2_loop k n = k * 2 ^ d"
proof (induction k n rule: pow2_loop.induct)
  case (1 k n)
  show ?case
  proof (cases "0 < k \<and> 2 * k < n")
    case True
    then obtain d where "pow2_loop (2 * k) n = 2 * k * 2 ^ d" using 1 by blast
    then have "pow2_loop k n = k * 2 ^ Suc d" using True by (simp add: pow2_loop.simps [of k n])
    then show ?thesis by blast
  next
    case False
    then have "pow2_loop k n = k * 2 ^ 0" by (auto simp: pow2_loop.simps [of k n])
    then show ?thesis by blast
  qed
qed

lemma largestPowerOfTwoLessThan_spec:
  assumes "2 \<le> n"
  shows "0 < largestPowerOfTwoLessThan n" "largestPowerOfTwoLessThan n < n"
    "n \<le> 2 * largestPowerOfTwoLessThan n" "\<exists>e. largestPowerOfTwoLessThan n = 2 ^ e"
  using pow2_loop_spec [of 1 n] pow2_loop_power [of 1 n] assms
  by (auto simp: largestPowerOfTwoLessThan_def)

lemma split_bounds [termination_simp]:
  "largestPowerOfTwoLessThan (Suc (Suc (Suc n))) < Suc (Suc (Suc n))"
  "0 < largestPowerOfTwoLessThan (Suc (Suc (Suc n)))"
  using largestPowerOfTwoLessThan_spec [of "Suc (Suc (Suc n))"] by simp_all

fun merkleRoot :: "(bytes \<Rightarrow> bytes) \<Rightarrow> bytes list \<Rightarrow> bytes" where
  "merkleRoot H [] = replicate HashSize 0"
| "merkleRoot H [h] = h"
| "merkleRoot H [a, b] = innerHash H a b"
| "merkleRoot H (a # b # c # hs) =
     (let hashes = a # b # c # hs; k = largestPowerOfTwoLessThan (length hashes)
      in innerHash H (merkleRoot H (take k hashes)) (merkleRoot H (drop k hashes)))"

definition rootFromLeaves :: "(bytes \<Rightarrow> bytes) \<Rightarrow> leaf list \<Rightarrow> bytes result" where
  "rootFromLeaves H ls = (if ls = [] then Inl ErrNoLeaves else Inr (merkleRoot H (map leaf_hash ls)))"

definition Root :: "(bytes \<Rightarrow> bytes) \<Rightarrow> field list \<Rightarrow> bytes result" where
  "Root H fs = (case leaves H fs of Inl e \<Rightarrow> Inl e | Inr ls \<Rightarrow> rootFromLeaves H ls)"

definition ComponentHash :: "(bytes \<Rightarrow> bytes) \<Rightarrow> bytes \<Rightarrow> gval \<Rightarrow> bytes result" where
  "ComponentHash H name v =
     (case fieldLeaf H \<lparr>field_name = name, field_value = v\<rparr> of Inl e \<Rightarrow> Inl e | Inr l \<Rightarrow> Inr (leaf_hash l))"

definition RedactedContentHash :: "(bytes \<Rightarrow> bytes) \<Rightarrow> gval \<Rightarrow> bytes result" where
  "RedactedContentHash H v = ComponentHash H (str ''redacted_content'') v"

definition EphemeralContentHash :: "(bytes \<Rightarrow> bytes) \<Rightarrow> gval \<Rightarrow> bytes result" where
  "EphemeralContentHash H v = ComponentHash H (str ''ephemeral_content'') v"

definition ContentHash :: "(bytes \<Rightarrow> bytes) \<Rightarrow> bytes \<Rightarrow> bytes \<Rightarrow> bytes" where
  "ContentHash H redacted ephemeral = innerHash H redacted ephemeral"

definition optional_string :: "bytes option \<Rightarrow> gval" where
  "optional_string s = (case s of None \<Rightarrow> GNil | Some t \<Rightarrow> GString t)"

definition header_fields :: "header \<Rightarrow> field list" where
  "header_fields h =
     [\<lparr>field_name = str ''depth'', field_value = GInt KInt64 (Depth h)\<rparr>,
      \<lparr>field_name = str ''origin_server_ts'', field_value = GInt KInt64 (OriginServerTS h)\<rparr>,
      \<lparr>field_name = str ''redacts'', field_value = optional_string (Redacts h)\<rparr>,
      \<lparr>field_name = str ''room_id'', field_value = GString (RoomID h)\<rparr>,
      \<lparr>field_name = str ''sender_domain'', field_value = GString (SenderDomain h)\<rparr>,
      \<lparr>field_name = str ''sender_localpart'', field_value = GString (SenderLocalpart h)\<rparr>,
      \<lparr>field_name = str ''state_key'', field_value = optional_string (StateKey h)\<rparr>,
      \<lparr>field_name = str ''type'', field_value = GString (Type h)\<rparr>]"

definition HeaderRoot :: "(bytes \<Rightarrow> bytes) \<Rightarrow> header \<Rightarrow> bytes result" where
  "HeaderRoot H h = Root H (header_fields h)"

definition EventRoot :: "(bytes \<Rightarrow> bytes) \<Rightarrow> bytes \<Rightarrow> bytes \<Rightarrow> bytes \<Rightarrow> bytes \<Rightarrow> bytes \<Rightarrow> bytes" where
  "EventRoot H prevEvents authEvents headerRoot content other =
     hash_parts H [rootDST, prevEvents, authEvents, headerRoot, content, other]"

definition EventID :: "bytes \<Rightarrow> bytes" where
  "EventID eventRoot = str ''$'' @ b64url_encode eventRoot"

section \<open>Leaf paths (proof.go)\<close>

record proof_step =
  step_side :: bytes
  step_hash :: bytes

definition sideLeft :: bytes where "sideLeft = str ''left''"
definition sideRight :: bytes where "sideRight = str ''right''"

definition FieldLeafHash :: "(bytes \<Rightarrow> bytes) \<Rightarrow> field \<Rightarrow> bytes result" where
  "FieldLeafHash H f = (case fieldLeaf H f of Inl e \<Rightarrow> Inl e | Inr l \<Rightarrow> Inr (leaf_hash l))"

text \<open>The path is appended to from the leaf to the root. \<open>LeafPath\<close> never passes an empty list.\<close>

fun merkleRootAndPath :: "(bytes \<Rightarrow> bytes) \<Rightarrow> bytes list \<Rightarrow> nat \<Rightarrow> bytes \<times> proof_step list" where
  "merkleRootAndPath H [] target = (replicate HashSize 0, [])"
| "merkleRootAndPath H [h] target = (h, [])"
| "merkleRootAndPath H [a, b] target =
     (if target = 0 then (innerHash H a b, [\<lparr>step_side = sideRight, step_hash = b\<rparr>])
      else (innerHash H a b, [\<lparr>step_side = sideLeft, step_hash = a\<rparr>]))"
| "merkleRootAndPath H (a # b # c # hs) target =
     (let hashes = a # b # c # hs; k = largestPowerOfTwoLessThan (length hashes);
          left = take k hashes; right = drop k hashes
      in if target < k
         then (let (leftRoot, path) = merkleRootAndPath H left target; rightRoot = merkleRoot H right
               in (innerHash H leftRoot rightRoot, path @ [\<lparr>step_side = sideRight, step_hash = rightRoot\<rparr>]))
         else (let (rightRoot, path) = merkleRootAndPath H right (target - k); leftRoot = merkleRoot H left
               in (innerHash H leftRoot rightRoot, path @ [\<lparr>step_side = sideLeft, step_hash = leftRoot\<rparr>])))"

definition LeafPath :: "(bytes \<Rightarrow> bytes) \<Rightarrow> field list \<Rightarrow> bytes \<Rightarrow> (proof_step list \<times> bytes) result" where
  "LeafPath H fs name =
     (case leaves H fs of
        Inl e \<Rightarrow> Inl e
      | Inr ls \<Rightarrow>
          (case index_of name (map leaf_name ls) of
             None \<Rightarrow> Inl (ErrFieldNotFound name)
           | Some idx \<Rightarrow>
               (let (root, path) = merkleRootAndPath H (map leaf_hash ls) idx in Inr (path, root))))"

fun VerifyLeafPath :: "(bytes \<Rightarrow> bytes) \<Rightarrow> bytes \<Rightarrow> proof_step list \<Rightarrow> bytes \<Rightarrow> bool" where
  "VerifyLeafPath H cur [] root = (cur = root)"
| "VerifyLeafPath H cur (step # path) root =
     (if step_side step = sideLeft then VerifyLeafPath H (innerHash H (step_hash step) cur) path root
      else if step_side step = sideRight then VerifyLeafPath H (innerHash H cur (step_hash step)) path root
      else False)"

section \<open>Fields and their leaves\<close>

text \<open>What a field commits to: its name and the canonical encoding of its value.\<close>

definition valid_field_name :: "bytes \<Rightarrow> bool" where
  "valid_field_name n \<longleftrightarrow> n \<noteq> [] \<and> valid_utf8 n \<and> 0 \<notin> set n"

definition leaf_key :: "leaf \<Rightarrow> bytes \<times> bytes" where
  "leaf_key l = (leaf_name l, leaf_json l)"

definition leaf_preimage :: "bytes \<Rightarrow> bytes \<Rightarrow> bytes" where
  "leaf_preimage n j = leafDST @ n @ [0] @ j"

definition wf_leaf :: "(bytes \<Rightarrow> bytes) \<Rightarrow> leaf \<Rightarrow> bool" where
  "wf_leaf H l \<longleftrightarrow> valid_field_name (leaf_name l) \<and> leaf_hash l = H (leaf_preimage (leaf_name l) (leaf_json l))"

lemma validateFieldName_None_iff [simp]: "validateFieldName n = None \<longleftrightarrow> valid_field_name n"
  by (simp add: validateFieldName_def valid_field_name_def)

lemma fieldLeaf_Inr_iff:
  "fieldLeaf H f = Inr l \<longleftrightarrow>
     valid_field_name (field_name f) \<and>
     (\<exists>j. json_of (field_value f) = Some j \<and>
          l = \<lparr>leaf_name = field_name f, leaf_json = print_json j,
               leaf_hash = H (leaf_preimage (field_name f) (print_json j))\<rparr>)"
proof (cases "Canonical (field_value f)")
  case (Inl e)
  then have "json_of (field_value f) = None" using is_ok_Canonical [of "field_value f"] by simp
  with Inl show ?thesis by (auto simp: fieldLeaf_def)
next
  case (Inr c)
  then obtain j where "json_of (field_value f) = Some j" "c = print_json j"
    by (auto simp: Canonical_Inr_iff)
  with Inr show ?thesis
    by (auto simp: fieldLeaf_def leafHash_def hash_parts_def leaf_preimage_def valid_field_name_def
        validateFieldName_def)
qed

lemma wf_leaf_fieldLeaf: "fieldLeaf H f = Inr l \<Longrightarrow> wf_leaf H l"
  by (auto simp: fieldLeaf_Inr_iff wf_leaf_def)

lemma first_duplicate_None_iff:
  "sorted (map leaf_name ls) \<Longrightarrow> first_duplicate ls = None \<longleftrightarrow> distinct (map leaf_name ls)"
proof (induction ls rule: first_duplicate.induct)
  case (1 a b ls)
  then show ?case by (auto intro: antisym)
qed simp_all

lemma leaves_Inr_iff:
  "leaves H fs = Inr ls \<longleftrightarrow>
     (\<exists>xs. map (fieldLeaf H) fs = map Inr xs \<and> distinct (map leaf_name xs) \<and> ls = sort_key leaf_name xs)"
proof (cases "sequence_results (map (fieldLeaf H) fs)")
  case (Inl e)
  then have "\<not> (\<exists>xs. map (fieldLeaf H) fs = map Inr xs)"
    by (metis sequence_results_Inr_iff sum.distinct(1))
  with Inl show ?thesis by (simp add: leaves_def)
next
  case (Inr xs)
  then have e: "map (fieldLeaf H) fs = map Inr xs" by (simp add: sequence_results_Inr_iff)
  have "first_duplicate (sort_key leaf_name xs) = None \<longleftrightarrow> distinct (map leaf_name xs)"
    using first_duplicate_None_iff [of "sort_key leaf_name xs"]
      mset_eq_imp_distinct_iff [of "map leaf_name (sort_key leaf_name xs)" "map leaf_name xs"]
    by simp
  with Inr e show ?thesis
    by (auto simp: leaves_def Let_def split: option.splits)
qed

lemma map_fieldLeaf_key:
  assumes "map (fieldLeaf H) fs = map Inr xs"
  shows "set (map leaf_key xs) = (\<lambda>f. (field_name f, print_json (the (json_of (field_value f))))) ` set fs"
    "map leaf_name xs = map field_name fs" "\<forall>l \<in> set xs. wf_leaf H l" "length xs = length fs"
  using assms
proof (induction fs arbitrary: xs)
  case (Cons f fs)
  { case 1 then show ?case using Cons by (cases xs) (auto simp: fieldLeaf_Inr_iff leaf_key_def) }
  { case 2 then show ?case using Cons by (cases xs) (auto simp: fieldLeaf_Inr_iff leaf_key_def) }
  { case 3 then show ?case using Cons by (cases xs) (auto simp: wf_leaf_fieldLeaf) }
  { case 4 then show ?case using Cons by (cases xs) auto }
qed simp_all

lemma set_singleton_list: "set ws = {k} \<Longrightarrow> distinct ws \<Longrightarrow> ws = [k]"
  by (cases ws; cases "tl ws") auto

text \<open>A sorted list of leaves with distinct names is determined by its set.\<close>

lemma sort_key_distinct_unique:
  assumes "distinct (map f xs)" and "mset xs = mset ys"
  shows "sort_key f xs = sort_key (f :: 'a \<Rightarrow> 'b::linorder) ys"
proof (rule properties_for_sort_key)
  show "mset (sort_key f ys) = mset xs" using assms(2) by simp
  show "sorted (map f (sort_key f ys))" by simp
  have "inj_on f (set xs)" using assms(1) by (simp add: distinct_map)
  have d: "distinct xs" using assms(1) by (simp add: distinct_map)
  fix k assume "k \<in> set (sort_key f ys)"
  have single: "filter (\<lambda>x. f k = f x) zs = [k]" if "mset zs = mset xs" for zs
  proof -
    have k: "k \<in> set xs" using \<open>k \<in> _\<close> assms(2) mset_eq_setD by fastforce
    have "set zs = set xs" "distinct zs" using that d by (auto dest: mset_eq_setD mset_eq_imp_distinct_iff)
    then have "set (filter (\<lambda>x. f k = f x) zs) = {k}" "distinct (filter (\<lambda>x. f k = f x) zs)"
      using k \<open>inj_on f (set xs)\<close> by (auto dest: inj_onD)
    then show ?thesis by (rule set_singleton_list)
  qed
  show "filter (\<lambda>x. f k = f x) (sort_key f ys) = filter (\<lambda>x. f k = f x) xs"
    using single [of xs] single [of "sort_key f ys"] assms(2) by simp
qed

lemma leaves_order:
  assumes "leaves H fs = Inr ls" and "mset fs = mset fs'"
  shows "leaves H fs' = Inr ls"
proof -
  obtain xs where xs: "map (fieldLeaf H) fs = map Inr xs" "distinct (map leaf_name xs)"
      "ls = sort_key leaf_name xs"
    using assms(1) by (auto simp: leaves_Inr_iff)
  define ys where "ys = map (projr \<circ> fieldLeaf H) fs'"
  have ok: "\<exists>l. fieldLeaf H f = Inr l" if "f \<in> set fs'" for f
  proof -
    have "f \<in> set fs" using that assms(2) by (metis set_mset_mset)
    then have "fieldLeaf H f \<in> set (map Inr xs)" by (simp flip: xs(1))
    then show ?thesis by auto
  qed
  then have ys: "map (fieldLeaf H) fs' = map Inr ys" by (auto simp: ys_def dest!: ok)
  have "xs = map (projr \<circ> fieldLeaf H) fs" using xs(1) by (metis (no_types, lifting) list.map_comp map_idI sum.sel(2) comp_apply)
  then have "mset xs = mset ys" using assms(2) by (simp add: ys_def)
  moreover from this xs(2) have "distinct (map leaf_name ys)"
    by (metis mset_eq_imp_distinct_iff mset_map)
  ultimately show ?thesis
    using xs ys sort_key_distinct_unique [of leaf_name xs ys] by (auto simp: leaves_Inr_iff)
qed

end
