(* ===== verification/HashTree.thy ===== *)
theory HashTree
  imports Prelude
begin

text \<open>
  Trees of digests: the abstract side of both commitment schemes of package \<open>merkle\<close>, the field
  roots (\<open>merkle/merkle.go\<close>, \<open>merkle/proof.go\<close>) and the causal trie (\<open>merkle/causal.go\<close>,
  \<open>merkle/causal_proof.go\<close>). A scheme is a byte encoding of leaves and of inner nodes; its laws, that
  encodings are injective and that a leaf is never a node, are the locale \<open>hash_tree\<close>. A subtree
  may be known only by its digest (\<open>Opaque\<close>), so a proof is a tree that is opaque off its path.

  Binding is stated without a cryptographic assumption: \<open>htree_collision\<close> compares two trees and
  computes, when their digests agree but the trees do not, two different byte strings with the
  same digest.
\<close>

section \<open>Trees and digests\<close>

datatype ('l, 'a) htree = Opaque bytes | LeafT 'l | NodeT 'a "('l, 'a) htree" "('l, 'a) htree"

fun htree_hash :: "(bytes \<Rightarrow> bytes) \<Rightarrow> ('l \<Rightarrow> bytes) \<Rightarrow> ('a \<Rightarrow> bytes \<Rightarrow> bytes \<Rightarrow> bytes) \<Rightarrow> ('l, 'a) htree \<Rightarrow> bytes" where
  "htree_hash H lp np (Opaque h) = h"
| "htree_hash H lp np (LeafT x) = H (lp x)"
| "htree_hash H lp np (NodeT a l r) = H (np a (htree_hash H lp np l) (htree_hash H lp np r))"

fun htree_leaves :: "('l, 'a) htree \<Rightarrow> 'l list" where
  "htree_leaves (Opaque h) = []"
| "htree_leaves (LeafT x) = [x]"
| "htree_leaves (NodeT a l r) = htree_leaves l @ htree_leaves r"

fun full :: "('l, 'a) htree \<Rightarrow> bool" where
  "full (Opaque h) \<longleftrightarrow> False"
| "full (LeafT x) \<longleftrightarrow> True"
| "full (NodeT a l r) \<longleftrightarrow> full l \<and> full r"

fun htree_wf :: "('l \<Rightarrow> bool) \<Rightarrow> nat \<Rightarrow> ('l, 'a) htree \<Rightarrow> bool" where
  "htree_wf ok n (Opaque h) \<longleftrightarrow> length h = n"
| "htree_wf ok n (LeafT x) \<longleftrightarrow> ok x"
| "htree_wf ok n (NodeT a l r) \<longleftrightarrow> htree_wf ok n l \<and> htree_wf ok n r"

text \<open>Two trees agree wherever neither is opaque.\<close>

fun agree :: "('l, 'a) htree \<Rightarrow> ('l, 'a) htree \<Rightarrow> bool" where
  "agree (Opaque h) u \<longleftrightarrow> True"
| "agree t (Opaque h) \<longleftrightarrow> True"
| "agree (LeafT x) (LeafT y) \<longleftrightarrow> x = y"
| "agree (NodeT a l r) (NodeT b l' r') \<longleftrightarrow> a = b \<and> agree l l' \<and> agree r r'"
| "agree _ _ \<longleftrightarrow> False"

fun htree_preimage ::
    "(bytes \<Rightarrow> bytes) \<Rightarrow> ('l \<Rightarrow> bytes) \<Rightarrow> ('a \<Rightarrow> bytes \<Rightarrow> bytes \<Rightarrow> bytes) \<Rightarrow> ('l, 'a) htree \<Rightarrow> bytes" where
  "htree_preimage H lp np (Opaque h) = []"
| "htree_preimage H lp np (LeafT x) = lp x"
| "htree_preimage H lp np (NodeT a l r) = np a (htree_hash H lp np l) (htree_hash H lp np r)"

text \<open>The collision search: descend while the preimages of the two trees agree.\<close>

fun htree_collision ::
    "(bytes \<Rightarrow> bytes) \<Rightarrow> ('l \<Rightarrow> bytes) \<Rightarrow> ('a \<Rightarrow> bytes \<Rightarrow> bytes \<Rightarrow> bytes) \<Rightarrow>
     ('l, 'a) htree \<Rightarrow> ('l, 'a) htree \<Rightarrow> (bytes \<times> bytes) option" where
  "htree_collision H lp np (Opaque h) u = None"
| "htree_collision H lp np t (Opaque h) = None"
| "htree_collision H lp np (NodeT a l r) (NodeT b l' r') =
     (if htree_preimage H lp np (NodeT a l r) = htree_preimage H lp np (NodeT b l' r')
      then (case htree_collision H lp np l l' of
              Some xy \<Rightarrow> Some xy | None \<Rightarrow> htree_collision H lp np r r')
      else Some (htree_preimage H lp np (NodeT a l r), htree_preimage H lp np (NodeT b l' r')))"
| "htree_collision H lp np t u =
     (if htree_preimage H lp np t = htree_preimage H lp np u then None
      else Some (htree_preimage H lp np t, htree_preimage H lp np u))"

definition is_collision :: "(bytes \<Rightarrow> bytes) \<Rightarrow> (bytes \<times> bytes) option \<Rightarrow> bool" where
  "is_collision H c \<longleftrightarrow> (\<exists>x y. c = Some (x, y) \<and> x \<noteq> y \<and> H x = H y)"

lemma is_collision_simps [simp]:
  "\<not> is_collision H None"
  "is_collision H (Some (x, y)) \<longleftrightarrow> x \<noteq> y \<and> H x = H y"
  by (simp_all add: is_collision_def)

section \<open>The laws of a scheme, and binding\<close>

locale hash_tree =
  fixes lp :: "'l \<Rightarrow> bytes" and np :: "'a \<Rightarrow> bytes \<Rightarrow> bytes \<Rightarrow> bytes"
    and ok :: "'l \<Rightarrow> bool" and n :: nat
  assumes leaf_inject: "ok x \<Longrightarrow> ok y \<Longrightarrow> lp x = lp y \<Longrightarrow> x = y"
    and node_inject: "length l = n \<Longrightarrow> length r = n \<Longrightarrow> length l' = n \<Longrightarrow> length r' = n \<Longrightarrow>
      np a l r = np b l' r' \<Longrightarrow> a = b \<and> l = l' \<and> r = r'"
    and leaf_not_node: "ok x \<Longrightarrow> lp x \<noteq> np a l r"
begin

lemma length_hash:
  "htree_wf ok n t \<Longrightarrow> \<forall>x. length (H x) = n \<Longrightarrow> length (htree_hash H lp np t) = n"
  by (cases t) auto

lemma collision_cases:
  assumes "\<forall>x. length (H x) = n"
    and "htree_wf ok n t" "htree_wf ok n u" "htree_hash H lp np t = htree_hash H lp np u"
  shows "is_collision H (htree_collision H lp np t u) \<or> htree_collision H lp np t u = None \<and> agree t u"
  using assms
proof (induction t arbitrary: u)
  case (NodeT a l r)
  show ?case
  proof (cases u)
    case (LeafT x)
    then have "lp x \<noteq> np a (htree_hash H lp np l) (htree_hash H lp np r)"
      using NodeT.prems by (auto simp: leaf_not_node)
    with LeafT NodeT.prems show ?thesis by auto
  next
    case (NodeT b l' r')
    show ?thesis
    proof (cases "htree_preimage H lp np (NodeT a l r) = htree_preimage H lp np u")
      case True
      then have "a = b \<and> htree_hash H lp np l = htree_hash H lp np l' \<and> htree_hash H lp np r = htree_hash H lp np r'"
        using NodeT.prems NodeT by (intro node_inject) (simp_all add: length_hash)
      with NodeT NodeT.prems NodeT.IH(1) [of l'] NodeT.IH(2) [of r'] show ?thesis by (auto split: option.splits)
    next
      case False
      with NodeT NodeT.prems show ?thesis by auto
    qed
  qed simp
next
  case (LeafT x)
  then show ?case
    using leaf_inject [of x] leaf_not_node [of x] by (cases u) auto
qed simp

lemma collision_sound:
  "\<forall>x. length (H x) = n \<Longrightarrow> htree_wf ok n t \<Longrightarrow> htree_wf ok n u \<Longrightarrow>
   htree_hash H lp np t = htree_hash H lp np u \<Longrightarrow>
   is_collision H (htree_collision H lp np t u) \<or> agree t u"
  using collision_cases by blast

end

lemma full_agree_eq: "agree t u \<Longrightarrow> full t \<Longrightarrow> full u \<Longrightarrow> t = u"
  by (induction t u rule: agree.induct) auto

lemma agree_leaves: "agree t u \<Longrightarrow> full u \<Longrightarrow> set (htree_leaves t) \<subseteq> set (htree_leaves u)"
  by (induction t u rule: agree.induct) auto

section \<open>Paths\<close>

text \<open>A path from a subtree to the root: at each step whether the sibling is on the left, the label of
  the parent, and the digest of the sibling.\<close>

fun open_path :: "('l, 'a) htree \<Rightarrow> (bool \<times> 'a \<times> bytes) list \<Rightarrow> ('l, 'a) htree" where
  "open_path t [] = t"
| "open_path t ((left, a, h) # p) =
     open_path (if left then NodeT a (Opaque h) t else NodeT a t (Opaque h)) p"

text \<open>The subtree reached from the root; \<open>True\<close> descends to the right, away from a left sibling.\<close>

fun descend :: "('l, 'a) htree \<Rightarrow> bool list \<Rightarrow> ('l, 'a) htree option" where
  "descend t [] = Some t"
| "descend (NodeT a l r) (b # bs) = descend (if b then r else l) bs"
| "descend t (b # bs) = None"

lemma open_path_append: "open_path t (p @ q) = open_path (open_path t p) q"
  by (induction t p rule: open_path.induct) auto

lemma leaves_open_path: "set (htree_leaves (open_path t p)) = set (htree_leaves t)"
  by (induction t p rule: open_path.induct) auto

lemma wf_open_path:
  "htree_wf ok n t \<Longrightarrow> list_all (\<lambda>(left, a, h). length h = n) p \<Longrightarrow> htree_wf ok n (open_path t p)"
  by (induction t p rule: open_path.induct) auto

lemma descend_open_path:
  "agree (open_path t p) u \<Longrightarrow> full u \<Longrightarrow>
     \<exists>v. descend u (rev (map fst p)) = Some v \<and> agree t v \<and> full v"
proof (induction p arbitrary: u rule: rev_induct)
  case (snoc s p)
  obtain left a h where s: "s = (left, a, h)" by (cases s)
  show ?case using snoc by (cases u; cases left) (auto simp: s open_path_append)
qed simp

end
