(* ===== verification/MerkleTree.thy ===== *)
theory MerkleTree
  imports Merkle HashTree
begin

text \<open>
  The abstract Merkle trees behind \<open>merkle/merkle.go\<close> and \<open>merkle/proof.go\<close>: the list recursions
  compute the digest of \<open>tree_of\<close>, leaf paths verify (completeness), and two openings of one
  digest agree or give a computed collision of the hash function (binding).
\<close>

section \<open>The split recursion\<close>

lemma largestPowerOfTwoLessThan_2 [simp]: "largestPowerOfTwoLessThan (Suc (Suc 0)) = Suc 0"
  by (simp add: largestPowerOfTwoLessThan_def pow2_loop.simps)

lemma two_or_more_cases:
  assumes "2 \<le> length xs"
  obtains (Two) a b where "xs = [a, b]" | (More) a b c t where "xs = a # b # c # t"
  using assms by (cases xs; cases "tl xs"; cases "tl (tl xs)") auto

lemma merkleRoot_split:
  assumes "2 \<le> length hs" and "k = largestPowerOfTwoLessThan (length hs)"
  shows "merkleRoot H hs = innerHash H (merkleRoot H (take k hs)) (merkleRoot H (drop k hs))"
using assms(1) by (cases rule: two_or_more_cases) (use assms in \<open>simp_all add: Let_def\<close>)

lemma halves_induct [case_names Nil Single Split]:
  assumes "P []" and "\<And>x. P [x]"
    and "\<And>xs k. 2 \<le> length xs \<Longrightarrow> k = largestPowerOfTwoLessThan (length xs) \<Longrightarrow> 0 < k \<Longrightarrow>
           k < length xs \<Longrightarrow> P (take k xs) \<Longrightarrow> P (drop k xs) \<Longrightarrow> P xs"
  shows "P xs"
proof (induction xs rule: length_induct)
  case (1 xs)
  show ?case
  proof (cases "2 \<le> length xs")
    case True
    have "0 < largestPowerOfTwoLessThan (length xs)" "largestPowerOfTwoLessThan (length xs) < length xs"
      using largestPowerOfTwoLessThan_spec [OF True] by simp_all
    with True 1 show ?thesis by (intro assms(3) [OF True refl]) auto
  next
    case False
    then consider "xs = []" | x where "xs = [x]"
      by (cases xs; cases "tl xs") auto
    then show ?thesis using assms(1,2) by cases auto
  qed
qed

lemma merkleRootAndPath_split:
  assumes "2 \<le> length hs" and "k = largestPowerOfTwoLessThan (length hs)" and "i < length hs"
  shows "merkleRootAndPath H hs i =
    (if i < k
     then (let (l, p) = merkleRootAndPath H (take k hs) i; r = merkleRoot H (drop k hs)
           in (innerHash H l r, p @ [\<lparr>step_side = sideRight, step_hash = r\<rparr>]))
     else (let (r, p) = merkleRootAndPath H (drop k hs) (i - k); l = merkleRoot H (take k hs)
           in (innerHash H l r, p @ [\<lparr>step_side = sideLeft, step_hash = l\<rparr>])))"
using assms(1) by (cases rule: two_or_more_cases) (use assms in \<open>simp_all add: Let_def\<close>)

section \<open>Completeness of leaf paths\<close>

lemma sides_distinct [simp]: "sideLeft \<noteq> sideRight" "sideRight \<noteq> sideLeft"
  by (simp_all add: sideLeft_def sideRight_def)

lemma VerifyLeafPath_snoc:
  assumes "VerifyLeafPath H c p m"
  shows "VerifyLeafPath H c (p @ [\<lparr>step_side = sideLeft, step_hash = h\<rparr>]) (innerHash H h m)"
    and "VerifyLeafPath H c (p @ [\<lparr>step_side = sideRight, step_hash = h\<rparr>]) (innerHash H m h)"
  using assms by (induction H c p m rule: VerifyLeafPath.induct) (auto split: if_splits)

lemma merkleRootAndPath_verifies:
  "i < length hs \<Longrightarrow> merkleRootAndPath H hs i = (r, p) \<Longrightarrow>
     r = merkleRoot H hs \<and> VerifyLeafPath H (hs ! i) p r"
proof (induction hs arbitrary: i r p rule: halves_induct)
  case (Split hs k)
  obtain l p1 where l: "merkleRootAndPath H (take k hs) i = (l, p1)" by force
  obtain q p2 where q: "merkleRootAndPath H (drop k hs) (i - k) = (q, p2)" by force
  show ?case
  proof (cases "i < k")
    case True
    then have "l = merkleRoot H (take k hs)" "VerifyLeafPath H (hs ! i) p1 (merkleRoot H (take k hs))"
      using Split.IH(1) [OF _ l] Split.hyps by auto
    with True Split.prems Split.hyps l show ?thesis
      by (auto simp: merkleRootAndPath_split [OF Split.hyps(1,2)] merkleRoot_split [OF Split.hyps(1,2)]
          Let_def VerifyLeafPath_snoc)
  next
    case False
    with Split.prems(1) Split.hyps(4) have "i - k < length (drop k hs)" "drop k hs ! (i - k) = hs ! i"
      by simp_all
    then have "q = merkleRoot H (drop k hs)" "VerifyLeafPath H (hs ! i) p2 (merkleRoot H (drop k hs))"
      using Split.IH(2) [OF _ q] by auto
    with False Split.prems Split.hyps q show ?thesis
      by (auto simp: merkleRootAndPath_split [OF Split.hyps(1,2)] merkleRoot_split [OF Split.hyps(1,2)]
          Let_def VerifyLeafPath_snoc)
  qed
qed auto

lemma largestPowerOfTwoLessThan_le:
  assumes "2 \<le> n" and "n \<le> 2 ^ Suc e"
  shows "largestPowerOfTwoLessThan n \<le> 2 ^ e" "n - largestPowerOfTwoLessThan n \<le> 2 ^ e"
proof -
  obtain d where d: "largestPowerOfTwoLessThan n = 2 ^ d"
    using largestPowerOfTwoLessThan_spec(4) [OF assms(1)] by blast
  have "(2 :: nat) ^ d < 2 ^ Suc e"
    using largestPowerOfTwoLessThan_spec(2) [OF assms(1)] assms(2) d by linarith
  then have "d < Suc e" by (rule power_less_imp_less_exp [rotated]) simp
  then show "largestPowerOfTwoLessThan n \<le> 2 ^ e" by (simp add: d)
  show "n - largestPowerOfTwoLessThan n \<le> 2 ^ e"
    using largestPowerOfTwoLessThan_spec(3) [OF assms(1)] \<open>largestPowerOfTwoLessThan n \<le> 2 ^ e\<close> by linarith
qed

lemma merkleRootAndPath_length:
  "i < length hs \<Longrightarrow> length hs \<le> 2 ^ e \<Longrightarrow> length (snd (merkleRootAndPath H hs i)) \<le> e"
proof (induction hs arbitrary: i e rule: halves_induct)
  case (Split hs k)
  obtain e' where e: "e = Suc e'" using Split.prems Split.hyps(1) by (cases e) auto
  have b: "length (take k hs) \<le> 2 ^ e'" "length (drop k hs) \<le> 2 ^ e'"
    using largestPowerOfTwoLessThan_le [of "length hs" e'] Split.prems Split.hyps e by auto
  show ?case
  proof (cases "i < k")
    case True
    then show ?thesis
      using Split.IH(1) [of i e'] b Split.prems Split.hyps e
      by (auto simp: merkleRootAndPath_split [OF Split.hyps(1,2)] Let_def split: prod.splits)
  next
    case False
    then show ?thesis
      using Split.IH(2) [of "i - k" e'] b Split.prems Split.hyps e
      by (auto simp: merkleRootAndPath_split [OF Split.hyps(1,2)] Let_def split: prod.splits)
  qed
qed auto

section \<open>The scheme of the field roots\<close>

type_synonym mtree = "(bytes \<times> bytes, unit) htree"

definition leaf_pre :: "bytes \<times> bytes \<Rightarrow> bytes" where
  "leaf_pre x = leaf_preimage (fst x) (snd x)"

definition node_pre :: "unit \<Rightarrow> bytes \<Rightarrow> bytes \<Rightarrow> bytes" where
  "node_pre a l r = nodeDST @ l @ r"

abbreviation thash :: "(bytes \<Rightarrow> bytes) \<Rightarrow> mtree \<Rightarrow> bytes" where
  "thash H \<equiv> htree_hash H leaf_pre node_pre"

abbreviation wf_tree :: "mtree \<Rightarrow> bool" where
  "wf_tree \<equiv> htree_wf (\<lambda>x. 0 \<notin> set (fst x)) HashSize"

abbreviation tree_collision :: "(bytes \<Rightarrow> bytes) \<Rightarrow> mtree \<Rightarrow> mtree \<Rightarrow> (bytes \<times> bytes) option" where
  "tree_collision H \<equiv> htree_collision H leaf_pre node_pre"

lemma leaf_preimage_inject:
  assumes "0 \<notin> set n" "0 \<notin> set n'"
  shows "leaf_preimage n j = leaf_preimage n' j' \<longleftrightarrow> n = n' \<and> j = j'"
proof
  have t: "takeWhile (\<lambda>c. c \<noteq> 0) (m @ 0 # k) = m" if "0 \<notin> set m" for m k :: bytes
    using that by (induction m) auto
  assume "leaf_preimage n j = leaf_preimage n' j'"
  then have e: "n @ 0 # j = n' @ 0 # j'" by (simp add: leaf_preimage_def)
  from arg_cong [OF e, of "takeWhile (\<lambda>c. c \<noteq> 0)"] have "n = n'" using assms by (simp add: t)
  with e show "n = n' \<and> j = j'" by simp
qed simp

interpretation fields: hash_tree leaf_pre node_pre "\<lambda>x. 0 \<notin> set (fst x)" HashSize
proof
  fix x y :: "bytes \<times> bytes"
  assume "0 \<notin> set (fst x)" "0 \<notin> set (fst y)" "leaf_pre x = leaf_pre y"
  then show "x = y" by (simp add: leaf_pre_def leaf_preimage_inject prod_eq_iff)
qed (simp_all add: node_pre_def leaf_pre_def leaf_preimage_def leafDST_def nodeDST_def)

section \<open>The tree of a list of leaves\<close>

fun tree_of :: "(bytes \<times> bytes) list \<Rightarrow> mtree" where
  "tree_of [] = Opaque (replicate HashSize 0)"
| "tree_of [x] = LeafT x"
| "tree_of [x, y] = NodeT () (LeafT x) (LeafT y)"
| "tree_of (x # y # z # xs) =
     (let l = x # y # z # xs; k = largestPowerOfTwoLessThan (length l)
      in NodeT () (tree_of (take k l)) (tree_of (drop k l)))"

lemma tree_of_split:
  assumes "2 \<le> length xs" and "k = largestPowerOfTwoLessThan (length xs)"
  shows "tree_of xs = NodeT () (tree_of (take k xs)) (tree_of (drop k xs))"
using assms(1) by (cases rule: two_or_more_cases) (use assms in \<open>simp_all add: Let_def\<close>)

lemma merkleRoot_tree:
  "\<forall>l \<in> set ls. wf_leaf H l \<Longrightarrow> merkleRoot H (map leaf_hash ls) = thash H (tree_of (map leaf_key ls))"
proof (induction ls rule: halves_induct)
  case (Split ls k)
  have "\<forall>l \<in> set (take k ls). wf_leaf H l" "\<forall>l \<in> set (drop k ls). wf_leaf H l"
    using Split.prems by (auto dest: in_set_takeD in_set_dropD)
  then show ?case
    using Split by (simp add: merkleRoot_split [where hs = "map leaf_hash ls" and k = k]
        tree_of_split [where xs = "map leaf_key ls" and k = k] take_map drop_map innerHash_def hash_parts_def node_pre_def)
qed (auto simp: wf_leaf_def leaf_key_def leaf_pre_def)

lemma tree_of_leaves: "htree_leaves (tree_of xs) = xs"
proof (induction xs rule: halves_induct)
  case (Split xs k)
  then show ?case by (simp add: tree_of_split [OF Split.hyps(1,2)])
qed simp_all

lemma full_tree_of: "xs \<noteq> [] \<Longrightarrow> full (tree_of xs)"
proof (induction xs rule: halves_induct)
  case (Split xs k)
  then show ?case by (simp add: tree_of_split [OF Split.hyps(1,2)])
qed simp_all

lemma wf_tree_of: "\<forall>x \<in> set xs. 0 \<notin> set (fst x) \<Longrightarrow> wf_tree (tree_of xs)"
proof (induction xs rule: halves_induct)
  case (Split xs k)
  then show ?case
    by (auto simp: tree_of_split [OF Split.hyps(1,2)] dest: in_set_takeD in_set_dropD)
qed simp_all

section \<open>A leaf path is a tree that is opaque off the path\<close>

definition tree_path :: "proof_step list \<Rightarrow> (bool \<times> unit \<times> bytes) list" where
  "tree_path path = map (\<lambda>s. (step_side s = sideLeft, (), step_hash s)) path"

definition open_tree :: "mtree \<Rightarrow> proof_step list \<Rightarrow> mtree" where
  "open_tree t path = open_path t (tree_path path)"

lemma VerifyLeafPath_open:
  "VerifyLeafPath H (thash H t) path root \<Longrightarrow> thash H (open_tree t path) = root"
proof (induction path arbitrary: t)
  case (Cons s path)
  have "innerHash H (step_hash s) (thash H t) = thash H (NodeT () (Opaque (step_hash s)) t)"
    "innerHash H (thash H t) (step_hash s) = thash H (NodeT () t (Opaque (step_hash s)))"
    by (simp_all add: innerHash_def hash_parts_def node_pre_def)
  then show ?case using Cons by (auto simp: open_tree_def tree_path_def split: if_splits)
qed (simp add: open_tree_def tree_path_def)

lemma wf_open_tree:
  "wf_tree t \<Longrightarrow> list_all (\<lambda>s. length (step_hash s) = HashSize) path \<Longrightarrow> wf_tree (open_tree t path)"
  unfolding open_tree_def by (rule wf_open_path) (simp_all add: tree_path_def list_all_iff)

section \<open>The tree of a list of fields\<close>

definition field_json :: "field \<Rightarrow> bytes" where
  "field_json f = (case Canonical (field_value f) of Inl e \<Rightarrow> [] | Inr c \<Rightarrow> c)"

definition field_key :: "field \<Rightarrow> bytes \<times> bytes" where
  "field_key f = (field_name f, field_json f)"

definition field_tree :: "field \<Rightarrow> mtree" where
  "field_tree f = LeafT (field_name f, field_json f)"

definition fields_tree :: "field list \<Rightarrow> mtree" where
  "fields_tree fs = tree_of (sort_key fst (map field_key fs))"

definition valid_field :: "field \<Rightarrow> bool" where
  "valid_field f \<longleftrightarrow> valid_field_name (field_name f) \<and> json_of (field_value f) \<noteq> None"

definition valid_fields :: "field list \<Rightarrow> bool" where
  "valid_fields fs \<longleftrightarrow> list_all valid_field fs \<and> distinct (map field_name fs)"

lemma field_json_eq: "json_of (field_value f) = Some j \<Longrightarrow> field_json f = print_json j"
  using Canonical_Inr_iff [of "field_value f" "print_json j"] by (auto simp: field_json_def)

lemma fieldLeaf_valid_iff: "(\<exists>l. fieldLeaf H f = Inr l) \<longleftrightarrow> valid_field f"
  by (auto simp: fieldLeaf_Inr_iff valid_field_def)

lemma fieldLeaf_key: "fieldLeaf H f = Inr l \<Longrightarrow> leaf_key l = field_key f"
  by (auto simp: fieldLeaf_Inr_iff leaf_key_def field_key_def field_json_eq)

lemma insort_key_map: "map f (insort_key (\<lambda>x. g (f x)) x xs) = insort_key g (f x) (map f xs)"
  by (induction xs) auto

lemma sort_key_map: "map f (sort_key (\<lambda>x. g (f x)) xs) = sort_key g (map f xs)"
  by (induction xs) (simp_all add: insort_key_map)

lemma map_fieldLeaf_Inr:
  assumes "list_all valid_field fs"
  obtains xs where "map (fieldLeaf H) fs = map Inr xs" "map leaf_key xs = map field_key fs"
  using assms
proof (induction fs arbitrary: thesis)
  case (Cons f fs)
  then obtain xs where xs: "map (fieldLeaf H) fs = map Inr xs" "map leaf_key xs = map field_key fs"
    by auto
  obtain l where "fieldLeaf H f = Inr l" using Cons.prems(2) fieldLeaf_valid_iff by auto
  with xs fieldLeaf_key [of H f l] show ?case by (intro Cons.prems(1) [of "l # xs"]) auto
qed simp

lemma leaves_valid:
  assumes "valid_fields fs"
  obtains ls where "leaves H fs = Inr ls" "map leaf_key ls = sort_key fst (map field_key fs)"
    "\<forall>l \<in> set ls. wf_leaf H l"
proof -
  obtain xs where xs: "map (fieldLeaf H) fs = map Inr xs" and k: "map leaf_key xs = map field_key fs"
    using map_fieldLeaf_Inr assms by (auto simp: valid_fields_def)
  have "distinct (map leaf_name xs)"
    using map_fieldLeaf_key(2) [OF xs] assms by (simp add: valid_fields_def)
  then have "leaves H fs = Inr (sort_key leaf_name xs)" using xs by (auto simp: leaves_Inr_iff)
  moreover have "map leaf_key (sort_key leaf_name xs) = sort_key fst (map field_key fs)"
    using sort_key_map [of leaf_key fst xs] by (simp add: k leaf_key_def)
  moreover have "\<forall>l \<in> set (sort_key leaf_name xs). wf_leaf H l"
    using map_fieldLeaf_key(3) [OF xs] by simp
  ultimately show thesis by (rule that)
qed

lemma leaves_ok_iff: "(\<exists>ls. leaves H fs = Inr ls) \<longleftrightarrow> valid_fields fs"
proof
  assume "\<exists>ls. leaves H fs = Inr ls"
  then obtain xs where xs: "map (fieldLeaf H) fs = map Inr xs" "distinct (map leaf_name xs)"
    by (auto simp: leaves_Inr_iff)
  have "valid_field f" if "f \<in> set fs" for f
  proof -
    have "fieldLeaf H f \<in> set (map Inr xs)" using that by (simp flip: xs(1))
    then show ?thesis using fieldLeaf_valid_iff [of H f] by auto
  qed
  then show "valid_fields fs"
    using xs map_fieldLeaf_key(2) [OF xs(1)] by (simp add: valid_fields_def list_all_iff)
next
  assume "valid_fields fs"
  then show "\<exists>ls. leaves H fs = Inr ls" by (rule leaves_valid) blast
qed

lemma Root_Inr_iff: "Root H fs = Inr r \<longleftrightarrow> fs \<noteq> [] \<and> valid_fields fs \<and> r = thash H (fields_tree fs)"
proof (cases "valid_fields fs")
  case True
  then obtain ls where ls: "leaves H fs = Inr ls" "map leaf_key ls = sort_key fst (map field_key fs)"
    "\<forall>l \<in> set ls. wf_leaf H l" by (rule leaves_valid)
  from ls(2) have "length ls = length fs" by (metis length_map length_sort)
  with ls True merkleRoot_tree [OF ls(3)] show ?thesis
    by (auto simp: Root_def rootFromLeaves_def fields_tree_def)
next
  case False
  then have "\<nexists>ls. leaves H fs = Inr ls" by (simp add: leaves_ok_iff)
  then show ?thesis using False by (auto simp: Root_def split: sum.splits)
qed

lemma wf_field_tree: "valid_field f \<Longrightarrow> wf_tree (field_tree f)"
  by (simp add: field_tree_def valid_field_def valid_field_name_def)

lemma wf_fields_tree: "valid_fields fs \<Longrightarrow> wf_tree (fields_tree fs)"
  unfolding fields_tree_def
  by (rule wf_tree_of) (auto simp: valid_fields_def list_all_iff valid_field_def valid_field_name_def field_key_def)

lemma full_fields_tree: "fs \<noteq> [] \<Longrightarrow> full (fields_tree fs)"
  unfolding fields_tree_def by (rule full_tree_of) (metis length_0_conv length_map length_sort)

lemma leaves_fields_tree: "set (htree_leaves (fields_tree fs)) = field_key ` set fs"
  by (simp add: fields_tree_def tree_of_leaves)

lemma field_key_inject:
  assumes "valid_field f" "valid_field g" "field_key f = field_key g"
  shows "field_name f = field_name g \<and> json_of (field_value f) = json_of (field_value g)"
  using assms by (auto simp: field_key_def valid_field_def field_json_eq print_json_inject)

lemma FieldLeafHash_Inr:
  "FieldLeafHash H f = Inr h \<Longrightarrow> valid_field f \<and> h = thash H (field_tree f)"
  by (auto simp: FieldLeafHash_def fieldLeaf_Inr_iff valid_field_def field_tree_def field_json_eq leaf_pre_def split: sum.splits)

lemma FieldLeafHash_valid:
  assumes "valid_field f"
  shows "FieldLeafHash H f = Inr (thash H (field_tree f))"
proof -
  obtain l where l: "fieldLeaf H f = Inr l"
    using assms by (auto simp: valid_field_def fieldLeaf_Inr_iff)
  from l [unfolded fieldLeaf_Inr_iff] show ?thesis
    by (auto simp: FieldLeafHash_def l field_tree_def field_json_eq leaf_pre_def)
qed

section \<open>Binding of roots\<close>

definition commitment :: "field \<Rightarrow> bytes \<times> json option" where
  "commitment f = (field_name f, json_of (field_value f))"

lemma image_eq_via:
  assumes "k ` A = k ` B" and "\<And>a b. a \<in> A \<Longrightarrow> b \<in> B \<Longrightarrow> k a = k b \<Longrightarrow> c a = c b"
  shows "c ` A = c ` B"
proof (intro equalityI subsetI)
  fix x assume "x \<in> c ` A"
  then obtain a where a: "a \<in> A" "x = c a" by blast
  then obtain b where "b \<in> B" "k a = k b" using assms(1) by (metis image_iff)
  then show "x \<in> c ` B" using a assms(2) by blast
next
  fix x assume "x \<in> c ` B"
  then obtain b where b: "b \<in> B" "x = c b" by blast
  then obtain a where "a \<in> A" "k a = k b" using assms(1) by (metis image_iff)
  then show "x \<in> c ` A" using b assms(2) by (metis imageI)
qed

lemma Root_binding_aux:
  assumes len: "\<forall>x. length (H x) = HashSize"
    and r: "Root H fs = Inr r" and r': "Root H gs = Inr r"
  shows "is_collision H (tree_collision H (fields_tree fs) (fields_tree gs)) \<or>
    commitment ` set fs = commitment ` set gs"
proof -
  have v: "fs \<noteq> []" "valid_fields fs" "gs \<noteq> []" "valid_fields gs"
    "thash H (fields_tree fs) = thash H (fields_tree gs)"
    using r r' by (auto simp: Root_Inr_iff)
  consider "is_collision H (tree_collision H (fields_tree fs) (fields_tree gs))"
    | "agree (fields_tree fs) (fields_tree gs)"
    using fields.collision_sound [OF len wf_fields_tree wf_fields_tree v(5)] v by blast
  then show ?thesis
  proof cases
    case 2
    then have "field_key ` set fs = field_key ` set gs"
      using full_agree_eq full_fields_tree v leaves_fields_tree by metis
    moreover have "commitment f = commitment g"
      if "f \<in> set fs" "g \<in> set gs" "field_key f = field_key g" for f g
      using that v field_key_inject [of f g] by (auto simp: commitment_def valid_fields_def list_all_iff)
    ultimately have "commitment ` set fs = commitment ` set gs" by (rule image_eq_via)
    then show ?thesis ..
  qed simp
qed


lemma commitment_values_eq:
  assumes n: "map field_name fs = map field_name gs" and d: "distinct (map field_name gs)"
    and c: "commitment ` set fs = commitment ` set gs"
  shows "map (\<lambda>f. json_of (field_value f)) fs = map (\<lambda>f. json_of (field_value f)) gs"
proof (rule nth_equalityI)
  show len: "length (map (\<lambda>f. json_of (field_value f)) fs) = length (map (\<lambda>f. json_of (field_value f)) gs)"
    using n by (metis length_map)
  fix i assume "i < length (map (\<lambda>f. json_of (field_value f)) fs)"
  then have i: "i < length fs" "i < length gs" using len by simp_all
  have nm: "field_name (fs ! i) = field_name (gs ! i)" using n i by (metis nth_map)
  have "commitment (fs ! i) \<in> commitment ` set gs" using c i by (metis imageI nth_mem)
  then obtain b where b: "b \<in> set gs" "commitment (fs ! i) = commitment b" by blast
  then have "field_name b = field_name (gs ! i)" using nm by (simp add: commitment_def)
  then have "b = gs ! i" using b(1) i d by (metis distinct_map inj_onD nth_mem)
  with b show "map (\<lambda>f. json_of (field_value f)) fs ! i = map (\<lambda>f. json_of (field_value f)) gs ! i"
    using i by (simp add: commitment_def)
qed

lemma json_int_inject: "json_int i = Some j \<Longrightarrow> json_int i' = Some j \<Longrightarrow> i = i'"
  by (auto simp: json_int_def split: if_splits)

lemma optional_string_json:
  "json_of (optional_string s) \<noteq> None \<Longrightarrow> json_of (optional_string s) = json_of (optional_string t) \<Longrightarrow> s = t"
  by (auto simp: optional_string_def split: option.splits if_splits)

lemma header_eq_of_commitment:
  assumes c: "commitment ` set (header_fields h) = commitment ` set (header_fields g)"
    and v: "valid_fields (header_fields h)"
  shows "h = g"
proof -
  have e: "map (\<lambda>f. json_of (field_value f)) (header_fields h) = map (\<lambda>f. json_of (field_value f)) (header_fields g)"
    by (rule commitment_values_eq [OF _ _ c]) (simp_all add: header_fields_def)
  note e = e [unfolded header_fields_def] and v = v [unfolded header_fields_def valid_fields_def valid_field_def]
  have "Depth h = Depth g" "OriginServerTS h = OriginServerTS g"
    using e v json_int_inject by auto
  moreover have "Redacts h = Redacts g" "StateKey h = StateKey g"
    using e v optional_string_json by auto
  moreover have "RoomID h = RoomID g" "SenderDomain h = SenderDomain g"
      "SenderLocalpart h = SenderLocalpart g" "Type h = Type g"
    using e v by (auto split: if_splits)
  ultimately show ?thesis by simp
qed

lemma hash_of_two: "innerHash H a b = H (nodeDST @ a @ b)"
  by (simp add: innerHash_def hash_parts_def)

lemma LeafPath_member:
  assumes "LeafPath H fs name = Inr (path, root)"
  shows "Root H fs = Inr root \<and> (\<forall>e. length fs \<le> 2 ^ e \<longrightarrow> length path \<le> e) \<and>
    (\<exists>f \<in> set fs. field_name f = name \<and> (\<exists>h. FieldLeafHash H f = Inr h \<and> VerifyLeafPath H h path root))"
proof -
  obtain ls i where ls: "leaves H fs = Inr ls" and i: "index_of name (map leaf_name ls) = Some i"
    and rp: "merkleRootAndPath H (map leaf_hash ls) i = (root, path)"
    using assms by (auto simp: LeafPath_def Let_def split: sum.splits option.splits prod.splits)
  have i': "i < length ls" "leaf_name (ls ! i) = name" using index_of_SomeD [OF i] by auto
  obtain xs where xs: "map (fieldLeaf H) fs = map Inr xs" "ls = sort_key leaf_name xs"
    using ls by (auto simp: leaves_Inr_iff)
  have len: "length ls = length fs" using xs map_fieldLeaf_key(4) [OF xs(1)] by simp
  have r: "root = merkleRoot H (map leaf_hash ls)" "VerifyLeafPath H (leaf_hash (ls ! i)) path root"
    using merkleRootAndPath_verifies [OF _ rp] i' by auto
  have "ls \<noteq> []" using i' by auto
  then have root: "Root H fs = Inr root" using ls r by (simp add: Root_def rootFromLeaves_def)
  have "ls ! i \<in> set xs" using i' xs by (metis nth_mem set_sort)
  then have "Inr (ls ! i) \<in> set (map (fieldLeaf H) fs)" by (simp add: xs(1))
  then obtain f where f: "f \<in> set fs" "fieldLeaf H f = Inr (ls ! i)" by (metis imageE list.set_map)
  have "field_name f = name" using f(2) i'(2) by (auto simp: fieldLeaf_Inr_iff)
  moreover have "FieldLeafHash H f = Inr (leaf_hash (ls ! i))" using f(2) by (simp add: FieldLeafHash_def)
  moreover have "\<forall>e. length fs \<le> 2 ^ e \<longrightarrow> length path \<le> e"
    using merkleRootAndPath_length [of i "map leaf_hash ls" _ H] i' len rp by simp
  ultimately show ?thesis using root r f(1) by blast
qed

lemma LeafPath_total:
  assumes "Root H fs = Inr root" and "name \<in> field_name ` set fs"
  shows "\<exists>path. LeafPath H fs name = Inr (path, root)"
proof -
  obtain ls where ls: "leaves H fs = Inr ls" and r: "root = merkleRoot H (map leaf_hash ls)"
    using assms(1) by (auto simp: Root_def rootFromLeaves_def split: sum.splits if_splits)
  obtain xs where xs: "map (fieldLeaf H) fs = map Inr xs" "ls = sort_key leaf_name xs"
    using ls by (auto simp: leaves_Inr_iff)
  have "set (map leaf_name ls) = field_name ` set fs"
    using xs map_fieldLeaf_key(2) [OF xs(1)] by (metis list.set_map set_sort)
  then obtain i where i: "index_of name (map leaf_name ls) = Some i"
    using assms(2) index_of_None_iff [of name "map leaf_name ls"] by (metis not_None_eq)
  have "i < length (map leaf_hash ls)" using index_of_SomeD [OF i] by simp
  then have "fst (merkleRootAndPath H (map leaf_hash ls) i) = root"
    using merkleRootAndPath_verifies [of i "map leaf_hash ls" H] r by (metis prod.collapse)
  then show ?thesis
    using ls i by (auto simp: LeafPath_def Let_def split: prod.splits)
qed

lemma LeafPath_missing:
  assumes "Root H fs = Inr root" and "name \<notin> field_name ` set fs"
  shows "LeafPath H fs name = Inl (ErrFieldNotFound name)"
proof -
  obtain ls where ls: "leaves H fs = Inr ls"
    using assms(1) by (auto simp: Root_def split: sum.splits)
  obtain xs where xs: "map (fieldLeaf H) fs = map Inr xs" "ls = sort_key leaf_name xs"
    using ls by (auto simp: leaves_Inr_iff)
  have "set (map leaf_name ls) = field_name ` set fs"
    using xs map_fieldLeaf_key(2) [OF xs(1)] by (metis list.set_map set_sort)
  then have "index_of name (map leaf_name ls) = None" using assms(2) by (simp add: index_of_None_iff)
  then show ?thesis using ls by (simp add: LeafPath_def)
qed

lemma LeafPath_sound_aux:
  assumes H: "\<forall>x. length (H x) = HashSize"
    and r: "Root H fs = Inr root" and l: "FieldLeafHash H f = Inr h"
    and p: "list_all (\<lambda>s. length (step_hash s) = HashSize) path" and v: "VerifyLeafPath H h path root"
  shows "is_collision H (tree_collision H (open_tree (field_tree f) path) (fields_tree fs)) \<or>
    commitment f \<in> commitment ` set fs"
proof -
  have f: "valid_field f" "h = thash H (field_tree f)" using FieldLeafHash_Inr [OF l] by auto
  have fs: "fs \<noteq> []" "valid_fields fs" "root = thash H (fields_tree fs)" using r by (auto simp: Root_Inr_iff)
  have "thash H (open_tree (field_tree f) path) = thash H (fields_tree fs)"
    using VerifyLeafPath_open v f fs by blast
  moreover have "wf_tree (open_tree (field_tree f) path)"
    using wf_open_tree wf_field_tree f p by (simp add: list_all_iff)
  ultimately consider "is_collision H (tree_collision H (open_tree (field_tree f) path) (fields_tree fs))"
    | "agree (open_tree (field_tree f) path) (fields_tree fs)"
    using fields.collision_sound [OF H] wf_fields_tree fs by blast
  then show ?thesis
  proof cases
    case 2
    then have "set (htree_leaves (open_tree (field_tree f) path)) \<subseteq> field_key ` set fs"
      using agree_leaves [OF 2 full_fields_tree [OF fs(1)]] by (simp add: leaves_fields_tree)
    moreover have "field_key f \<in> set (htree_leaves (open_tree (field_tree f) path))"
      by (simp add: open_tree_def leaves_open_path field_tree_def field_key_def)
    ultimately have "field_key f \<in> field_key ` set fs" by blast
    then obtain g where g: "g \<in> set fs" "field_key f = field_key g" by (rule imageE) (rule that)
    then have "valid_field g" using fs by (simp add: valid_fields_def list_all_iff)
    then have "commitment f = commitment g"
      using field_key_inject [OF f(1) _ g(2)] by (simp add: commitment_def)
    then show ?thesis using g(1) by simp
  qed simp
qed


section \<open>Properties\<close>

text \<open>A digest function for the instances below: the last 32 bytes, zero padded.\<close>

definition sample_digest :: "bytes \<Rightarrow> bytes" where
  "sample_digest bs = take HashSize (rev bs @ replicate HashSize 0)"

definition sample_fields :: "field list" where
  "sample_fields =
     [\<lparr>field_name = str ''b'', field_value = GString (str ''x'')\<rparr>,
      \<lparr>field_name = str ''c'', field_value = GBool True\<rparr>,
      \<lparr>field_name = str ''a'', field_value = GNil\<rparr>]"

text \<open>The path of the leaf named \<open>b\<close>, the second of three.\<close>

definition sample_path :: "(bytes \<Rightarrow> bytes) \<Rightarrow> proof_step list" where
  "sample_path H =
     [\<lparr>step_side = sideLeft, step_hash = H (leaf_preimage (str ''a'') (str ''null''))\<rparr>,
      \<lparr>step_side = sideRight, step_hash = H (leaf_preimage (str ''c'') (str ''true''))\<rparr>]"

lemma length_sample_digest: "length (sample_digest bs) = HashSize"
  by (simp add: sample_digest_def)

lemma sample_fields_valid: "sample_fields \<noteq> []" "valid_fields sample_fields"
  by (simp_all add: sample_fields_def valid_fields_def valid_field_def valid_field_name_def
      valid_utf8.simps utf8_head.simps utf8_class_def)

lemma sample_fields_root: "Root H sample_fields = Inr (thash H (fields_tree sample_fields))"
  by (simp add: Root_Inr_iff sample_fields_valid)

lemma sample_LeafPath:
  "LeafPath H sample_fields (str ''b'') = Inr (sample_path H, thash H (fields_tree sample_fields))"
proof -
  have f: "fieldLeaf H (sample_fields ! 0) = Inr \<lparr>leaf_name = str ''b'', leaf_json = str ''\"x\"'',
        leaf_hash = H (leaf_preimage (str ''b'') (str ''\"x\"''))\<rparr>"
    "fieldLeaf H (sample_fields ! 1) = Inr \<lparr>leaf_name = str ''c'', leaf_json = str ''true'',
        leaf_hash = H (leaf_preimage (str ''c'') (str ''true''))\<rparr>"
    "fieldLeaf H (sample_fields ! 2) = Inr \<lparr>leaf_name = str ''a'', leaf_json = str ''null'',
        leaf_hash = H (leaf_preimage (str ''a'') (str ''null''))\<rparr>"
    by (simp_all add: fieldLeaf_Inr_iff sample_fields_def valid_field_name_def
        valid_utf8.simps utf8_class_def print_string_def escape_byte_def escape_rune_def encode_rune_def)
  have ls: "leaves H sample_fields = Inr [
      \<lparr>leaf_name = str ''a'', leaf_json = str ''null'', leaf_hash = H (leaf_preimage (str ''a'') (str ''null''))\<rparr>,
      \<lparr>leaf_name = str ''b'', leaf_json = str ''\"x\"'', leaf_hash = H (leaf_preimage (str ''b'') (str ''\"x\"''))\<rparr>,
      \<lparr>leaf_name = str ''c'', leaf_json = str ''true'', leaf_hash = H (leaf_preimage (str ''c'') (str ''true''))\<rparr>]"
    unfolding leaves_def sample_fields_def
    using f by (simp add: sample_fields_def)
  have "largestPowerOfTwoLessThan (Suc (Suc (Suc 0))) = 2"
    by (simp add: largestPowerOfTwoLessThan_def pow2_loop.simps)
  then have "LeafPath H sample_fields (str ''b'') =
      Inr (sample_path H, snd (projr (LeafPath H sample_fields (str ''b''))))"
    by (simp add: LeafPath_def ls sample_path_def numeral_2_eq_2 Let_def)
  moreover from this have "snd (projr (LeafPath H sample_fields (str ''b''))) = thash H (fields_tree sample_fields)"
    using LeafPath_member sample_fields_root by (metis sum.inject(2))
  ultimately show ?thesis by simp
qed

text \<open>C1: a leaf path is sound. If \<open>VerifyLeafPath\<close> accepts a path of 32-byte siblings from the leaf
  hash of a field to the root that \<open>Root\<close> computed for a list of fields, then one of those fields has
  the same name and the same JSON value, or \<open>tree_collision\<close> has computed two different byte strings
  with the same digest. Nothing is assumed of the hash function but the length of its digests.\<close>

theorem LeafPath_sound:
  assumes "\<forall>x. length (H x) = HashSize"
    and "Root H fs = Inr root" and "FieldLeafHash H f = Inr h"
    and "list_all (\<lambda>s. length (step_hash s) = HashSize) path" and "VerifyLeafPath H h path root"
  shows "is_collision H (tree_collision H (open_tree (field_tree f) path) (fields_tree fs)) \<or>
    commitment f \<in> commitment ` set fs"
  using assms by (rule LeafPath_sound_aux)

theorem LeafPath_sound_witness:
  "is_collision sample_digest (tree_collision sample_digest
      (open_tree (field_tree (sample_fields ! 0)) (sample_path sample_digest)) (fields_tree sample_fields)) \<or>
    commitment (sample_fields ! 0) \<in> commitment ` set sample_fields"
proof -
  obtain h where h: "FieldLeafHash sample_digest (sample_fields ! 0) = Inr h"
    "VerifyLeafPath sample_digest h (sample_path sample_digest) (thash sample_digest (fields_tree sample_fields))"
    using LeafPath_member [OF sample_LeafPath, of sample_digest] by (auto simp: sample_fields_def)
  show ?thesis
    by (rule LeafPath_sound [OF _ sample_fields_root h(1) _ h(2)])
      (simp_all add: length_sample_digest sample_path_def)
qed

text \<open>C2: leaf paths are complete. When \<open>LeafPath\<close> returns a path, the root it returns is \<open>Root\<close> of the
  fields, the name is that of a field, the path verifies from that field's leaf hash to the root, and
  a list of at most \<open>2 ^ e\<close> fields has a path of at most \<open>e\<close> steps. When \<open>Root\<close> succeeds, \<open>LeafPath\<close>
  returns a path for the name of every field and \<open>ErrFieldNotFound\<close> for every other name.\<close>

theorem LeafPath_complete:
  "(case LeafPath H fs name of
      Inr (path, root) \<Rightarrow>
        Root H fs = Inr root \<and> (length fs \<le> 2 ^ e \<longrightarrow> length path \<le> e) \<and>
        (\<exists>f \<in> set fs. field_name f = name \<and>
           (\<exists>h. FieldLeafHash H f = Inr h \<and> VerifyLeafPath H h path root))
    | Inl err \<Rightarrow>
        (case Root H fs of
           Inl err' \<Rightarrow> True
         | Inr root \<Rightarrow> name \<notin> field_name ` set fs \<and> err = ErrFieldNotFound name))"
proof (cases "LeafPath H fs name")
  case (Inl err)
  then show ?thesis
    using LeafPath_total [of H fs "projr (Root H fs)" name] LeafPath_missing [of H fs "projr (Root H fs)" name]
    by (cases "Root H fs"; cases "name \<in> field_name ` set fs") auto
next
  case (Inr pr)
  then show ?thesis using LeafPath_member [of H fs name "fst pr" "snd pr"] by (auto split: prod.splits)
qed

theorem LeafPath_complete_witness:
  "length (sample_path sample_digest) \<le> 2 \<and>
   (\<exists>f \<in> set sample_fields. field_name f = str ''b'' \<and>
      (\<exists>h. FieldLeafHash sample_digest f = Inr h \<and>
           VerifyLeafPath sample_digest h (sample_path sample_digest)
             (thash sample_digest (fields_tree sample_fields))))"
  using LeafPath_complete [where H = sample_digest and fs = sample_fields and name = "str ''b''" and e = 2]
  unfolding sample_LeafPath sum.case prod.case by (simp add: sample_fields_def)

text \<open>C3: a root binds the fields. Two lists of fields with the same \<open>Root\<close> have the same names with
  the same JSON values, or \<open>tree_collision\<close> has computed a collision of the hash function.\<close>

theorem Root_binding:
  assumes "\<forall>x. length (H x) = HashSize"
    and "Root H fs = Inr root" and "Root H gs = Inr root"
  shows "is_collision H (tree_collision H (fields_tree fs) (fields_tree gs)) \<or>
    commitment ` set fs = commitment ` set gs"
  using assms by (rule Root_binding_aux)

theorem Root_binding_witness:
  "is_collision sample_digest (tree_collision sample_digest (fields_tree sample_fields) (fields_tree sample_fields)) \<or>
    commitment ` set sample_fields = commitment ` set sample_fields"
  using Root_binding [OF _ sample_fields_root sample_fields_root, of sample_digest]
  by (simp add: length_sample_digest)

lemma Root_mset: "Root H xs = Inr r \<Longrightarrow> mset xs = mset ys \<Longrightarrow> Root H ys = Inr r"
  using leaves_order [of H xs _ ys] by (auto simp: Root_def split: sum.splits)

text \<open>C4: \<open>Root\<close> succeeds exactly on a non-empty list of fields with distinct valid names (non-empty
  UTF-8 without NUL) and encodable values, and the root does not depend on the order of the fields.\<close>

theorem Root_total_and_order_free:
  "(is_ok (Root H fs) \<longleftrightarrow> fs \<noteq> [] \<and> distinct (map field_name fs) \<and>
      list_all (\<lambda>f. valid_field_name (field_name f) \<and> is_ok (Canonical (field_value f))) fs) \<and>
   (mset fs = mset gs \<longrightarrow> of_result (Root H fs) = of_result (Root H gs))"
proof
  have "is_ok (Root H fs) \<longleftrightarrow> fs \<noteq> [] \<and> valid_fields fs"
    unfolding is_ok_iff Root_Inr_iff by simp
  then show "is_ok (Root H fs) \<longleftrightarrow> fs \<noteq> [] \<and> distinct (map field_name fs) \<and>
      list_all (\<lambda>f. valid_field_name (field_name f) \<and> is_ok (Canonical (field_value f))) fs"
    by (auto simp: valid_fields_def valid_field_def list_all_iff is_ok_Canonical)
  show "mset fs = mset gs \<longrightarrow> of_result (Root H fs) = of_result (Root H gs)"
    using Root_mset [of H fs _ gs] Root_mset [of H gs _ fs]
    by (cases "Root H fs"; cases "Root H gs") force+
qed

theorem Root_total_and_order_free_witness:
  "of_result (Root sample_digest sample_fields) = of_result (Root sample_digest (rev sample_fields))"
  using Root_total_and_order_free [of sample_digest sample_fields "rev sample_fields"] by simp

definition event_preimage :: "bytes \<Rightarrow> bytes \<Rightarrow> bytes \<Rightarrow> bytes \<Rightarrow> bytes \<Rightarrow> bytes" where
  "event_preimage p a r c e = rootDST @ p @ a @ r @ c @ e"

lemma EventRoot_preimage: "EventRoot H p a r c e = H (event_preimage p a r c e)"
  by (simp add: EventRoot_def hash_parts_def event_preimage_def)

lemma EventID_inject: "EventID x = EventID y \<Longrightarrow> x = y"
  by (simp add: EventID_def b64url.encode_inject)

lemma length_HeaderRoot:
  assumes "\<forall>x. length (H x) = HashSize" and "HeaderRoot H h = Inr r"
  shows "length r = HashSize"
  using assms fields.length_hash [OF wf_fields_tree] by (auto simp: HeaderRoot_def Root_Inr_iff)

text \<open>C5: an event ID binds the whole event. If two event roots, each over 32-byte digests and the
  header root of a header, give the same event ID, then the predecessor, authorisation, content and
  remaining digests are equal and the two headers are equal field by field, or one of the two computed
  pairs of byte strings (the root preimages, the outcome of the tree comparison) is a collision of the
  hash function.\<close>

theorem EventID_binding:
  assumes "\<forall>x. length (H x) = HashSize"
    and "HeaderRoot H h = Inr r" and "HeaderRoot H g = Inr s"
    and "length p = HashSize" "length a = HashSize" "length c = HashSize" "length e = HashSize"
    and "length p' = HashSize" "length a' = HashSize" "length c' = HashSize" "length e' = HashSize"
    and "EventID (EventRoot H p a r c e) = EventID (EventRoot H p' a' s c' e')"
  shows "is_collision H (Some (event_preimage p a r c e, event_preimage p' a' s c' e')) \<or>
    is_collision H (tree_collision H (fields_tree (header_fields h)) (fields_tree (header_fields g))) \<or>
    p = p' \<and> a = a' \<and> h = g \<and> c = c' \<and> e = e'"
proof (cases "event_preimage p a r c e = event_preimage p' a' s c' e'")
  case True
  then have eq: "p = p'" "a = a'" "r = s" "c = c'" "e = e'"
    using assms length_HeaderRoot by (simp_all add: event_preimage_def)
  have "Root H (header_fields h) = Inr r" "Root H (header_fields g) = Inr r"
    using assms(2,3) eq by (simp_all add: HeaderRoot_def)
  with Root_binding_aux [OF assms(1) this] eq header_eq_of_commitment [of h g] show ?thesis
    by (auto simp: Root_Inr_iff)
next
  case False
  have "EventRoot H p a r c e = EventRoot H p' a' s c' e'" using assms(12) by (rule EventID_inject)
  with False show ?thesis by (auto simp: is_collision_def EventRoot_preimage)
qed

definition sample_header :: header where
  "sample_header =
     \<lparr>RoomID = str ''!r'', SenderLocalpart = str ''u'', SenderDomain = str ''d'', Type = str ''t'',
      StateKey = None, Redacts = Some (str ''$x''), Depth = 7, OriginServerTS = 0\<rparr>"

lemma sample_header_root: "HeaderRoot H sample_header = Inr (thash H (fields_tree (header_fields sample_header)))"
  by (simp add: HeaderRoot_def Root_Inr_iff sample_header_def header_fields_def optional_string_def
      valid_fields_def valid_field_def valid_field_name_def valid_utf8.simps utf8_class_def
      json_int_def minCanonicalInt_def maxCanonicalInt_def)

theorem EventID_binding_witness:
  "let z = replicate HashSize 0; r = thash sample_digest (fields_tree (header_fields sample_header)) in
    is_collision sample_digest (Some (event_preimage z z r z z, event_preimage z z r z z)) \<or>
    is_collision sample_digest (tree_collision sample_digest (fields_tree (header_fields sample_header))
      (fields_tree (header_fields sample_header))) \<or>
    z = z \<and> z = z \<and> sample_header = sample_header \<and> z = z \<and> z = z"
  unfolding Let_def
  by (rule EventID_binding [OF _ sample_header_root sample_header_root]) (simp_all add: length_sample_digest)

end
