(* ===== verification/Causal.thy ===== *)
theory Causal
  imports MerkleTree
begin

text \<open>
  Package \<open>merkle\<close>: the causal sparse Merkle sum trie (\<open>merkle/causal.go\<close>) and its proofs
  (\<open>merkle/causal_proof.go\<close>). A \<open>CausalSet\<close> is a Go map; its keys are a list without repetitions,
  the order of the list is the iteration order, and the lemmas show that no result depends on it.
  Hash values are byte strings of length 32, counts are 64-bit words.

  The abstract side is the full trie \<open>ctrie\<close> of depth 256 over a set of keys, an instance of the
  hash trees of \<open>HashTree\<close>: the recursion computes its digest and its count (completeness), and a
  proof accepted by a verifier opens it (soundness), or a collision is computed.
\<close>

section \<open>Nodes\<close>

definition CausalDepth :: nat where
  "CausalDepth = 256"

definition causalLeafDST :: bytes where "causalLeafDST = str ''msc4511:causal-leaf:v1''"
definition causalNodeDST :: bytes where "causalNodeDST = str ''msc4511:causal-node:v1''"
definition causalEmptyLeafDST :: bytes where "causalEmptyLeafDST = str ''msc4511:causal-empty-leaf:v1''"

definition causalLeaf :: "(bytes \<Rightarrow> bytes) \<Rightarrow> bytes \<Rightarrow> bytes" where
  "causalLeaf H key = hash_parts H [causalLeafDST, key]"

definition causalNode :: "(bytes \<Rightarrow> bytes) \<Rightarrow> int \<Rightarrow> bytes \<Rightarrow> u64 \<Rightarrow> bytes \<Rightarrow> u64 \<Rightarrow> bytes" where
  "causalNode H depth leftHash leftCount rightHash rightCount =
     hash_parts H [causalNodeDST, be_bytes 2 (of_int depth :: u16), leftHash, be_bytes 8 leftCount,
       rightHash, be_bytes 8 rightCount]"

text \<open>\<open>buildCausalEmpty\<close> fills the table from the deepest level up; \<open>causalEmptyAbove n\<close> is the
  entry \<open>n\<close> levels above the deepest one.\<close>

primrec causalEmptyAbove :: "(bytes \<Rightarrow> bytes) \<Rightarrow> nat \<Rightarrow> bytes" where
  "causalEmptyAbove H 0 = hash_parts H [causalEmptyLeafDST]"
| "causalEmptyAbove H (Suc n) =
     (let e = causalEmptyAbove H n in causalNode H (int CausalDepth - 1 - int n) e 0 e 0)"

definition causalEmpty :: "(bytes \<Rightarrow> bytes) \<Rightarrow> nat \<Rightarrow> bytes" where
  "causalEmpty H d = causalEmptyAbove H (CausalDepth - d)"

text \<open>The bit at depth \<open>d\<close>, from the most significant bit of byte 0.\<close>

definition causalBit :: "bytes \<Rightarrow> nat \<Rightarrow> bool" where
  "causalBit key d = bit (key ! (d div 8)) (7 - d mod 8)"

section \<open>Sets\<close>

record causal_set =
  keySlice :: "bytes list"

definition EmptyCausalSet :: causal_set where
  "EmptyCausalSet = \<lparr>keySlice = []\<rparr>"

definition set_store :: "bytes \<Rightarrow> bytes list \<Rightarrow> bytes list" where
  "set_store k ks = (if k \<in> set ks then ks else ks @ [k])"

definition Insert :: "causal_set \<Rightarrow> bytes \<Rightarrow> causal_set" where
  "Insert s key = \<lparr>keySlice = set_store key (foldl (\<lambda>next k. set_store k next) [] (keySlice s))\<rparr>"

definition Union :: "causal_set \<Rightarrow> causal_set \<Rightarrow> causal_set" where
  "Union s other =
     \<lparr>keySlice = foldl (\<lambda>next k. set_store k next)
        (foldl (\<lambda>next k. set_store k next) [] (keySlice s)) (keySlice other)\<rparr>"

definition Contains :: "causal_set \<Rightarrow> bytes \<Rightarrow> bool" where
  "Contains s key \<longleftrightarrow> key \<in> set (keySlice s)"

definition Count :: "causal_set \<Rightarrow> u64" where
  "Count s = of_nat (length (keySlice s))"

section \<open>The trie\<close>

text \<open>\<open>causalSubtreeRoot\<close> is called with a non-empty slice and a depth of at most 256.\<close>

function causalSubtreeRoot :: "(bytes \<Rightarrow> bytes) \<Rightarrow> bytes list \<Rightarrow> nat \<Rightarrow> bytes \<times> u64" where
  "causalSubtreeRoot H keys depth =
     (if CausalDepth \<le> depth then (causalLeaf H (hd keys), 1)
      else
        let left = filter (\<lambda>k. \<not> causalBit k depth) keys;
            right = filter (\<lambda>k. causalBit k depth) keys;
            (leftHash, leftCount) =
              (if left \<noteq> [] then causalSubtreeRoot H left (depth + 1) else (causalEmpty H (depth + 1), 0));
            (rightHash, rightCount) =
              (if right \<noteq> [] then causalSubtreeRoot H right (depth + 1) else (causalEmpty H (depth + 1), 0))
        in (causalNode H (int depth) leftHash leftCount rightHash rightCount, leftCount + rightCount))"
  by pat_completeness auto
termination
  by (relation "measure (\<lambda>(H, keys, depth). CausalDepth - depth)") auto

declare causalSubtreeRoot.simps [simp del]

definition CausalRoot :: "(bytes \<Rightarrow> bytes) \<Rightarrow> causal_set \<Rightarrow> bytes" where
  "CausalRoot H s =
     (if keySlice s = [] then causalEmpty H 0 else fst (causalSubtreeRoot H (keySlice s) 0))"

definition subtreeRootCount :: "(bytes \<Rightarrow> bytes) \<Rightarrow> bytes list \<Rightarrow> nat \<Rightarrow> bytes \<times> u64" where
  "subtreeRootCount H keys depth =
     (if keys = [] then (causalEmpty H depth, 0) else causalSubtreeRoot H keys depth)"

section \<open>Proofs (causal_proof.go)\<close>

record causal_step =
  cs_side :: bytes
  cs_hash :: bytes
  cs_count :: u64

datatype terminal = LeafTerminal | EmptyTerminal

function causalDescend ::
    "(bytes \<Rightarrow> bytes) \<Rightarrow> bytes list \<Rightarrow> nat \<Rightarrow> bytes \<Rightarrow> bytes \<times> u64 \<times> causal_step list \<times> terminal \<times> nat" where
  "causalDescend H keys depth target =
     (if keys = [] then (causalEmpty H depth, 0, [], EmptyTerminal, depth)
      else if CausalDepth \<le> depth then (causalLeaf H (hd keys), 1, [], LeafTerminal, depth)
      else
        let left = filter (\<lambda>k. \<not> causalBit k depth) keys;
            right = filter (\<lambda>k. causalBit k depth) keys
        in if \<not> causalBit target depth
           then let (leftHash, leftCount, leftPath, kind, tDepth) = causalDescend H left (depth + 1) target;
                    (rightHash, rightCount) = subtreeRootCount H right (depth + 1)
                in (causalNode H (int depth) leftHash leftCount rightHash rightCount, leftCount + rightCount,
                    leftPath @ [\<lparr>cs_side = sideRight, cs_hash = rightHash, cs_count = rightCount\<rparr>], kind, tDepth)
           else let (rightHash, rightCount, rightPath, kind, tDepth) = causalDescend H right (depth + 1) target;
                    (leftHash, leftCount) = subtreeRootCount H left (depth + 1)
                in (causalNode H (int depth) leftHash leftCount rightHash rightCount, leftCount + rightCount,
                    rightPath @ [\<lparr>cs_side = sideLeft, cs_hash = leftHash, cs_count = leftCount\<rparr>], kind, tDepth))"
  by pat_completeness auto
termination
  by (relation "measure (\<lambda>(H, keys, depth, target). CausalDepth - depth)") auto

declare causalDescend.simps [simp del]

text \<open>The named results of the two proof functions.\<close>

record inclusion_result =
  ip_path :: "causal_step list"
  ip_root :: bytes
  ip_count :: u64
  ip_ok :: bool

record non_inclusion_result = inclusion_result +
  np_terminalDepth :: nat

definition InclusionProof :: "(bytes \<Rightarrow> bytes) \<Rightarrow> causal_set \<Rightarrow> bytes \<Rightarrow> inclusion_result" where
  "InclusionProof H s key =
     (let keys = keySlice s
      in if keys = [] then \<lparr>ip_path = [], ip_root = causalEmpty H 0, ip_count = 0, ip_ok = False\<rparr>
         else let (nodeHash, nodeCount, p, kind, _) = causalDescend H keys 0 key
              in if kind \<noteq> LeafTerminal
                 then \<lparr>ip_path = [], ip_root = nodeHash, ip_count = nodeCount, ip_ok = False\<rparr>
                 else \<lparr>ip_path = p, ip_root = nodeHash, ip_count = nodeCount, ip_ok = True\<rparr>)"

definition NonInclusionProof :: "(bytes \<Rightarrow> bytes) \<Rightarrow> causal_set \<Rightarrow> bytes \<Rightarrow> non_inclusion_result" where
  "NonInclusionProof H s key =
     (let keys = keySlice s
      in if keys = []
         then \<lparr>ip_path = [], ip_root = causalEmpty H 0, ip_count = 0, ip_ok = True, np_terminalDepth = 0\<rparr>
         else let (nodeHash, nodeCount, p, kind, tDepth) = causalDescend H keys 0 key
              in if kind \<noteq> EmptyTerminal
                 then \<lparr>ip_path = [], ip_root = nodeHash, ip_count = nodeCount, ip_ok = False, np_terminalDepth = 0\<rparr>
                 else \<lparr>ip_path = p, ip_root = nodeHash, ip_count = nodeCount, ip_ok = True, np_terminalDepth = tDepth\<rparr>)"

text \<open>The loop of \<open>verifyCausalPath\<close>, its three loop variables explicit.\<close>

fun causalPathLoop ::
    "(bytes \<Rightarrow> bytes) \<Rightarrow> int \<Rightarrow> bytes \<Rightarrow> u64 \<Rightarrow> causal_step list \<Rightarrow> bytes \<Rightarrow> u64 \<Rightarrow> bool" where
  "causalPathLoop H depth curHash curCount [] root cnt = (curHash = root \<and> curCount = cnt)"
| "causalPathLoop H depth curHash curCount (step # path) root cnt =
     (if cs_side step = sideLeft
      then causalPathLoop H (depth - 1) (causalNode H depth (cs_hash step) (cs_count step) curHash curCount)
             (curCount + cs_count step) path root cnt
      else if cs_side step = sideRight
      then causalPathLoop H (depth - 1) (causalNode H depth curHash curCount (cs_hash step) (cs_count step))
             (curCount + cs_count step) path root cnt
      else False)"

definition verifyCausalPath ::
    "(bytes \<Rightarrow> bytes) \<Rightarrow> bytes \<Rightarrow> u64 \<Rightarrow> int \<Rightarrow> causal_step list \<Rightarrow> bytes \<Rightarrow> u64 \<Rightarrow> bool" where
  "verifyCausalPath H terminalHash terminalCount terminalDepth path root cnt =
     (if int (length path) \<noteq> terminalDepth then False
      else causalPathLoop H (terminalDepth - 1) terminalHash terminalCount path root cnt)"

definition VerifyCausalInclusion ::
    "(bytes \<Rightarrow> bytes) \<Rightarrow> bytes \<Rightarrow> causal_step list \<Rightarrow> bytes \<Rightarrow> u64 \<Rightarrow> bool" where
  "VerifyCausalInclusion H key path root cnt =
     verifyCausalPath H (causalLeaf H key) 1 (int CausalDepth) path root cnt"

definition VerifyCausalNonInclusion ::
    "(bytes \<Rightarrow> bytes) \<Rightarrow> int \<Rightarrow> causal_step list \<Rightarrow> bytes \<Rightarrow> u64 \<Rightarrow> bool" where
  "VerifyCausalNonInclusion H terminalDepth path root cnt =
     (if terminalDepth < 0 \<or> terminalDepth > int CausalDepth then False
      else verifyCausalPath H (causalEmpty H (nat terminalDepth)) 0 terminalDepth path root cnt)"

section \<open>Sets: the map operations\<close>

lemma set_set_store [simp]: "set (set_store k ks) = insert k (set ks)"
  by (auto simp: set_store_def)

lemma distinct_set_store [simp]: "distinct (set_store k ks) = distinct ks"
  by (auto simp: set_store_def)

lemma set_store_fold:
  "set (foldl (\<lambda>next k. set_store k next) acc ks) = set acc \<union> set ks"
  "distinct acc \<Longrightarrow> distinct (foldl (\<lambda>next k. set_store k next) acc ks)"
  by (induction ks arbitrary: acc) auto

text \<open>The invariant of a set: its keys are distinct digests.\<close>

definition wf_causal_set :: "causal_set \<Rightarrow> bool" where
  "wf_causal_set s \<longleftrightarrow> distinct (keySlice s) \<and> list_all (\<lambda>k. length k = HashSize) (keySlice s)"

definition members :: "causal_set \<Rightarrow> bytes set" where
  "members s = set (keySlice s)"

lemma members_simps [simp]:
  "members EmptyCausalSet = {}" "members (Insert s k) = insert k (members s)"
  "members (Union s t) = members s \<union> members t" "Contains s k \<longleftrightarrow> k \<in> members s"
  by (simp_all add: members_def EmptyCausalSet_def Insert_def Union_def Contains_def set_store_fold)

lemma wf_causal_set_simps [simp]:
  "wf_causal_set EmptyCausalSet"
  "wf_causal_set s \<Longrightarrow> length k = HashSize \<Longrightarrow> wf_causal_set (Insert s k)"
  "wf_causal_set s \<Longrightarrow> wf_causal_set t \<Longrightarrow> wf_causal_set (Union s t)"
  by (auto simp: wf_causal_set_def EmptyCausalSet_def Insert_def Union_def set_store_fold list_all_iff)

lemma Count_members: "wf_causal_set s \<Longrightarrow> Count s = of_nat (card (members s))"
  by (simp add: wf_causal_set_def Count_def members_def distinct_card)

end
