(* ===== verification/CausalTrie.thy ===== *)
theory CausalTrie
  imports Causal
begin

text \<open>
  The full trie of depth 256 behind \<open>merkle/causal.go\<close>: the recursions over key slices compute its
  digest and its count, the proofs that \<open>merkle/causal_proof.go\<close> builds verify (completeness), and a
  proof that verifies against the root of a set opens the trie of the set (soundness).
\<close>

section \<open>The scheme of the trie\<close>

type_synonym ctree = "(bytes option, u16 \<times> u64 \<times> u64) htree"

definition cleaf_pre :: "bytes option \<Rightarrow> bytes" where
  "cleaf_pre x = (case x of None \<Rightarrow> causalEmptyLeafDST | Some key \<Rightarrow> causalLeafDST @ key)"

definition cnode_pre :: "u16 \<times> u64 \<times> u64 \<Rightarrow> bytes \<Rightarrow> bytes \<Rightarrow> bytes" where
  "cnode_pre a l r =
     (case a of (d, lc, rc) \<Rightarrow> causalNodeDST @ be_bytes 2 d @ l @ be_bytes 8 lc @ r @ be_bytes 8 rc)"

abbreviation chash :: "(bytes \<Rightarrow> bytes) \<Rightarrow> ctree \<Rightarrow> bytes" where
  "chash H \<equiv> htree_hash H cleaf_pre cnode_pre"

abbreviation ctrie_collision :: "(bytes \<Rightarrow> bytes) \<Rightarrow> ctree \<Rightarrow> ctree \<Rightarrow> (bytes \<times> bytes) option" where
  "ctrie_collision H \<equiv> htree_collision H cleaf_pre cnode_pre"

lemma cnode_pre_inject:
  assumes "length l = HashSize" "length r = HashSize" "length l' = HashSize" "length r' = HashSize"
    and "cnode_pre a l r = cnode_pre b l' r'"
  shows "a = b \<and> l = l' \<and> r = r'"
  using assms be16.encode_inject be64.encode_inject
  by (auto simp: cnode_pre_def split: prod.splits)

lemma cdst_distinct:
  "causalLeafDST @ x \<noteq> causalNodeDST @ y" "causalEmptyLeafDST \<noteq> causalNodeDST @ y"
  "causalEmptyLeafDST \<noteq> causalLeafDST @ x"
  by (simp_all add: causalLeafDST_def causalNodeDST_def causalEmptyLeafDST_def)

interpretation causal: hash_tree cleaf_pre cnode_pre "\<lambda>_. True" HashSize
proof
  show "x = y" if "cleaf_pre x = cleaf_pre y" for x y
    using that cdst_distinct(3) cdst_distinct(3) [symmetric]
    by (auto simp: cleaf_pre_def split: option.splits)
  show "cleaf_pre x \<noteq> cnode_pre a l r" for x a l r
    using cdst_distinct by (auto simp: cleaf_pre_def cnode_pre_def split: option.splits prod.splits)
  show "a = b \<and> l = l' \<and> r = r'"
    if "length l = HashSize" "length r = HashSize" "length l' = HashSize" "length r' = HashSize"
      "cnode_pre a l r = cnode_pre b l' r'" for a b l r l' r'
    using that by (rule cnode_pre_inject)
qed

text \<open>The trie of the levels below depth \<open>256 - n\<close>.\<close>

primrec ctrie :: "nat \<Rightarrow> bytes list \<Rightarrow> ctree" where
  "ctrie 0 ks = LeafT (case ks of [] \<Rightarrow> None | k # _ \<Rightarrow> Some k)"
| "ctrie (Suc n) ks =
     (let d = CausalDepth - Suc n;
          l = filter (\<lambda>k. \<not> causalBit k d) ks; r = filter (\<lambda>k. causalBit k d) ks
      in NodeT (of_nat d, of_nat (length l), of_nat (length r)) (ctrie n l) (ctrie n r))"

lemma full_ctrie: "full (ctrie n ks)"
  by (induction n arbitrary: ks) (simp_all add: Let_def)

lemma wf_ctrie: "htree_wf (\<lambda>_. True) HashSize (ctrie n ks)"
  by (induction n arbitrary: ks) (simp_all add: Let_def)

lemma ctrie_leaves: "Some k \<in> set (htree_leaves (ctrie n ks)) \<Longrightarrow> k \<in> set ks"
proof (induction n arbitrary: ks)
  case (Suc n)
  then show ?case
    using Suc.IH [of "filter (\<lambda>k. \<not> causalBit k (CausalDepth - Suc n)) ks"]
      Suc.IH [of "filter (\<lambda>k. causalBit k (CausalDepth - Suc n)) ks"]
    by (auto simp: Let_def)
qed (auto split: list.splits)

lemma causalNode_chash:
  "causalNode H (int d) (chash H l) lc (chash H r) rc = chash H (NodeT (of_nat d, lc, rc) l r)"
  by (simp add: causalNode_def hash_parts_def cnode_pre_def)

lemma causalLeaf_chash: "causalLeaf H key = chash H (LeafT (Some key))"
  by (simp add: causalLeaf_def hash_parts_def cleaf_pre_def)

lemma causalEmptyAbove_chash: "n \<le> CausalDepth \<Longrightarrow> causalEmptyAbove H n = chash H (ctrie n [])"
proof (induction n)
  case (Suc n)
  then have e: "int CausalDepth - 1 - int n = int (CausalDepth - Suc n)" by simp
  have IH: "causalEmptyAbove H n = chash H (ctrie n [])" using Suc by simp
  show ?case
    unfolding causalEmptyAbove.simps ctrie.simps Let_def IH e causalNode_chash by simp
qed (simp add: hash_parts_def cleaf_pre_def)

lemma causalEmpty_chash: "d + n = CausalDepth \<Longrightarrow> causalEmpty H d = chash H (ctrie n [])"
proof -
  assume "d + n = CausalDepth"
  then have "CausalDepth - d = n" "n \<le> CausalDepth" by simp_all
  then show ?thesis by (simp add: causalEmpty_def causalEmptyAbove_chash)
qed

section \<open>Keys and their bits\<close>

definition key_bits_agree :: "nat \<Rightarrow> bytes \<Rightarrow> bytes \<Rightarrow> bool" where
  "key_bits_agree d k k' \<longleftrightarrow> (\<forall>i < d. causalBit k i = causalBit k' i)"

lemma key_bits_agree_Suc:
  "key_bits_agree (Suc d) k k' \<longleftrightarrow> key_bits_agree d k k' \<and> causalBit k d = causalBit k' d"
  by (auto simp: key_bits_agree_def less_Suc_eq)

lemma key_bits_agree_0 [simp]: "key_bits_agree 0 k k'"
  by (simp add: key_bits_agree_def)

lemma key_bits_eq:
  assumes "key_bits_agree CausalDepth k k'" "length k = HashSize" "length k' = HashSize"
  shows "k = k'"
proof (rule nth_equalityI)
  fix i assume "i < length k"
  then have i: "i < 32" using assms by (simp add: HashSize_def)
  show "k ! i = k' ! i"
  proof (rule bit_word_eqI)
    fix n assume "n < LENGTH(8)"
    then have n: "n < 8" by simp
    define m where "m = 7 - n"
    have m: "m < 8" "7 - m = n" using n by (simp_all add: m_def)
    then have "(8 * i + m) div 8 = i" "(8 * i + m) mod 8 = m" by simp_all
    then have "causalBit k (8 * i + m) = bit (k ! i) n" "causalBit k' (8 * i + m) = bit (k' ! i) n"
      by (simp_all only: causalBit_def m)
    moreover have "8 * i + m < CausalDepth" using i m by (simp add: CausalDepth_def)
    ultimately show "bit (k ! i) n = bit (k' ! i) n"
      using assms(1) by (metis key_bits_agree_def)
  qed
qed (simp add: assms)

text \<open>A slice of keys below one node of depth \<open>d\<close>.\<close>

definition below :: "nat \<Rightarrow> bytes \<Rightarrow> bytes list \<Rightarrow> bool" where
  "below d t ks \<longleftrightarrow> distinct ks \<and> (\<forall>k \<in> set ks. length k = HashSize \<and> key_bits_agree d t k)"

lemma below_filter:
  "below d t ks \<Longrightarrow> below d t (filter P ks)"
  "below d t ks \<Longrightarrow> causalBit t d \<Longrightarrow> below (Suc d) t (filter (\<lambda>k. causalBit k d) ks)"
  "below d t ks \<Longrightarrow> \<not> causalBit t d \<Longrightarrow> below (Suc d) t (filter (\<lambda>k. \<not> causalBit k d) ks)"
  by (auto simp: below_def key_bits_agree_Suc)

lemma below_refl: "below d t ks \<Longrightarrow> k \<in> set ks \<Longrightarrow> below d k ks"
  by (auto simp: below_def key_bits_agree_def)

lemma below_bottom: "below CausalDepth t (k # ks) \<Longrightarrow> ks = []"
proof -
  assume b: "below CausalDepth t (k # ks)"
  have "k = k'" if "k' \<in> set ks" for k'
    using key_bits_eq [of k k'] b that by (auto simp: below_def key_bits_agree_def)
  then show ?thesis using b by (cases ks) (auto simp: below_def)
qed

section \<open>The recursions compute the trie\<close>

lemma causalSubtreeRoot_ctrie:
  "d + n = CausalDepth \<Longrightarrow> ks \<noteq> [] \<Longrightarrow> below d t ks \<Longrightarrow>
   causalSubtreeRoot H ks d = (chash H (ctrie n ks), of_nat (length ks))"
proof (induction n arbitrary: d t ks)
  case 0
  then obtain k where "ks = [k]" using below_bottom by (cases ks) auto
  with 0 show ?case by (simp add: causalSubtreeRoot.simps [of H "[k]"] causalLeaf_chash)
next
  case (Suc n)
  let ?l = "filter (\<lambda>k. \<not> causalBit k d) ks" and ?r = "filter (\<lambda>k. causalBit k d) ks"
  have d: "CausalDepth - Suc n = d" "\<not> CausalDepth \<le> d" "Suc d + n = CausalDepth" using Suc.prems by simp_all
  have part: "(if xs \<noteq> [] then causalSubtreeRoot H xs (d + 1) else (causalEmpty H (d + 1), 0)) =
      (chash H (ctrie n xs), of_nat (length xs))" if "xs \<noteq> [] \<longrightarrow> below (Suc d) (hd xs) xs" for xs
    using Suc.IH [OF d(3), of xs "hd xs"] causalEmpty_chash [OF d(3), of H] that by simp
  have b: "?l \<noteq> [] \<longrightarrow> below (Suc d) (hd ?l) ?l" "?r \<noteq> [] \<longrightarrow> below (Suc d) (hd ?r) ?r"
    using below_refl [OF Suc.prems(3)] hd_in_set [of ?l] hd_in_set [of ?r]
    by (auto intro!: below_filter(2,3))
  have "length ks = length ?l + length ?r"
    using sum_length_filter_compl [of "\<lambda>k. causalBit k d" ks] by simp
  then show ?case
    unfolding causalSubtreeRoot.simps [of H ks d] Let_def part [OF b(1)] part [OF b(2)] ctrie.simps d(1)
    using d(2) by (simp add: causalNode_chash del: htree_hash.simps)
qed

lemma subtreeRootCount_ctrie:
  "d + n = CausalDepth \<Longrightarrow> below d t ks \<Longrightarrow>
   subtreeRootCount H ks d = (chash H (ctrie n ks), of_nat (length ks))"
  using causalSubtreeRoot_ctrie [of d n ks t H] causalEmpty_chash [of d n H]
  by (simp add: subtreeRootCount_def)


section \<open>Completeness\<close>

lemma causalPathLoop_snoc:
  assumes "causalPathLoop H D h c p m cm"
  shows "causalPathLoop H D h c (p @ [\<lparr>cs_side = sideLeft, cs_hash = g, cs_count = e\<rparr>])
           (causalNode H (D - int (length p)) g e m cm) (e + cm)"
    and "causalPathLoop H D h c (p @ [\<lparr>cs_side = sideRight, cs_hash = g, cs_count = e\<rparr>])
           (causalNode H (D - int (length p)) m cm g e) (cm + e)"
  using assms
  by (induction H D h c p m cm rule: causalPathLoop.induct) (auto simp: algebra_simps split: if_splits)

definition path_bits :: "causal_step list \<Rightarrow> bool list" where
  "path_bits p = map (\<lambda>s. cs_side s = sideLeft) (rev p)"

text \<open>What the descent below a node of depth \<open>d\<close> returns: the digest and the count of the subtree and
  a path from the terminal node at depth \<open>td\<close> to this node, along the bits of the target.\<close>

definition descent_ok ::
    "(bytes \<Rightarrow> bytes) \<Rightarrow> nat \<Rightarrow> bytes list \<Rightarrow> bytes \<Rightarrow> bytes \<times> u64 \<times> causal_step list \<times> terminal \<times> nat \<Rightarrow> bool" where
  "descent_ok H d ks t res \<longleftrightarrow>
     (case res of (h, c, p, kind, td) \<Rightarrow>
        d \<le> td \<and> td \<le> CausalDepth \<and> length p = td - d \<and> path_bits p = map (causalBit t) [d..<td] \<and>
        list_all (\<lambda>s. length (cs_hash s) = HashSize \<or> \<not> (\<forall>x. length (H x) = HashSize)) p \<and>
        (kind = LeafTerminal \<longleftrightarrow> t \<in> set ks) \<and>
        (kind = LeafTerminal \<longrightarrow> td = CausalDepth \<and> causalPathLoop H (int td - 1) (causalLeaf H t) 1 p h c) \<and>
        (kind = EmptyTerminal \<longrightarrow> causalPathLoop H (int td - 1) (causalEmpty H td) 0 p h c))"

lemma below_side:
  assumes "below d t ks"
  shows "\<exists>u. below (Suc d) u (filter (\<lambda>k. \<not> causalBit k d) ks)"
    and "\<exists>u. below (Suc d) u (filter (\<lambda>k. causalBit k d) ks)"
proof -
  have "below (Suc d) u (filter (\<lambda>k. causalBit k d = b) ks)"
    if "u = hd (filter (\<lambda>k. causalBit k d = b) ks)" for u b
  proof (cases "filter (\<lambda>k. causalBit k d = b) ks")
    case (Cons k xs)
    then have "k \<in> set (filter (\<lambda>k. causalBit k d = b) ks)" by simp
    then have "causalBit k d = b" "below d k ks" using assms below_refl by auto
    then show ?thesis using below_filter(2,3) [of d k ks] that Cons by (cases b) auto
  qed (simp add: below_def)
  from this [of _ False] this [of _ True]
  show "\<exists>u. below (Suc d) u (filter (\<lambda>k. \<not> causalBit k d) ks)"
    and "\<exists>u. below (Suc d) u (filter (\<lambda>k. causalBit k d) ks)" by auto
qed

lemma descent_ok_step:
  assumes ok: "descent_ok H (Suc d) (filter (\<lambda>k. causalBit k d = b) ks) t (m, cm, p, kind, td)"
    and b: "causalBit t d = b"
    and g: "(\<forall>x. length (H x) = HashSize) \<Longrightarrow> length g = HashSize"
    and side: "side = (if b then sideLeft else sideRight)"
    and h: "h = (if b then causalNode H (int d) g e m cm else causalNode H (int d) m cm g e)"
    and c: "c = e + cm"
  shows "descent_ok H d ks t (h, c, p @ [\<lparr>cs_side = side, cs_hash = g, cs_count = e\<rparr>], kind, td)"
proof -
  have td: "Suc d \<le> td" "length p = td - Suc d" using ok by (simp_all add: descent_ok_def)
  then have len: "int td - 1 - int (length p) = int d" by simp
  have upt: "[d..<td] = d # [Suc d..<td]" using td by (simp add: upt_conv_Cons)
  have loop: "causalPathLoop H (int td - 1) x y (p @ [\<lparr>cs_side = side, cs_hash = g, cs_count = e\<rparr>]) h c"
    if "causalPathLoop H (int td - 1) x y p m cm" for x y
    using causalPathLoop_snoc [OF that, of g e] side h c len by (cases b) (simp_all add: add.commute)
  show ?thesis
    using ok b g loop td upt side by (auto simp: descent_ok_def path_bits_def)
qed

lemma causalDescend_ctrie:
  "d + n = CausalDepth \<Longrightarrow> below d t ks \<Longrightarrow> length t = HashSize \<Longrightarrow>
   (\<exists>p kind td. causalDescend H ks d t = (chash H (ctrie n ks), of_nat (length ks), p, kind, td)) \<and>
   descent_ok H d ks t (causalDescend H ks d t)"
proof (induction n arbitrary: d ks)
  case 0
  show ?case
  proof (cases ks)
    case Nil
    then show ?thesis using 0 causalEmpty_chash [of d 0 H]
      by (simp add: causalDescend.simps [of H "[]"] descent_ok_def path_bits_def)
  next
    case (Cons k ks')
    then have ks: "ks = [k]" using below_bottom 0 by auto
    then have "k = t" using 0 key_bits_eq [of t k] by (simp add: below_def)
    then show ?thesis using ks 0
      by (simp add: causalDescend.simps [of H "[t]"] descent_ok_def path_bits_def causalLeaf_chash)
  qed
next
  case (Suc n)
  let ?l = "filter (\<lambda>k. \<not> causalBit k d) ks" and ?r = "filter (\<lambda>k. causalBit k d) ks"
  have d: "CausalDepth - Suc n = d" "\<not> CausalDepth \<le> d" "Suc d + n = CausalDepth" "d + 1 = Suc d"
    using Suc.prems by simp_all
  have len: "length ks = length ?l + length ?r"
    using sum_length_filter_compl [of "\<lambda>k. causalBit k d" ks] by simp
  have hlen: "\<forall>x. length (H x) = HashSize \<Longrightarrow> length (chash H (ctrie n xs)) = HashSize" for xs
    using causal.length_hash wf_ctrie by blast
  show ?case
  proof (cases "ks = []")
    case True
    then show ?thesis using Suc.prems causalEmpty_chash [of d "Suc n" H]
      by (simp add: causalDescend.simps [of H "[]"] descent_ok_def path_bits_def del: ctrie.simps)
  next
    case ne: False
    show ?thesis
    proof (cases "causalBit t d")
      case True
      then have b: "below (Suc d) t ?r" using below_filter Suc.prems by blast
      have u: "subtreeRootCount H ?l (Suc d) = (chash H (ctrie n ?l), of_nat (length ?l))"
        using below_side(1) [OF Suc.prems(2)] subtreeRootCount_ctrie [OF d(3)] by blast
      obtain p kind td where r: "causalDescend H ?r (Suc d) t = (chash H (ctrie n ?r), of_nat (length ?r), p, kind, td)"
        and ok: "descent_ok H (Suc d) ?r t (chash H (ctrie n ?r), of_nat (length ?r), p, kind, td)"
        using Suc.IH [OF d(3) b Suc.prems(3)] by metis
      have eq: "causalDescend H ks d t = (chash H (ctrie (Suc n) ks), of_nat (length ks),
          p @ [\<lparr>cs_side = sideLeft, cs_hash = chash H (ctrie n ?l), cs_count = of_nat (length ?l)\<rparr>], kind, td)"
        unfolding causalDescend.simps [of H ks d t] Let_def d(4) r u ctrie.simps d(1)
        using ne d(2) True len by (simp add: causalNode_chash del: htree_hash.simps)
      show ?thesis unfolding eq 
        by (rule conjI, blast, rule descent_ok_step [where b = True and m = "chash H (ctrie n ?r)" and cm = "of_nat (length ?r)"])
          (use ok True hlen len in \<open>simp_all add: d(1) Let_def causalNode_chash del: htree_hash.simps\<close>)
    next
      case False
      then have b: "below (Suc d) t ?l" using below_filter Suc.prems by blast
      have u: "subtreeRootCount H ?r (Suc d) = (chash H (ctrie n ?r), of_nat (length ?r))"
        using below_side(2) [OF Suc.prems(2)] subtreeRootCount_ctrie [OF d(3)] by blast
      obtain p kind td where r: "causalDescend H ?l (Suc d) t = (chash H (ctrie n ?l), of_nat (length ?l), p, kind, td)"
        and ok: "descent_ok H (Suc d) ?l t (chash H (ctrie n ?l), of_nat (length ?l), p, kind, td)"
        using Suc.IH [OF d(3) b Suc.prems(3)] by metis
      have eq: "causalDescend H ks d t = (chash H (ctrie (Suc n) ks), of_nat (length ks),
          p @ [\<lparr>cs_side = sideRight, cs_hash = chash H (ctrie n ?r), cs_count = of_nat (length ?r)\<rparr>], kind, td)"
        unfolding causalDescend.simps [of H ks d t] Let_def d(4) r u ctrie.simps d(1)
        using ne d(2) False len by (simp add: causalNode_chash del: htree_hash.simps)
      show ?thesis unfolding eq 
        by (rule conjI, blast, rule descent_ok_step [where b = False and m = "chash H (ctrie n ?l)" and cm = "of_nat (length ?l)"])
          (use ok False hlen len in \<open>simp_all add: d(1) Let_def causalNode_chash del: htree_hash.simps\<close>)
    qed
  qed
qed


section \<open>The commitment of a set\<close>

definition set_trie :: "causal_set \<Rightarrow> ctree" where
  "set_trie s = ctrie CausalDepth (keySlice s)"

lemma below_0: "wf_causal_set s \<Longrightarrow> below 0 t (keySlice s)"
  by (simp add: wf_causal_set_def below_def list_all_iff)

lemma CausalRoot_chash: "wf_causal_set s \<Longrightarrow> CausalRoot H s = chash H (set_trie s)"
  using causalSubtreeRoot_ctrie [of 0 CausalDepth "keySlice s" "[]" H] causalEmpty_chash [of 0 CausalDepth H] below_0
  by (simp add: CausalRoot_def set_trie_def)

lemma leaves_ctrie_iff:
  "d + n = CausalDepth \<Longrightarrow> below d t ks \<Longrightarrow> Some k \<in> set (htree_leaves (ctrie n ks)) \<longleftrightarrow> k \<in> set ks"
proof (induction n arbitrary: d t ks)
  case 0
  then show ?case using below_bottom [of t] by (cases ks) (simp, metis add_0_right ctrie.simps(1)
      empty_iff empty_set htree_leaves.simps(2) list.case(2) option.inject set_ConsD list.set_intros(1))
next
  case (Suc n)
  obtain u v where "below (Suc d) u (filter (\<lambda>k. \<not> causalBit k d) ks)" "below (Suc d) v (filter (\<lambda>k. causalBit k d) ks)"
    using below_side [OF Suc.prems(2)] by blast
  moreover have "CausalDepth - Suc n = d" "Suc d + n = CausalDepth" using Suc.prems by simp_all
  ultimately show ?case using Suc.IH [of "Suc d"] by (auto simp: Let_def)
qed

lemma leaves_set_trie: "wf_causal_set s \<Longrightarrow> Some k \<in> set (htree_leaves (set_trie s)) \<longleftrightarrow> k \<in> members s"
  using leaves_ctrie_iff [of 0 CausalDepth "[]" "keySlice s" k] below_0
  by (simp add: set_trie_def members_def)

lemma ctrie_mset:
  "d + n = CausalDepth \<Longrightarrow> below d t ks \<Longrightarrow> mset ks = mset ks' \<Longrightarrow> ctrie n ks = ctrie n ks'"
proof (induction n arbitrary: d t ks ks')
  case 0
  then have "below CausalDepth t ks'" by (auto simp: below_def dest: mset_eq_setD mset_eq_imp_distinct_iff)
  with 0 have "length ks \<le> 1" using below_bottom [of t] by (cases ks) auto
  then have "ks = ks'" using 0 by (cases ks) auto
  then show ?case by simp
next
  case (Suc n)
  obtain u v where "below (Suc d) u (filter (\<lambda>k. \<not> causalBit k d) ks)" "below (Suc d) v (filter (\<lambda>k. causalBit k d) ks)"
    using below_side [OF Suc.prems(2)] by blast
  moreover have d: "CausalDepth - Suc n = d" "Suc d + n = CausalDepth" using Suc.prems by simp_all
  moreover have m: "mset (filter P ks) = mset (filter P ks')" for P using Suc.prems by simp
  ultimately have
    "ctrie n (filter (\<lambda>k. \<not> causalBit k d) ks) = ctrie n (filter (\<lambda>k. \<not> causalBit k d) ks')"
    "ctrie n (filter (\<lambda>k. causalBit k d) ks) = ctrie n (filter (\<lambda>k. causalBit k d) ks')"
    using Suc.IH [OF d(2) _ m] by blast+
  moreover have "length (filter P ks) = length (filter P ks')" for P using m by (rule mset_eq_length)
  ultimately show ?case by (simp add: Let_def d(1))
qed

lemma set_trie_members:
  "wf_causal_set s \<Longrightarrow> wf_causal_set t \<Longrightarrow> members s = members t \<Longrightarrow> set_trie s = set_trie t"
  unfolding set_trie_def
  by (rule ctrie_mset [of 0 _ "[]"])
    (auto simp: below_0, simp add: wf_causal_set_def members_def set_eq_iff_mset_eq_distinct)

lemma set_trie_binding:
  assumes "\<forall>x. length (H x) = HashSize" "wf_causal_set s" "wf_causal_set t"
    and "CausalRoot H s = CausalRoot H t"
  shows "is_collision H (ctrie_collision H (set_trie s) (set_trie t)) \<or> members s = members t"
proof -
  have "set_trie s = set_trie t \<or> is_collision H (ctrie_collision H (set_trie s) (set_trie t))"
    using causal.collision_sound [of H "set_trie s" "set_trie t"] assms full_agree_eq full_ctrie wf_ctrie
    unfolding set_trie_def by (metis CausalRoot_chash set_trie_def)
  then show ?thesis using leaves_set_trie assms by (metis subsetI subset_antisym)
qed

section \<open>Soundness\<close>

text \<open>The steps of a proof with the labels of the parents: depth and the two counts.\<close>

fun label_path :: "int \<Rightarrow> u64 \<Rightarrow> causal_step list \<Rightarrow> (bool \<times> (u16 \<times> u64 \<times> u64) \<times> bytes) list" where
  "label_path depth c [] = []"
| "label_path depth c (s # p) =
     (let left = (cs_side s = sideLeft)
      in (left, (of_int depth, if left then (cs_count s, c) else (c, cs_count s)), cs_hash s) #
         label_path (depth - 1) (c + cs_count s) p)"

lemma causalNode_int:
  "causalNode H d (chash H l) lc (chash H r) rc = chash H (NodeT (of_int d, lc, rc) l r)"
  by (simp add: causalNode_def hash_parts_def cnode_pre_def)

lemma causalPathLoop_open:
  "causalPathLoop H d (chash H t) c p root cnt \<Longrightarrow> chash H (open_path t (label_path d c p)) = root"
proof (induction p arbitrary: d t c)
  case (Cons s p)
  have "causalNode H d (cs_hash s) (cs_count s) (chash H t) c = chash H (NodeT (of_int d, cs_count s, c) (Opaque (cs_hash s)) t)"
    "causalNode H d (chash H t) c (cs_hash s) (cs_count s) = chash H (NodeT (of_int d, c, cs_count s) t (Opaque (cs_hash s)))"
    by (simp_all add: causalNode_def hash_parts_def cnode_pre_def)
  with Cons show ?case by (auto simp: Let_def split: if_splits)
qed simp

lemma wf_label_path:
  "list_all (\<lambda>s. length (cs_hash s) = HashSize) p \<Longrightarrow> list_all (\<lambda>(left, a, h). length h = HashSize) (label_path d c p)"
  by (induction p arbitrary: d c) (auto simp: Let_def)

lemma label_path_sides: "map fst (label_path d c p) = map (\<lambda>s. cs_side s = sideLeft) p"
  by (induction p arbitrary: d c) (auto simp: Let_def)

text \<open>The count of a proof is the sum of the counts at its last step.\<close>

lemma causalPathLoop_count:
  "causalPathLoop H d h c p root cnt \<Longrightarrow> cnt = c + sum_list (map cs_count p)"
  by (induction H d h c p root cnt rule: causalPathLoop.induct) (auto simp: algebra_simps split: if_splits)

lemma label_path_last:
  "p \<noteq> [] \<Longrightarrow> \<exists>left d' lc rc h. last (label_path d c p) = (left, (d', lc, rc), h) \<and>
     lc + rc = c + sum_list (map cs_count p)"
proof (induction p arbitrary: d c)
  case (Cons s p)
  show ?case
  proof (cases "p = []")
    case False
    then have "label_path (d - 1) (c + cs_count s) p \<noteq> []" by (cases p) (simp_all add: Let_def)
    with Cons.IH [OF False, of "d - 1" "c + cs_count s"] show ?thesis
      by (simp add: Let_def add.assoc)
  qed (auto simp: Let_def)
qed simp

lemma open_path_last:
  assumes "q \<noteq> []" "last q = (left, a, h)"
  shows "\<exists>l r. open_path t q = NodeT a l r"
proof -
  have "open_path t q = open_path (open_path t (butlast q)) [last q]"
    using assms(1) by (metis append_butlast_last_id open_path_append)
  then show ?thesis using assms(2) by simp
qed

lemma set_trie_root: "wf_causal_set s \<Longrightarrow> \<exists>d lc rc l r. set_trie s = NodeT (d, lc, rc) l r \<and> lc + rc = Count s"
proof -
  have e: "ctrie CausalDepth (keySlice s) = ctrie (Suc 255) (keySlice s)" by (simp add: CausalDepth_def)
  have sum: "of_nat (length (filter (\<lambda>k. \<not> P k) ks)) + of_nat (length (filter P ks)) = (of_nat (length ks) :: u64)"
    for P and ks :: "bytes list"
    using sum_length_filter_compl [of P ks] by (metis add.commute of_nat_add)
  show ?thesis unfolding set_trie_def Count_def e ctrie.simps Let_def
    by (intro exI conjI, rule refl, rule sum)
qed

lemma proof_opens_trie:
  assumes H: "\<forall>x. length (H x) = HashSize" and s: "wf_causal_set s"
    and p: "list_all (\<lambda>s. length (cs_hash s) = HashSize) p" and t: "htree_wf (\<lambda>_. True) HashSize t"
    and v: "causalPathLoop H d (chash H t) c p (CausalRoot H s) cnt"
  shows "is_collision H (ctrie_collision H (open_path t (label_path d c p)) (set_trie s)) \<or>
    (\<exists>v. descend (set_trie s) (path_bits p) = Some v \<and> agree t v \<and> full v) \<and>
    set (htree_leaves t) \<subseteq> set (htree_leaves (set_trie s)) \<and> (p \<noteq> [] \<longrightarrow> cnt = Count s)"
proof -
  let ?o = "open_path t (label_path d c p)"
  have "chash H ?o = chash H (set_trie s)" using causalPathLoop_open [OF v] CausalRoot_chash [OF s] by simp
  moreover have "htree_wf (\<lambda>_. True) HashSize ?o" using wf_open_path t wf_label_path p by blast
  moreover have "htree_wf (\<lambda>_. True) HashSize (set_trie s)" by (simp add: set_trie_def wf_ctrie)
  ultimately consider "is_collision H (ctrie_collision H ?o (set_trie s))" | "agree ?o (set_trie s)"
    using causal.collision_sound [OF H] by blast
  then show ?thesis
  proof cases
    case 2
    have f: "full (set_trie s)" by (simp add: set_trie_def full_ctrie)
    have "\<exists>v. descend (set_trie s) (path_bits p) = Some v \<and> agree t v \<and> full v"
      using descend_open_path [OF 2 f] by (simp add: label_path_sides path_bits_def rev_map)
    moreover have "set (htree_leaves t) \<subseteq> set (htree_leaves (set_trie s))"
      using agree_leaves [OF 2 f] by (simp add: leaves_open_path)
    moreover have "cnt = Count s" if "p \<noteq> []"
    proof -
      obtain left d' lc rc h where last: "last (label_path d c p) = (left, (d', lc, rc), h)"
        and sum: "lc + rc = c + sum_list (map cs_count p)" using label_path_last [OF \<open>p \<noteq> []\<close>] by blast
      have "label_path d c p \<noteq> []" using \<open>p \<noteq> []\<close> by (cases p) (simp_all add: Let_def)
      from open_path_last [OF this last, of t] obtain l r where o: "?o = NodeT (d', lc, rc) l r" by blast
      obtain d2 lc2 rc2 l2 r2 where s2: "set_trie s = NodeT (d2, lc2, rc2) l2 r2" "lc2 + rc2 = Count s"
        using set_trie_root [OF s] by blast
      have "lc + rc = Count s" using 2 unfolding o s2(1) by (simp add: s2(2))
      then show ?thesis using sum causalPathLoop_count [OF v] by simp
    qed
    ultimately show ?thesis by blast
  qed simp
qed


section \<open>What the proof functions return\<close>

lemma descent_top:
  assumes "wf_causal_set s" "length key = HashSize"
  obtains p kind td where
    "causalDescend H (keySlice s) 0 key = (CausalRoot H s, Count s, p, kind, td)"
    "descent_ok H 0 (keySlice s) key (CausalRoot H s, Count s, p, kind, td)"
proof -
  have "(\<exists>p kind td. causalDescend H (keySlice s) 0 key =
      (chash H (ctrie CausalDepth (keySlice s)), of_nat (length (keySlice s)), p, kind, td)) \<and>
    descent_ok H 0 (keySlice s) key (causalDescend H (keySlice s) 0 key)"
    by (rule causalDescend_ctrie) (simp_all add: below_0 assms)
  then obtain p kind td where
    "causalDescend H (keySlice s) 0 key = (CausalRoot H s, Count s, p, kind, td)"
    "descent_ok H 0 (keySlice s) key (causalDescend H (keySlice s) 0 key)"
    by (auto simp: CausalRoot_chash [OF assms(1)] set_trie_def Count_def)
  then show thesis by (intro that) simp_all
qed

lemma InclusionProof_spec:
  assumes "wf_causal_set s" "length key = HashSize"
  shows "ip_root (InclusionProof H s key) = CausalRoot H s \<and> ip_count (InclusionProof H s key) = Count s \<and>
    (ip_ok (InclusionProof H s key) \<longleftrightarrow> key \<in> members s) \<and>
    (key \<in> members s \<longrightarrow>
      VerifyCausalInclusion H key (ip_path (InclusionProof H s key)) (CausalRoot H s) (Count s) \<and>
      ((\<forall>x. length (H x) = HashSize) \<longrightarrow>
         list_all (\<lambda>s. length (cs_hash s) = HashSize) (ip_path (InclusionProof H s key))))"
proof (cases "keySlice s = []")
  case True
  then show ?thesis by (simp add: InclusionProof_def CausalRoot_def Count_def members_def)
next
  case False
  obtain p kind td where d: "causalDescend H (keySlice s) 0 key = (CausalRoot H s, Count s, p, kind, td)"
    and ok: "descent_ok H 0 (keySlice s) key (CausalRoot H s, Count s, p, kind, td)"
    by (rule descent_top [OF assms])
  show ?thesis
    using False ok
    by (auto simp: InclusionProof_def d descent_ok_def members_def VerifyCausalInclusion_def verifyCausalPath_def)
qed

lemma NonInclusionProof_spec:
  fixes H :: "bytes \<Rightarrow> bytes"
  assumes "wf_causal_set s" "length key = HashSize"
  defines "r \<equiv> NonInclusionProof H s key"
  shows "ip_root r = CausalRoot H s \<and> ip_count r = Count s \<and> (ip_ok r \<longleftrightarrow> key \<notin> members s) \<and>
    (key \<notin> members s \<longrightarrow>
      VerifyCausalNonInclusion H (int (np_terminalDepth r)) (ip_path r) (CausalRoot H s) (Count s) \<and>
      path_bits (ip_path r) = map (causalBit key) [0..<np_terminalDepth r] \<and>
      ((\<forall>x. length (H x) = HashSize) \<longrightarrow> list_all (\<lambda>s. length (cs_hash s) = HashSize) (ip_path r)))"
proof (cases "keySlice s = []")
  case True
  then show ?thesis
    by (simp add: r_def NonInclusionProof_def CausalRoot_def Count_def members_def path_bits_def
        VerifyCausalNonInclusion_def verifyCausalPath_def)
next
  case False
  obtain p kind td where d: "causalDescend H (keySlice s) 0 key = (CausalRoot H s, Count s, p, kind, td)"
    and ok: "descent_ok H 0 (keySlice s) key (CausalRoot H s, Count s, p, kind, td)"
    by (rule descent_top [OF assms(1,2)])
  show ?thesis
    using False ok
    by (cases kind)
      (auto simp: r_def NonInclusionProof_def d descent_ok_def members_def VerifyCausalNonInclusion_def verifyCausalPath_def)
qed

text \<open>The subtrie under a prefix of a member's bits is not empty.\<close>

lemma descend_ctrie:
  "d + n = CausalDepth \<Longrightarrow> m \<le> n \<Longrightarrow> below d t ks \<Longrightarrow> k \<in> set ks \<Longrightarrow>
   descend (ctrie n ks) (map (causalBit k) [d..<d + m]) = Some v \<Longrightarrow> Some k \<in> set (htree_leaves v)"
proof (induction m arbitrary: d n t ks)
  case 0
  then show ?case using leaves_ctrie_iff by auto
next
  case (Suc m)
  then obtain n' where n: "n = Suc n'" by (cases n) auto
  have d: "CausalDepth - Suc n' = d" "Suc d + n' = CausalDepth" "m \<le> n'" using Suc.prems n by simp_all
  have upt: "[d..<Suc (d + m)] = d # [Suc d..<Suc (d + m)]" by (simp add: upt_conv_Cons)
  have b: "below d k ks" using Suc.prems below_refl by blast
  show ?case
  proof (cases "causalBit k d")
    case True
    then show ?thesis
      using Suc.IH [OF d(2,3) below_filter(2) [OF b True]] Suc.prems
      by (simp add: n Let_def d(1) upt del: upt_Suc)
  next
    case False
    then show ?thesis
      using Suc.IH [OF d(2,3) below_filter(3) [OF b False]] Suc.prems
      by (simp add: n Let_def d(1) upt del: upt_Suc)
  qed
qed

lemma htree_leaves_empty: "Some k \<notin> set (htree_leaves (ctrie n []))"
  using ctrie_leaves by fastforce

lemma VerifyCausalInclusion_opens:
  assumes H: "\<forall>x. length (H x) = HashSize" and s: "wf_causal_set s"
    and p: "list_all (\<lambda>s. length (cs_hash s) = HashSize) path"
    and v: "VerifyCausalInclusion H key path (CausalRoot H s) cnt"
  shows "is_collision H (ctrie_collision H (open_path (LeafT (Some key)) (label_path 255 1 path)) (set_trie s)) \<or>
    key \<in> members s \<and> cnt = Count s"
proof -
  have "causalPathLoop H 255 (chash H (LeafT (Some key))) 1 path (CausalRoot H s) cnt" "path \<noteq> []"
    using v by (auto simp: VerifyCausalInclusion_def verifyCausalPath_def CausalDepth_def causalLeaf_chash split: if_splits)
  from proof_opens_trie [OF H s p _ this(1)] this(2) show ?thesis
    using leaves_set_trie [OF s, of key] by auto
qed

lemma VerifyCausalNonInclusion_opens:
  assumes H: "\<forall>x. length (H x) = HashSize" and s: "wf_causal_set s"
    and p: "list_all (\<lambda>s. length (cs_hash s) = HashSize) path"
    and bits: "path_bits path = map (causalBit key) [0..<nat td]"
    and v: "VerifyCausalNonInclusion H td path (CausalRoot H s) cnt"
  shows "is_collision H (ctrie_collision H
      (open_path (ctrie (CausalDepth - nat td) []) (label_path (td - 1) 0 path)) (set_trie s)) \<or>
    key \<notin> members s \<and> cnt = Count s"
proof -
  have td: "0 \<le> td" "td \<le> int CausalDepth"
    and l: "causalPathLoop H (td - 1) (causalEmpty H (nat td)) 0 path (CausalRoot H s) cnt"
    using v by (auto simp: VerifyCausalNonInclusion_def verifyCausalPath_def split: if_splits)
  have le: "nat td \<le> CausalDepth" and sum: "nat td + (CausalDepth - nat td) = CausalDepth" using td by auto
  let ?e = "ctrie (CausalDepth - nat td) []"
  have "causalPathLoop H (td - 1) (chash H ?e) 0 path (CausalRoot H s) cnt"
    using l causalEmpty_chash [OF sum, of H] by simp
  from proof_opens_trie [OF H s p wf_ctrie this]
  consider "is_collision H (ctrie_collision H (open_path ?e (label_path (td - 1) 0 path)) (set_trie s))"
    | v where "descend (set_trie s) (path_bits path) = Some v" "agree ?e v" "full v" "path \<noteq> [] \<longrightarrow> cnt = Count s"
    by blast
  then show ?thesis
  proof cases
    case 2
    then have "v = ?e" using full_agree_eq full_ctrie by metis
    then have "Some key \<notin> set (htree_leaves v)" using htree_leaves_empty by simp
    moreover have "Some key \<in> set (htree_leaves v)" if "key \<in> members s"
      using descend_ctrie [of 0 CausalDepth "nat td" "[]" "keySlice s" key v] 2(1) that bits le below_0 [OF s]
      by (simp add: set_trie_def members_def)
    moreover have "cnt = Count s"
    proof (cases "path = []")
      case True
      then have "nat td = 0" using bits by (cases "nat td") (simp_all add: path_bits_def)
      then have "set_trie s = ctrie CausalDepth []" using 2(1) \<open>v = ?e\<close> True by (simp add: path_bits_def)
      then have "members s = {}" using leaves_set_trie [OF s] htree_leaves_empty by auto
      then have "Count s = 0" by (simp add: Count_def members_def)
      then show ?thesis using l True by simp
    qed (use 2(4) in simp)
    ultimately show ?thesis by blast
  qed simp
qed


section \<open>Properties\<close>

text \<open>C21: causal proofs are complete. For a set of 32-byte keys both proof functions return the root and
  the count of the set. \<open>InclusionProof\<close> succeeds exactly for the members and its path verifies;
  \<open>NonInclusionProof\<close> succeeds exactly for the other keys and its path verifies, along the bits of
  the key.\<close>

theorem causal_proofs_complete:
  assumes "wf_causal_set s" and "length key = HashSize"
  shows "(let r = InclusionProof H s key
      in ip_root r = CausalRoot H s \<and> ip_count r = Count s \<and> (ip_ok r \<longleftrightarrow> Contains s key) \<and>
         (ip_ok r \<longrightarrow> VerifyCausalInclusion H key (ip_path r) (ip_root r) (ip_count r))) \<and>
    (let r = NonInclusionProof H s key
      in ip_root r = CausalRoot H s \<and> ip_count r = Count s \<and> (ip_ok r \<longleftrightarrow> \<not> Contains s key) \<and>
         (ip_ok r \<longrightarrow>
            VerifyCausalNonInclusion H (int (np_terminalDepth r)) (ip_path r) (ip_root r) (ip_count r) \<and>
            path_bits (ip_path r) = map (causalBit key) [0..<np_terminalDepth r]))"
  using InclusionProof_spec [OF assms, of H] NonInclusionProof_spec [OF assms, of H]
  unfolding Let_def by simp

definition sample_key :: "byte \<Rightarrow> bytes" where
  "sample_key b = replicate 31 7 @ [b]"

definition sample_set :: causal_set where
  "sample_set = Union (Insert EmptyCausalSet (sample_key 1)) (Insert EmptyCausalSet (sample_key 2))"

lemma sample_key_simps [simp]: "length (sample_key b) = HashSize" "sample_key a = sample_key b \<longleftrightarrow> a = b"
  by (simp_all add: sample_key_def HashSize_def)

lemma sample_set_simps [simp]: "wf_causal_set sample_set" "members sample_set = {sample_key 1, sample_key 2}"
  by (auto simp: sample_set_def)

theorem causal_proofs_complete_witness:
  "ip_ok (InclusionProof sample_digest sample_set (sample_key 2)) \<and>
   ip_ok (NonInclusionProof sample_digest sample_set (sample_key 3))"
  using causal_proofs_complete [of sample_set "sample_key 2" sample_digest]
    causal_proofs_complete [of sample_set "sample_key 3" sample_digest]
  by (simp add: Let_def)

text \<open>C19: inclusion proofs are sound. If \<open>VerifyCausalInclusion\<close> accepts a path of 32-byte siblings for
  a key against the root of a set, then the key is a member and the proved count is the count of the
  set, or comparing the opened path with the trie of the set has computed a hash collision. The sides
  of the path are not checked against the bits of the key; the digest of the leaf makes up for it.\<close>

theorem VerifyCausalInclusion_sound:
  assumes "\<forall>x. length (H x) = HashSize" and "wf_causal_set s"
    and "list_all (\<lambda>step. length (cs_hash step) = HashSize) path"
    and "VerifyCausalInclusion H key path (CausalRoot H s) cnt"
  shows "is_collision H (ctrie_collision H (open_path (LeafT (Some key)) (label_path 255 1 path)) (set_trie s)) \<or>
    Contains s key \<and> cnt = Count s"
  using VerifyCausalInclusion_opens [OF assms] by simp

theorem VerifyCausalInclusion_sound_witness:
  "is_collision sample_digest (ctrie_collision sample_digest
      (open_path (LeafT (Some (sample_key 2)))
         (label_path 255 1 (ip_path (InclusionProof sample_digest sample_set (sample_key 2))))) (set_trie sample_set)) \<or>
    Contains sample_set (sample_key 2) \<and> Count sample_set = Count sample_set"
  using InclusionProof_spec [of sample_set "sample_key 2" sample_digest]
  by (intro VerifyCausalInclusion_sound) (simp_all add: length_sample_digest)

text \<open>C20: non-inclusion proofs are sound for the keys whose bits they follow. If
  \<open>VerifyCausalNonInclusion\<close> accepts a path of 32-byte siblings against the root of a set, then the
  proved count is the count of the set and no member of the set has the sides of the path as its
  first bits, or a hash collision has been
  computed. The function takes no key, so the caller has to compare the sides with the key.\<close>

theorem VerifyCausalNonInclusion_sound:
  assumes "\<forall>x. length (H x) = HashSize" and "wf_causal_set s"
    and "list_all (\<lambda>step. length (cs_hash step) = HashSize) path"
    and "path_bits path = map (causalBit key) [0..<nat td]"
    and "VerifyCausalNonInclusion H td path (CausalRoot H s) cnt"
  shows "is_collision H (ctrie_collision H
      (open_path (ctrie (CausalDepth - nat td) []) (label_path (td - 1) 0 path)) (set_trie s)) \<or>
    \<not> Contains s key \<and> cnt = Count s"
  using VerifyCausalNonInclusion_opens [OF assms] by simp

theorem VerifyCausalNonInclusion_sound_witness:
  "let r = NonInclusionProof sample_digest sample_set (sample_key 3)
   in is_collision sample_digest (ctrie_collision sample_digest
        (open_path (ctrie (CausalDepth - nat (int (np_terminalDepth r))) [])
           (label_path (int (np_terminalDepth r) - 1) 0 (ip_path r))) (set_trie sample_set)) \<or>
      \<not> Contains sample_set (sample_key 3) \<and> Count sample_set = Count sample_set"
  unfolding Let_def using NonInclusionProof_spec [of sample_set "sample_key 3" sample_digest]
  by (intro VerifyCausalNonInclusion_sound [where cnt = "Count sample_set"]) (simp_all add: length_sample_digest)

text \<open>C22: the root of a causal set commits to its members: sets with the same members have the same root
  and count whatever the order of insertions, unions and iteration, and sets with the same root have
  the same members, or a hash collision has been computed.\<close>

theorem CausalRoot_commits:
  assumes "\<forall>x. length (H x) = HashSize" and "wf_causal_set s" and "wf_causal_set t"
  shows "(members s = members t \<longrightarrow> CausalRoot H s = CausalRoot H t \<and> Count s = Count t) \<and>
    (CausalRoot H s = CausalRoot H t \<longrightarrow>
       is_collision H (ctrie_collision H (set_trie s) (set_trie t)) \<or> members s = members t)"
  using set_trie_binding [OF assms] set_trie_members [OF assms(2,3)] assms
  by (auto simp: CausalRoot_chash Count_members)

theorem CausalRoot_commits_witness:
  "CausalRoot sample_digest sample_set =
   CausalRoot sample_digest (Insert (Insert (Insert EmptyCausalSet (sample_key 2)) (sample_key 1)) (sample_key 2))"
proof -
  let ?t = "Insert (Insert (Insert EmptyCausalSet (sample_key 2)) (sample_key 1)) (sample_key 2)"
  have "members sample_set = members ?t" by auto
  then show ?thesis using CausalRoot_commits [of sample_digest sample_set ?t] by (simp add: length_sample_digest)
qed

end
