(* ===== verification/Redaction.thy ===== *)
theory Redaction
  imports GoValue
begin

text \<open>
  Package \<open>merkle\<close>, \<open>merkle/redaction.go\<close>: which content keys redaction preserves and the split of an
  event's content into the part that survives redaction and the rest. Content is a
  \<open>map[string]any\<close>, an association list in iteration order. Comparing two interface values with
  \<open>==\<close> panics when both hold a slice of one type; the panic is the error \<open>RuntimePanic\<close>. What \<open>==\<close>
  says of values whose identity the model does not hold (pointers, arrays and other kinds) is the
  parameter \<open>other_eq\<close>.
\<close>

section \<open>Rules\<close>

record redaction_rule =
  rule_all :: bool
  rule_keys :: "bytes list"

definition RedactionRuleNone :: redaction_rule where
  "RedactionRuleNone = \<lparr>rule_all = False, rule_keys = []\<rparr>"

definition RedactionRuleAll :: redaction_rule where
  "RedactionRuleAll = \<lparr>rule_all = True, rule_keys = []\<rparr>"

definition RedactionRuleKeys :: "bytes list \<Rightarrow> redaction_rule" where
  "RedactionRuleKeys keys = \<lparr>rule_all = False, rule_keys = keys\<rparr>"

definition RedactionPreservedKeys :: "bytes \<Rightarrow> redaction_rule" where
  "RedactionPreservedKeys eventType =
     (if eventType = str ''m.room.create'' then RedactionRuleAll
      else if eventType = str ''m.room.member'' then
        RedactionRuleKeys [str ''membership'', str ''join_authorised_via_users_server'', str ''third_party_invite.signed'']
      else if eventType = str ''m.room.power_levels'' then
        RedactionRuleKeys [str ''ban'', str ''events'', str ''events_default'', str ''invite'', str ''kick'',
          str ''redact'', str ''state_default'', str ''users'', str ''users_default'']
      else if eventType = str ''m.room.join_rules'' then RedactionRuleKeys [str ''join_rule'', str ''allow'']
      else if eventType = str ''m.room.history_visibility'' then RedactionRuleKeys [str ''history_visibility'']
      else if eventType = str ''m.room.redaction'' then RedactionRuleKeys [str ''redacts'']
      else RedactionRuleNone)"

text \<open>\<open>None\<close> is the result with \<open>dotted\<close> false.\<close>

fun splitDottedPath :: "bytes \<Rightarrow> (bytes \<times> bytes) option" where
  "splitDottedPath [] = None"
| "splitDottedPath (c # cs) =
     (if c = 46 then Some ([], cs)
      else case splitDottedPath cs of None \<Rightarrow> None | Some (outer, rest) \<Rightarrow> Some (c # outer, rest))"

section \<open>Redaction\<close>

text \<open>One path of the loop of \<open>redactContent\<close>.\<close>

definition redact_path :: "gmap \<Rightarrow> bytes \<Rightarrow> gmap \<Rightarrow> gmap" where
  "redact_path content path out =
     (case splitDottedPath path of
        None \<Rightarrow> (case map_of content path of Some v \<Rightarrow> map_put path v out | None \<Rightarrow> out)
      | Some (outer, rest) \<Rightarrow>
          (case as_map (map_of content outer) of
             None \<Rightarrow> out
           | Some inner \<Rightarrow>
               (case map_of inner rest of
                  None \<Rightarrow> out
                | Some v \<Rightarrow>
                    (let parent = (case as_map (map_of out outer) of Some p \<Rightarrow> p | None \<Rightarrow> [])
                     in map_put outer (GMap MapStringAny (map_put rest v parent)) out))))"

definition redactContent :: "gmap \<Rightarrow> redaction_rule \<Rightarrow> gmap" where
  "redactContent content rule =
     (if rule_all rule then content
      else foldl (\<lambda>out path. redact_path content path out) [] (rule_keys rule))"

section \<open>Comparison\<close>

text \<open>The operator \<open>==\<close> on two interface values, neither of them a \<open>map[string]any\<close>.\<close>

definition interface_eq :: "(gval \<Rightarrow> gval \<Rightarrow> bool result) \<Rightarrow> gval \<Rightarrow> gval \<Rightarrow> bool result" where
  "interface_eq other_eq a b =
     (case a of
        GNil \<Rightarrow> Inr (b = GNil)
      | GBool x \<Rightarrow> Inr (b = GBool x)
      | GString x \<Rightarrow> Inr (b = GString x)
      | GInt k x \<Rightarrow> Inr (b = GInt k x)
      | GUint k x \<Rightarrow> Inr (b = GUint k x)
      | GFloat x \<Rightarrow> Inr (case b of GFloat y \<Rightarrow> f64_eq x y | _ \<Rightarrow> False)
      | GNumber x \<Rightarrow> Inr (b = GNumber x)
      | GSlice k xs \<Rightarrow>
          (case b of
             GSlice l ys \<Rightarrow>
               if k = SliceOther \<and> l = SliceOther then other_eq a b
               else if k = l then Inl RuntimePanic else Inr False
           | _ \<Rightarrow> Inr False)
      | GMap k m \<Rightarrow> (case b of GMap l n \<Rightarrow> other_eq a b | _ \<Rightarrow> Inr False)
      | GPtr x \<Rightarrow> (case b of GPtr y \<Rightarrow> other_eq a b | _ \<Rightarrow> Inr False)
      | GOther \<Rightarrow> (case b of GOther \<Rightarrow> other_eq a b | _ \<Rightarrow> Inr False))"

lemma size_as_map: "as_map (Some a) = Some m \<Longrightarrow> size_list (\<lambda>x. Suc (size (snd x))) m < size a"
  by (cases a) (auto simp: as_map_Some_iff size_prod_simp split_beta)

function deepEqual :: "(gval \<Rightarrow> gval \<Rightarrow> bool result) \<Rightarrow> gval \<Rightarrow> gval \<Rightarrow> bool result"
  and deepEqualEntries :: "(gval \<Rightarrow> gval \<Rightarrow> bool result) \<Rightarrow> gmap \<Rightarrow> gmap \<Rightarrow> bool result" where
  "deepEqual other_eq a b =
     (case as_map (Some a) of
        Some am \<Rightarrow>
          (case as_map (Some b) of
             None \<Rightarrow> Inr False
           | Some bm \<Rightarrow> if length am \<noteq> length bm then Inr False else deepEqualEntries other_eq am bm)
      | None \<Rightarrow>
          (case as_map (Some b) of Some bm \<Rightarrow> Inr False | None \<Rightarrow> interface_eq other_eq a b))"
| "deepEqualEntries other_eq [] bm = Inr True"
| "deepEqualEntries other_eq (kv # am) bm =
     (case map_of bm (fst kv) of
        None \<Rightarrow> Inr False
      | Some bv \<Rightarrow>
          (case deepEqual other_eq (snd kv) bv of
             Inl e \<Rightarrow> Inl e
           | Inr eq \<Rightarrow> if \<not> eq then Inr False else deepEqualEntries other_eq am bm))"
  by pat_completeness auto
termination
  by (relation "measure (\<lambda>x. case x of Inl (_, a, _) \<Rightarrow> size a
        | Inr (_, am, _) \<Rightarrow> size_list (\<lambda>x. Suc (size (snd x))) am)")
    (auto simp: size_as_map)

declare deepEqual.simps [simp del]

section \<open>The split\<close>

text \<open>Indexing a map with a missing key gives the zero value, here the nil interface.\<close>

definition map_index :: "gmap \<Rightarrow> bytes \<Rightarrow> gval" where
  "map_index m k = (case map_of m k of None \<Rightarrow> GNil | Some v \<Rightarrow> v)"

fun inner_remainder :: "(gval \<Rightarrow> gval \<Rightarrow> bool result) \<Rightarrow> gmap \<Rightarrow> gmap \<Rightarrow> gmap result" where
  "inner_remainder other_eq preservedInner [] = Inr []"
| "inner_remainder other_eq preservedInner ((k, v) # m) =
     (case deepEqual other_eq (map_index preservedInner k) v of
        Inl e \<Rightarrow> Inl e
      | Inr eq \<Rightarrow>
          (case inner_remainder other_eq preservedInner m of
             Inl e \<Rightarrow> Inl e
           | Inr remainder \<Rightarrow> Inr (if eq then remainder else (k, v) # remainder)))"

text \<open>The body of the loop over the content: \<open>None\<close> when the key is left out of the result.\<close>

definition remainder_entry ::
    "(gval \<Rightarrow> gval \<Rightarrow> bool result) \<Rightarrow> gmap \<Rightarrow> bytes \<Rightarrow> gval \<Rightarrow> gval option result" where
  "remainder_entry other_eq redacted key value =
     (case map_of redacted key of
        None \<Rightarrow> Inr (Some value)
      | Some preserved \<Rightarrow>
          (case deepEqual other_eq preserved value of
             Inl e \<Rightarrow> Inl e
           | Inr True \<Rightarrow> Inr None
           | Inr False \<Rightarrow>
               (case (as_map (Some preserved), as_map (Some value)) of
                  (Some preservedInner, Some fullInner) \<Rightarrow>
                    (case inner_remainder other_eq preservedInner fullInner of
                       Inl e \<Rightarrow> Inl e
                     | Inr remainder \<Rightarrow>
                         Inr (if remainder \<noteq> [] then Some (GMap MapStringAny remainder) else None))
                | _ \<Rightarrow> Inr (Some value))))"

fun ephemeralRemainder :: "(gval \<Rightarrow> gval \<Rightarrow> bool result) \<Rightarrow> gmap \<Rightarrow> gmap \<Rightarrow> gmap result" where
  "ephemeralRemainder other_eq [] redacted = Inr []"
| "ephemeralRemainder other_eq ((key, value) # content) redacted =
     (case remainder_entry other_eq redacted key value of
        Inl e \<Rightarrow> Inl e
      | Inr r \<Rightarrow>
          (case ephemeralRemainder other_eq content redacted of
             Inl e \<Rightarrow> Inl e
           | Inr out \<Rightarrow> Inr (case r of None \<Rightarrow> out | Some v \<Rightarrow> (key, v) # out)))"

definition SplitRedactionContent ::
    "(gval \<Rightarrow> gval \<Rightarrow> bool result) \<Rightarrow> gmap \<Rightarrow> bytes \<Rightarrow> (gmap \<times> gmap) result" where
  "SplitRedactionContent other_eq content eventType =
     (let rule = RedactionPreservedKeys eventType;
          redacted = redactContent content rule
      in case ephemeralRemainder other_eq content redacted of
           Inl e \<Rightarrow> Inl e
         | Inr ephemeral \<Rightarrow> Inr (redacted, ephemeral))"

section \<open>Comparing plain values\<close>

text \<open>Values \<open>==\<close> and \<open>deepEqual\<close> are total on: no slices, no NaN, no pointers, only \<open>map[string]any\<close>.\<close>

primrec plain :: "gval \<Rightarrow> bool" where
  "plain GNil = True"
| "plain (GBool b) = True"
| "plain (GString s) = True"
| "plain (GInt k i) = True"
| "plain (GUint k u) = True"
| "plain (GFloat f) = (f \<noteq> F64NaN)"
| "plain (GNumber s) = True"
| "plain (GSlice k vs) = False"
| "plain (GMap kind m) = (kind = MapStringAny \<and> distinct (map fst m) \<and> list_all id (map snd (map (map_prod id plain) m)))"
| "plain (GPtr p) = False"
| "plain GOther = False"

definition plain_map :: "gmap \<Rightarrow> bool" where
  "plain_map m \<longleftrightarrow> distinct (map fst m) \<and> (\<forall>v \<in> snd ` set m. plain v)"

lemma plain_GMap [simp]: "plain (GMap kind m) \<longleftrightarrow> kind = MapStringAny \<and> plain_map m"
  by (auto simp: plain_map_def list_all_iff)

declare plain.simps(9) [simp del]

lemma plain_mapD: "plain_map m \<Longrightarrow> map_of m k = Some v \<Longrightarrow> plain v"
  by (auto simp: plain_map_def dest!: map_of_SomeD)

lemma plain_map_Cons [simp]:
  "plain_map ((k, v) # m) \<longleftrightarrow> k \<notin> fst ` set m \<and> plain v \<and> plain_map m"
  by (auto simp: plain_map_def)

lemma plain_map_Nil [simp]: "plain_map []"
  by (simp add: plain_map_def)

lemma f64_eq_refl: "x \<noteq> F64NaN \<Longrightarrow> f64_eq x x"
  by (cases x) (auto simp: f64_eq_def)

lemma as_map_plain: "plain a \<Longrightarrow> as_map (Some a) = Some m \<Longrightarrow> a = GMap MapStringAny m \<and> plain_map m"
  by (auto simp: as_map_Some_iff)

lemma interface_eq_plain:
  "plain a \<Longrightarrow> as_map (Some a) = None \<Longrightarrow> is_ok (interface_eq eqo a b)"
  "plain a \<Longrightarrow> as_map (Some a) = None \<Longrightarrow> interface_eq eqo a a = Inr True"
  by (cases a; simp add: interface_eq_def f64_eq_refl)+

lemma deepEqual_plain_total:
  "plain a \<Longrightarrow> is_ok (deepEqual eqo a b)"
  "\<forall>v \<in> snd ` set am. plain v \<Longrightarrow> is_ok (deepEqualEntries eqo am bm)"
proof (induction eqo a b and eqo am bm rule: deepEqual_deepEqualEntries.induct)
  case (1 eqo a b)
  then show ?case
    using as_map_plain [OF 1(2)]
    by (subst deepEqual.simps) (auto simp: plain_map_def interface_eq_plain(1) split: option.splits)
next
  case (3 eqo kv am bm)
  then show ?case by (auto split: option.splits sum.splits)
qed simp

lemma deepEqual_refl:
  "plain a \<Longrightarrow> b = a \<Longrightarrow> deepEqual eqo a b = Inr True"
  "\<forall>v \<in> snd ` set am. plain v \<Longrightarrow> \<forall>kv \<in> set am. map_of bm (fst kv) = Some (snd kv) \<Longrightarrow>
   deepEqualEntries eqo am bm = Inr True"
proof (induction eqo a b and eqo am bm rule: deepEqual_deepEqualEntries.induct)
  case (1 eqo a b)
  show ?case
  proof (cases "as_map (Some a)")
    case None
    then show ?thesis using 1 interface_eq_plain(2) by (simp add: deepEqual.simps)
  next
    case (Some m)
    then have "plain_map m" using as_map_plain 1 by blast
    then have "deepEqualEntries eqo m m = Inr True"
      using 1 Some by (auto simp: plain_map_def)
    then show ?thesis using Some 1 by (simp add: deepEqual.simps)
  qed
qed auto

text \<open>\<open>deepEqual\<close> on two maps of which the first is a restriction of the second.\<close>

definition submap :: "gmap \<Rightarrow> gmap \<Rightarrow> bool" where
  "submap m n \<longleftrightarrow> (\<forall>k v. map_of m k = Some v \<longrightarrow> map_of n k = Some v)"

lemma deepEqual_submap:
  assumes "plain_map m" "plain_map n" "submap m n"
  shows "deepEqual eqo (GMap MapStringAny m) (GMap MapStringAny n) = Inr (length m = length n)"
proof -
  have "\<forall>kv \<in> set m. map_of n (fst kv) = Some (snd kv)"
    using assms by (auto simp: submap_def plain_map_def)
  then have "deepEqualEntries eqo m n = Inr True"
    using deepEqual_refl(2) assms(1) by (simp add: plain_map_def)
  then show ?thesis by (simp add: deepEqual.simps)
qed

lemma submap_length_eq:
  assumes "plain_map m" "plain_map n" "submap m n" "length m = length n"
  shows "map_of m = map_of n"
proof -
  have "dom (map_of m) \<subseteq> dom (map_of n)" using assms(3) by (auto simp: submap_def)
  moreover have "card (dom (map_of m)) = card (dom (map_of n))"
    using assms by (simp add: plain_map_def dom_map_of_conv_image_fst card_image distinct_map distinct_card [symmetric])
  ultimately have "dom (map_of m) = dom (map_of n)" by (intro card_subset_eq) (simp_all add: finite_dom_map_of)
  then show ?thesis using assms(3) by (auto simp: submap_def dom_def set_eq_iff intro!: ext) (metis option.exhaust)
qed


section \<open>What redaction keeps\<close>

definition inviteKey :: bytes where "inviteKey = str ''third_party_invite''"
definition signedKey :: bytes where "signedKey = str ''signed''"

text \<open>The keys a rule names without a dot; the only dotted path is \<open>third_party_invite.signed\<close>.\<close>

definition plain_keys :: "redaction_rule \<Rightarrow> bytes list" where
  "plain_keys rule = filter (\<lambda>p. splitDottedPath p = None) (rule_keys rule)"

text \<open>The specification of redaction: the value of a key after it.\<close>

definition kept :: "bytes \<Rightarrow> gmap \<Rightarrow> bytes \<Rightarrow> gval option" where
  "kept eventType content k =
     (if eventType = str ''m.room.create'' \<or> k \<in> set (plain_keys (RedactionPreservedKeys eventType))
      then map_of content k
      else if eventType = str ''m.room.member'' \<and> k = inviteKey then
        (case as_map (map_of content k) of
           None \<Rightarrow> None
         | Some inner \<Rightarrow> map_option (\<lambda>v. GMap MapStringAny [(signedKey, v)]) (map_of inner signedKey))
      else None)"

lemma splitDottedPath_None_iff: "splitDottedPath p = None \<longleftrightarrow> 46 \<notin> set p"
  by (induction p) (auto split: option.splits)

lemma redact_plain_path:
  "splitDottedPath p = None \<Longrightarrow>
   map_of (redact_path content p out) k = (if k = p \<and> map_of content p \<noteq> None then map_of content p else map_of out k)"
  by (auto simp: redact_path_def split: option.splits)

lemma redact_plain_paths:
  "list_all (\<lambda>p. splitDottedPath p = None) ps \<Longrightarrow>
   map_of (foldl (\<lambda>out p. redact_path content p out) out ps) k =
     (if k \<in> set ps \<and> map_of content k \<noteq> None then map_of content k else map_of out k)"
  by (induction ps arbitrary: out) (auto simp: redact_plain_path)

lemma redact_dotted:
  assumes "splitDottedPath p = Some (a, b)" "map_of out a = None"
  shows "map_of (redact_path content p out) k =
    (if k = a \<and> as_map (map_of content a) \<noteq> None \<and> map_of (the (as_map (map_of content a))) b \<noteq> None
     then Some (GMap MapStringAny [(b, the (map_of (the (as_map (map_of content a))) b))])
     else map_of out k)"
  using assms by (auto simp: redact_path_def split: option.splits)

lemma rule_cases:
  obtains (create) "ty = str ''m.room.create''" | (member) "ty = str ''m.room.member''"
  | (other) "ty \<noteq> str ''m.room.create''" "ty \<noteq> str ''m.room.member''"
      "rule_all (RedactionPreservedKeys ty) = False"
      "list_all (\<lambda>p. splitDottedPath p = None) (rule_keys (RedactionPreservedKeys ty))"
  by (cases "ty = str ''m.room.create''"; cases "ty = str ''m.room.member''")
    (simp_all add: RedactionPreservedKeys_def RedactionRuleNone_def RedactionRuleKeys_def)

lemma member_rule:
  "RedactionPreservedKeys (str ''m.room.member'') =
     RedactionRuleKeys ([str ''membership'', str ''join_authorised_via_users_server''] @ [str ''third_party_invite.signed''])"
  by (simp add: RedactionPreservedKeys_def)

lemma member_paths:
  "splitDottedPath (str ''third_party_invite.signed'') = Some (inviteKey, signedKey)"
  "plain_keys (RedactionPreservedKeys (str ''m.room.member'')) = [str ''membership'', str ''join_authorised_via_users_server'']"
  unfolding member_rule by (simp_all add: inviteKey_def signedKey_def plain_keys_def RedactionRuleKeys_def)

lemma redact_kept: "map_of (redactContent content (RedactionPreservedKeys ty)) k = kept ty content k"
proof (cases ty rule: rule_cases)
  case create
  then show ?thesis by (simp add: redactContent_def RedactionPreservedKeys_def RedactionRuleAll_def kept_def)
next
  case member
  let ?ps = "[str ''membership'', str ''join_authorised_via_users_server'']"
  let ?out = "foldl (\<lambda>out p. redact_path content p out) [] ?ps"
  have k: "k \<noteq> inviteKey" if "k \<in> set ?ps" for k using that by (auto simp: inviteKey_def)
  have o: "map_of ?out k = (if k \<in> set ?ps then map_of content k else None)" for k
    using redact_plain_paths [of ?ps content "[]" k] by auto
  have "redactContent content (RedactionPreservedKeys ty) =
      redact_path content (str ''third_party_invite.signed'') ?out"
    unfolding member member_rule by (simp add: redactContent_def RedactionRuleKeys_def del: str_simps)
  moreover have "map_of ?out inviteKey = None" using o k by auto
  ultimately have "map_of (redactContent content (RedactionPreservedKeys ty)) k =
    (if k = inviteKey \<and> as_map (map_of content inviteKey) \<noteq> None \<and>
        map_of (the (as_map (map_of content inviteKey))) signedKey \<noteq> None
     then Some (GMap MapStringAny [(signedKey, the (map_of (the (as_map (map_of content inviteKey))) signedKey))])
     else map_of ?out k)"
    using redact_dotted [OF member_paths(1)] by simp
  moreover have "str ''m.room.member'' \<noteq> str ''m.room.create''" by simp
  ultimately show ?thesis
    using o [of k] k [of k] unfolding kept_def member member_paths(2)
    by (auto simp del: str_simps split: option.splits)
next
  case other
  then have "plain_keys (RedactionPreservedKeys ty) = rule_keys (RedactionPreservedKeys ty)"
    by (simp add: plain_keys_def list_all_iff)
  with other show ?thesis
    using redact_plain_paths [OF other(4), of content "[]" k] by (simp add: redactContent_def kept_def del: str_simps)
qed

section \<open>The remainder\<close>

definition remainder_spec :: "gmap \<Rightarrow> bytes \<Rightarrow> gval \<Rightarrow> gval option" where
  "remainder_spec redacted k v =
     (case map_of redacted k of
        None \<Rightarrow> Some v
      | Some p \<Rightarrow>
          (case (as_map (Some p), as_map (Some v)) of
             (Some m, Some n) \<Rightarrow>
               (let rest = filter (\<lambda>kv. map_of m (fst kv) = None \<and> snd kv \<noteq> GNil) n
                in if rest = [] then None else Some (GMap MapStringAny rest))
           | _ \<Rightarrow> None))"

lemma deepEqual_GNil: "plain v \<Longrightarrow> deepEqual eqo GNil v = Inr (v = GNil)"
  by (cases "as_map (Some v)") (auto simp: deepEqual.simps interface_eq_def as_map_Some_iff)

lemma inner_remainder_spec:
  assumes "plain_map m" "submap m n"
  shows "plain_map n' \<Longrightarrow> \<forall>kv \<in> set n'. map_of n (fst kv) = Some (snd kv) \<Longrightarrow>
   inner_remainder eqo m n' = Inr (filter (\<lambda>kv. map_of m (fst kv) = None \<and> snd kv \<noteq> GNil) n')"
proof (induction n')
  case (Cons kv n')
  obtain k v where kv: "kv = (k, v)" by (cases kv)
  have "deepEqual eqo (map_index m k) v = Inr (map_of m k \<noteq> None \<or> v = GNil)"
  proof (cases "map_of m k")
    case None
    then show ?thesis using Cons.prems deepEqual_GNil by (simp add: kv map_index_def)
  next
    case (Some w)
    then have "v = w" "plain v" using assms Cons.prems by (auto simp: kv submap_def)
    then show ?thesis using Some deepEqual_refl(1) by (simp add: map_index_def)
  qed
  then show ?case using Cons by (simp add: kv)
qed simp

lemma remainder_entry_eq:
  assumes p: "map_of redacted k = Some (GMap MapStringAny m)" and pl: "plain_map m" "plain_map n" and s: "submap m n"
  shows "remainder_entry eqo redacted k (GMap MapStringAny n) = Inr (remainder_spec redacted k (GMap MapStringAny n))"
proof -
  have inner: "inner_remainder eqo m n = Inr (filter (\<lambda>kv. map_of m (fst kv) = None \<and> snd kv \<noteq> GNil) n)"
    using inner_remainder_spec [OF pl(1) s pl(2)] pl(2) by (simp add: plain_map_def)
  have "filter (\<lambda>kv. map_of m (fst kv) = None \<and> snd kv \<noteq> GNil) n = []" if "length m = length n"
    using submap_length_eq [OF pl s that] pl(2) by (auto simp: filter_empty_conv plain_map_def)
  then show ?thesis
    using deepEqual_submap [OF pl s, of eqo] inner
    by (auto simp: remainder_entry_def remainder_spec_def p Let_def split: bool.splits)
qed

text \<open>A redacted map holds values of the content or restrictions of its maps.\<close>

definition restricts :: "gmap \<Rightarrow> gmap \<Rightarrow> bool" where
  "restricts r c \<longleftrightarrow> (\<forall>k v. map_of r k = Some v \<longrightarrow>
     map_of c k = Some v \<or>
     k = inviteKey \<and> (\<exists>m n. v = GMap MapStringAny m \<and> map_of c k = Some (GMap MapStringAny n) \<and> plain_map m \<and> submap m n))"

lemma restrictsD:
  assumes "restricts r c" "map_of r k = Some p" "map_of c k = Some v"
  shows "p = v \<or> k = inviteKey \<and>
    (\<exists>m n. p = GMap MapStringAny m \<and> v = GMap MapStringAny n \<and> plain_map m \<and> submap m n)"
proof -
  have "map_of c k = Some p \<or> k = inviteKey \<and> (\<exists>m n. p = GMap MapStringAny m \<and>
      map_of c k = Some (GMap MapStringAny n) \<and> plain_map m \<and> submap m n)"
    using assms(1,2) unfolding restricts_def by blast
  then show ?thesis using assms(3) by auto
qed

text \<open>Contents whose values can be compared wherever redaction keeps something; what it drops may be any value.\<close>

definition comparable :: "bytes \<Rightarrow> gmap \<Rightarrow> bool" where
  "comparable ty content \<longleftrightarrow> distinct (map fst content) \<and>
     (\<forall>k v. map_of content k = Some v \<and> kept ty content k \<noteq> None \<longrightarrow> plain v)"

lemma comparableD:
  "comparable ty content \<Longrightarrow> map_of content k = Some v \<Longrightarrow>
   map_of (redactContent content (RedactionPreservedKeys ty)) k \<noteq> None \<Longrightarrow> plain v"
  unfolding comparable_def redact_kept by blast

lemma restricts_redact:
  assumes "comparable ty content"
  shows "restricts (redactContent content (RedactionPreservedKeys ty)) content"
  unfolding restricts_def redact_kept
proof (intro allI impI)
  fix k v assume v: "kept ty content k = Some v"
  show "map_of content k = Some v \<or> k = inviteKey \<and> (\<exists>m n. v = GMap MapStringAny m \<and>
      map_of content k = Some (GMap MapStringAny n) \<and> plain_map m \<and> submap m n)"
  proof (cases "map_of content k = Some v")
    case False
    then obtain n w where *: "k = inviteKey" "as_map (map_of content k) = Some n" "map_of n signedKey = Some w"
        "v = GMap MapStringAny [(signedKey, w)]"
      using v by (auto simp: kept_def simp del: str_simps split: if_splits option.splits)
    moreover from this obtain u where u: "map_of content k = Some u" by (cases "map_of content k") auto
    moreover have "plain u" using comparableD [OF assms u] v unfolding redact_kept by simp
    ultimately have "plain w" "map_of content k = Some (GMap MapStringAny n)"
      by (auto dest!: as_map_plain dest: plain_mapD)
    then show ?thesis using * by (auto simp: submap_def)
  qed simp
qed

lemma remainder_entry_spec:
  fixes ty :: bytes and content :: gmap
  defines "r \<equiv> redactContent content (RedactionPreservedKeys ty)"
  assumes c: "comparable ty content" and r: "restricts r content" and k: "map_of content k = Some v"
  shows "remainder_entry eqo r k v = Inr (remainder_spec r k v)"
proof (cases "map_of r k")
  case None
  then show ?thesis by (simp add: remainder_entry_def remainder_spec_def)
next
  case (Some p)
  have v: "plain v" using comparableD [OF c k] Some unfolding r_def by simp
  consider m n where "p = GMap MapStringAny m" "v = GMap MapStringAny n" "plain_map m" "submap m n"
    | "p = v" "as_map (Some v) = None"
  proof (cases "as_map (Some v)")
    case None
    then show thesis using that restrictsD [OF r Some k] by auto
  next
    case (Some n)
    then have "v = GMap MapStringAny n" "plain_map n" using as_map_plain v by blast+
    then show thesis using that restrictsD [OF r \<open>map_of r k = Some p\<close> k] by (auto simp: submap_def)
  qed
  then show ?thesis
  proof cases
    case 1
    then show ?thesis using remainder_entry_eq Some v by simp
  next
    case 2
    then show ?thesis using Some deepEqual_refl(1) [OF v refl] by (simp add: remainder_entry_def remainder_spec_def)
  qed
qed

lemma ephemeralRemainder_spec:
  fixes ty :: bytes and content :: gmap
  defines "r \<equiv> redactContent content (RedactionPreservedKeys ty)"
  assumes c: "comparable ty content" and r: "restricts r content"
  shows "\<forall>kv \<in> set c. map_of content (fst kv) = Some (snd kv) \<Longrightarrow>
    ephemeralRemainder eqo c r =
      Inr (List.map_filter (\<lambda>kv. map_option (Pair (fst kv)) (remainder_spec r (fst kv) (snd kv))) c)"
proof (induction c)
  case (Cons kv c)
  obtain k v where kv: "kv = (k, v)" by (cases kv)
  then have "remainder_entry eqo r k v = Inr (remainder_spec r k v)"
    using remainder_entry_spec [OF c r [unfolded r_def], folded r_def] Cons.prems by simp
  then show ?case using Cons by (simp add: kv map_filter_simps split: option.splits)
qed (simp add: map_filter_simps)

lemma map_of_map_filter:
  "distinct (map fst c) \<Longrightarrow>
   map_of (List.map_filter (\<lambda>kv. map_option (Pair (fst kv)) (f (fst kv) (snd kv))) c) k =
     (case map_of c k of None \<Rightarrow> None | Some v \<Rightarrow> f k v)"
proof (induction c)
  case (Cons kv c)
  have n: "map_of c (fst kv) = None" using Cons.prems by (simp add: map_of_eq_None_iff)
  show ?case using Cons n by (cases kv) (auto simp: map_filter_simps split: option.splits)
qed (simp add: map_filter_simps)

lemma Split_plain:
  fixes ty :: bytes and content :: gmap
  assumes "comparable ty content"
  defines "r \<equiv> redactContent content (RedactionPreservedKeys ty)"
  shows "\<exists>e. SplitRedactionContent eqo content ty = Inr (r, e) \<and>
    (\<forall>k. map_of e k = (case map_of content k of None \<Rightarrow> None | Some v \<Rightarrow> remainder_spec r k v))"
proof -
  have r: "restricts r content" unfolding r_def by (rule restricts_redact [OF assms(1)])
  have "\<forall>kv \<in> set content. map_of content (fst kv) = Some (snd kv)" using assms(1) by (simp add: comparable_def)
  from ephemeralRemainder_spec [OF assms(1) r [unfolded r_def], folded r_def, OF this, of eqo] show ?thesis
    using map_of_map_filter [of content "remainder_spec r"] assms(1)
    by (simp add: SplitRedactionContent_def Let_def comparable_def flip: r_def)
qed


section \<open>Recombining the two parts\<close>

definition recombine :: "gmap \<Rightarrow> gmap \<Rightarrow> bytes \<Rightarrow> gval option" where
  "recombine r e k =
     (case map_of r k of
        None \<Rightarrow> map_of e k
      | Some p \<Rightarrow>
          (case (as_map (Some p), as_map (map_of e k)) of
             (Some m, Some n) \<Rightarrow> Some (GMap MapStringAny (m @ n))
           | _ \<Rightarrow> Some p))"

text \<open>Equal up to the order of the entries of a map.\<close>

definition same_value :: "gval option \<Rightarrow> gval option \<Rightarrow> bool" where
  "same_value v w \<longleftrightarrow> v = w \<or>
     (\<exists>m n. v = Some (GMap MapStringAny m) \<and> w = Some (GMap MapStringAny n) \<and> map_of m = map_of n)"

definition disjoint_values :: "gval option \<Rightarrow> gval option \<Rightarrow> bool" where
  "disjoint_values v w \<longleftrightarrow> v = None \<or> w = None \<or>
     (\<exists>m n. v = Some (GMap MapStringAny m) \<and> w = Some (GMap MapStringAny n) \<and> dom (map_of m) \<inter> dom (map_of n) = {})"

definition no_null_invite :: "gmap \<Rightarrow> bool" where
  "no_null_invite content =
     (case as_map (map_of content inviteKey) of None \<Rightarrow> True | Some n \<Rightarrow> list_all (\<lambda>kv. snd kv \<noteq> GNil) n)"

lemma map_of_filter_rest:
  assumes "distinct (map fst n)"
  shows "map_of (filter (\<lambda>kv. map_of m (fst kv) = None \<and> snd kv \<noteq> GNil) n) k =
    (if map_of m k = None \<and> map_of n k \<noteq> Some GNil then map_of n k else None)"
  using assms
proof (induction n)
  case (Cons kv n)
  then have "map_of n (fst kv) = None" by (simp add: map_of_eq_None_iff)
  with Cons show ?case by (cases kv) auto
qed simp

lemma remainder_spec_recombine:
  fixes ty :: bytes and content :: gmap
  defines "r \<equiv> redactContent content (RedactionPreservedKeys ty)"
  assumes c: "comparable ty content" and r: "restricts r content" and k: "map_of content k = Some v"
    and e: "map_of e k = remainder_spec r k v" and nn: "no_null_invite content"
  shows "same_value (recombine r e k) (Some v)" "disjoint_values (map_of r k) (map_of e k)"
proof -
  have "same_value (recombine r e k) (Some v) \<and> disjoint_values (map_of r k) (map_of e k)"
  proof (cases "map_of r k")
    case None
    then show ?thesis using e by (simp add: recombine_def same_value_def disjoint_values_def remainder_spec_def)
  next
    case (Some p)
    have v: "plain v" using comparableD [OF c k] Some unfolding r_def by simp
    show ?thesis
    proof (cases "as_map (Some v)")
      case None
      then have "p = v" using restrictsD [OF r Some k] by auto
      then show ?thesis using Some None e
        by (simp add: recombine_def same_value_def disjoint_values_def remainder_spec_def)
    next
      case m: (Some n)
      then have n: "v = GMap MapStringAny n" "plain_map n" using as_map_plain v by blast+
      then obtain m where p: "p = GMap MapStringAny m" and s: "submap m n"
        and w: "m = n \<or> k = inviteKey"
        using restrictsD [OF r Some k] by (auto simp: submap_def)
      let ?rest = "filter (\<lambda>kv. map_of m (fst kv) = None \<and> snd kv \<noteq> GNil) n"
      have d: "distinct (map fst n)" using n by (simp add: plain_map_def)
      have nonnull: "map_of m x \<noteq> None \<or> map_of n x \<noteq> Some GNil" for x
      proof (cases "m = n")
        case False
        then have "list_all (\<lambda>kv. snd kv \<noteq> GNil) n" using w nn k n by (auto simp: no_null_invite_def)
        then show ?thesis by (auto simp: list_all_iff dest!: map_of_SomeD)
      qed auto
      have ek: "map_of e k = (if ?rest = [] then None else Some (GMap MapStringAny ?rest))"
        using e by (simp add: remainder_spec_def Some p n Let_def)
      have rest: "map_of ?rest x = (if map_of m x = None \<and> map_of n x \<noteq> Some GNil then map_of n x else None)" for x
        using map_of_filter_rest [OF d] by blast
      have "map_of (m @ ?rest) x = map_of n x" for x
        using rest [of x] nonnull [of x] s by (cases "map_of m x") (auto simp: submap_def map_add_def split: option.splits)
      then have all: "map_of (m @ ?rest) = map_of n" by blast
      have dis: "dom (map_of m) \<inter> dom (map_of ?rest) = {}" using rest by (auto split: if_splits)
      show ?thesis
        using all dis by (auto simp: recombine_def same_value_def disjoint_values_def Some p n ek)
    qed
  qed
  then show "same_value (recombine r e k) (Some v)" "disjoint_values (map_of r k) (map_of e k)" by blast+
qed

section \<open>Properties\<close>

text \<open>What redaction preserves. The redacted part holds every key for \<open>m.room.create\<close>; for the other
  event types it holds, with unchanged values, exactly the keys of the room version 11 rule that the
  content has, and for \<open>m.room.member\<close> the key \<open>signed\<close> alone of the map \<open>third_party_invite\<close>.\<close>

theorem redactContent_keeps:
  "map_of (redactContent content (RedactionPreservedKeys ty)) k = kept ty content k"
  by (rule redact_kept)

text \<open>C24: the split loses nothing. For content whose keys are distinct, that has no null inside
  \<open>third_party_invite\<close>, and where the keys of which redaction keeps something have values without slices, NaN or exotic types
  (what redaction drops may hold anything), \<open>SplitRedactionContent\<close> returns two parts that recombine to the
  content key by key, and no key, at the top level or inside \<open>third_party_invite\<close>, is in both.\<close>

theorem SplitRedactionContent_lossless:
  assumes "distinct (map fst content)" and "no_null_invite content"
    and "\<And>k v. map_of content k = Some v \<Longrightarrow> kept ty content k \<noteq> None \<Longrightarrow> plain v"
  shows "\<exists>r e. SplitRedactionContent other_eq content ty = Inr (r, e) \<and>
    (\<forall>k. same_value (recombine r e k) (map_of content k) \<and> disjoint_values (map_of r k) (map_of e k))"
proof -
  let ?r = "redactContent content (RedactionPreservedKeys ty)"
  have c: "comparable ty content" using assms(1,3) unfolding comparable_def by blast
  obtain e where e: "SplitRedactionContent other_eq content ty = Inr (?r, e)"
    "\<And>k. map_of e k = (case map_of content k of None \<Rightarrow> None | Some v \<Rightarrow> remainder_spec ?r k v)"
    using Split_plain [OF c, of other_eq] by blast
  have "same_value (recombine ?r e k) (map_of content k) \<and> disjoint_values (map_of ?r k) (map_of e k)" for k
  proof (cases "map_of content k")
    case None
    then have "map_of ?r k = None" by (auto simp: redact_kept kept_def split: option.splits)
    then show ?thesis using None e(2) [of k] by (simp add: recombine_def same_value_def disjoint_values_def)
  next
    case (Some v)
    then show ?thesis
      using remainder_spec_recombine [OF c restricts_redact [OF c] Some, of e] assms(2) e(2) [of k]
      by simp
  qed
  then show ?thesis using e(1) by blast
qed

text \<open>An invitation with a list under a key that redaction drops.\<close>

definition sample_invite :: gmap where
  "sample_invite =
     [(str ''membership'', GString (str ''invite'')), (str ''aliases'', GSlice SliceAny [GNil]),
      (inviteKey, GMap MapStringAny [(str ''display_name'', GString (str ''a'')), (signedKey, GMap MapStringAny [])])]"

theorem SplitRedactionContent_lossless_witness:
  "\<exists>r e. SplitRedactionContent (\<lambda>_ _. Inr False) sample_invite (str ''m.room.member'') = Inr (r, e) \<and>
    (\<forall>k. same_value (recombine r e k) (map_of sample_invite k) \<and> disjoint_values (map_of r k) (map_of e k))"
proof (rule SplitRedactionContent_lossless)
  fix k v
  assume "map_of sample_invite k = Some v" "kept (str ''m.room.member'') sample_invite k \<noteq> None"
  then show "plain v"
    unfolding kept_def member_paths(2) by (auto simp: sample_invite_def inviteKey_def signedKey_def split: if_splits)
qed (simp_all add: sample_invite_def no_null_invite_def inviteKey_def signedKey_def)

text \<open>The split panics on a preserved value that is a list. If redaction preserves a key whose value
  is a \<open>[]any\<close>, such as \<open>allow\<close> of a restricted \<open>m.room.join_rules\<close> event, comparing the preserved
  value with itself panics and \<open>SplitRedactionContent\<close> returns nothing, whatever the other keys are.\<close>

theorem SplitRedactionContent_panics_on_slice:
  assumes "distinct (map fst content)" and "map_of content key = Some (GSlice SliceAny xs)"
    and "kept ty content key = Some (GSlice SliceAny xs)"
  shows "\<not> is_ok (SplitRedactionContent other_eq content ty)"
proof -
  let ?r = "redactContent content (RedactionPreservedKeys ty)"
  have "deepEqual other_eq (GSlice SliceAny xs) (GSlice SliceAny xs) = Inl RuntimePanic"
    by (simp add: deepEqual.simps interface_eq_def)
  then have e: "remainder_entry other_eq ?r key (GSlice SliceAny xs) = Inl RuntimePanic"
    using assms(3) by (simp add: remainder_entry_def redact_kept)
  have "\<not> is_ok (ephemeralRemainder other_eq c ?r)" if "(key, GSlice SliceAny xs) \<in> set c" for c
    using that by (induction c) (auto simp: e split: sum.splits)
  then have "\<not> is_ok (ephemeralRemainder other_eq content ?r)" using assms(2) map_of_SomeD by fast
  then show ?thesis by (auto simp: SplitRedactionContent_def Let_def split: sum.splits)
qed

theorem SplitRedactionContent_panics_on_slice_witness:
  "\<not> is_ok (SplitRedactionContent (\<lambda>_ _. Inr False)
      [(str ''join_rule'', GString (str ''restricted'')), (str ''allow'', GSlice SliceAny [])]
      (str ''m.room.join_rules''))"
  by (rule SplitRedactionContent_panics_on_slice [where key = "str ''allow''" and xs = "[]"])
    (simp_all add: kept_def plain_keys_def RedactionPreservedKeys_def RedactionRuleKeys_def)

end
