(* ===== verification/EventVectors.thy ===== *)
theory EventVectors
  imports MerkleTree CausalTrie Redaction Hex
begin

text \<open>
  The commands that print the vectors of package \<open>merkle\<close>: \<open>cmd/merkle-vectors\<close>, \<open>cmd/causal-vectors\<close> and
  \<open>cmd/redacted-event-vectors\<close>. A command is the function from its data to what it prints; an error or a panic ends it.
\<close>

section \<open>merkle-vectors\<close>

record merkle_vectors =
  Schema :: bytes
  FieldRootHex :: bytes
  EventHeaderRootHex :: bytes
  PrevEventsHashHex :: bytes
  AuthEventsHashHex :: bytes
  ContentHashHex :: bytes
  OtherSignedFieldsHashHex :: bytes
  EventRootHex :: bytes
  EventIDString :: bytes

definition sampleFields :: "field list" where
  "sampleFields =
     [\<lparr>field_name = str ''depth'', field_value = GInt KInt64 7\<rparr>,
      \<lparr>field_name = str ''event_id'', field_value = GString (str ''$b:example.org'')\<rparr>,
      \<lparr>field_name = str ''prev_events_hash'', field_value = GString (str ''sha256:abc'')\<rparr>,
      \<lparr>field_name = str ''rejected'', field_value = GBool False\<rparr>]"

definition sampleHeader :: header where
  "sampleHeader =
     \<lparr>RoomID = str ''!room:example.org'', SenderLocalpart = str ''alice'', SenderDomain = str ''example.org'',
      Type = str ''m.room.message'', StateKey = None, Redacts = None, Depth = 42, OriginServerTS = 123456789\<rparr>"

definition merkle_vectors_run :: "(bytes \<Rightarrow> bytes) \<Rightarrow> merkle_vectors result" where
  "merkle_vectors_run H =
     (case Root H sampleFields of
        Inl e \<Rightarrow> Inl e
      | Inr fieldRoot \<Rightarrow>
        (case HeaderRoot H sampleHeader of
           Inl e \<Rightarrow> Inl e
         | Inr headerRoot \<Rightarrow>
           (case ComponentHash H (str ''prev_events'') (GSlice SliceAny [GString (str ''$a:example.org'')]) of
              Inl e \<Rightarrow> Inl e
            | Inr prevEventsHash \<Rightarrow>
              (case ComponentHash H (str ''auth_events'') (GSlice SliceAny [GString (str ''$auth:example.org'')]) of
                 Inl e \<Rightarrow> Inl e
               | Inr authEventsHash \<Rightarrow>
                 (case ComponentHash H (str ''content'') (GMap MapStringAny
                         [(str ''body'', GString (str ''hello'')), (str ''msgtype'', GString (str ''m.text''))]) of
                    Inl e \<Rightarrow> Inl e
                  | Inr contentHash \<Rightarrow>
                    (case ComponentHash H (str ''other_signed_fields'') (GMap MapStringAny
                            [(str ''origin'', GString (str ''example.org''))]) of
                       Inl e \<Rightarrow> Inl e
                     | Inr otherSignedFieldsHash \<Rightarrow>
                         let eventRoot = EventRoot H prevEventsHash authEventsHash headerRoot contentHash otherSignedFieldsHash
                         in Inr \<lparr>Schema = str ''msc4511-merkle-vectors-v1'', FieldRootHex = hex_encode fieldRoot,
                                 EventHeaderRootHex = hex_encode headerRoot, PrevEventsHashHex = hex_encode prevEventsHash,
                                 AuthEventsHashHex = hex_encode authEventsHash, ContentHashHex = hex_encode contentHash,
                                 OtherSignedFieldsHashHex = hex_encode otherSignedFieldsHash, EventRootHex = hex_encode eventRoot,
                                 EventIDString = EventID eventRoot\<rparr>))))))"

section \<open>causal-vectors\<close>

definition keyFromEventID :: "bytes \<Rightarrow> bytes result" where
  "keyFromEventID i =
     (case hex_decode i of
        None \<Rightarrow> Inl RuntimePanic | Some raw \<Rightarrow> if length raw \<noteq> 32 then Inl RuntimePanic else Inr raw)"

record causal_vectors =
  empty_root_hex :: bytes
  empty_count :: u64
  single_root_hex :: bytes
  single_count :: u64
  merge_root_hex :: bytes
  merge_count :: u64
  inclusion_key_hex :: bytes
  inclusion_flag :: bool
  non_inclusion_key_hex :: bytes
  non_inclusion_flag :: bool

definition causal_cases :: "(bytes \<Rightarrow> bytes) \<Rightarrow> bytes \<Rightarrow> bytes \<Rightarrow> bytes \<Rightarrow> bytes \<Rightarrow> causal_vectors" where
  "causal_cases H keyA keyB keyC keyD =
     (let none = EmptyCausalSet;
          single = Insert none keyA;
          branchLeft = Insert (Insert none keyA) keyB;
          branchRight = Insert (Insert none keyA) keyC;
          merged = Union branchLeft branchRight
      in \<lparr>empty_root_hex = hex_encode (CausalRoot H none), empty_count = Count none,
          single_root_hex = hex_encode (CausalRoot H single), single_count = Count single,
          merge_root_hex = hex_encode (CausalRoot H merged), merge_count = Count merged,
          inclusion_key_hex = hex_encode keyB, inclusion_flag = Contains merged keyB,
          non_inclusion_key_hex = hex_encode keyD, non_inclusion_flag = Contains merged keyD\<rparr>)"

text \<open>The four keys of the command: one byte, repeated in hexadecimal.\<close>

definition key_text :: "string \<Rightarrow> bytes" where
  "key_text s = concat (replicate 32 (str s))"

definition causal_vectors_main :: "(bytes \<Rightarrow> bytes) \<Rightarrow> causal_vectors result" where
  "causal_vectors_main H =
     (case sequence_results (map keyFromEventID [key_text ''a1'', key_text ''b2'', key_text ''c3'', key_text ''d4'']) of
        Inr [keyA, keyB, keyC, keyD] \<Rightarrow> Inr (causal_cases H keyA keyB keyC keyD)
      | _ \<Rightarrow> Inl RuntimePanic)"

section \<open>redacted-event-vectors\<close>

record event_data =
  ev_header :: header
  ev_content :: gmap
  ev_prevEvents :: gval
  ev_authEvents :: gval
  ev_otherSignedFields :: gval
  ev_predecessor :: bytes

record event_vectors =
  redacted_content :: gmap
  ephemeral_content :: gmap
  redacted_hash_hex :: bytes
  ephemeral_hash_hex :: bytes
  content_hash_hex :: bytes
  root_before_hex :: bytes
  id_before :: bytes
  root_after_hex :: bytes
  id_after :: bytes
  id_unchanged :: bool
  leaf_path_matches :: bool
  leaf_path_steps :: nat
  inclusion_ok :: bool
  inclusion_verifies :: bool

definition sha3Key :: "(bytes \<Rightarrow> bytes) \<Rightarrow> bytes \<Rightarrow> bytes result" where
  "sha3Key H s = ComponentHash H (str ''causal_vector_key'') (GString s)"

text \<open>The fields that the command lists again for the proof of a leaf; \<open>*header.StateKey\<close> panics on a nil pointer.\<close>

definition vector_header_fields :: "header \<Rightarrow> field list result" where
  "vector_header_fields h =
     (case StateKey h of
        None \<Rightarrow> Inl RuntimePanic
      | Some stateKey \<Rightarrow> Inr
          [\<lparr>field_name = str ''room_id'', field_value = GString (RoomID h)\<rparr>,
           \<lparr>field_name = str ''sender_localpart'', field_value = GString (SenderLocalpart h)\<rparr>,
           \<lparr>field_name = str ''sender_domain'', field_value = GString (SenderDomain h)\<rparr>,
           \<lparr>field_name = str ''type'', field_value = GString (Type h)\<rparr>,
           \<lparr>field_name = str ''state_key'', field_value = GString stateKey\<rparr>,
           \<lparr>field_name = str ''redacts'', field_value = GNil\<rparr>,
           \<lparr>field_name = str ''depth'', field_value = GInt KInt64 (Depth h)\<rparr>,
           \<lparr>field_name = str ''origin_server_ts'', field_value = GInt KInt64 (OriginServerTS h)\<rparr>])"

text \<open>The hashes of the event: header, previous events, authorization events, other fields.\<close>

definition event_hashes :: "(bytes \<Rightarrow> bytes) \<Rightarrow> event_data \<Rightarrow> (bytes \<times> bytes \<times> bytes \<times> bytes) result" where
  "event_hashes H ev =
     (case HeaderRoot H (ev_header ev) of
        Inl e \<Rightarrow> Inl e
      | Inr headerRoot \<Rightarrow>
        (case ComponentHash H (str ''prev_events'') (ev_prevEvents ev) of
           Inl e \<Rightarrow> Inl e
         | Inr prevEventsHash \<Rightarrow>
           (case ComponentHash H (str ''auth_events'') (ev_authEvents ev) of
              Inl e \<Rightarrow> Inl e
            | Inr authEventsHash \<Rightarrow>
              (case ComponentHash H (str ''other_signed_fields'') (ev_otherSignedFields ev) of
                 Inl e \<Rightarrow> Inl e
               | Inr otherSignedFieldsHash \<Rightarrow> Inr (headerRoot, prevEventsHash, authEventsHash, otherSignedFieldsHash)))))"

text \<open>The two parts of the content and their hashes.\<close>

definition split_hashes ::
  "(bytes \<Rightarrow> bytes) \<Rightarrow> (gval \<Rightarrow> gval \<Rightarrow> bool result) \<Rightarrow> gmap \<Rightarrow> bytes \<Rightarrow> (gmap \<times> gmap \<times> bytes \<times> bytes) result" where
  "split_hashes H other_eq content eventType =
     (case SplitRedactionContent other_eq content eventType of
        Inl e \<Rightarrow> Inl e
      | Inr (redactedContent, ephemeralContent) \<Rightarrow>
        (case RedactedContentHash H (GMap MapStringAny redactedContent) of
           Inl e \<Rightarrow> Inl e
         | Inr redactedContentHash \<Rightarrow>
           (case EphemeralContentHash H (GMap MapStringAny ephemeralContent) of
              Inl e \<Rightarrow> Inl e
            | Inr ephemeralContentHash \<Rightarrow> Inr (redactedContent, ephemeralContent, redactedContentHash, ephemeralContentHash))))"

definition redacted_event_vectors ::
  "(bytes \<Rightarrow> bytes) \<Rightarrow> (gval \<Rightarrow> gval \<Rightarrow> bool result) \<Rightarrow> event_data \<Rightarrow> event_vectors result" where
  "redacted_event_vectors H other_eq ev =
     (case event_hashes H ev of
        Inl e \<Rightarrow> Inl e
      | Inr (headerRoot, prevEventsHash, authEventsHash, otherSignedFieldsHash) \<Rightarrow>
        (case split_hashes H other_eq (ev_content ev) (Type (ev_header ev)) of
           Inl e \<Rightarrow> Inl e
         | Inr (redactedContent, ephemeralContent, redactedContentHash, ephemeralContentHashBefore) \<Rightarrow>
             let contentHashBefore = ContentHash H redactedContentHash ephemeralContentHashBefore;
                 eventRootBefore = EventRoot H prevEventsHash authEventsHash headerRoot contentHashBefore otherSignedFieldsHash;
                 retainedEphemeralHash = ephemeralContentHashBefore;
                 contentHashAfter = ContentHash H redactedContentHash retainedEphemeralHash;
                 eventRootAfter = EventRoot H prevEventsHash authEventsHash headerRoot contentHashAfter otherSignedFieldsHash
             in case vector_header_fields (ev_header ev) of
                  Inl e \<Rightarrow> Inl e
                | Inr headerFields \<Rightarrow>
                  (case LeafPath H headerFields (str ''sender_domain'') of
                     Inl e \<Rightarrow> Inl e
                   | Inr (senderDomainPath, provedHeaderRoot) \<Rightarrow>
                     (case sha3Key H (ev_predecessor ev) of
                        Inl e \<Rightarrow> Inl e
                      | Inr predecessor \<Rightarrow>
                          let causalSet = Insert EmptyCausalSet predecessor;
                              r = InclusionProof H causalSet predecessor
                          in Inr \<lparr>redacted_content = redactedContent, ephemeral_content = ephemeralContent,
                               redacted_hash_hex = hex_encode redactedContentHash,
                               ephemeral_hash_hex = hex_encode ephemeralContentHashBefore,
                               content_hash_hex = hex_encode contentHashBefore,
                               root_before_hex = hex_encode eventRootBefore, id_before = EventID eventRootBefore,
                               root_after_hex = hex_encode eventRootAfter, id_after = EventID eventRootAfter,
                               id_unchanged = (eventRootBefore = eventRootAfter),
                               leaf_path_matches = (provedHeaderRoot = headerRoot),
                               leaf_path_steps = length senderDomainPath,
                               inclusion_ok = ip_ok r,
                               inclusion_verifies =
                                 VerifyCausalInclusion H predecessor (ip_path r) (ip_root r) (ip_count r)\<rparr>))))"

definition vector_event :: event_data where
  "vector_event =
     \<lparr>ev_header = \<lparr>RoomID = str ''!room:example.org'', SenderLocalpart = str ''alice'', SenderDomain = str ''example.org'',
        Type = str ''m.room.member'', StateKey = Some (str ''@bob:example.org''), Redacts = None, Depth = 7, OriginServerTS = 1000\<rparr>,
      ev_content =
        [(str ''membership'', GString (str ''invite'')),
         (str ''third_party_invite'', GMap MapStringAny
            [(str ''signed'', GMap MapStringAny
                [(str ''mxid'', GString (str ''@bob:example.org'')), (str ''token'', GString (str ''abc''))]),
             (str ''display_name'', GString (str ''Bob''))])],
      ev_prevEvents = GSlice SliceAny [GString (str ''$a:example.org'')],
      ev_authEvents = GSlice SliceAny [GString (str ''$auth:example.org'')],
      ev_otherSignedFields = GMap MapStringAny [(str ''origin'', GString (str ''example.org''))],
      ev_predecessor = str ''$a:example.org''\<rparr>"

definition redacted_event_main :: "(bytes \<Rightarrow> bytes) \<Rightarrow> (gval \<Rightarrow> gval \<Rightarrow> bool result) \<Rightarrow> event_vectors result" where
  "redacted_event_main H other_eq = redacted_event_vectors H other_eq vector_event"

section \<open>The data of the commands is valid\<close>

lemma Root_valid: "fs \<noteq> [] \<Longrightarrow> valid_fields fs \<Longrightarrow> \<exists>r. Root H fs = Inr r"
  by (simp add: Root_Inr_iff)

lemma ComponentHash_valid: "valid_field \<lparr>field_name = name, field_value = v\<rparr> \<Longrightarrow> \<exists>h. ComponentHash H name v = Inr h"
  using fieldLeaf_valid_iff [of H "\<lparr>field_name = name, field_value = v\<rparr>"] by (auto simp: ComponentHash_def)

lemmas valid_data = valid_fields_def valid_field_def valid_field_name_def valid_utf8.simps utf8_class_def json_int_def
  minCanonicalInt_def maxCanonicalInt_def json_object_def optional_string_def

lemma merkle_vectors_total: "\<exists>v. merkle_vectors_run H = Inr v"
proof -
  have "\<exists>r. Root H sampleFields = Inr r"
    by (rule Root_valid) (simp_all add: sampleFields_def valid_data)
  moreover have "\<exists>r. HeaderRoot H sampleHeader = Inr r"
    unfolding HeaderRoot_def by (rule Root_valid) (simp_all add: header_fields_def sampleHeader_def valid_data)
  moreover have "\<exists>h. ComponentHash H (str ''prev_events'') (GSlice SliceAny [GString (str ''$a:example.org'')]) = Inr h"
    by (rule ComponentHash_valid) (simp add: valid_data)
  moreover have "\<exists>h. ComponentHash H (str ''auth_events'') (GSlice SliceAny [GString (str ''$auth:example.org'')]) = Inr h"
    by (rule ComponentHash_valid) (simp add: valid_data)
  moreover have "\<exists>h. ComponentHash H (str ''content'') (GMap MapStringAny
      [(str ''body'', GString (str ''hello'')), (str ''msgtype'', GString (str ''m.text''))]) = Inr h"
    by (rule ComponentHash_valid) (simp add: valid_data)
  moreover have "\<exists>h. ComponentHash H (str ''other_signed_fields'') (GMap MapStringAny
      [(str ''origin'', GString (str ''example.org''))]) = Inr h"
    by (rule ComponentHash_valid) (simp add: valid_data)
  ultimately show ?thesis by (elim exE) (simp add: merkle_vectors_run_def Let_def del: str_simps)
qed

section \<open>The checks that the commands print\<close>

lemma hex_decode_key_text:
  "keyFromEventID (key_text ''a1'') = Inr (replicate 32 161)" "keyFromEventID (key_text ''b2'') = Inr (replicate 32 178)"
  "keyFromEventID (key_text ''c3'') = Inr (replicate 32 195)" "keyFromEventID (key_text ''d4'') = Inr (replicate 32 212)"
proof -
  have "hex_decode (concat (replicate n [c, d])) = Some (replicate n b)"
    if "hex_value c = Some x" "hex_value d = Some y" "of_nat (16 * x + y) = b" for n c d x y b
    using that by (induction n) simp_all
  note rep = this
  show "keyFromEventID (key_text ''a1'') = Inr (replicate 32 161)"
    using rep [of 97 10 49 1 161 32] by (simp add: keyFromEventID_def key_text_def hex_value_def)
  show "keyFromEventID (key_text ''b2'') = Inr (replicate 32 178)"
    using rep [of 98 11 50 2 178 32] by (simp add: keyFromEventID_def key_text_def hex_value_def)
  show "keyFromEventID (key_text ''c3'') = Inr (replicate 32 195)"
    using rep [of 99 12 51 3 195 32] by (simp add: keyFromEventID_def key_text_def hex_value_def)
  show "keyFromEventID (key_text ''d4'') = Inr (replicate 32 212)"
    using rep [of 100 13 52 4 212 32] by (simp add: keyFromEventID_def key_text_def hex_value_def)
qed

text \<open>The union of the two branches counts the shared key once.\<close>

lemma causal_cases_spec:
  assumes "distinct [keyA, keyB, keyC, keyD]" "\<forall>k\<in>{keyA, keyB, keyC, keyD}. length k = HashSize"
  shows "empty_count (causal_cases H keyA keyB keyC keyD) = 0 \<and> single_count (causal_cases H keyA keyB keyC keyD) = 1 \<and>
    merge_count (causal_cases H keyA keyB keyC keyD) = 3 \<and> inclusion_flag (causal_cases H keyA keyB keyC keyD) \<and>
    \<not> non_inclusion_flag (causal_cases H keyA keyB keyC keyD)"
proof -
  let ?left = "Insert (Insert EmptyCausalSet keyA) keyB" and ?right = "Insert (Insert EmptyCausalSet keyA) keyC"
  have wf: "wf_causal_set (Insert EmptyCausalSet keyA)" "wf_causal_set (Union ?left ?right)" using assms(2) by auto
  have "members (Union ?left ?right) = {keyA, keyB, keyC}" by auto
  then have "Count (Union ?left ?right) = 3" "Contains (Union ?left ?right) keyB" "\<not> Contains (Union ?left ?right) keyD"
    using Count_members [OF wf(2)] assms(1) by (auto simp: Contains_def members_def)
  moreover have "Count (Insert EmptyCausalSet keyA) = 1" using Count_members [OF wf(1)] by simp
  moreover have "Count EmptyCausalSet = 0" by (simp add: Count_def EmptyCausalSet_def)
  ultimately show ?thesis by (simp add: causal_cases_def Let_def)
qed

lemma causal_vectors_total:
  "\<exists>v. causal_vectors_main H = Inr v \<and> merge_count v = 3 \<and> inclusion_flag v \<and> \<not> non_inclusion_flag v"
proof -
  have "causal_vectors_main H = Inr (causal_cases H (replicate 32 161) (replicate 32 178) (replicate 32 195) (replicate 32 212))"
    by (simp add: causal_vectors_main_def hex_decode_key_text)
  moreover have "distinct [replicate 32 161, replicate 32 178, replicate 32 195, replicate 32 (212 :: byte)]" by simp
  ultimately show ?thesis using causal_cases_spec by (simp add: HashSize_def)
qed

lemma vector_fields_root:
  assumes "Redacts h = None" "vector_header_fields h = Inr fs"
  shows "Root H fs = Inr r \<longleftrightarrow> HeaderRoot H h = Inr r" "length fs \<le> 2 ^ 3"
proof -
  obtain key where "StateKey h = Some key" using assms(2) by (auto simp: vector_header_fields_def split: option.splits)
  then have m: "mset fs = mset (header_fields h)" and l: "length fs = 8"
    using assms by (auto simp: vector_header_fields_def header_fields_def optional_string_def)
  show "Root H fs = Inr r \<longleftrightarrow> HeaderRoot H h = Inr r"
    unfolding HeaderRoot_def using Root_mset m by metis
  show "length fs \<le> 2 ^ 3" using l by simp
qed

lemma redacted_event_Inr:
  assumes "redacted_event_vectors H other_eq ev = Inr out"
  obtains headerRoot fs path proved pred where "HeaderRoot H (ev_header ev) = Inr headerRoot"
    "vector_header_fields (ev_header ev) = Inr fs" "LeafPath H fs (str ''sender_domain'') = Inr (path, proved)"
    "sha3Key H (ev_predecessor ev) = Inr pred" "id_unchanged out" "id_after out = id_before out"
    "leaf_path_matches out \<longleftrightarrow> proved = headerRoot" "leaf_path_steps out = length path"
    "inclusion_ok out = ip_ok (InclusionProof H (Insert EmptyCausalSet pred) pred)"
    "inclusion_verifies out = (let r = InclusionProof H (Insert EmptyCausalSet pred) pred
       in VerifyCausalInclusion H pred (ip_path r) (ip_root r) (ip_count r))"
  using assms
  by (auto simp: redacted_event_vectors_def event_hashes_def Let_def simp del: str_simps split: sum.splits prod.splits)

lemma length_ComponentHash: "\<forall>x. length (H x) = HashSize \<Longrightarrow> ComponentHash H name v = Inr h \<Longrightarrow> length h = HashSize"
  by (auto simp: ComponentHash_def fieldLeaf_def leafHash_def hash_parts_def split: sum.splits option.splits if_splits)

definition invite_signed :: gval where
  "invite_signed = GMap MapStringAny [(str ''mxid'', GString (str ''@bob:example.org'')), (str ''token'', GString (str ''abc''))]"

lemma vector_event_split:
  "SplitRedactionContent other_eq (ev_content vector_event) (str ''m.room.member'') =
     Inr ([(str ''membership'', GString (str ''invite'')),
           (str ''third_party_invite'', GMap MapStringAny [(str ''signed'', invite_signed)])],
          [(str ''third_party_invite'', GMap MapStringAny [(str ''display_name'', GString (str ''Bob''))])])"
proof -
  have "redactContent (ev_content vector_event) (RedactionPreservedKeys (str ''m.room.member'')) =
      [(str ''membership'', GString (str ''invite'')), (str ''third_party_invite'', GMap MapStringAny [(str ''signed'', invite_signed)])]"
    by (simp add: vector_event_def RedactionPreservedKeys_def redactContent_def RedactionRuleKeys_def redact_path_def invite_signed_def)
  then show ?thesis
    by (simp add: SplitRedactionContent_def Let_def vector_event_def remainder_entry_def deepEqual.simps interface_eq_def map_index_def
        invite_signed_def)
qed

lemma vector_event_total: "\<exists>out. redacted_event_main H other_eq = Inr out"
proof -
  let ?h = "ev_header vector_event"
  obtain headerRoot where hr: "HeaderRoot H ?h = Inr headerRoot"
  proof -
    have "\<exists>r. HeaderRoot H ?h = Inr r"
      unfolding HeaderRoot_def by (rule Root_valid) (simp_all add: header_fields_def vector_event_def valid_data)
    then show thesis using that by blast
  qed
  have "\<exists>h. ComponentHash H (str ''prev_events'') (ev_prevEvents vector_event) = Inr h"
    "\<exists>h. ComponentHash H (str ''auth_events'') (ev_authEvents vector_event) = Inr h"
    "\<exists>h. ComponentHash H (str ''other_signed_fields'') (ev_otherSignedFields vector_event) = Inr h"
    "\<exists>h. sha3Key H (ev_predecessor vector_event) = Inr h"
    unfolding sha3Key_def by (rule ComponentHash_valid, simp add: vector_event_def valid_data)+
  then obtain a b c pred where hashes: "event_hashes H vector_event = Inr (headerRoot, a, b, c)"
    and pred: "sha3Key H (ev_predecessor vector_event) = Inr pred"
    using hr by (elim exE) (simp add: event_hashes_def del: str_simps)
  have ty: "Type ?h = str ''m.room.member''" by (simp add: vector_event_def)
  have "\<exists>h. RedactedContentHash H (GMap MapStringAny [(str ''membership'', GString (str ''invite'')),
      (str ''third_party_invite'', GMap MapStringAny [(str ''signed'', invite_signed)])]) = Inr h"
    "\<exists>h. EphemeralContentHash H (GMap MapStringAny
      [(str ''third_party_invite'', GMap MapStringAny [(str ''display_name'', GString (str ''Bob''))])]) = Inr h"
    unfolding RedactedContentHash_def EphemeralContentHash_def
    by (rule ComponentHash_valid, simp add: invite_signed_def valid_data)+
  then obtain r e rh eh where split: "split_hashes H other_eq (ev_content vector_event) (Type ?h) = Inr (r, e, rh, eh)"
    unfolding ty split_hashes_def vector_event_split by (elim exE) simp
  obtain fs where fs: "vector_header_fields ?h = Inr fs" by (simp add: vector_header_fields_def vector_event_def)
  have none: "Redacts ?h = None" by (simp add: vector_event_def)
  have "str ''sender_domain'' \<in> field_name ` set fs"
    using fs by (auto simp: vector_header_fields_def vector_event_def)
  then obtain path where "LeafPath H fs (str ''sender_domain'') = Inr (path, headerRoot)"
    using LeafPath_total [of H fs headerRoot] vector_fields_root(1) [OF none fs] hr by blast
  then show ?thesis
    by (simp add: redacted_event_main_def redacted_event_vectors_def hashes split fs pred Let_def del: str_simps)
qed

section \<open>Properties\<close>

text \<open>C15: the event survives its redaction. For every event that the command can print (its header has a state key and no
  \<open>redacts\<close>) and every digest of 32 bytes, all the checks that the command prints hold: root and event ID are the same
  after the redaction, the proof of the leaf \<open>sender_domain\<close> arrives at the root of the header within three steps, and
  the proof of the predecessor exists and verifies. The event of the command itself is printed without an error.\<close>

theorem redacted_event_checks:
  assumes "\<forall>x. length (H x) = HashSize" "Redacts (ev_header ev) = None" "redacted_event_vectors H other_eq ev = Inr out"
  shows "id_unchanged out \<and> id_after out = id_before out \<and> leaf_path_matches out \<and> leaf_path_steps out \<le> 3 \<and>
    inclusion_ok out \<and> inclusion_verifies out \<and> is_ok (redacted_event_main H other_eq)"
proof -
  from redacted_event_Inr [OF assms(3)] obtain headerRoot fs path proved pred where
    root: "HeaderRoot H (ev_header ev) = Inr headerRoot" and fs: "vector_header_fields (ev_header ev) = Inr fs"
    and path: "LeafPath H fs (str ''sender_domain'') = Inr (path, proved)" and pred: "sha3Key H (ev_predecessor ev) = Inr pred"
    and out: "id_unchanged out" "id_after out = id_before out" "leaf_path_matches out \<longleftrightarrow> proved = headerRoot"
      "leaf_path_steps out = length path" "inclusion_ok out = ip_ok (InclusionProof H (Insert EmptyCausalSet pred) pred)"
      "inclusion_verifies out = (let r = InclusionProof H (Insert EmptyCausalSet pred) pred
         in VerifyCausalInclusion H pred (ip_path r) (ip_root r) (ip_count r))" .
  have "Root H fs = Inr proved" "length path \<le> 3"
    using LeafPath_member [OF path] vector_fields_root(2) [OF assms(2) fs] by blast+
  then have "proved = headerRoot" using vector_fields_root(1) [OF assms(2) fs] root by simp
  moreover have len: "length pred = HashSize"
    using length_ComponentHash [OF assms(1)] pred unfolding sha3Key_def by blast
  then have "wf_causal_set (Insert EmptyCausalSet pred)" by simp
  from InclusionProof_spec [OF this len, of H] have "inclusion_ok out" "inclusion_verifies out"
    unfolding out Let_def by simp_all
  ultimately show ?thesis using out \<open>length path \<le> 3\<close> vector_event_total [of H other_eq] by (simp add: is_ok_iff)
qed

theorem redacted_event_checks_witness:
  "\<exists>out. redacted_event_main sample_digest (\<lambda>_ _. Inr False) = Inr out \<and> leaf_path_matches out \<and> inclusion_verifies out"
proof -
  obtain out where out: "redacted_event_main sample_digest (\<lambda>_ _. Inr False) = Inr out" using vector_event_total by blast
  moreover have "Redacts (ev_header vector_event) = None" by (simp add: vector_event_def)
  ultimately show ?thesis
    using redacted_event_checks [of sample_digest vector_event "\<lambda>_ _. Inr False" out] length_sample_digest
    unfolding redacted_event_main_def by blast
qed

end
