(* ===== verification/Fndsa.thy ===== *)
theory Fndsa
  imports Encoding
begin

text \<open>
  Package \<open>fndsa512\<close> (\<open>fndsa512/fndsa512.go\<close>): the size checks around the FN-DSA library. The library
  \<open>github.com/pornin/go-fn-dsa\<close> is not part of the repository: its functions are the fields of a record that every
  definition takes. A reader of random bytes is a value that a call returns advanced; a \<open>crypto.Hash\<close> is its number.
\<close>

section \<open>The library and the wrapper\<close>

record 'r fndsa_lib =
  lib_KeyGen :: "nat \<Rightarrow> 'r \<Rightarrow> (bytes \<times> bytes) result \<times> 'r"
  lib_Sign :: "'r \<Rightarrow> bytes \<Rightarrow> bytes \<Rightarrow> nat \<Rightarrow> bytes \<Rightarrow> bytes result \<times> 'r"
  lib_Verify :: "bytes \<Rightarrow> bytes \<Rightarrow> nat \<Rightarrow> bytes \<Rightarrow> bytes \<Rightarrow> bool"
  DOMAIN_NONE :: bytes

definition LogN :: nat where "LogN = 9"
definition PublicKeySize :: nat where "PublicKeySize = 897"
definition PrivateKeySize :: nat where "PrivateKeySize = 1281"
definition SignatureSize :: nat where "SignatureSize = 666"

definition checkPrivateKey :: "bytes \<Rightarrow> unit result" where
  "checkPrivateKey key = (if length key \<noteq> PrivateKeySize then Inl ErrInvalidPrivateKey else Inr ())"

definition checkPublicKey :: "bytes \<Rightarrow> unit result" where
  "checkPublicKey key = (if length key \<noteq> PublicKeySize then Inl ErrInvalidPublicKey else Inr ())"

definition checkSignature :: "bytes \<Rightarrow> unit result" where
  "checkSignature sig = (if length sig \<noteq> SignatureSize then Inl ErrInvalidSignatureSize else Inr ())"

definition GenerateKey :: "'r fndsa_lib \<Rightarrow> 'r \<Rightarrow> (bytes \<times> bytes) result \<times> 'r" where
  "GenerateKey lib rng = lib_KeyGen lib LogN rng"

definition Sign :: "'r fndsa_lib \<Rightarrow> 'r \<Rightarrow> bytes \<Rightarrow> bytes \<Rightarrow> bytes result \<times> 'r" where
  "Sign lib rng privateKey message =
     (case checkPrivateKey privateKey of
        Inl e \<Rightarrow> (Inl e, rng)
      | Inr _ \<Rightarrow>
          (case lib_Sign lib rng privateKey (DOMAIN_NONE lib) 0 message of
             (Inl e, rng') \<Rightarrow> (Inl e, rng')
           | (Inr sig, rng') \<Rightarrow>
               (case checkSignature sig of Inl e \<Rightarrow> (Inl e, rng') | Inr _ \<Rightarrow> (Inr sig, rng'))))"

definition SignPrehashed ::
  "'r fndsa_lib \<Rightarrow> 'r \<Rightarrow> bytes \<Rightarrow> bytes \<Rightarrow> nat \<Rightarrow> bytes \<Rightarrow> bytes result \<times> 'r" where
  "SignPrehashed lib rng privateKey ctxt hash digest =
     (case checkPrivateKey privateKey of
        Inl e \<Rightarrow> (Inl e, rng)
      | Inr _ \<Rightarrow>
          (case lib_Sign lib rng privateKey ctxt hash digest of
             (Inl e, rng') \<Rightarrow> (Inl e, rng')
           | (Inr sig, rng') \<Rightarrow>
               (case checkSignature sig of Inl e \<Rightarrow> (Inl e, rng') | Inr _ \<Rightarrow> (Inr sig, rng'))))"

definition FndsaVerify :: "'r fndsa_lib \<Rightarrow> bytes \<Rightarrow> bytes \<Rightarrow> bytes \<Rightarrow> bool" where
  "FndsaVerify lib publicKey message sig \<longleftrightarrow>
     checkPublicKey publicKey = Inr () \<and> checkSignature sig = Inr () \<and>
     lib_Verify lib publicKey (DOMAIN_NONE lib) 0 message sig"

definition VerifyPrehashed :: "'r fndsa_lib \<Rightarrow> bytes \<Rightarrow> bytes \<Rightarrow> nat \<Rightarrow> bytes \<Rightarrow> bytes \<Rightarrow> bool" where
  "VerifyPrehashed lib publicKey ctxt hash digest sig \<longleftrightarrow>
     checkPublicKey publicKey = Inr () \<and> checkSignature sig = Inr () \<and>
     lib_Verify lib publicKey ctxt hash digest sig"

section \<open>What a signature scheme promises\<close>

text \<open>The contract the server keys rely on: a signature has one size, and what a private key signs, the public
  key that belongs to it verifies.\<close>

locale signature_scheme =
  fixes belongs :: "bytes \<Rightarrow> bytes \<Rightarrow> bool"
    and sgn :: "'r \<Rightarrow> bytes \<Rightarrow> bytes \<Rightarrow> bytes result \<times> 'r"
    and ver :: "bytes \<Rightarrow> bytes \<Rightarrow> bytes \<Rightarrow> bool"
  assumes sgn_size: "sgn r sk m = (Inr s, r') \<Longrightarrow> length s = SignatureSize"
    and sgn_ver: "belongs sk pk \<Longrightarrow> sgn r sk m = (Inr s, r') \<Longrightarrow> ver pk m s"
    and ver_sizes: "ver pk m s \<Longrightarrow> length pk = PublicKeySize \<and> length s = SignatureSize"
begin

text \<open>A signature survives its transport as text.\<close>

lemma signed_text:
  "belongs sk pk \<Longrightarrow> sgn r sk m = (Inr s, r') \<Longrightarrow> \<exists>t. b64std_decode (b64std_encode s) = Inr t \<and> ver pk m t"
  using sgn_ver b64std.decode_encode by simp

lemma ver_key_size: "length pk \<noteq> PublicKeySize \<Longrightarrow> \<not> ver pk m s"
  using ver_sizes by blast

end

text \<open>The keys of a pair of logarithmic degree 9: keys of its sizes, the public one of which verifies what the library signs with the private key.\<close>

definition keypair :: "'r fndsa_lib \<Rightarrow> bytes \<Rightarrow> bytes \<Rightarrow> bool" where
  "keypair lib sk pk \<longleftrightarrow> length sk = PrivateKeySize \<and> length pk = PublicKeySize \<and>
     (\<forall>r d h m s r'. lib_Sign lib r sk d h m = (Inr s, r') \<longrightarrow> lib_Verify lib pk d h m s)"

lemma keypairD:
  "keypair lib sk pk \<Longrightarrow> length pk = PublicKeySize"
  "keypair lib sk pk \<Longrightarrow> lib_Sign lib r sk d h m = (Inr s, r') \<Longrightarrow> lib_Verify lib pk d h m s"
  by (simp add: keypair_def) (metis keypair_def)

lemma Sign_Inr:
  "Sign lib r sk m = (Inr s, r') \<longleftrightarrow>
     length sk = PrivateKeySize \<and> lib_Sign lib r sk (DOMAIN_NONE lib) 0 m = (Inr s, r') \<and> length s = SignatureSize"
  by (auto simp: Sign_def checkPrivateKey_def checkSignature_def split: prod.splits sum.splits)

lemma SignPrehashed_Inr:
  "SignPrehashed lib r sk c h m = (Inr s, r') \<longleftrightarrow>
     length sk = PrivateKeySize \<and> lib_Sign lib r sk c h m = (Inr s, r') \<and> length s = SignatureSize"
  by (auto simp: SignPrehashed_def checkPrivateKey_def checkSignature_def split: prod.splits sum.splits)

interpretation raw_sig: signature_scheme "keypair lib" "Sign lib" "FndsaVerify lib" for lib
  by unfold_locales (auto simp: Sign_Inr FndsaVerify_def checkPublicKey_def checkSignature_def split: if_splits dest: keypairD)

interpretation prehash_sig: signature_scheme "keypair lib" "\<lambda>r sk. SignPrehashed lib r sk c h"
    "\<lambda>pk. VerifyPrehashed lib pk c h" for lib c h
  by unfold_locales
    (auto simp: SignPrehashed_Inr VerifyPrehashed_def checkPublicKey_def checkSignature_def split: if_splits dest: keypairD)

end
