(* ===== verification/Cuckoo.thy ===== *)
theory Cuckoo
  imports Encoding Gf64
begin

text \<open>
  Package \<open>cuckoo\<close>, \<open>cuckoo/cuckoo.go\<close>: the edges of the Cuckatoo graph of a seed (SipHash-2-4 of the edge
  index) and the verifier of a cycle. The array of the SipHash state is a tuple; SHA-256 is a parameter; the
  walk of \<open>verifyCycle\<close> is an unbounded loop in the source and so here, with a proof that it ends.
\<close>

unbundle bit_operations_syntax

section \<open>Configuration\<close>

definition DefaultProofSize :: int where "DefaultProofSize = 42"

record config =
  EdgeBits :: u64
  ProofSize :: int

definition normalize :: "config \<Rightarrow> config result" where
  "normalize c =
     (if EdgeBits c < 2 \<or> EdgeBits c > 31 then Inl ErrInvalidEdgeBits
      else
        let c' = (if ProofSize c = 0 then c\<lparr>ProofSize := DefaultProofSize\<rparr> else c)
        in if ProofSize c' < 2 \<or> ProofSize c' > 255 then Inl ErrInvalidProof else Inr c')"

definition Validate :: "config \<Rightarrow> unit result" where
  "Validate c = (case normalize c of Inl e \<Rightarrow> Inl e | Inr _ \<Rightarrow> Inr ())"

definition EdgeMask :: "config \<Rightarrow> u64" where
  "EdgeMask c = push_bit (unat (EdgeBits c)) 1 - 1"

definition edgeMask :: "config \<Rightarrow> u64" where
  "edgeMask c = EdgeMask c"

definition nodeMask :: "config \<Rightarrow> u64" where
  "nodeMask c = edgeMask c"

record edge =
  EndU :: u64
  EndV :: u64

section \<open>SipHash-2-4\<close>

type_synonym sip_state = "u64 \<times> u64 \<times> u64 \<times> u64"

definition sipRound :: "sip_state \<Rightarrow> sip_state" where
  "sipRound v =
     (let (v0, v1, v2, v3) = v;
          v0 = v0 + v1;
          v1 = word_rotl 13 v1;
          v1 = v1 XOR v0;
          v0 = word_rotl 32 v0;
          v2 = v2 + v3;
          v3 = word_rotl 16 v3;
          v3 = v3 XOR v2;
          v0 = v0 + v3;
          v3 = word_rotl 21 v3;
          v3 = v3 XOR v0;
          v2 = v2 + v1;
          v1 = word_rotl 17 v1;
          v1 = v1 XOR v2;
          v2 = word_rotl 32 v2
      in (v0, v1, v2, v3))"

definition siphash24 :: "sip_state \<Rightarrow> u64 \<Rightarrow> u64" where
  "siphash24 seed msg =
     (let (k0, k1, k2, k3) = seed;
          (a0, a1, a2, a3) = sipRound (sipRound (k0, k1, k2, k3 XOR msg));
          (b0, b1, b2, b3) = (sipRound ^^ 4) (a0 XOR msg, a1, a2 XOR 0xff, a3)
      in b0 XOR b1 XOR b2 XOR b3)"

definition seedWords :: "bytes \<Rightarrow> sip_state result" where
  "seedWords seed =
     (if length seed \<noteq> 32 then Inl ErrInvalidSeed
      else let w = (\<lambda>i. le_word (take 8 (drop (i * 8) seed))) in Inr (w 0, w 1, w 2, w 3))"

definition CuckooGraphSeed :: "(bytes \<Rightarrow> bytes) \<Rightarrow> bytes \<Rightarrow> u64 \<Rightarrow> bytes" where
  "CuckooGraphSeed sha256 challenge nonce = sha256 (challenge @ le_bytes 8 nonce)"

definition EdgeForNonce :: "config \<Rightarrow> bytes \<Rightarrow> u32 \<Rightarrow> edge result" where
  "EdgeForNonce cfg seed edgeIdx =
     (case normalize cfg of
        Inl e \<Rightarrow> Inl e
      | Inr cfg \<Rightarrow>
          if ucast edgeIdx > edgeMask cfg then Inl ErrInvalidProof
          else
            case seedWords seed of
              Inl e \<Rightarrow> Inl e
            | Inr words \<Rightarrow>
                let mask = nodeMask cfg
                in Inr \<lparr>EndU = siphash24 words (push_bit 1 (ucast edgeIdx)) AND mask,
                        EndV = siphash24 words (push_bit 1 (ucast edgeIdx) OR 1) AND mask\<rparr>)"

section \<open>The cycle\<close>

text \<open>One scan for the other endpoint: the candidates left, the position \<open>j\<close> found so far.\<close>

fun scan :: "u64 list \<Rightarrow> nat \<Rightarrow> nat list \<Rightarrow> nat \<Rightarrow> nat result" where
  "scan uvs i [] j = Inr j"
| "scan uvs i (k # ks) j =
     (if k \<noteq> i \<and> uvs ! k = uvs ! i
      then if j \<noteq> i then Inl ErrInvalidProof else scan uvs i ks k
      else scan uvs i ks j)"

text \<open>The positions of a side: those from 0, or from 1, in steps of two.\<close>

definition side :: "nat \<Rightarrow> u64 list \<Rightarrow> nat list" where
  "side parity uvs = filter (\<lambda>k. k mod 2 = parity) [0..<length uvs]"

definition partner :: "nat \<Rightarrow> u64 list \<Rightarrow> nat \<Rightarrow> nat result" where
  "partner parity uvs i =
     (case scan uvs i (side parity uvs) i of
        Inl e \<Rightarrow> Inl e
      | Inr j \<Rightarrow> if j = i then Inl ErrInvalidProof else Inr j)"

partial_function (option) cycle_loop :: "u64 list \<Rightarrow> nat \<Rightarrow> nat \<Rightarrow> unit result option" where
  "cycle_loop uvs i n =
     (case partner 0 uvs i of
        Inl e \<Rightarrow> Some (Inl e)
      | Inr j \<Rightarrow>
          (case partner 1 uvs (j XOR 1) of
             Inl e \<Rightarrow> Some (Inl e)
           | Inr j' \<Rightarrow>
               let i' = j' XOR 1; n' = n + 1 + 1
               in if i' = 0 then Some (if n' \<noteq> length uvs div 2 then Inl ErrInvalidProof else Inr ())
                  else cycle_loop uvs i' n'))"

definition verifyCycle :: "u64 list \<Rightarrow> unit result option" where
  "verifyCycle uvs =
     (if foldl (XOR) 0 uvs \<noteq> 0 then Some (Inl ErrInvalidProof) else cycle_loop uvs 0 0)"

text \<open>The loop over the nonces, which remembers the previous one.\<close>

fun collect_edges :: "config \<Rightarrow> bytes \<Rightarrow> u32 option \<Rightarrow> u32 list \<Rightarrow> u64 list result" where
  "collect_edges cfg seed prev [] = Inr []"
| "collect_edges cfg seed prev (nonce # nonces) =
     (if prev = Some nonce then Inl ErrInvalidProof
      else if ucast nonce > edgeMask cfg then Inl ErrInvalidProof
      else
        case EdgeForNonce cfg seed nonce of
          Inl e \<Rightarrow> Inl e
        | Inr ed \<Rightarrow>
            (case collect_edges cfg seed (Some nonce) nonces of
               Inl e \<Rightarrow> Inl e
             | Inr uvs \<Rightarrow> Inr (push_bit 1 (EndU ed) # (push_bit 1 (EndV ed) OR 1) # uvs)))"

definition Verify :: "config \<Rightarrow> bytes \<Rightarrow> u32 list \<Rightarrow> unit result option" where
  "Verify cfg seed nonces =
     (case normalize cfg of
        Inl e \<Rightarrow> Some (Inl e)
      | Inr cfg \<Rightarrow>
          if int (length nonces) \<noteq> ProofSize cfg then Some (Inl ErrInvalidProof)
          else if \<not> sorted nonces then Some (Inl ErrInvalidProof)
          else
            case collect_edges cfg seed None nonces of
              Inl e \<Rightarrow> Some (Inl e)
            | Inr uvs \<Rightarrow> verifyCycle uvs)"


section \<open>Partners\<close>

text \<open>The other endpoint of the edge at a position.\<close>

definition flip :: "nat \<Rightarrow> nat" where
  "flip i = i XOR 1"

lemma flip_eq: "flip i = (if even i then i + 1 else i - 1)"
  unfolding flip_def by (simp add: xor_Suc_0_eq)

lemma flip_simps [simp]: "flip (flip i) = i" "flip i \<noteq> i" "i \<noteq> flip i" "flip i div 2 = i div 2" "flip i mod 2 \<noteq> i mod 2"
  by (auto simp: flip_eq elim: evenE oddE)

lemma even_flip [simp]: "even (flip i) \<longleftrightarrow> odd i"
  by (simp add: flip_eq)

lemma flip_inject [simp]: "flip i = flip j \<longleftrightarrow> i = j"
  by (metis flip_simps(1))

lemma flip_less: "even n \<Longrightarrow> flip i < n \<longleftrightarrow> i < n"
  by (auto simp: flip_eq elim!: evenE oddE)

lemma div2_eq_flip: "i div 2 = j div 2 \<longleftrightarrow> i = j \<or> j = flip (i :: nat)"
  by (auto simp: flip_eq elim!: evenE oddE)

text \<open>Two different positions of a side have the same node, and no third one has it.\<close>

definition mate :: "u64 list \<Rightarrow> nat \<Rightarrow> nat \<Rightarrow> bool" where
  "mate uvs i j \<longleftrightarrow> i < length uvs \<and> j < length uvs \<and> j mod 2 = i mod 2 \<and> j \<noteq> i \<and> uvs ! j = uvs ! i \<and>
     (\<forall>k<length uvs. k mod 2 = i mod 2 \<and> uvs ! k = uvs ! i \<longrightarrow> k = i \<or> k = j)"

lemma mate_sym: "mate uvs i j \<Longrightarrow> mate uvs j i"
  by (auto simp: mate_def)

lemma mate_unique: "mate uvs i j \<Longrightarrow> mate uvs i k \<Longrightarrow> j = k"
  unfolding mate_def by metis

lemma mate_less: "mate uvs i j \<Longrightarrow> i < length uvs" "mate uvs i j \<Longrightarrow> j < length uvs"
  by (simp_all add: mate_def)

lemma scan_later:
  "j \<noteq> i \<Longrightarrow> scan uvs i ks j =
    (if filter (\<lambda>k. k \<noteq> i \<and> uvs ! k = uvs ! i) ks = [] then Inr j else Inl ErrInvalidProof)"
  by (induction ks) auto

lemma scan_first:
  "scan uvs i ks i = (case filter (\<lambda>k. k \<noteq> i \<and> uvs ! k = uvs ! i) ks of
     [] \<Rightarrow> Inr i | [k] \<Rightarrow> Inr k | _ \<Rightarrow> Inl ErrInvalidProof)"
proof (induction ks)
  case (Cons k ks)
  then show ?case
    using scan_later [of k i uvs ks]
    by (cases "filter (\<lambda>k. k \<noteq> i \<and> uvs ! k = uvs ! i) ks") auto
qed simp

lemma distinct_singleton: "distinct xs \<Longrightarrow> set xs = {x} \<longleftrightarrow> xs = [x]"
  by (cases xs rule: remdups_adj.cases) auto

lemma partner_eq:
  assumes "i < length uvs" "parity = i mod 2"
  shows "partner parity uvs i = (if \<exists>j. mate uvs i j then Inr (THE j. mate uvs i j) else Inl ErrInvalidProof)"
proof -
  define M where "M = filter (\<lambda>k. k \<noteq> i \<and> uvs ! k = uvs ! i) (side parity uvs)"
  have d: "distinct M" by (simp add: M_def side_def)
  have M: "set M = {k. k < length uvs \<and> k mod 2 = i mod 2 \<and> k \<noteq> i \<and> uvs ! k = uvs ! i}"
    by (auto simp: M_def side_def assms(2))
  have mate: "mate uvs i j \<longleftrightarrow> M = [j]" for j
    unfolding distinct_singleton [OF d, symmetric] M using assms(1) by (auto simp: mate_def)
  have "partner parity uvs i = (case M of [k] \<Rightarrow> Inr k | _ \<Rightarrow> Inl ErrInvalidProof)"
  proof (cases M)
    case Nil
    then show ?thesis by (simp add: partner_def scan_first M_def [symmetric])
  next
    case (Cons k ks)
    then have "k \<noteq> i" using M by auto
    then show ?thesis using Cons by (cases ks) (simp_all add: partner_def scan_first M_def [symmetric])
  qed
  then show ?thesis unfolding mate by (cases M rule: remdups_adj.cases) auto
qed

lemma partner_cases:
  assumes "i < length uvs" "parity = i mod 2"
  obtains (mate) j where "partner parity uvs i = Inr j" "mate uvs i j"
    | (none) "partner parity uvs i = Inl ErrInvalidProof" "\<forall>j. \<not> mate uvs i j"
proof (cases "\<exists>j. mate uvs i j")
  case True
  then obtain j where j: "mate uvs i j" by blast
  then have "(THE j. mate uvs i j) = j" by (intro the_equality) (auto intro: mate_unique)
  then have "partner parity uvs i = Inr j" unfolding partner_eq [OF assms] using True by simp
  then show ?thesis using mate j by blast
next
  case False
  then show ?thesis using none partner_eq [OF assms] by auto
qed

section \<open>The walk\<close>

text \<open>The positions from which the loop looks for partners: from each the partner's other endpoint is next.\<close>

definition walk :: "u64 list \<Rightarrow> nat list \<Rightarrow> bool" where
  "walk uvs ps \<longleftrightarrow> ps \<noteq> [] \<and> ps ! 0 = 0 \<and> (\<forall>k. Suc k < length ps \<longrightarrow> mate uvs (ps ! k) (flip (ps ! Suc k))) \<and>
     (\<forall>k. 0 < k \<and> k < length ps \<longrightarrow> ps ! k \<noteq> 0)"

definition closed_walk :: "u64 list \<Rightarrow> nat list \<Rightarrow> bool" where
  "closed_walk uvs ps \<longleftrightarrow> walk uvs ps \<and> even (length ps) \<and> mate uvs (last ps) (flip 0)"

lemma walk_mate: "walk uvs ps \<Longrightarrow> Suc k < length ps \<Longrightarrow> mate uvs (ps ! k) (flip (ps ! Suc k))"
  by (simp add: walk_def)

lemma walk_parity: "walk uvs ps \<Longrightarrow> k < length ps \<Longrightarrow> ps ! k mod 2 = k mod 2"
proof (induction k)
  case (Suc k)
  then have "even (flip (ps ! Suc k)) \<longleftrightarrow> even (ps ! k)" using walk_mate by (simp add: mate_def even_iff_mod_2_eq_zero)
  moreover have "even (ps ! k) \<longleftrightarrow> even k" using Suc by (simp add: even_iff_mod_2_eq_zero)
  ultimately have "even (ps ! Suc k) \<longleftrightarrow> even (Suc k)" by auto
  then show ?case by (simp add: mod2_eq_if)
qed (simp add: walk_def)

lemma walk_less:
  assumes "walk uvs ps" "even (length uvs)" "uvs \<noteq> []" "k < length ps"
  shows "ps ! k < length uvs"
proof (cases k)
  case (Suc j)
  then have "flip (ps ! k) < length uvs" using walk_mate [OF assms(1), of j] assms(4) by (simp add: mate_less)
  then show ?thesis using assms(2) by (simp add: flip_less)
qed (use assms in \<open>simp add: walk_def\<close>)

lemma walk_distinct: "walk uvs ps \<Longrightarrow> i < j \<Longrightarrow> j < length ps \<Longrightarrow> ps ! i \<noteq> ps ! j"
proof (induction i arbitrary: j)
  case 0
  then show ?case by (simp add: walk_def)
next
  case (Suc i)
  then obtain l where l: "j = Suc l" "i < l" by (cases j) auto
  show ?case
  proof
    assume "ps ! Suc i = ps ! j"
    then have "mate uvs (flip (ps ! j)) (ps ! i)" "mate uvs (flip (ps ! j)) (ps ! l)"
      using walk_mate [OF Suc.prems(1), of i] walk_mate [OF Suc.prems(1), of l] Suc.prems l by (auto intro: mate_sym)
    then show False using mate_unique Suc.IH [OF Suc.prems(1) l(2)] Suc.prems l by auto
  qed
qed

lemma walk_edges: "walk uvs ps \<Longrightarrow> i < j \<Longrightarrow> j < length ps \<Longrightarrow> ps ! j \<noteq> flip (ps ! i)"
proof (induction "j - i" arbitrary: i j rule: less_induct)
  case less
  then obtain l where l: "j = Suc l" "i \<le> l" by (cases j) auto
  show ?case
  proof
    assume f: "ps ! j = flip (ps ! i)"
    have "mate uvs (ps ! l) (ps ! i)" using walk_mate [OF less.prems(1), of l] less.prems l f by simp
    then have m: "mate uvs (ps ! i) (ps ! l)" by (rule mate_sym)
    then have "i \<noteq> l" by (auto simp: mate_def)
    then have il: "i < l" using l by simp
    have "mate uvs (ps ! i) (flip (ps ! Suc i))" using walk_mate [OF less.prems(1), of i] less.prems by simp
    then have g: "ps ! l = flip (ps ! Suc i)" using m mate_unique by blast
    then have "Suc i \<noteq> l" by auto
    moreover from this have "Suc i < l" "l - Suc i < j - i" using il l by linarith+
    ultimately show False using less.hyps [of l "Suc i"] less.prems l g by simp
  qed
qed

lemma walk_edge_distinct: "walk uvs ps \<Longrightarrow> distinct (map (\<lambda>p. p div 2) ps)"
  unfolding distinct_conv_nth
proof (intro allI impI)
  fix i j assume w: "walk uvs ps" and i: "i < length (map (\<lambda>p. p div 2) ps)" "j < length (map (\<lambda>p. p div 2) ps)" "i \<noteq> j"
  have "ps ! i \<noteq> ps ! j \<and> ps ! j \<noteq> flip (ps ! i)"
    using walk_distinct [OF w] walk_edges [OF w] i by (metis flip_simps(1) length_map linorder_neqE_nat)
  then show "map (\<lambda>p. p div 2) ps ! i \<noteq> map (\<lambda>p. p div 2) ps ! j" using i div2_eq_flip by simp
qed

lemma walk_length:
  assumes "walk uvs ps" "even (length uvs)" "uvs \<noteq> []"
  shows "length ps \<le> length uvs div 2"
proof -
  have "ps ! k div 2 < length uvs div 2" if "k < length ps" for k
    using walk_less [OF assms that] assms(2) by presburger
  then have "set (map (\<lambda>p. p div 2) ps) \<subseteq> {..<length uvs div 2}" by (auto simp: in_set_conv_nth)
  then have "card (set (map (\<lambda>p. p div 2) ps)) \<le> length uvs div 2" by (metis card_lessThan card_mono finite_lessThan)
  then show ?thesis using distinct_card [OF walk_edge_distinct [OF assms(1)]] by simp
qed

lemma walk_append:
  assumes "walk uvs ps" "mate uvs (last ps) (flip p)" "p \<noteq> 0"
  shows "walk uvs (ps @ [p])"
  unfolding walk_def
proof (intro conjI allI impI)
  fix k assume k: "Suc k < length (ps @ [p])"
  show "mate uvs ((ps @ [p]) ! k) (flip ((ps @ [p]) ! Suc k))"
  proof (cases "Suc k < length ps")
    case False
    then have "k = length ps - 1" "Suc k = length ps" using k by auto
    then show ?thesis using assms by (simp add: nth_append last_conv_nth walk_def)
  qed (use assms(1) in \<open>simp add: nth_append walk_mate\<close>)
qed (use assms in \<open>auto simp: walk_def nth_append\<close>)

text \<open>The loop follows the walk; it ends, and what it returns depends on the length of the closed walk only.\<close>

lemma cycle_loop_walk:
  assumes "even (length uvs)" "uvs \<noteq> []"
  shows "walk uvs ps \<Longrightarrow> odd (length ps) \<Longrightarrow> \<exists>r. cycle_loop uvs (last ps) (length ps - 1) = Some r \<and>
    (r = Inr () \<or> r = Inl ErrInvalidProof) \<and>
    (r = Inr () \<longrightarrow> (\<exists>qs. closed_walk uvs qs \<and> length qs = length uvs div 2)) \<and>
    ((\<forall>i<length uvs. \<exists>j. mate uvs i j) \<longrightarrow> (\<exists>qs. closed_walk uvs qs \<and> (length qs = length uvs div 2 \<longrightarrow> r = Inr ())))"
proof (induction "length uvs - length ps" arbitrary: ps rule: less_induct)
  case less
  define i where "i = last ps"
  have ne: "ps \<noteq> []" using less.prems(1) by (simp add: walk_def)
  have i: "i < length uvs" "0 = i mod 2"
    using walk_less [OF less.prems(1) assms, of "length ps - 1"] walk_parity [OF less.prems(1), of "length ps - 1"] less.prems(2) ne
    by (simp_all add: i_def last_conv_nth)
  note simps = cycle_loop.simps [of uvs i "length ps - 1"]
  show ?case
  proof (cases rule: partner_cases [OF i, case_names mate none])
    case none
    then show ?thesis using i(1) by (subst i_def [symmetric], subst simps) auto
  next
    case (mate j)
    define i1 where "i1 = flip j"
    have i1: "i1 < length uvs" "1 = i1 mod 2"
      using mate(2) i(2) assms(1) flip_simps(5) [of j] by (auto simp: i1_def flip_less mate_def mod2_eq_if split: if_splits)
    have w1: "walk uvs (ps @ [i1])" using less.prems(1) mate(2) i1(2) by (intro walk_append) (auto simp: i1_def i_def [symmetric])
    show ?thesis
    proof (cases rule: partner_cases [OF i1, case_names mate none])
      case none
      then show ?thesis using i1(1) mate(1)
        by (subst i_def [symmetric], subst simps) (auto simp: i1_def flip_def)
    next
      case j': (mate j')
      define i2 where "i2 = flip j'"
      have n: "length ps - 1 + 1 + 1 = length (ps @ [i1])" using ne by (cases ps) simp_all
      have step: "cycle_loop uvs i (length ps - 1) = (if i2 = 0
          then Some (if length (ps @ [i1]) \<noteq> length uvs div 2 then Inl ErrInvalidProof else Inr ())
          else cycle_loop uvs i2 (length (ps @ [i1])))"
        unfolding simps mate(1) sum.case j'(1) [unfolded i1_def flip_def] Let_def n i2_def flip_def ..
      show ?thesis
      proof (cases "i2 = 0")
        case True
        then have "j' = flip 0" by (metis flip_simps(1) i2_def)
        then have "closed_walk uvs (ps @ [i1])" using w1 less.prems(2) j'(2) by (simp add: closed_walk_def)
        then show ?thesis unfolding i_def [symmetric] step using True by auto
      next
        case False
        then have w2: "walk uvs (ps @ [i1] @ [i2])"
          using walk_append [OF w1, of i2] j'(2) by (simp add: i2_def)
        have "length (ps @ [i1] @ [i2]) \<le> length uvs div 2" by (rule walk_length [OF w2 assms])
        then have "length uvs - length (ps @ [i1] @ [i2]) < length uvs - length ps" using assms(2) by simp
        from less.hyps [OF this w2] less.prems(2)
        show ?thesis unfolding i_def [symmetric] step using False by simp
      qed
    qed
  qed
qed


lemma closed_walk_distinct: "closed_walk uvs ps \<Longrightarrow> distinct (map (\<lambda>p. p div 2) ps)"
  using walk_edge_distinct unfolding closed_walk_def by blast

text \<open>The walk comes back: the edges it visits are closed under sharing a node.\<close>

lemma closed_walk_mate:
  assumes "closed_walk uvs ps" "k < length ps"
  shows "mate uvs (ps ! k) (flip (ps ! (Suc k mod length ps)))"
proof (cases "Suc k < length ps")
  case True
  then show ?thesis using assms by (simp add: closed_walk_def walk_mate)
next
  case False
  then have k: "Suc k = length ps" using assms(2) by simp
  then have "k = length ps - 1" by simp
  then have "ps ! k = last ps" "ps ! (Suc k mod length ps) = 0"
    using assms k by (auto simp: closed_walk_def walk_def last_conv_nth)
  then show ?thesis using assms(1) by (simp add: closed_walk_def)
qed

lemma closed_walk_closed:
  assumes "closed_walk uvs ps" "p \<in> set ps" "q = p \<or> q = flip p" "mate uvs q r"
  shows "r div 2 \<in> (\<lambda>p. p div 2) ` set ps"
proof -
  obtain k where k: "k < length ps" "p = ps ! k" using assms(2) by (auto simp: in_set_conv_nth)
  show ?thesis
    using assms(3)
  proof
    assume "q = p"
    then have "r = flip (ps ! (Suc k mod length ps))"
      using closed_walk_mate [OF assms(1) k(1)] assms(4) k(2) mate_unique by blast
    moreover have "Suc k mod length ps < length ps" using k(1) by (intro mod_less_divisor) linarith
    ultimately show ?thesis using nth_mem by (auto intro!: image_eqI)
  next
    assume q: "q = flip p"
    define j where "j = (if k = 0 then length ps - 1 else k - 1)"
    have j: "j < length ps" "Suc j mod length ps = k" using k(1) by (auto simp: j_def)
    then have "mate uvs q (ps ! j)" using closed_walk_mate [OF assms(1) j(1)] k(2) q by (auto intro: mate_sym)
    then have "r = ps ! j" using assms(4) mate_unique by blast
    then show ?thesis using j(1) by simp
  qed
qed

section \<open>Simple cycles\<close>

text \<open>A list of edges that meet alternately in a node of the U side and of the V side, ending where it started,
  and that passes every node once.\<close>

definition simple_cycle :: "(u64 \<times> u64) list \<Rightarrow> bool" where
  "simple_cycle c \<longleftrightarrow> (\<exists>m>0. length c = 2 * m \<and>
     (\<forall>k<m. fst (c ! (2 * k)) = fst (c ! (2 * k + 1))) \<and>
     (\<forall>k<m. snd (c ! (2 * k + 1)) = snd (c ! (2 * (Suc k mod m)))) \<and>
     inj_on (\<lambda>k. fst (c ! (2 * k))) {..<m} \<and> inj_on (\<lambda>k. snd (c ! (2 * k + 1))) {..<m})"

text \<open>The tagged endpoints of a list of edges.\<close>

definition tagged :: "(u64 \<times> u64) list \<Rightarrow> u64 list" where
  "tagged es = concat (map (\<lambda>(u, v). [push_bit 1 u, push_bit 1 v OR 1]) es)"

lemma tagged_simps [simp]: "tagged [] = []" "tagged ((u, v) # es) = push_bit 1 u # (push_bit 1 v OR 1) # tagged es"
  "length (tagged es) = 2 * length es"
  by (induction es) (auto simp: tagged_def)

lemma tagged_nth:
  "i < length es \<Longrightarrow> tagged es ! (2 * i) = push_bit 1 (fst (es ! i)) \<and> tagged es ! Suc (2 * i) = push_bit 1 (snd (es ! i)) OR 1"
proof (induction es arbitrary: i)
  case (Cons e es)
  then show ?case by (cases e, cases i) auto
qed simp

definition endpoint :: "(u64 \<times> u64) list \<Rightarrow> nat \<Rightarrow> u64" where
  "endpoint es p = (if even p then fst (es ! (p div 2)) else snd (es ! (p div 2)))"

lemma push_bit_1_inject:
  assumes "\<not> bit u 63" "\<not> bit v 63"
  shows "push_bit 1 u = push_bit 1 (v :: u64) \<longleftrightarrow> u = v" "push_bit 1 u OR 1 = push_bit 1 v OR 1 \<longleftrightarrow> u = v"
proof -
  have "u = v" if b: "\<And>n. bit (push_bit 1 u) (Suc n) \<longleftrightarrow> bit (push_bit 1 v) (Suc n)"
  proof (rule bit_word_eqI)
    fix n assume "n < LENGTH(64)"
    then show "bit u n \<longleftrightarrow> bit v n" using b [of n] assms by (cases "n = 63") (auto simp: bit_push_bit_iff simp del: push_bit_Suc One_nat_def)
  qed
  moreover have "bit (push_bit 1 w OR 1) (Suc n) \<longleftrightarrow> bit (push_bit 1 w) (Suc n)" for w :: u64 and n
    by (simp add: bit_or_iff bit_1_iff)
  ultimately show "push_bit 1 u = push_bit 1 v \<longleftrightarrow> u = v" "push_bit 1 u OR 1 = push_bit 1 v OR 1 \<longleftrightarrow> u = v" by metis+
qed

lemma tagged_eq_iff:
  assumes "\<forall>(u, v)\<in>set es. \<not> bit u 63 \<and> \<not> bit v 63" "p < 2 * length es" "q < 2 * length es" "p mod 2 = q mod 2"
  shows "tagged es ! p = tagged es ! q \<longleftrightarrow> endpoint es p = endpoint es q"
proof -
  have pq: "p div 2 < length es" "q div 2 < length es" using assms(2,3) by auto
  have b: "\<not> bit (fst (es ! i)) 63" "\<not> bit (snd (es ! i)) 63" if "i < length es" for i
    using assms(1) nth_mem [OF that] by (auto simp: split_beta)
  show ?thesis
  proof (cases "even p")
    case True
    then have "p = 2 * (p div 2)" "q = 2 * (q div 2)" "even q" using assms(4) by presburger+
    then show ?thesis using True tagged_nth [OF pq(1)] tagged_nth [OF pq(2)] push_bit_1_inject(1) b pq
      by (metis endpoint_def)
  next
    case False
    then have "p = Suc (2 * (p div 2))" "q = Suc (2 * (q div 2))" "odd q" using assms(4) by presburger+
    then show ?thesis using False tagged_nth [OF pq(1)] tagged_nth [OF pq(2)] push_bit_1_inject(2) b pq
      by (metis endpoint_def)
  qed
qed


definition untagged :: "(u64 \<times> u64) list \<Rightarrow> bool" where
  "untagged es \<longleftrightarrow> (\<forall>(u, v)\<in>set es. \<not> bit u 63 \<and> \<not> bit v 63)"

lemma mate_tagged:
  assumes "untagged es"
  shows "mate (tagged es) p q \<longleftrightarrow> p < 2 * length es \<and> q < 2 * length es \<and> q mod 2 = p mod 2 \<and> q \<noteq> p \<and>
    endpoint es q = endpoint es p \<and>
    (\<forall>k<2 * length es. k mod 2 = p mod 2 \<and> endpoint es k = endpoint es p \<longrightarrow> k = p \<or> k = q)"
  using tagged_eq_iff [of es] assms unfolding mate_def untagged_def by auto

lemma endpoint_simps [simp]: "endpoint es (2 * i) = fst (es ! i)" "endpoint es (Suc (2 * i)) = snd (es ! i)"
  by (simp_all add: endpoint_def)

lemma mate_tagged_U:
  assumes "untagged es"
  shows "mate (tagged es) (2 * a) (2 * b) \<longleftrightarrow> a < length es \<and> b < length es \<and> b \<noteq> a \<and> fst (es ! b) = fst (es ! a) \<and>
    (\<forall>c<length es. fst (es ! c) = fst (es ! a) \<longrightarrow> c = a \<or> c = b)"
proof -
  have "(\<forall>k<2 * length es. k mod 2 = 0 \<and> endpoint es k = x \<longrightarrow> k = 2 * a \<or> k = 2 * b) \<longleftrightarrow>
      (\<forall>c<length es. fst (es ! c) = x \<longrightarrow> c = a \<or> c = b)" (is "?l \<longleftrightarrow> ?r") for x
  proof
    assume l: ?l
    show ?r
    proof (intro allI impI)
      fix c assume "c < length es" "fst (es ! c) = x"
      then have "2 * c = 2 * a \<or> 2 * c = 2 * b" using l [rule_format, of "2 * c"] by simp
      then show "c = a \<or> c = b" by simp
    qed
  next
    assume r: ?r
    show ?l
    proof (intro allI impI)
      fix k assume k: "k < 2 * length es" "k mod 2 = 0 \<and> endpoint es k = x"
      then obtain c where "k = 2 * c" by (auto elim: evenE)
      then show "k = 2 * a \<or> k = 2 * b" using r k by simp
    qed
  qed
  then show ?thesis unfolding mate_tagged [OF assms] by simp
qed

lemma mate_tagged_V:
  assumes "untagged es"
  shows "mate (tagged es) (Suc (2 * a)) (Suc (2 * b)) \<longleftrightarrow> a < length es \<and> b < length es \<and> b \<noteq> a \<and>
    snd (es ! b) = snd (es ! a) \<and> (\<forall>c<length es. snd (es ! c) = snd (es ! a) \<longrightarrow> c = a \<or> c = b)"
proof -
  have "(\<forall>k<2 * length es. k mod 2 = 1 \<and> endpoint es k = x \<longrightarrow> k = Suc (2 * a) \<or> k = Suc (2 * b)) \<longleftrightarrow>
      (\<forall>c<length es. snd (es ! c) = x \<longrightarrow> c = a \<or> c = b)" (is "?l \<longleftrightarrow> ?r") for x
  proof
    assume l: ?l
    show ?r
    proof (intro allI impI)
      fix c assume c: "c < length es" "snd (es ! c) = x"
      then have "Suc (2 * c) < 2 * length es" "Suc (2 * c) mod 2 = 1" by presburger+
      then have "Suc (2 * c) = Suc (2 * a) \<or> Suc (2 * c) = Suc (2 * b)"
        using l [rule_format, of "Suc (2 * c)"] c by simp
      then show "c = a \<or> c = b" by simp
    qed
  next
    assume r: ?r
    show ?l
    proof (intro allI impI)
      fix k assume k: "k < 2 * length es" "k mod 2 = 1 \<and> endpoint es k = x"
      have "k mod 2 = 1" using k by simp
      then have "k = Suc (2 * (k div 2))" "k div 2 < length es" using k(1) by presburger+
      then obtain c where "k = Suc (2 * c)" "c < length es" by blast
      then show "k = Suc (2 * a) \<or> k = Suc (2 * b)" using r k by simp
    qed
  qed
  moreover have "Suc (2 * a) < 2 * length es \<longleftrightarrow> a < length es" for a by presburger
  ultimately show ?thesis unfolding mate_tagged [OF assms] by simp
qed

text \<open>A closed walk through all edges is a simple cycle.\<close>

lemma closed_walk_cycle:
  assumes es: "untagged es" and w: "closed_walk (tagged es) qs" and len: "length qs = length es"
  shows "mset (map (\<lambda>p. p div 2) qs) = mset [0..<length es]" "simple_cycle (map ((!) es) (map (\<lambda>p. p div 2) qs))"
proof -
  let ?i = "\<lambda>k. qs ! k div 2"
  have walk: "walk (tagged es) qs" and "even (length qs)" "qs \<noteq> []" using w by (auto simp: closed_walk_def walk_def)
  then obtain m where "length qs = 2 * m" by (auto elim: evenE)
  with \<open>qs \<noteq> []\<close> have m: "length qs = 2 * m" "m > 0" using length_greater_0_conv [of qs] by linarith+
  then have ne: "tagged es \<noteq> []" using len by (metis length_0_conv mult_eq_0_iff neq0_conv tagged_simps(3) zero_neq_numeral)
  have d: "distinct (map (\<lambda>p. p div 2) qs)" using w by (rule closed_walk_distinct)
  have sub: "?i k < length es" if "k < length qs" for k
    using walk_less [OF walk _ ne that] by simp
  have "set (map (\<lambda>p. p div 2) qs) = {..<length es}"
    using sub distinct_card [OF d] len by (intro card_subset_eq) (auto simp: in_set_conv_nth)
  then show "mset (map (\<lambda>p. p div 2) qs) = mset [0..<length es]"
    using d by (intro set_eq_iff_mset_eq_distinct [THEN iffD1]) auto
  have par: "qs ! k mod 2 = k mod 2" if "k < length qs" for k using walk_parity [OF walk that] .
  have even: "qs ! (2 * k) = 2 * ?i (2 * k)" and odd: "qs ! Suc (2 * k) = Suc (2 * ?i (Suc (2 * k)))" if "k < m" for k
    using par [of "2 * k"] par [of "Suc (2 * k)"] that m(1) by (simp, presburger)+
  have idx: "?i k = ?i l \<longleftrightarrow> k = l" if "k < length qs" "l < length qs" for k l
    using nth_eq_iff_index_eq [OF d] that by simp
  have nxt: "Suc (Suc (2 * k)) mod (2 * m) = 2 * (Suc k mod m)" for k
    using mult_mod_right [of 2 "Suc k" m] by simp
  have f: "flip (2 * x) = Suc (2 * x)" "flip (Suc (2 * x)) = 2 * x" for x by (simp_all add: flip_eq)
  have U: "mate (tagged es) (2 * ?i (2 * k)) (2 * ?i (Suc (2 * k)))" if k: "k < m" for k
  proof -
    have "mate (tagged es) (qs ! (2 * k)) (flip (qs ! Suc (2 * k)))" using closed_walk_mate [OF w, of "2 * k"] k m(1) by simp
    then show ?thesis using even [OF k] odd [OF k] f by metis
  qed
  have V: "mate (tagged es) (Suc (2 * ?i (Suc (2 * k)))) (Suc (2 * ?i (2 * (Suc k mod m))))" if k: "k < m" for k
  proof -
    have j: "Suc k mod m < m" using m(2) by simp
    have "mate (tagged es) (qs ! Suc (2 * k)) (flip (qs ! (2 * (Suc k mod m))))"
      using closed_walk_mate [OF w, of "Suc (2 * k)"] k m(1) unfolding m(1) nxt by simp
    then show ?thesis using odd [OF k] even [OF j] f by metis
  qed
  have "k = l" if kl: "k < m" "l < m" "fst (es ! ?i (2 * k)) = fst (es ! ?i (2 * l))" for k l
  proof -
    have "?i (2 * l) = ?i (2 * k) \<or> ?i (2 * l) = ?i (Suc (2 * k))"
      using U [OF kl(1)] kl m(1) sub [of "2 * l"] unfolding mate_tagged_U [OF es] by simp
    then show ?thesis using idx [of "2 * l" "2 * k"] idx [of "2 * l" "Suc (2 * k)"] kl m(1) by auto
  qed
  moreover have "k = l" if kl: "k < m" "l < m" "snd (es ! ?i (Suc (2 * k))) = snd (es ! ?i (Suc (2 * l)))" for k l
  proof -
    have j: "Suc k mod m < m" using m(2) by simp
    have "?i (Suc (2 * l)) = ?i (Suc (2 * k)) \<or> ?i (Suc (2 * l)) = ?i (2 * (Suc k mod m))"
      using V [OF kl(1)] kl m(1) sub [of "Suc (2 * l)"] unfolding mate_tagged_V [OF es] by simp
    then show ?thesis
      using idx [of "Suc (2 * l)" "Suc (2 * k)"] idx [of "Suc (2 * l)" "2 * (Suc k mod m)"] kl m(1) j
        Suc_double_not_eq_double [of l "Suc k mod m"] by auto
  qed
  moreover have "fst (es ! ?i (2 * k)) = fst (es ! ?i (Suc (2 * k)))"
    "snd (es ! ?i (Suc (2 * k))) = snd (es ! ?i (2 * (Suc k mod m)))" if "k < m" for k
    using U [OF that] V [OF that] unfolding mate_tagged_U [OF es] mate_tagged_V [OF es] by simp_all
  ultimately show "simple_cycle (map ((!) es) (map (\<lambda>p. p div 2) qs))"
    unfolding simple_cycle_def using m by (intro exI [of _ m]) (simp add: inj_on_def)
qed

text \<open>In a simple cycle every position has a partner: the neighbours of its edge.\<close>

text \<open>What a simple cycle says of the indices \<open>ix\<close> of its edges, in their order along the cycle.\<close>

definition cycle_order :: "(u64 \<times> u64) list \<Rightarrow> nat list \<Rightarrow> nat \<Rightarrow> bool" where
  "cycle_order es ix m \<longleftrightarrow> m > 0 \<and> length es = 2 * m \<and> length ix = 2 * m \<and> distinct ix \<and> set ix = {..<2 * m} \<and>
     (\<forall>k<m. fst (es ! (ix ! (2 * k))) = fst (es ! (ix ! Suc (2 * k)))) \<and>
     (\<forall>k<m. snd (es ! (ix ! Suc (2 * k))) = snd (es ! (ix ! (2 * (Suc k mod m))))) \<and>
     inj_on (\<lambda>k. fst (es ! (ix ! (2 * k)))) {..<m} \<and> inj_on (\<lambda>k. snd (es ! (ix ! Suc (2 * k)))) {..<m}"

lemma simple_cycle_order:
  assumes ix: "mset ix = mset [0..<length es]" and c: "simple_cycle (map ((!) es) ix)"
  obtains m where "cycle_order es ix m"
proof -
  have len: "length ix = length es" using mset_eq_length [OF ix] by simp
  have set: "set ix = {..<length es}" using mset_eq_setD [OF ix] by (simp add: atLeast0LessThan)
  have dist: "distinct ix" unfolding mset_eq_imp_distinct_iff [OF ix] by (rule distinct_upt)
  obtain m where m: "m > 0" "length (map ((!) es) ix) = 2 * m"
    "\<forall>k<m. fst (map ((!) es) ix ! (2 * k)) = fst (map ((!) es) ix ! (2 * k + 1))"
    "\<forall>k<m. snd (map ((!) es) ix ! (2 * k + 1)) = snd (map ((!) es) ix ! (2 * (Suc k mod m)))"
    "inj_on (\<lambda>k. fst (map ((!) es) ix ! (2 * k))) {..<m}" "inj_on (\<lambda>k. snd (map ((!) es) ix ! (2 * k + 1))) {..<m}"
    using c unfolding simple_cycle_def by blast
  have "Suc k mod m < m" for k using m(1) by simp
  then show thesis using m len set dist by (intro that [of m]) (auto simp: cycle_order_def inj_on_def)
qed

text \<open>Every edge is at one position of the cycle, and every position follows another.\<close>

lemma cycle_order_find:
  assumes "cycle_order es ix m" "a < length es"
  obtains i where "i < m" "a = ix ! (2 * i) \<or> a = ix ! Suc (2 * i)"
proof -
  have "a \<in> set ix" "length ix = 2 * m" using assms by (auto simp: cycle_order_def)
  then obtain j where j: "j < 2 * m" "a = ix ! j" by (metis in_set_conv_nth)
  moreover have "j = 2 * (j div 2) \<or> j = Suc (2 * (j div 2))" by presburger
  ultimately show thesis using that [of "j div 2"] by (metis less_mult_imp_div_less mult.commute)
qed

lemma cycle_pred: "k < m \<Longrightarrow> \<exists>l<m. k = Suc l mod m"
  by (intro exI [of _ "(k + (m - 1)) mod m"]) (simp add: mod_Suc_eq)

lemma cycle_order_nth:
  assumes "cycle_order es ix m"
  shows "k < 2 * m \<Longrightarrow> ix ! k < length es" "k < 2 * m \<Longrightarrow> l < 2 * m \<Longrightarrow> ix ! k = ix ! l \<longleftrightarrow> k = l"
  using assms nth_mem [of k ix] nth_eq_iff_index_eq [of ix k l] by (auto simp: cycle_order_def)

lemma cycle_mate_U:
  assumes es: "untagged es" and o: "cycle_order es ix m" and k: "k < m"
  shows "mate (tagged es) (2 * ix ! (2 * k)) (2 * ix ! Suc (2 * k))"
proof -
  have u: "fst (es ! (ix ! (2 * i))) = fst (es ! (ix ! Suc (2 * i)))" if "i < m" for i using o that by (simp add: cycle_order_def)
  have inj: "inj_on (\<lambda>k. fst (es ! (ix ! (2 * k)))) {..<m}" using o by (simp add: cycle_order_def)
  have "a = ix ! (2 * k) \<or> a = ix ! Suc (2 * k)" if a: "a < length es" "fst (es ! a) = fst (es ! (ix ! (2 * k)))" for a
  proof -
    obtain i where i: "i < m" "a = ix ! (2 * i) \<or> a = ix ! Suc (2 * i)" using cycle_order_find [OF o a(1)] .
    then have "fst (es ! (ix ! (2 * i))) = fst (es ! (ix ! (2 * k)))" using u [OF i(1)] a(2) by auto
    then have "i = k" using i(1) k by (intro inj_onD [OF inj]) simp_all
    then show ?thesis using i(2) by simp
  qed
  moreover have "ix ! (2 * k) < length es" "ix ! Suc (2 * k) < length es" "ix ! Suc (2 * k) \<noteq> ix ! (2 * k)"
    using k cycle_order_nth [OF o] by simp_all
  ultimately show ?thesis using u [OF k, symmetric] unfolding mate_tagged_U [OF es] by blast
qed

lemma cycle_mate_V:
  assumes es: "untagged es" and o: "cycle_order es ix m" and k: "k < m"
  shows "mate (tagged es) (Suc (2 * ix ! Suc (2 * k))) (Suc (2 * ix ! (2 * (Suc k mod m))))"
proof -
  have v: "snd (es ! (ix ! Suc (2 * i))) = snd (es ! (ix ! (2 * (Suc i mod m))))" if "i < m" for i
    using o that by (simp add: cycle_order_def)
  have inj: "inj_on (\<lambda>k. snd (es ! (ix ! Suc (2 * k)))) {..<m}" using o by (simp add: cycle_order_def)
  have j': "Suc k mod m < m" using k by simp
  have "a = ix ! Suc (2 * k) \<or> a = ix ! (2 * (Suc k mod m))"
    if a: "a < length es" "snd (es ! a) = snd (es ! (ix ! Suc (2 * k)))" for a
  proof -
    obtain i where i: "i < m" "a = ix ! (2 * i) \<or> a = ix ! Suc (2 * i)" using cycle_order_find [OF o a(1)] .
    obtain l where l: "l < m" "i = Suc l mod m" using cycle_pred [OF i(1)] by blast
    have unique: "n = k" if "n < m" "snd (es ! (ix ! Suc (2 * n))) = snd (es ! (ix ! Suc (2 * k)))" for n
      using that k by (intro inj_onD [OF inj]) simp_all
    show ?thesis using i(2)
    proof
      assume e: "a = ix ! (2 * i)"
      then have "l = k" using unique [OF l(1)] v [OF l(1)] a(2) l(2) by simp
      then show ?thesis using e l(2) by simp
    next
      assume e: "a = ix ! Suc (2 * i)"
      then have "i = k" using unique [OF i(1)] a(2) by simp
      then show ?thesis using e by simp
    qed
  qed
  moreover have "ix ! (2 * (Suc k mod m)) \<noteq> ix ! Suc (2 * k)"
    using cycle_order_nth(2) [OF o, of "2 * (Suc k mod m)" "Suc (2 * k)"] k j' Suc_double_not_eq_double [of k "Suc k mod m"] by auto
  moreover have "ix ! Suc (2 * k) < length es" "ix ! (2 * (Suc k mod m)) < length es"
    using k j' cycle_order_nth(1) [OF o] by simp_all
  ultimately show ?thesis using v [OF k, symmetric] unfolding mate_tagged_V [OF es] by blast
qed

lemma simple_cycle_mates:
  assumes es: "untagged es" and ix: "mset ix = mset [0..<length es]" and c: "simple_cycle (map ((!) es) ix)"
    and p: "p < 2 * length es"
  shows "\<exists>q. mate (tagged es) p q"
proof -
  obtain m where o: "cycle_order es ix m" using simple_cycle_order [OF ix c] .
  note U = cycle_mate_U [OF es o] and V = cycle_mate_V [OF es o]
  have "p div 2 < length es" using p by simp
  then obtain i where i: "i < m" "p div 2 = ix ! (2 * i) \<or> p div 2 = ix ! Suc (2 * i)" using cycle_order_find [OF o] by blast
  obtain l where l: "l < m" "i = Suc l mod m" using cycle_pred [OF i(1)] by blast
  have "p = 2 * (p div 2) \<or> p = Suc (2 * (p div 2))" by presburger
  then show ?thesis using i(2) U [OF i(1)] V [OF i(1)] V [OF l(1)] l(2) mate_sym by metis
qed


text \<open>Endpoints in pairs cancel.\<close>

lemma paired_sum:
  assumes "finite A" "\<And>p. p \<in> A \<Longrightarrow> \<exists>q\<in>A. mate uvs p q"
  shows "(\<Sum>p\<in>A. Gf (uvs ! p)) = 0"
  using assms
proof (induction "card A" arbitrary: A rule: less_induct)
  case less
  show ?case
  proof (cases "A = {}")
    case False
    then obtain p q where pq: "p \<in> A" "q \<in> A" "mate uvs p q" using less.prems(2) by blast
    define B where "B = A - {p, q}"
    have ne: "p \<noteq> q" "uvs ! q = uvs ! p" using pq(3) by (auto simp: mate_def)
    have A: "A = insert p (insert q B)" "p \<notin> insert q B" "q \<notin> B" "finite B" using pq ne less.prems(1) by (auto simp: B_def)
    have "\<exists>s\<in>B. mate uvs r s" if r: "r \<in> B" for r
    proof -
      obtain s where s: "s \<in> A" "mate uvs r s" using less.prems(2) r by (auto simp: B_def)
      have "s \<noteq> p" using s(2) pq(3) mate_sym mate_unique r by (metis B_def DiffD2 insertCI)
      moreover have "s \<noteq> q" using s(2) pq(3) mate_sym mate_unique r by (metis B_def DiffD2 insertCI)
      ultimately show ?thesis using s by (auto simp: B_def)
    qed
    moreover have "card B < card A" unfolding A(1) using A by simp
    ultimately have "(\<Sum>p\<in>B. Gf (uvs ! p)) = 0" using less.hyps A(4) by blast
    then show ?thesis unfolding A(1) using A ne by simp
  qed simp
qed

lemma Gf_foldl_xor: "Gf (foldl (XOR) a xs) = Gf a + (\<Sum>i<length xs. Gf (xs ! i))"
  by (induction xs rule: rev_induct) (simp_all add: Gf_xor nth_append add.assoc)

lemma cyclic_all:
  assumes "j < n" "P j" "\<And>i. i < n \<Longrightarrow> P i \<Longrightarrow> P (Suc i mod n)" "i < n"
  shows "P i"
proof -
  have "P ((j + d) mod n)" for d
  proof (induction d)
    case (Suc d)
    have "(j + d) mod n < n" using assms(1) by simp
    then have "P (Suc ((j + d) mod n) mod n)" using assms(3) Suc by blast
    then show ?case by (simp add: mod_Suc_eq)
  qed (use assms(1,2) in simp)
  from this [of "n - j + i"] show ?thesis using assms(1,4) by simp
qed

text \<open>The verifier of the tagged endpoints decides whether the edges can be ordered into a simple cycle.\<close>

text \<open>A closed walk meets every edge of a simple cycle.\<close>

lemma closed_walk_covers:
  assumes es: "untagged es" and ne: "es \<noteq> []" and o: "cycle_order es ix m" and qs: "closed_walk (tagged es) qs"
  shows "length es \<le> length qs"
proof -
  define S where "S = (\<lambda>p. p div 2) ` set qs"
  have S: "r div 2 \<in> S" if "p div 2 \<in> S" "mate (tagged es) p r" for p r
    using closed_walk_closed [OF qs _ _ that(2)] that(1) div2_eq_flip unfolding S_def by fastforce
  have set: "set ix = {..<length es}" and len: "length ix = 2 * m" using o by (auto simp: cycle_order_def)
  have "0 \<in> set qs" using qs by (auto simp: closed_walk_def walk_def in_set_conv_nth)
  then have "0 \<in> S" unfolding S_def by force
  moreover have "0 \<in> set ix" unfolding set using ne by simp
  ultimately obtain j where j: "j < 2 * m" "ix ! j \<in> S" using len by (metis in_set_conv_nth)
  have "ix ! (Suc i mod (2 * m)) \<in> S" if i: "i < 2 * m" "ix ! i \<in> S" for i
  proof (cases "even i")
    case True
    then obtain k where k: "i = 2 * k" "k < m" using i(1) by (auto elim!: evenE)
    then show ?thesis using S [OF _ cycle_mate_U [OF es o k(2)]] i(2) by simp
  next
    case False
    then obtain k where k: "i = Suc (2 * k)" "k < m" using i(1) by (auto elim!: oddE)
    have "Suc i mod (2 * m) = 2 * (Suc k mod m)" using mult_mod_right [of 2 "Suc k" m] by (simp add: k(1))
    then show ?thesis using S [OF _ cycle_mate_V [OF es o k(2)]] i(2) k(1) by simp
  qed
  then have "ix ! i \<in> S" if "i < 2 * m" for i using cyclic_all [of j "2 * m" "\<lambda>i. ix ! i \<in> S"] j that by blast
  then have "{..<length es} \<subseteq> S" unfolding set [symmetric] using len by (metis in_set_conv_nth subsetI)
  then have "length es \<le> card S" using card_mono [of S "{..<length es}"] by (simp add: S_def)
  also have "card S \<le> length qs" unfolding S_def by (metis card_image_le card_length finite_set order_trans)
  finally show ?thesis .
qed

lemma verifyCycle_tagged:
  assumes es: "untagged es" and ne: "es \<noteq> []"
  shows "\<exists>r. verifyCycle (tagged es) = Some r \<and> (r = Inr () \<or> r = Inl ErrInvalidProof) \<and>
    (r = Inr () \<longleftrightarrow> (\<exists>ix. mset ix = mset [0..<length es] \<and> simple_cycle (map ((!) es) ix)))"
proof -
  let ?uvs = "tagged es"
  have "length ?uvs \<noteq> 0" using ne by simp
  then have uvs: "even (length ?uvs)" "?uvs \<noteq> []" by (simp, metis length_0_conv)
  have "walk ?uvs [0]" by (auto simp: walk_def)
  from cycle_loop_walk [OF uvs this] obtain r where r: "cycle_loop ?uvs 0 0 = Some r"
    "r = Inr () \<or> r = Inl ErrInvalidProof"
    "r = Inr () \<Longrightarrow> \<exists>qs. closed_walk ?uvs qs \<and> length qs = length es"
    "(\<forall>i<2 * length es. \<exists>j. mate ?uvs i j) \<Longrightarrow> \<exists>qs. closed_walk ?uvs qs \<and> (length qs = length es \<longrightarrow> r = Inr ())"
    by auto
  have "\<exists>ix. mset ix = mset [0..<length es] \<and> simple_cycle (map ((!) es) ix)" if ok: "r = Inr ()"
    using r(3) [OF ok] closed_walk_cycle [OF es] by blast
  moreover have "r = Inr () \<and> foldl (XOR) 0 ?uvs = 0"
    if ix: "mset ix = mset [0..<length es]" "simple_cycle (map ((!) es) ix)" for ix
  proof -
    have all: "\<exists>q. mate ?uvs p q" if "p < 2 * length es" for p
      using simple_cycle_mates [OF es ix that] .
    obtain qs where qs: "closed_walk ?uvs qs" "length qs = length es \<Longrightarrow> r = Inr ()" using r(4) all by blast
    have walk: "walk ?uvs qs" using qs(1) by (simp add: closed_walk_def)
    obtain m where "cycle_order es ix m" using simple_cycle_order [OF ix] .
    from closed_walk_covers [OF es ne this qs(1)] have "length qs = length es" using walk_length [OF walk uvs] by simp
    moreover have "Gf (foldl (XOR) 0 ?uvs) = 0"
      unfolding Gf_foldl_xor using paired_sum [of "{..<length ?uvs}" ?uvs] all mate_less(2) by fastforce
    ultimately show ?thesis using qs(2) by simp
  qed
  ultimately show ?thesis using r(1,2) by (auto simp: verifyCycle_def)
qed


section \<open>The proof as a whole\<close>

definition graph_edge :: "config \<Rightarrow> bytes \<Rightarrow> u32 \<Rightarrow> u64 \<times> u64" where
  "graph_edge cfg seed nonce = (case EdgeForNonce cfg seed nonce of Inl e \<Rightarrow> (0, 0) | Inr ed \<Rightarrow> (EndU ed, EndV ed))"

lemma normalize_bounds:
  assumes "normalize cfg = Inr c"
  shows "normalize c = Inr c" "2 \<le> unat (EdgeBits c)" "unat (EdgeBits c) \<le> 31" "2 \<le> ProofSize c" "ProofSize c \<le> 255"
    "EdgeBits c = EdgeBits cfg" "ProofSize cfg \<noteq> 0 \<Longrightarrow> ProofSize c = ProofSize cfg"
  using assms by (auto simp: normalize_def Let_def word_less_nat_alt DefaultProofSize_def split: if_splits)

lemma normalize_error: "normalize cfg = Inl e \<Longrightarrow> e = ErrInvalidEdgeBits \<or> e = ErrInvalidProof"
  by (auto simp: normalize_def Let_def split: if_splits)

lemma EdgeMask_mask: "EdgeMask c = mask (unat (EdgeBits c))"
  by (simp add: EdgeMask_def mask_eq_exp_minus_1)

lemma nonce_in_range:
  assumes "unat (EdgeBits c) \<le> 31"
  shows "(ucast (n :: u32) :: u64) > edgeMask c \<longleftrightarrow> \<not> unat n < 2 ^ unat (EdgeBits c)"
proof -
  have "uint (EdgeMask c) = 2 ^ unat (EdgeBits c) - 1"
  proof -
    have "uint (EdgeMask c) = mask (min LENGTH(64) (unat (EdgeBits c)))" unfolding EdgeMask_mask by (rule uint_mask_eq)
    moreover have "min LENGTH(64) (unat (EdgeBits c)) = unat (EdgeBits c)" using assms by simp
    ultimately show ?thesis by (simp add: mask_eq_exp_minus_1)
  qed
  moreover have "unat n < 2 ^ 32" using unsigned_less [of n] by simp
  then have "unat (ucast n :: u64) = unat n" by (simp add: unsigned_ucast_eq take_bit_nat_eq_self_iff)
  then have "uint (ucast n :: u64) = int (unat n)" by (simp only: uint_nat)
  ultimately have "(ucast n :: u64) > edgeMask c \<longleftrightarrow> 2 ^ unat (EdgeBits c) - 1 < int (unat n)"
    by (simp add: edgeMask_def word_less_alt)
  also have "\<dots> \<longleftrightarrow> \<not> int (unat n) < int (2 ^ unat (EdgeBits c))" by simp linarith
  finally show ?thesis by (simp only: of_nat_less_iff)
qed

lemma EdgeForNonce_cases:
  assumes "normalize c = Inr c"
  shows "case EdgeForNonce c seed n of
      Inl e \<Rightarrow> (e = ErrInvalidProof \<and> \<not> unat n < 2 ^ unat (EdgeBits c)) \<or> (e = ErrInvalidSeed \<and> length seed \<noteq> 32)
    | Inr ed \<Rightarrow> unat n < 2 ^ unat (EdgeBits c) \<and> length seed = 32 \<and> \<not> bit (EndU ed) 63 \<and> \<not> bit (EndV ed) 63"
proof -
  note b = normalize_bounds [OF assms]
  have "\<not> bit (w AND nodeMask c) 63" for w
    using b(3) by (simp add: nodeMask_def edgeMask_def EdgeMask_mask bit_and_iff bit_mask_iff)
  then show ?thesis
    using nonce_in_range [OF b(3)] by (auto simp: EdgeForNonce_def assms seedWords_def Let_def)
qed

lemma collect_edges_Inr:
  assumes "normalize c = Inr c"
  shows "collect_edges c seed prev ns = Inr uvs \<longleftrightarrow>
    uvs = tagged (map (graph_edge c seed) ns) \<and> (ns \<noteq> [] \<longrightarrow> length seed = 32) \<and>
    (\<forall>n\<in>set ns. unat n < 2 ^ unat (EdgeBits c)) \<and> distinct_adj (case prev of None \<Rightarrow> ns | Some p \<Rightarrow> p # ns)"
proof (induction ns arbitrary: prev uvs)
  case Nil
  then show ?case by (auto split: option.splits)
next
  case (Cons n ns)
  note b = normalize_bounds [OF assms]
  note range = nonce_in_range [OF b(3), of n]
  have adj: "distinct_adj (case prev of None \<Rightarrow> n # ns | Some p \<Rightarrow> p # n # ns) \<longleftrightarrow> prev \<noteq> Some n \<and> distinct_adj (n # ns)"
    by (cases prev) auto
  show ?case
  proof (cases "EdgeForNonce c seed n")
    case (Inl e)
    then show ?thesis using EdgeForNonce_cases [OF assms, where seed = seed and n = n] range by auto
  next
    case (Inr ed)
    have e: "unat n < 2 ^ unat (EdgeBits c)" "length seed = 32"
      using EdgeForNonce_cases [OF assms, where seed = seed and n = n] Inr by simp_all
    have g: "graph_edge c seed n = (EndU ed, EndV ed)" by (simp add: graph_edge_def Inr)
    have "collect_edges c seed prev (n # ns) = Inr uvs \<longleftrightarrow> prev \<noteq> Some n \<and>
        (\<exists>u. collect_edges c seed (Some n) ns = Inr u \<and> uvs = push_bit 1 (EndU ed) # (push_bit 1 (EndV ed) OR 1) # u)"
      unfolding collect_edges.simps Inr sum.case using range e(1) by (auto split: sum.splits)
    also have "\<dots> \<longleftrightarrow> prev \<noteq> Some n \<and> uvs = tagged (map (graph_edge c seed) (n # ns)) \<and>
        (\<forall>n\<in>set ns. unat n < 2 ^ unat (EdgeBits c)) \<and> distinct_adj (n # ns)"
      unfolding Cons.IH option.case list.map g tagged_simps using e(2) by auto
    finally show ?thesis unfolding adj using e by auto
  qed
qed

lemma collect_edges_error:
  assumes "normalize c = Inr c"
  shows "collect_edges c seed prev ns = Inl e \<Longrightarrow> e = ErrInvalidProof \<or> e = ErrInvalidSeed"
  using EdgeForNonce_cases [OF assms, where seed = seed]
  by (induction ns arbitrary: prev) (fastforce split: sum.splits if_splits)+

lemma untagged_graph_edges:
  assumes "normalize c = Inr c"
  shows "untagged (map (graph_edge c seed) ns)"
  using EdgeForNonce_cases [OF assms, where seed = seed] by (force simp: untagged_def graph_edge_def split: sum.splits)

lemma sorted_distinct_adj: "sorted xs \<and> distinct_adj xs \<longleftrightarrow> sorted_wrt (<) (xs :: 'a::linorder list)"
proof (induction xs rule: induct_list012)
  case (3 x y zs)
  then show ?case by (auto intro: order.strict_trans less_imp_le)
qed simp_all

text \<open>Orders of the nonces and orders of their positions.\<close>

lemma orders_of_positions:
  assumes "distinct ns"
  shows "(\<exists>ix. mset ix = mset [0..<length ns] \<and> P (map ((!) (map f ns)) ix)) \<longleftrightarrow> (\<exists>order. mset order = mset ns \<and> P (map f order))"
proof
  assume "\<exists>ix. mset ix = mset [0..<length ns] \<and> P (map ((!) (map f ns)) ix)"
  then obtain ix where ix: "mset ix = mset [0..<length ns]" "P (map ((!) (map f ns)) ix)" by blast
  have "set ix = {0..<length ns}" using mset_eq_setD [OF ix(1)] by simp
  then have "map ((!) (map f ns)) ix = map f (map ((!) ns) ix)" by simp
  moreover have "mset (map ((!) ns) ix) = mset ns" using arg_cong [OF ix(1), of "image_mset ((!) ns)"] by (metis map_nth mset_map)
  ultimately show "\<exists>order. mset order = mset ns \<and> P (map f order)" using ix(2) by metis
next
  assume "\<exists>order. mset order = mset ns \<and> P (map f order)"
  then obtain order where o: "mset order = mset ns" "P (map f order)" by blast
  define pos where "pos x = (THE i. i < length ns \<and> ns ! i = x)" for x
  have pos: "pos (ns ! i) = i" if "i < length ns" for i
    unfolding pos_def using nth_eq_iff_index_eq [OF assms] that by (intro the_equality) auto
  have "map pos ns = [0..<length ns]" by (intro nth_equalityI) (simp_all add: pos)
  then have ix: "mset (map pos order) = mset [0..<length ns]" using arg_cong [OF o(1), of "image_mset pos"] by (metis mset_map)
  have "map f ns ! pos x = f x" if "x \<in> set order" for x
    using that mset_eq_setD [OF o(1)] pos by (auto simp: in_set_conv_nth)
  then have "map ((!) (map f ns)) (map pos order) = map f order" by simp
  then show "\<exists>ix. mset ix = mset [0..<length ns] \<and> P (map ((!) (map f ns)) ix)" using ix o(2) by metis
qed

text \<open>The verifier against the cycles of the graph.\<close>

lemma Verify_spec:
  "\<exists>r. Verify cfg seed nonces = Some r \<and>
    (r = Inr () \<longleftrightarrow> (\<exists>c. normalize cfg = Inr c \<and> length seed = 32 \<and> int (length nonces) = ProofSize c \<and>
       sorted_wrt (<) nonces \<and> (\<forall>n\<in>set nonces. unat n < 2 ^ unat (EdgeBits c)) \<and>
       (\<exists>order. mset order = mset nonces \<and> simple_cycle (map (graph_edge c seed) order)))) \<and>
    r \<in> {Inr (), Inl ErrInvalidEdgeBits, Inl ErrInvalidProof, Inl ErrInvalidSeed}"
proof (cases "normalize cfg")
  case (Inl e)
  then show ?thesis using normalize_error [OF Inl] by (auto simp: Verify_def)
next
  case (Inr c)
  note b = normalize_bounds [OF Inr]
  show ?thesis
  proof (cases "int (length nonces) = ProofSize c \<and> sorted nonces")
    case False
    then show ?thesis using Inr by (auto simp: Verify_def strict_sorted_iff)
  next
    case True
    then have V: "Verify cfg seed nonces =
        (case collect_edges c seed None nonces of Inl e \<Rightarrow> Some (Inl e) | Inr uvs \<Rightarrow> verifyCycle uvs)"
      using Inr by (simp add: Verify_def)
    have ne: "nonces \<noteq> []" using True b(4) by auto
    show ?thesis
    proof (cases "collect_edges c seed None nonces")
      case (Inl e)
      then have "\<not> (length seed = 32 \<and> sorted_wrt (<) nonces \<and> (\<forall>n\<in>set nonces. unat n < 2 ^ unat (EdgeBits c)))"
        using collect_edges_Inr [OF b(1), of seed None nonces "tagged (map (graph_edge c seed) nonces)"]
        unfolding sorted_distinct_adj [symmetric] by auto
      then show ?thesis using collect_edges_error [OF b(1) Inl] Inl V Inr by auto
    next
      case (Inr uvs)
      then have ok: "uvs = tagged (map (graph_edge c seed) nonces)" "length seed = 32"
        "\<forall>n\<in>set nonces. unat n < 2 ^ unat (EdgeBits c)" "distinct_adj nonces"
        using collect_edges_Inr [OF b(1), of seed None nonces uvs] ne by simp_all
      then have s: "sorted_wrt (<) nonces" using True by (simp add: sorted_distinct_adj [symmetric])
      then have "distinct nonces" by (simp add: strict_sorted_iff)
      from orders_of_positions [OF this, of simple_cycle "graph_edge c seed"]
      show ?thesis
        using verifyCycle_tagged [OF untagged_graph_edges [OF b(1)], of seed nonces] ne V Inr ok s True \<open>normalize cfg = Inr c\<close>
        by auto
    qed
  qed
qed

section \<open>A sample graph\<close>

text \<open>Rotation in terms of shifts, which evaluate.\<close>

lemma rotl_eq: 
 assumes "0 < n" "n < 64" shows "word_rotl n (w :: u64) = push_bit n w OR drop_bit (64 - n) w"
proof (rule bit_word_eqI)
  fix k assume k: "k < LENGTH(64)"
  show "bit (word_rotl n w) k \<longleftrightarrow> bit (push_bit n w OR drop_bit (64 - n) w) k"
  proof (cases "n \<le> k")
    case True
    have "(k + 64 - n) mod 64 = k - n" using True k assms by (simp add: mod_if)
    moreover have "\<not> bit w (64 - n + k)" using bit_imp_le_length [of w "64 - n + k"] True assms by auto
    ultimately show ?thesis using True k assms by (simp add: bit_word_rotl_iff bit_or_iff bit_push_bit_iff bit_drop_bit_eq)
  next
    case False
    then have "(k + 64 - n) mod 64 = 64 - n + k" using k assms by (auto simp: mod_if)
    then show ?thesis using False k assms by (simp add: bit_word_rotl_iff bit_or_iff bit_push_bit_iff bit_drop_bit_eq)
  qed
qed

definition sample_config :: config where
  "sample_config = \<lparr>EdgeBits = 2, ProofSize = 2\<rparr>"

definition sample_seed :: bytes where
  "sample_seed = replicate 32 5"

lemma sample_words: "seedWords sample_seed = Inr (0x505050505050505, 0x505050505050505, 0x505050505050505, 0x505050505050505)"
  by code_simp

lemma sample_rounds:
  "sipRound (0x505050505050505, 0x505050505050505, 0x505050505050505, 0x505050505050505) = (0x1919191919191919, 0xe1e1e1e1e1e1e1e1, 0xb4b4b4b4b4b4b4b4, 0xf8f8f8f8f8f8f8f8)"
  "sipRound (0x1919191919191919, 0xe1e1e1e1e1e1e1e1, 0xb4b4b4b4b4b4b4b4, 0xf8f8f8f8f8f8f8f8) = (0x505050505050504e, 0xf9f9f9f9f9f9f9ff, 0x7474747274747474, 0xfafafafafadafae4)"
  "sipRound (0x505050505050504e, 0xf9f9f9f9f9f9f9ff, 0x747474727474748b, 0xfafafafafadafae4) = (0xdfdfe004dff5dfdf, 0xe0e0e098e21ce0b, 0xe4c524e1e4e4e4e2, 0x692d55766d476d6d)"
  "sipRound (0xdfdfe004dff5dfdf, 0xe0e0e098e21ce0b, 0xe4c524e1e4e4e4e2, 0x692d55766d476d6d) = (0x869bc50a2d2f2970, 0xc58bf58f32554623, 0xaa031e7a7a1f5a22, 0x657c2d2d416c39f2)"
  "sipRound (0x869bc50a2d2f2970, 0xc58bf58f32554623, 0xaa031e7a7a1f5a22, 0x657c2d2d416c39f2) = (0x81d67a5ecea1ac01, 0xfbb246fb9c8fce1a, 0xb2cbab364215a87b, 0xd8a63560e3a5e640)"
  "sipRound (0x81d67a5ecea1ac01, 0xfbb246fb9c8fce1a, 0xb2cbab364215a87b, 0xd8a63560e3a5e640) = (0x29427d4e41841777, 0xa55eb686f277de87, 0xb8adb428c0c99362, 0x4f1a02248233d557)"
  "sipRound (0x505050505050505, 0x505050505050505, 0x505050505050505, 0x505050505050504) = (0x1919191919181916, 0xe1e1e1e1e1e1e1e6, 0xb4b4b4b3b4b4b4b4, 0xf8f8f8d8f899f8f7)"
  "sipRound (0x1919191919181916, 0xe1e1e1e1e1e1e1e6, 0xb4b4b4b3b4b4b4b4, 0xf8f8f8d8f899f8f7) = (0x506f501250b4504d, 0xf9f9f9d9399259e6, 0x7413d46b74747453, 0xf2c5e738fadefee7)"
  "sipRound (0x506f501250b4504c, 0xf9f9f9d9399259e6, 0x7413d46b747474ac, 0xf2c5e738fadefee7) = (0xc27ebacdc1dcb41, 0x19fa88adad70204, 0x30cde8a0dc2c2a7e, 0x2375dd3cf6cdf769)"
  "sipRound (0xc27ebacdc1dcb41, 0x19fa88adad70204, 0x30cde8a0dc2c2a7e, 0x2375dd3cf6cdf769) = (0x40740055335a96c9, 0xd3c03823b3439ef0, 0x29ae6f5d4d1a954b, 0x2270b235610bb92f)"
  "sipRound (0x40740055335a96c9, 0xd3c03823b3439ef0, 0x29ae6f5d4d1a954b, 0x2270b235610bb92f) = (0xe4c876522b3da482, 0xc36e45231ce4585b, 0x43667e3b5f4f6fa3, 0xf7ea977faa6261ca)"
  "sipRound (0xe4c876522b3da482, 0xc36e45231ce4585b, 0x43667e3b5f4f6fa3, 0xf7ea977faa6261ca) = (0xf450bcb710b1e1fc, 0x2a3068f1c5bc9738, 0xccdc561d9be3eea4, 0xf7db3d3c044642b)"
  "sipRound (0x505050505050505, 0x505050505050505, 0x505050505050505, 0x505050505050507) = (0x1919191919171913, 0xe1e1e1e1e1e1e1e3, 0xb4b4b4b6b4b4b4b4, 0xf8f8f8b8f836f8f2)"
  "sipRound (0x1919191919171913, 0xe1e1e1e1e1e1e1e3, 0xb4b4b4b6b4b4b4b4, 0xf8f8f8b8f836f8f2) = (0x500e50504f145058, 0xf9f9f9bf7e25b9fd, 0x73b0347074747436, 0xfb24d37ae4def2f2)"
  "sipRound (0x500e50504f14505a, 0xf9f9f9bf7e25b9fd, 0x73b03470747474c9, 0xfb24d37ae4def2f2) = (0x8ae9ed8cf5a9e6ae, 0xaf8259bdb989f75c, 0xd3591d23e414adb6, 0xec5c99bf665e5352)"
  "sipRound (0x8ae9ed8cf5a9e6ae, 0xaf8259bdb989f75c, 0xd3591d23e414adb6, 0xec5c99bf665e5352) = (0xd53eaec7538e349e, 0xd1e684ee4bbfafb5, 0xdc4b4d023111a75e, 0xc29d8afaf90af5c4)"
  "sipRound (0xd53eaec7538e349e, 0xd1e684ee4bbfafb5, 0xdc4b4d023111a75e, 0xc29d8afaf90af5c4) = (0xb360134b86fd9374, 0xe32507c9280914e0, 0x94d7fb9116a1d2bf, 0x6d9be840711f1131)"
  "sipRound (0xb360134b86fd9374, 0xe32507c9280914e0, 0x94d7fb9116a1d2bf, 0x6d9be840711f1131) = (0x993a3b232d76a97f, 0x44db3ad27d3bf4d8, 0x155b982038f021e7, 0xc0e8e512e00bef0d)"
  "sipRound (0x505050505050505, 0x505050505050505, 0x505050505050505, 0x505050505050506) = (0x1919191919161918, 0xe1e1e1e1e1e1e1e0, 0xb4b4b4b5b4b4b4b4, 0xf8f8f898f8d7f8f9)"
  "sipRound (0x1919191919161918, 0xe1e1e1e1e1e1e1e0, 0xb4b4b4b5b4b4b4b4, 0xf8f8f898f8d7f8f9) = (0x502d50925070504f, 0xf9f9f982b9d119fc, 0x7458947174747415, 0xe307fe38fadaf6e5)"
  "sipRound (0x502d50925070504c, 0xf9f9f982b9d119fc, 0x74589471747474ea, 0xe307fe38fadaf6e5) = (0xb399d2b8e3d1d2dd, 0xf629fd2472208b68, 0x98ce6146cc77afd9, 0xbd8ae7e9fac4f9d0)"
  "sipRound (0xb399d2b8e3d1d2dd, 0xf629fd2472208b68, 0x98ce6146cc77afd9, 0xbd8ae7e9fac4f9d0) = (0x7a31239e8afe400, 0x6ff203f48adac6e7, 0xbdbea29ecc08aca, 0x7924cfbb6cd9d216)"
  "sipRound (0x7a31239e8afe400, 0x6ff203f48adac6e7, 0xbdbea29ecc08aca, 0x7924cfbb6cd9d216) = (0xbe46802403213bf2, 0xb20617f60ac2cc2e, 0x84f0a3f9bcec415a, 0x19d7f1a0bba86c88)"
  "sipRound (0xbe46802403213bf2, 0xb20617f60ac2cc2e, 0x84f0a3f9bcec415a, 0x19d7f1a0bba86c88) = (0x7d4c365284694c4f, 0xe3fe461f7037e926, 0xccf68c42517aeedc, 0xbb0eb5c402c4a14a)"
  by (simp_all add: sipRound_def Let_def rotl_eq)

lemma sample_hashes:
  "siphash24 (0x505050505050505, 0x505050505050505, 0x505050505050505, 0x505050505050505) 0 = 0x7bab7dc4f1098fc5"
  "siphash24 (0x505050505050505, 0x505050505050505, 0x505050505050505, 0x505050505050505) 1 = 0x1dc131888eaafc4b"
  "siphash24 (0x505050505050505, 0x505050505050505, 0x505050505050505, 0x505050505050505) 2 = 0x8527cc388b6934d"
  "siphash24 (0x505050505050505, 0x505050505050505, 0x505050505050505, 0x505050505050505) 3 = 0xe94a49cba7e0eaff"
  by (simp_all add: siphash24_def eval_nat_numeral sample_rounds)

lemma sample_normalize: "normalize sample_config = Inr sample_config"
  by (simp add: normalize_def sample_config_def)

lemma sample_edges: "graph_edge sample_config sample_seed 0 = (1, 3)" "graph_edge sample_config sample_seed 1 = (1, 3)"
  by (simp_all add: graph_edge_def EdgeForNonce_def sample_normalize sample_words Let_def nodeMask_def edgeMask_def
      EdgeMask_def sample_hashes) (simp_all add: sample_config_def sample_hashes)

lemma sample_cycle: "simple_cycle [(1, 3), (1, 3)]"
  unfolding simple_cycle_def by (intro exI [of _ 1]) (simp add: inj_on_def)

lemma sample_proof:
  "\<exists>c. normalize sample_config = Inr c \<and> length sample_seed = 32 \<and> int (length [0, 1 :: u32]) = ProofSize c \<and>
     sorted_wrt (<) [0, 1 :: u32] \<and> (\<forall>n\<in>set [0, 1 :: u32]. unat n < 2 ^ unat (EdgeBits c)) \<and>
     (\<exists>order. mset order = mset [0, 1 :: u32] \<and> simple_cycle (map (graph_edge c sample_seed) order))"
proof (intro exI [of _ sample_config] conjI exI [of _ "[0, 1 :: u32]"])
  show "simple_cycle (map (graph_edge sample_config sample_seed) [0, 1])" using sample_cycle by (simp add: sample_edges)
qed (simp_all add: sample_normalize, simp_all add: sample_config_def sample_seed_def)

lemma sample_verifies: "Verify sample_config sample_seed [0, 1] = Some (Inr ())"
  using Verify_spec [of sample_config sample_seed "[0, 1]"] sample_proof by auto

section \<open>Properties\<close>

text \<open>C6: the verifier always answers, and accepts exactly the proofs: for a valid configuration and a seed of 32
  bytes the nonces are as many as the proof size, strictly increasing, within the edge bits, and their edges of
  the graph of the seed can be ordered into one simple cycle. Any other answer is one of three errors.\<close>

theorem Verify_iff_cycle:
  "\<exists>r. Verify cfg seed nonces = Some r \<and>
    (r = Inr () \<longleftrightarrow> (\<exists>c. normalize cfg = Inr c \<and> length seed = 32 \<and> int (length nonces) = ProofSize c \<and>
       sorted_wrt (<) nonces \<and> (\<forall>n\<in>set nonces. unat n < 2 ^ unat (EdgeBits c)) \<and>
       (\<exists>order. mset order = mset nonces \<and> simple_cycle (map (graph_edge c seed) order)))) \<and>
    r \<in> {Inr (), Inl ErrInvalidEdgeBits, Inl ErrInvalidProof, Inl ErrInvalidSeed}"
  by (rule Verify_spec)

theorem Verify_iff_cycle_witness: "Verify sample_config sample_seed [0, 1] = Some (Inr ())"
  using Verify_iff_cycle [of sample_config sample_seed "[0, 1]"] sample_proof by auto

end
