(* ===== verification/GoStrings.thy ===== *)
theory GoStrings
  imports Text
begin

text \<open>
  The functions of package \<open>strings\<close> that the commands use, on byte strings. White space is that of
  \<open>unicode.IsSpace\<close>: a string is trimmed and split at the UTF-8 encodings of these runes, which start with a byte
  that occurs in no other position of an encoding.
\<close>

definition space_runes :: "nat list" where
  "space_runes = [9, 10, 11, 12, 13, 32, 133, 160, 5760] @ [8192..<8203] @ [8232, 8233, 8239, 8287, 12288]"

definition spaces :: "bytes list" where
  "spaces = map encode_rune space_runes"

definition head_space :: "bytes \<Rightarrow> bytes option" where
  "head_space s = find (\<lambda>e. take (length e) s = e) spaces"

definition tail_space :: "bytes \<Rightarrow> bytes option" where
  "tail_space s = find (\<lambda>e. length e \<le> length s \<and> drop (length s - length e) s = e) spaces"

lemma spaces_eq:
  "spaces = [[9], [10], [11], [12], [13], [32], [194, 133], [194, 160], [225, 154, 128], [226, 128, 128], [226, 128, 129],
    [226, 128, 130], [226, 128, 131], [226, 128, 132], [226, 128, 133], [226, 128, 134], [226, 128, 135], [226,
    128, 136], [226, 128, 137], [226, 128, 138], [226, 128, 168], [226, 128, 169], [226, 128, 175], [226, 129,
    159], [227, 128, 128]]"
  by (simp add: spaces_def space_runes_def encode_rune_def)

lemma spaces_nonempty: "e \<in> set spaces \<Longrightarrow> e \<noteq> []"
  by (auto simp: spaces_eq)

lemma head_space_Some: "head_space s = Some e \<Longrightarrow> e \<in> set spaces \<and> e \<noteq> [] \<and> take (length e) s = e"
  unfolding head_space_def find_Some_iff using spaces_nonempty by (auto simp: in_set_conv_nth)

lemma tail_space_Some: "tail_space s = Some e \<Longrightarrow> e \<in> set spaces \<and> e \<noteq> [] \<and> length e \<le> length s"
  unfolding tail_space_def find_Some_iff using spaces_nonempty by (auto simp: in_set_conv_nth)

function trim_left :: "bytes \<Rightarrow> bytes" where
  "trim_left s = (case head_space s of None \<Rightarrow> s | Some e \<Rightarrow> trim_left (drop (length e) s))"
  by pat_completeness auto
termination
proof (relation "measure length", goal_cases)
  case (2 s e)
  then have "e \<noteq> []" "take (length e) s = e" using head_space_Some by blast+
  then have "s \<noteq> []" by auto
  then show ?case using \<open>e \<noteq> []\<close> by simp
qed simp

function trim_right :: "bytes \<Rightarrow> bytes" where
  "trim_right s = (case tail_space s of None \<Rightarrow> s | Some e \<Rightarrow> trim_right (take (length s - length e) s))"
  by pat_completeness auto
termination
proof (relation "measure length", goal_cases)
  case (2 s e)
  then have "e \<noteq> []" "length e \<le> length s" using tail_space_Some by blast+
  then show ?case by (cases s) auto
qed simp

declare trim_left.simps [simp del] trim_right.simps [simp del]

definition TrimSpace :: "bytes \<Rightarrow> bytes" where
  "TrimSpace s = trim_right (trim_left s)"

text \<open>\<open>strings.Fields\<close>: the field that is being read, then the rest.\<close>

function fields_loop :: "bytes \<Rightarrow> bytes \<Rightarrow> bytes list" where
  "fields_loop cur [] = (if cur = [] then [] else [cur])"
| "fields_loop cur (b # s) =
     (case head_space (b # s) of
        Some e \<Rightarrow> (if cur = [] then [] else [cur]) @ fields_loop [] (drop (length e) (b # s))
      | None \<Rightarrow> fields_loop (cur @ [b]) s)"
  by pat_completeness auto
termination
proof (relation "measure (\<lambda>(cur, s). length s)", goal_cases)
  case (3 cur b s e)
  then have "e \<noteq> []" using head_space_Some by blast
  then show ?case by (cases e) auto
qed simp_all

definition Fields :: "bytes \<Rightarrow> bytes list" where
  "Fields s = fields_loop [] s"

text \<open>\<open>strings.Split\<close> with a separator of one byte.\<close>

fun SplitByte :: "byte \<Rightarrow> bytes \<Rightarrow> bytes list" where
  "SplitByte c [] = [[]]"
| "SplitByte c (b # s) =
     (if b = c then [] # SplitByte c s
      else case SplitByte c s of [] \<Rightarrow> [[b]] | w # ws \<Rightarrow> (b # w) # ws)"

text \<open>\<open>strings.TrimRight\<close> with a cutset of ASCII bytes.\<close>

definition TrimRight :: "byte list \<Rightarrow> bytes \<Rightarrow> bytes" where
  "TrimRight cutset s = rev (dropWhile (\<lambda>b. b \<in> set cutset) (rev s))"

definition HasPrefix :: "bytes \<Rightarrow> bytes \<Rightarrow> bool" where
  "HasPrefix s p \<longleftrightarrow> take (length p) s = p"

text \<open>\<open>strings.Contains\<close>\<close>

fun Contains_str :: "bytes \<Rightarrow> bytes \<Rightarrow> bool" where
  "Contains_str [] p = (p = [])"
| "Contains_str (b # s) p = (HasPrefix (b # s) p \<or> Contains_str s p)"

text \<open>\<open>strings.IndexByte\<close>\<close>

fun IndexByte :: "bytes \<Rightarrow> byte \<Rightarrow> nat option" where
  "IndexByte [] c = None"
| "IndexByte (b # s) c = (if b = c then Some 0 else map_option Suc (IndexByte s c))"

section \<open>Facts\<close>

lemma HasPrefix_append [simp]: "HasPrefix (p @ s) p"
  by (simp add: HasPrefix_def)

text \<open>The first bytes of the encodings of white space; all but the ASCII ones are above 127.\<close>

definition plain_byte :: "byte \<Rightarrow> bool" where
  "plain_byte b \<longleftrightarrow> 32 < b \<and> b < 128"

lemma spaces_bytes: "e \<in> set spaces \<Longrightarrow> \<forall>b\<in>set e. \<not> plain_byte b"
  by (auto simp: spaces_eq plain_byte_def)

lemma head_space_plain: "plain_byte b \<Longrightarrow> head_space (b # s) = None"
proof (rule ccontr)
  assume b: "plain_byte b" and "head_space (b # s) \<noteq> None"
  then obtain e where e: "e \<in> set spaces" "e \<noteq> []" "take (length e) (b # s) = e" using head_space_Some by blast
  then have "hd e = b" by (metis hd_take length_greater_0_conv list.sel(1))
  then have "b \<in> set e" using e(2) hd_in_set by blast
  then show False using spaces_bytes [OF e(1)] b by blast
qed

lemma tail_space_plain: "plain_byte b \<Longrightarrow> tail_space (s @ [b]) = None"
proof (rule ccontr)
  assume b: "plain_byte b" and "tail_space (s @ [b]) \<noteq> None"
  then obtain e where "tail_space (s @ [b]) = Some e" by blast
  then have e: "e \<in> set spaces" "e \<noteq> []" "drop (length (s @ [b]) - length e) (s @ [b]) = e" "length e \<le> length (s @ [b])"
    using tail_space_Some [of "s @ [b]" e] unfolding tail_space_def find_Some_iff by auto
  then have "last e = b" by (metis diff_less last_drop last_snoc length_greater_0_conv length_append_singleton zero_less_Suc)
  then show False using spaces_bytes [OF e(1)] b e(2) last_in_set by blast
qed

lemma head_space_ascii: "b = 32 \<or> b = 10 \<Longrightarrow> head_space (b # s) = Some [b]"
  by (elim disjE) (simp_all add: head_space_def spaces_eq)

lemma tail_space_newline: "tail_space (s @ [10]) = Some [10]"
  by (simp add: tail_space_def spaces_eq)

lemma TrimSpace_plain:
  assumes "s \<noteq> []" "plain_byte (hd s)" "plain_byte (last s)"
  shows "TrimSpace s = s" "TrimSpace (s @ [10]) = s"
proof -
  have l: "trim_left (s @ t) = s @ t" for t
    using assms(1,2) by (cases s) (auto simp: trim_left.simps [of "b # s @ t" for b s] head_space_plain)
  have r: "trim_right s = s"
    using assms(1,3) tail_space_plain [of "last s" "butlast s"] by (simp add: trim_right.simps [of s])
  show "TrimSpace s = s" using l [of "[]"] r by (simp add: TrimSpace_def)
  have "trim_right (s @ [10]) = s" using r by (subst trim_right.simps) (simp add: tail_space_newline)
  then show "TrimSpace (s @ [10]) = s" using l [of "[10]"] by (simp add: TrimSpace_def)
qed

text \<open>Words of plain bytes, joined by spaces: the inverse of \<open>Fields\<close>.\<close>

fun join_space :: "bytes list \<Rightarrow> bytes" where
  "join_space [] = []"
| "join_space [w] = w"
| "join_space (w # ws) = w @ [32] @ join_space ws"

lemma fields_loop_word:
  "\<forall>b\<in>set w. plain_byte b \<Longrightarrow> fields_loop cur (w @ s) = fields_loop (cur @ w) s"
  by (induction w arbitrary: cur) (simp_all add: head_space_plain)

lemma Fields_join_space:
  "\<forall>w\<in>set ws. w \<noteq> [] \<and> (\<forall>b\<in>set w. plain_byte b) \<Longrightarrow> Fields (join_space ws) = ws"
proof (induction ws rule: join_space.induct)
  case (2 w)
  then show ?case using fields_loop_word [of w "[]" "[]"] by (simp add: Fields_def)
next
  case (3 w v ws)
  then have "Fields (join_space (v # ws)) = v # ws" by simp
  moreover have "Fields (join_space (w # v # ws)) = fields_loop w (32 # join_space (v # ws))"
    using 3 fields_loop_word [of w "[]"] by (simp add: Fields_def)
  ultimately show ?case using 3 by (simp add: head_space_ascii Fields_def)
qed (simp add: Fields_def)

lemma SplitByte_word: "c \<notin> set w \<Longrightarrow> SplitByte c w = [w]"
  by (induction w) auto

lemma SplitByte_append: "c \<notin> set w \<Longrightarrow> SplitByte c (w @ c # s) = w # SplitByte c s"
  by (induction w) auto

end
