(* ===== verification/ServerKey.thy ===== *)
theory ServerKey
  imports MatrixJson KeyId Fndsa Cuckoo GoStrings
begin

text \<open>
  Package \<open>serverkey\<close>, \<open>serverkey/serverkey.go\<close>: the registry of profiles, the objects that are hashed, the
  minting proof, signing and verification of server-key objects. The registry is a map passed from call to call (its
  lock makes every access one step); SHA3-256 and SHA-256 are parameters; a \<open>map[string]any\<close> is an association list
  whose order is the order in which Go ranges over it. An object is not nil and its maps are not shared, so a store
  into a nested map is a new value of the outer one.
\<close>

section \<open>Profiles\<close>

definition FNDSAAlgorithm :: bytes where "FNDSAAlgorithm = str ''fndsa512''"
definition ProductionProfile :: bytes where "ProductionProfile = str ''tk.nutra.msc45xx.serverkey.v1''"
definition ProductionPoW :: bytes where "ProductionPoW = ProductionProfile"
definition DefaultFIPSRevision :: bytes where "DefaultFIPSRevision = str ''ipd-2025-08''"
definition productionGraphTag :: bytes where "productionGraphTag = str ''tk.nutra.msc45xx.serverkey.v1.graph''"
definition productionKeyIDTag :: bytes where "productionKeyIDTag = str ''tk.nutra.msc45xx.serverkey.v1.keyid''"

record profile =
  profile_config :: config
  profile_graphTag :: bytes
  profile_keyIDTag :: bytes
  profile_shortBytes :: int

record fndsa_metadata =
  FIPS206Revision :: bytes
  Claims :: "bytes list"

type_synonym registry = "bytes \<rightharpoonup> profile"

definition production_profile :: profile where
  "production_profile = \<lparr>profile_config = \<lparr>EdgeBits = 29, ProofSize = 42\<rparr>, profile_graphTag = productionGraphTag,
     profile_keyIDTag = productionKeyIDTag, profile_shortBytes = 16\<rparr>"

definition initial_profiles :: registry where
  "initial_profiles = [ProductionProfile \<mapsto> production_profile]"

definition getProfile :: "registry \<Rightarrow> bytes \<Rightarrow> profile option" where
  "getProfile profiles name = profiles name"

definition IsRegisteredProfile :: "registry \<Rightarrow> bytes \<Rightarrow> bool" where
  "IsRegisteredProfile profiles name \<longleftrightarrow> getProfile profiles name \<noteq> None"

text \<open>The zero profile for a missing key.\<close>

definition ProductionConfig :: "registry \<Rightarrow> config" where
  "ProductionConfig profiles =
     (case getProfile profiles ProductionProfile of
        None \<Rightarrow> \<lparr>EdgeBits = 0, ProofSize = 0\<rparr> | Some p \<Rightarrow> profile_config p)"

definition RegisterProfile :: "bytes \<Rightarrow> config \<Rightarrow> int \<Rightarrow> registry \<Rightarrow> unit result \<times> registry" where
  "RegisterProfile name cfg shortBytes profiles =
     (if name = [] then (Inl ErrInvalidProfile, profiles)
      else if shortBytes < 1 \<or> shortBytes > 32 then (Inl ErrInvalidProfile, profiles)
      else
        case Validate cfg of
          Inl e \<Rightarrow> (Inl ErrInvalidProfile, profiles)
        | Inr _ \<Rightarrow>
            if name \<in> dom profiles then (Inl ErrInvalidProfile, profiles)
            else (Inr (), profiles(name \<mapsto> \<lparr>profile_config = cfg, profile_graphTag = name @ str ''.graph'',
                    profile_keyIDTag = name @ str ''.keyid'', profile_shortBytes = shortBytes\<rparr>)))"

section \<open>Key objects and their digests\<close>

record minting_proof =
  Algorithm :: bytes
  Nonce :: u32
  Solution :: "u32 list"

definition uint32 :: "u32 \<Rightarrow> gval" where
  "uint32 n = GUint KUint32 (unat n)"

definition uint32sToAny :: "u32 list \<Rightarrow> gval" where
  "uint32sToAny values = GSlice SliceAny (map uint32 values)"

definition graphTag :: "registry \<Rightarrow> bytes \<Rightarrow> bytes" where
  "graphTag profiles name =
     (case getProfile profiles name of Some p \<Rightarrow> profile_graphTag p | None \<Rightarrow> name @ str ''.graph'')"

definition keyIDTag :: "registry \<Rightarrow> bytes \<Rightarrow> bytes" where
  "keyIDTag profiles name =
     (case getProfile profiles name of Some p \<Rightarrow> profile_keyIDTag p | None \<Rightarrow> name @ str ''.keyid'')"

definition graphObject :: "registry \<Rightarrow> bytes \<Rightarrow> bytes \<Rightarrow> bytes \<Rightarrow> u32 \<Rightarrow> gmap" where
  "graphObject profiles publicKey serverName profileName nonce =
     [(str ''action'', GString (graphTag profiles profileName)),
      (str ''nonce'', uint32 nonce),
      (str ''profile'', GString profileName),
      (str ''public_key'', GString (b64std_encode publicKey)),
      (str ''server_name'', GString serverName)]"

definition mintingObject :: "registry \<Rightarrow> bytes \<Rightarrow> bytes \<Rightarrow> bytes \<Rightarrow> minting_proof \<Rightarrow> gmap" where
  "mintingObject profiles publicKey serverName profileName proof' =
     [(str ''action'', GString (keyIDTag profiles profileName)),
      (str ''nonce'', uint32 (Nonce proof')),
      (str ''profile'', GString profileName),
      (str ''public_key'', GString (b64std_encode publicKey)),
      (str ''server_name'', GString serverName),
      (str ''solution'', uint32sToAny (Solution proof'))]"

definition digest_object :: "(bytes \<Rightarrow> bytes) \<Rightarrow> gmap \<Rightarrow> bytes result" where
  "digest_object H obj =
     (case Canonical (GMap MapStringAny obj) of Inl e \<Rightarrow> Inl e | Inr canonical \<Rightarrow> Inr (H canonical))"

definition GraphSeed :: "registry \<Rightarrow> (bytes \<Rightarrow> bytes) \<Rightarrow> bytes \<Rightarrow> bytes \<Rightarrow> bytes \<Rightarrow> u32 \<Rightarrow> bytes result" where
  "GraphSeed profiles sha3 publicKey serverName profileName nonce =
     digest_object sha3 (graphObject profiles publicKey serverName profileName nonce)"

definition KeyID :: "registry \<Rightarrow> (bytes \<Rightarrow> bytes) \<Rightarrow> bytes \<Rightarrow> bytes \<Rightarrow> minting_proof \<Rightarrow> bytes result" where
  "KeyID profiles sha3 publicKey serverName proof' =
     digest_object sha3 (mintingObject profiles publicKey serverName (Algorithm proof') proof')"

definition KeyIDBase64 :: "registry \<Rightarrow> (bytes \<Rightarrow> bytes) \<Rightarrow> bytes \<Rightarrow> bytes \<Rightarrow> minting_proof \<Rightarrow> bytes result" where
  "KeyIDBase64 profiles sha3 publicKey serverName proof' =
     (case KeyID profiles sha3 publicKey serverName proof' of Inl e \<Rightarrow> Inl e | Inr keyID \<Rightarrow> Inr (b64url_encode keyID))"

text \<open>The slice of the array of 32 bytes panics when it is out of range.\<close>

definition ShortKeyID :: "registry \<Rightarrow> bytes \<Rightarrow> bytes \<Rightarrow> bytes result" where
  "ShortKeyID profiles profileName keyID =
     (case getProfile profiles profileName of
        None \<Rightarrow> Inl ErrUnknownProfile
      | Some p \<Rightarrow>
          if profile_shortBytes p < 0 \<or> profile_shortBytes p > 32 then Inl RuntimePanic
          else Inr (b64url_encode (take (nat (profile_shortBytes p)) keyID)))"

text \<open>The answer of the verifier of cycles, which always ends (\<open>Cuckoo.Verify_spec\<close>).\<close>

definition verify_answer :: "config \<Rightarrow> bytes \<Rightarrow> u32 list \<Rightarrow> unit result" where
  "verify_answer cfg seed nonces = (case Verify cfg seed nonces of Some r \<Rightarrow> r | None \<Rightarrow> Inl RuntimePanic)"

definition validateProof ::
  "registry \<Rightarrow> (bytes \<Rightarrow> bytes) \<Rightarrow> bytes \<Rightarrow> bytes \<Rightarrow> bytes \<Rightarrow> minting_proof \<Rightarrow> unit result" where
  "validateProof profiles sha3 publicKey serverName profileName proof' =
     (case getProfile profiles profileName of
        None \<Rightarrow> Inl ErrUnknownProfile
      | Some p \<Rightarrow>
          (case GraphSeed profiles sha3 publicKey serverName profileName (Nonce proof') of
             Inl e \<Rightarrow> Inl e
           | Inr seed \<Rightarrow> verify_answer (profile_config p) seed (Solution proof')))"

definition FNDSAKeyObject :: "bytes \<Rightarrow> fndsa_metadata \<Rightarrow> minting_proof \<Rightarrow> gmap" where
  "FNDSAKeyObject publicKey metadata proof' =
     [(str ''key'', GString (b64std_encode publicKey)),
      (str ''profile'', GString (Algorithm proof')),
      (str ''pow'', GMap MapStringAny
         [(str ''nonce'', uint32 (Nonce proof')), (str ''solution'', uint32sToAny (Solution proof'))])]"

definition NewUnsignedFNDSA ::
  "registry \<Rightarrow> (bytes \<Rightarrow> bytes) \<Rightarrow> bytes \<Rightarrow> bytes \<Rightarrow> u64 \<Rightarrow> fndsa_metadata \<Rightarrow> minting_proof \<Rightarrow> (gmap \<times> bytes) result" where
  "NewUnsignedFNDSA profiles sha3 serverName publicKey validUntilTS metadata proof' =
     (if serverName = [] then Inl ErrInvalidServerName
      else if length publicKey \<noteq> PublicKeySize then Inl ErrInvalidPublicKey
      else
        case KeyID profiles sha3 publicKey serverName proof' of
          Inl e \<Rightarrow> Inl e
        | Inr keyID \<Rightarrow>
            (case ShortKeyID profiles (Algorithm proof') keyID of
               Inl e \<Rightarrow> Inl e
             | Inr shortKeyID \<Rightarrow>
                 let keyName = FNDSAAlgorithm @ str '':'' @ shortKeyID;
                     keyObject = FNDSAKeyObject publicKey \<lparr>FIPS206Revision = [], Claims = []\<rparr> proof'
                 in Inr ([(str ''server_name'', GString serverName),
                          (str ''verify_keys'', GMap MapStringAny [(keyName, GMap MapStringAny keyObject)]),
                          (str ''valid_until_ts'', GInt KInt64 (sint validUntilTS))], keyName)))"

section \<open>Signing\<close>

definition SigningBytes :: "gmap \<Rightarrow> bytes result" where
  "SigningBytes obj =
     Canonical (GMap MapStringAny (filter (\<lambda>(key, _). \<not> (key = str ''signatures'' \<or> key = str ''unsigned'')) obj))"

definition SignFNDSA ::
  "'r fndsa_lib \<Rightarrow> 'r \<Rightarrow> gmap \<Rightarrow> bytes \<Rightarrow> bytes \<Rightarrow> bytes \<Rightarrow> unit result \<times> gmap \<times> 'r" where
  "SignFNDSA lib rng obj serverName keyName privateKey =
     (if serverName = [] then (Inl ErrInvalidServerName, obj, rng)
      else if \<not> HasPrefix keyName (FNDSAAlgorithm @ str '':'') then (Inl ErrInvalidKeyName, obj, rng)
      else
        case SigningBytes obj of
          Inl e \<Rightarrow> (Inl e, obj, rng)
        | Inr signingBytes \<Rightarrow>
            (case Sign lib rng privateKey signingBytes of
               (Inl e, rng') \<Rightarrow> (Inl e, obj, rng')
             | (Inr sig, rng') \<Rightarrow>
                 let store = (\<lambda>signatures serverSigs.
                       map_put (str ''signatures'') (GMap MapStringAny
                         (map_put serverName (GMap MapStringAny
                            (map_put keyName (GString (b64std_encode sig)) serverSigs)) signatures)) obj)
                 in case as_map (map_of obj (str ''signatures'')) of
                      Some signatures \<Rightarrow>
                        (case as_map (map_of signatures serverName) of
                           Some existing \<Rightarrow> (Inr (), store signatures existing, rng')
                         | None \<Rightarrow> (Inr (), store signatures [], rng'))
                    | None \<Rightarrow>
                        if map_of obj (str ''signatures'') \<noteq> None then (Inl ErrInvalidKeyObject, obj, rng')
                        else (Inr (), store [] [], rng')))"

definition NewSignedFNDSA ::
  "registry \<Rightarrow> (bytes \<Rightarrow> bytes) \<Rightarrow> 'r fndsa_lib \<Rightarrow> 'r \<Rightarrow> bytes \<Rightarrow> bytes \<Rightarrow> bytes \<Rightarrow> u64 \<Rightarrow> fndsa_metadata \<Rightarrow> minting_proof \<Rightarrow>
   (gmap \<times> bytes) result \<times> 'r" where
  "NewSignedFNDSA profiles sha3 lib rng serverName privateKey publicKey validUntilTS metadata proof' =
     (case NewUnsignedFNDSA profiles sha3 serverName publicKey validUntilTS metadata proof' of
        Inl e \<Rightarrow> (Inl e, rng)
      | Inr (obj, keyName) \<Rightarrow>
          (case SignFNDSA lib rng obj serverName keyName privateKey of
             (Inl e, _, rng') \<Rightarrow> (Inl e, rng')
           | (Inr _, obj', rng') \<Rightarrow> (Inr (obj', keyName), rng')))"

definition KeyMetadataSHA256 :: "(bytes \<Rightarrow> bytes) \<Rightarrow> gmap \<Rightarrow> bytes result" where
  "KeyMetadataSHA256 sha256 keyObject =
     (case digest_object sha256 keyObject of Inl e \<Rightarrow> Inl e | Inr digest \<Rightarrow> Inr (b64url_encode digest))"

definition KeyIDSHA256 :: "(bytes \<Rightarrow> bytes) \<Rightarrow> bytes \<Rightarrow> bytes" where
  "KeyIDSHA256 sha256 publicKey = b64url_encode (KeySHA256 sha256 publicKey)"

section \<open>Numbers in dynamic values\<close>

text \<open>Conversions between \<open>float64\<close> and \<open>uint64\<close>. Go leaves the conversion of a float that is out of range to the
  machine: that is the parameter \<open>oob\<close>. The other direction rounds to 53 bits, ties to even.\<close>

definition f64_negative :: "f64 \<Rightarrow> bool" where
  "f64_negative f = (case f of F64 m e \<Rightarrow> m < 0 | F64NaN \<Rightarrow> False | F64Inf s \<Rightarrow> s)"

definition uint64_of_float :: "(f64 \<Rightarrow> u64) \<Rightarrow> f64 \<Rightarrow> u64" where
  "uint64_of_float oob f =
     (case f of
        F64 m e \<Rightarrow>
          let t = (if e \<ge> 0 then m * 2 ^ nat e else sgn m * (\<bar>m\<bar> div 2 ^ nat (- e)))
          in if 0 \<le> t \<and> t < 2 ^ 64 then of_int t else oob f
      | _ \<Rightarrow> oob f)"

definition round53 :: "nat \<Rightarrow> nat" where
  "round53 n =
     (let k = length (takeWhile (\<lambda>j. 2 ^ (53 + j) \<le> n) [0..<11]);
          q = n div 2 ^ k; r = 2 * (n mod 2 ^ k)
      in (if r > 2 ^ k \<or> (r = 2 ^ k \<and> odd q) then q + 1 else q) * 2 ^ k)"

definition float_of_uint64 :: "u64 \<Rightarrow> f64" where
  "float_of_uint64 w = F64 (int (round53 (unat w))) 0"

definition uint64FromAny :: "(f64 \<Rightarrow> u64) \<Rightarrow> gval \<Rightarrow> u64 result" where
  "uint64FromAny oob v =
     (case v of
        GUint k n \<Rightarrow> if k = KUintptr then Inl ErrInvalidKeyObject else Inr (of_nat n)
      | GInt k n \<Rightarrow>
          if k = KInt \<or> k = KInt64 then if n < 0 then Inl ErrInvalidKeyObject else Inr (of_int n)
          else Inl ErrInvalidKeyObject
      | GFloat n \<Rightarrow>
          if f64_negative n \<or> \<not> f64_eq n (float_of_uint64 (uint64_of_float oob n)) then Inl ErrInvalidKeyObject
          else Inr (uint64_of_float oob n)
      | _ \<Rightarrow> Inl ErrInvalidKeyObject)"

definition uint32FromAny :: "(f64 \<Rightarrow> u64) \<Rightarrow> gval \<Rightarrow> u32 result" where
  "uint32FromAny oob v =
     (case uint64FromAny oob v of
        Inl _ \<Rightarrow> Inl ErrInvalidKeyObject
      | Inr n \<Rightarrow> if n > ucast (- 1 :: u32) then Inl ErrInvalidKeyObject else Inr (ucast n))"

text \<open>One element of the loop over a \<open>[]any\<close>.\<close>

definition solution_element :: "(f64 \<Rightarrow> u64) \<Rightarrow> gval \<Rightarrow> u32 result" where
  "solution_element oob raw =
     (case uint64FromAny oob raw of
        Inl e \<Rightarrow> Inl e
      | Inr n \<Rightarrow> if n > ucast (- 1 :: u32) then Inl ErrInvalidKeyObject else Inr (ucast n))"

text \<open>The numbers of a \<open>[]uint32\<close>, all of whose elements have this type.\<close>

definition uint32_value :: "gval \<Rightarrow> u32" where
  "uint32_value v = (case v of GUint _ n \<Rightarrow> of_nat n | _ \<Rightarrow> 0)"

definition uint32sFromAny :: "(f64 \<Rightarrow> u64) \<Rightarrow> gval \<Rightarrow> u32 list result" where
  "uint32sFromAny oob v =
     (case v of
        GSlice SliceUint32 vs \<Rightarrow> Inr (map uint32_value vs)
      | GSlice SliceAny vs \<Rightarrow> sequence_results (map (solution_element oob) vs)
      | _ \<Rightarrow> Inl ErrInvalidKeyObject)"

section \<open>Verification\<close>

text \<open>A missing key of a map reads as nil.\<close>

definition lookup_any :: "gmap \<Rightarrow> bytes \<Rightarrow> gval" where
  "lookup_any m k = (case map_of m k of None \<Rightarrow> GNil | Some v \<Rightarrow> v)"

definition publicKeyFromObject :: "gmap \<Rightarrow> bytes result" where
  "publicKeyFromObject keyObject =
     (case as_string (map_of keyObject (str ''key'')) of
        None \<Rightarrow> Inl ErrInvalidKeyObject
      | Some rawKey \<Rightarrow>
          (case b64std_decode rawKey of
             Inl e \<Rightarrow> Inl e
           | Inr publicKey \<Rightarrow> if length publicKey \<noteq> PublicKeySize then Inl ErrInvalidPublicKey else Inr publicKey))"

definition mintingProofFromObject :: "(f64 \<Rightarrow> u64) \<Rightarrow> gmap \<Rightarrow> (bytes \<times> minting_proof) result" where
  "mintingProofFromObject oob keyObject =
     (case as_string (map_of keyObject (str ''profile'')) of
        None \<Rightarrow> Inl ErrInvalidKeyObject
      | Some profileName \<Rightarrow>
          if profileName = [] then Inl ErrInvalidKeyObject
          else
            case as_map (map_of keyObject (str ''pow'')) of
              None \<Rightarrow> Inl ErrInvalidKeyObject
            | Some rawPow \<Rightarrow>
                (case uint32FromAny oob (lookup_any rawPow (str ''nonce'')) of
                   Inl e \<Rightarrow> Inl e
                 | Inr nonce \<Rightarrow>
                     (case uint32sFromAny oob (lookup_any rawPow (str ''solution'')) of
                        Inl e \<Rightarrow> Inl e
                      | Inr solution \<Rightarrow>
                          Inr (profileName, \<lparr>Algorithm = profileName, Nonce = nonce, Solution = solution\<rparr>))))"

text \<open>The check of the proof and of the key name. A failed digest or name reads as the zero value, as in the source.\<close>

definition check_minted ::
  "registry \<Rightarrow> (bytes \<Rightarrow> bytes) \<Rightarrow> (f64 \<Rightarrow> u64) \<Rightarrow> bytes \<Rightarrow> bytes \<Rightarrow> gmap \<Rightarrow> bytes \<Rightarrow> unit result" where
  "check_minted profiles sha3 oob serverName keyName keyObject publicKey =
     (case mintingProofFromObject oob keyObject of
        Inl e \<Rightarrow> Inl e
      | Inr (profileName, proof') \<Rightarrow>
          (case validateProof profiles sha3 publicKey serverName profileName proof' of
             Inl e \<Rightarrow> Inl e
           | Inr _ \<Rightarrow>
               let keyID = (case KeyID profiles sha3 publicKey serverName proof' of Inl _ \<Rightarrow> replicate 32 0 | Inr k \<Rightarrow> k)
               in case ShortKeyID profiles profileName keyID of
                    Inl RuntimePanic \<Rightarrow> Inl RuntimePanic
                  | Inl _ \<Rightarrow> if keyName \<noteq> FNDSAAlgorithm @ str '':'' then Inl ErrInvalidKeyName else Inr ()
                  | Inr shortKeyID \<Rightarrow>
                      if keyName \<noteq> FNDSAAlgorithm @ str '':'' @ shortKeyID then Inl ErrInvalidKeyName else Inr ()))"

text \<open>The loop over the keys, in the order of the range.\<close>

fun verify_keys ::
  "registry \<Rightarrow> (bytes \<Rightarrow> bytes) \<Rightarrow> 'r fndsa_lib \<Rightarrow> (f64 \<Rightarrow> u64) \<Rightarrow> bytes \<Rightarrow> bytes \<Rightarrow> gmap \<Rightarrow> bool \<Rightarrow> gmap \<Rightarrow> bytes result" where
  "verify_keys profiles sha3 lib oob serverName signingBytes serverSigs requireProof [] = Inl ErrInvalidKeyName"
| "verify_keys profiles sha3 lib oob serverName signingBytes serverSigs requireProof ((keyName, rawKeyObject) # rest) =
     (if \<not> HasPrefix keyName (FNDSAAlgorithm @ str '':'')
      then verify_keys profiles sha3 lib oob serverName signingBytes serverSigs requireProof rest
      else
        case as_map (Some rawKeyObject) of
          None \<Rightarrow> Inl ErrInvalidKeyObject
        | Some keyObject \<Rightarrow>
            (case publicKeyFromObject keyObject of
               Inl e \<Rightarrow> Inl e
             | Inr publicKey \<Rightarrow>
                 (case (if requireProof then check_minted profiles sha3 oob serverName keyName keyObject publicKey
                        else Inr ()) of
                    Inl e \<Rightarrow> Inl e
                  | Inr _ \<Rightarrow>
                      (case as_string (map_of serverSigs keyName) of
                         None \<Rightarrow> Inl ErrInvalidSignature
                       | Some rawSig \<Rightarrow>
                           (case b64std_decode rawSig of
                              Inl e \<Rightarrow> Inl e
                            | Inr sig \<Rightarrow>
                                if \<not> FndsaVerify lib publicKey signingBytes sig then Inl ErrInvalidSignature
                                else Inr keyName)))))"

definition verifyFNDSASignature ::
  "registry \<Rightarrow> (bytes \<Rightarrow> bytes) \<Rightarrow> 'r fndsa_lib \<Rightarrow> (f64 \<Rightarrow> u64) \<Rightarrow> gmap \<Rightarrow> bytes \<Rightarrow> bool \<Rightarrow> bytes result" where
  "verifyFNDSASignature profiles sha3 lib oob obj serverName requireProof =
     (case as_string (map_of obj (str ''server_name'')) of
        None \<Rightarrow> Inl ErrInvalidKeyObject
      | Some objectServerName \<Rightarrow>
          if objectServerName \<noteq> serverName then Inl ErrInvalidServerName
          else
            case as_map (map_of obj (str ''verify_keys'')) of
              None \<Rightarrow> Inl ErrInvalidKeyObject
            | Some verifyKeys \<Rightarrow>
                (case as_map (map_of obj (str ''signatures'')) of
                   None \<Rightarrow> Inl ErrInvalidKeyObject
                 | Some signatures \<Rightarrow>
                     (case as_map (map_of signatures serverName) of
                        None \<Rightarrow> Inl ErrInvalidKeyObject
                      | Some serverSigs \<Rightarrow>
                          (case SigningBytes obj of
                             Inl e \<Rightarrow> Inl e
                           | Inr signingBytes \<Rightarrow>
                               verify_keys profiles sha3 lib oob serverName signingBytes serverSigs requireProof verifyKeys))))"

definition VerifyFNDSASelfSignature ::
  "registry \<Rightarrow> (bytes \<Rightarrow> bytes) \<Rightarrow> 'r fndsa_lib \<Rightarrow> (f64 \<Rightarrow> u64) \<Rightarrow> gmap \<Rightarrow> bytes \<Rightarrow> bytes result" where
  "VerifyFNDSASelfSignature profiles sha3 lib oob obj serverName =
     verifyFNDSASignature profiles sha3 lib oob obj serverName False"

definition VerifyMintedFNDSAServerKey ::
  "registry \<Rightarrow> (bytes \<Rightarrow> bytes) \<Rightarrow> 'r fndsa_lib \<Rightarrow> (f64 \<Rightarrow> u64) \<Rightarrow> gmap \<Rightarrow> bytes \<Rightarrow> bytes result" where
  "VerifyMintedFNDSAServerKey profiles sha3 lib oob obj serverName =
     verifyFNDSASignature profiles sha3 lib oob obj serverName True"

end
