(* ===== verification/MintedKey.thy ===== *)
theory MintedKey
  imports ServerKey HashTree
begin

text \<open>
  What package \<open>serverkey\<close> guarantees: the registry keeps its profiles, numbers are read exactly from every dynamic
  type, a signature is added without touching anything else, a key object that the package builds and signs is
  accepted, and an accepted object carries a proof of work, a signature and a name that binds its contents.
\<close>

section \<open>Numbers\<close>

text \<open>The integer that a dynamic value of an accepted type stands for.\<close>

definition number_value :: "gval \<Rightarrow> int option" where
  "number_value v =
     (case v of
        GUint k n \<Rightarrow> if k = KUintptr then None else Some (int n)
      | GInt k n \<Rightarrow> if k = KInt \<or> k = KInt64 then Some n else None
      | GFloat (F64 m e) \<Rightarrow>
          if e \<ge> 0 then Some (m * 2 ^ nat e)
          else if 2 ^ nat (- e) dvd m then Some (m div 2 ^ nat (- e)) else None
      | _ \<Rightarrow> None)"

lemma round53_small: "n < 2 ^ 53 \<Longrightarrow> round53 n = n"
  by (simp add: round53_def Let_def upt_conv_Cons)

lemma float_of_uint64_small: "unat w < 2 ^ 32 \<Longrightarrow> float_of_uint64 w = F64 (uint w) 0"
  by (simp add: float_of_uint64_def round53_small)

lemma f64_eq_integer: "f64_eq (F64 m e) (F64 i 0) \<longleftrightarrow> number_value (GFloat (F64 m e)) = Some i"
proof (cases "e \<ge> 0")
  case False
  have "m = i * 2 ^ nat (- e) \<longleftrightarrow> 2 ^ nat (- e) dvd m \<and> m div 2 ^ nat (- e) = i" by auto
  then show ?thesis using False by (simp add: f64_eq_def number_value_def)
qed (auto simp: f64_eq_def number_value_def)

lemma uint64_of_float_integer:
  assumes "number_value (GFloat (F64 m e)) = Some i" "0 \<le> i" "i < 2 ^ 64"
  shows "uint64_of_float oob (F64 m e) = of_int i" "\<not> f64_negative (F64 m e)"
proof -
  have *: "m \<ge> 0 \<and> (if e \<ge> 0 then m * 2 ^ nat e else sgn m * (\<bar>m\<bar> div 2 ^ nat (- e))) = i"
  proof (cases "e \<ge> 0")
    case True
    then show ?thesis using assms by (auto simp: number_value_def zero_le_mult_iff)
  next
    case False
    then have m: "m = i * 2 ^ nat (- e)" using assms(1) by (auto simp: number_value_def split: if_splits)
    then have "m \<ge> 0" using assms(2) by simp
    then show ?thesis using False m by (cases "m = 0") (auto simp: sgn_if)
  qed
  then show "uint64_of_float oob (F64 m e) = of_int i" using assms(2,3) by (simp add: uint64_of_float_def Let_def)
  show "\<not> f64_negative (F64 m e)" using * by (simp add: f64_negative_def)
qed

lemma uint64FromAny_error: "uint64FromAny oob v = Inl e \<Longrightarrow> e = ErrInvalidKeyObject"
  by (auto simp: uint64FromAny_def split: gval.splits if_splits)

lemma solution_element_eq: "solution_element oob v = uint32FromAny oob v"
  by (auto simp: solution_element_def uint32FromAny_def dest: uint64FromAny_error split: sum.splits)

lemma above_u32: "(n :: u64) > ucast (- 1 :: u32) \<longleftrightarrow> \<not> uint n < 2 ^ 32"
proof -
  have "uint (ucast (- 1 :: u32) :: u64) = 2 ^ 32 - 1"
    unfolding unsigned_ucast_eq unsigned_minus_1_eq_mask by (simp add: mask_eq_exp_minus_1)
  then show ?thesis unfolding word_less_def by linarith
qed

lemma uint_ucast_u32: "uint n < 2 ^ 32 \<Longrightarrow> uint (ucast (n :: u64) :: u32) = uint n"
  by (simp add: unsigned_ucast_eq take_bit_int_eq_self)

text \<open>A number of at most 32 bits: how \<open>uint64FromAny\<close> reads it, whatever the machine does to floats out of range.\<close>

lemma uint64FromAny_small:
  assumes "wf_gval v" "uint n < 2 ^ 32"
  shows "uint64FromAny oob v = Inr n \<longleftrightarrow> number_value v = Some (uint n)"
proof (cases v)
  case (GInt k i)
  have "of_int i = n \<longleftrightarrow> i = uint n" if "0 \<le> i" "k = KInt \<or> k = KInt64"
  proof -
    have "i < 2 ^ 64" using that assms(1) GInt by auto
    then have "uint (of_int i :: u64) = i" using that(1) by (simp add: take_bit_int_eq_self unsigned_of_int)
    then show ?thesis by (metis word_of_int_uint)
  qed
  then show ?thesis using GInt by (auto simp: uint64FromAny_def number_value_def)
next
  case (GUint k i)
  have "i < 2 ^ 64" using assms(1) GUint by (cases k) auto
  then have "uint (of_nat i :: u64) = int i" by (simp add: take_bit_nat_eq_self unsigned_of_nat uint_nat)
  then have "of_nat i = n \<longleftrightarrow> int i = uint n" by (metis word_uint_eqI)
  then show ?thesis using GUint by (auto simp: uint64FromAny_def number_value_def)
next
  case (GFloat f)
  show ?thesis
  proof (cases f)
    case (F64 m e)
    have "nat (uint n) < nat (2 ^ 32)" using assms(2) by (simp only: nat_mono_iff zero_less_power zero_less_numeral)
    then have "unat n < 2 ^ 32" by (simp only: nat_uint_eq nat_power_eq zero_le_numeral nat_numeral)
    note fe = float_of_uint64_small [OF this]
    note v = GFloat F64
    show ?thesis
    proof
      assume "uint64FromAny oob v = Inr n"
      then have "f64_eq (F64 m e) (float_of_uint64 n)"
        unfolding v uint64FromAny_def gval.case by (metis Inl_Inr_False sum.inject(2))
      then show "number_value v = Some (uint n)" unfolding v fe f64_eq_integer .
    next
      assume nv: "number_value v = Some (uint n)"
      then have "uint64_of_float oob (F64 m e) = n" "\<not> f64_negative (F64 m e)"
        using uint64_of_float_integer [of m e "uint n"] assms(2) v by simp_all
      moreover have "f64_eq (F64 m e) (float_of_uint64 n)" using nv unfolding fe f64_eq_integer v .
      ultimately show "uint64FromAny oob v = Inr n" unfolding v uint64FromAny_def gval.case by metis
    qed
  qed (simp_all add: GFloat uint64FromAny_def number_value_def f64_eq_def float_of_uint64_def)
qed (simp_all add: uint64FromAny_def number_value_def)

lemma uint32FromAny_Inr:
  assumes "wf_gval v"
  shows "uint32FromAny oob v = Inr n \<longleftrightarrow> number_value v = Some (uint n)"
proof
  assume r: "uint32FromAny oob v = Inr n"
  then obtain w where w: "uint64FromAny oob v = Inr w" "uint w < 2 ^ 32" "ucast w = n"
    by (auto simp: uint32FromAny_def above_u32 split: sum.splits if_splits)
  then show "number_value v = Some (uint n)" using uint64FromAny_small [OF assms w(2)] uint_ucast_u32 [OF w(2)] by simp
next
  assume nv: "number_value v = Some (uint n)"
  have n: "uint n < 2 ^ 32" using uint_bounded [of n] by simp
  then have u: "uint (ucast n :: u64) = uint n" by (simp add: unsigned_ucast_eq take_bit_int_eq_self)
  then have "uint64FromAny oob v = Inr (ucast n)" using uint64FromAny_small [OF assms, of "ucast n"] n nv by simp
  moreover have "ucast (ucast n :: u64) = n" using uint_ucast_u32 [of "ucast n"] n u by (intro word_uint_eqI) simp
  ultimately show "uint32FromAny oob v = Inr n" using n u by (simp add: uint32FromAny_def above_u32)
qed

lemma uint32FromAny_error: "uint32FromAny oob v = Inl e \<Longrightarrow> e = ErrInvalidKeyObject"
  by (auto simp: uint32FromAny_def split: sum.splits if_splits)

lemma wf_uint32 [simp]: "wf_gval (uint32 n)"
  using unsigned_less [of n] by (simp add: uint32_def)

lemma number_value_uint32: "number_value (uint32 n) = Some (uint n)"
  by (simp add: number_value_def uint32_def)

lemma uint32FromAny_uint32 [simp]: "uint32FromAny oob (uint32 n) = Inr n"
  by (simp add: uint32FromAny_Inr number_value_uint32)

lemma uint32sFromAny_uint32sToAny [simp]: "uint32sFromAny oob (uint32sToAny ns) = Inr ns"
  by (simp add: uint32sFromAny_def uint32sToAny_def solution_element_eq o_def sequence_results_Inr_iff)

section \<open>Text and objects\<close>

lemma utf8_head_append: "utf8_head s = Some (r, k) \<Longrightarrow> utf8_head (s @ t) = Some (r, k)"
  by (cases s rule: utf8_head.cases) (auto split: if_splits option.splits list.splits prod.splits)

lemma valid_utf8_append: "valid_utf8 s \<Longrightarrow> valid_utf8 t \<Longrightarrow> valid_utf8 (s @ t)"
proof (induction s rule: valid_utf8.induct)
  case (1 s)
  show ?case
  proof (cases "s = []")
    case False
    with "1.prems" obtain r k where h: "utf8_head (map unat s) = Some (r, k)" and v: "valid_utf8 (drop k s)"
      by (subst (asm) valid_utf8.simps) (auto split: option.splits)
    have "k \<le> length s" using utf8_head_size [OF h] by simp
    moreover have "valid_utf8 (drop k s @ t)" using "1.IH" [OF False h refl v] "1.prems" by simp
    ultimately show ?thesis using utf8_head_append [OF h, of "map unat t"] False by (subst valid_utf8.simps) simp
  qed (use "1.prems" in simp)
qed

lemma valid_utf8_ascii: "\<forall>b\<in>set s. b < 128 \<Longrightarrow> valid_utf8 s"
proof (induction s)
  case (Cons b s)
  then have "utf8_head (map unat (b # s)) = Some (unat b, 1)" by (simp add: word_less_nat_alt)
  then show ?case using Cons by (subst valid_utf8.simps) simp
qed simp

lemma alphabets_ascii: "\<forall>b\<in>set std_alphabet. b < 128" "\<forall>b\<in>set url_alphabet. b < 128"
  by (simp_all add: std_alphabet_def url_alphabet_def alphabet_head_def)

lemma valid_utf8_b64 [simp]: "valid_utf8 (b64std_encode bs)"
proof -
  have "set (b64std_encode bs) \<subseteq> set std_alphabet"
    using b64_digits_less std_alphabet_ok(2) by (auto simp: b64std_encode_def b64_encode_def)
  then show ?thesis using alphabets_ascii by (intro valid_utf8_ascii) blast
qed

text \<open>Which objects have a canonical encoding, and what equal encodings mean for single keys.\<close>

lemma json_of_object:
  "json_of (GMap MapStringAny m) = Some j \<longleftrightarrow>
     (\<forall>k\<in>fst ` set m. valid_utf8 k \<and> json_of (the (map_of m k)) \<noteq> None) \<and>
     j = JObj (map (\<lambda>k. (k, the (json_of (the (map_of m k))))) (sort (map fst m)))"
proof -
  have v: "the (map_of (map (map_prod id json_of) m) k) = json_of (the (map_of m k))" if "k \<in> set (map fst m)" for k
    using that by (auto simp: map_of_map_prod_id option.map_sel dest: weak_map_of_SomeI)
  have "map (\<lambda>k. (k, the (the (map_of (map (map_prod id json_of) m) k)))) (sort (map fst m)) =
      map (\<lambda>k. (k, the (json_of (the (map_of m k))))) (sort (map fst m))"
    using v by (intro map_cong) simp_all
  moreover have "(\<forall>k\<in>set (sort (map fst m)). valid_utf8 k \<and> the (map_of (map (map_prod id json_of) m) k) \<noteq> None) \<longleftrightarrow>
      (\<forall>k\<in>fst ` set m. valid_utf8 k \<and> json_of (the (map_of m k)) \<noteq> None)"
    using v by simp
  ultimately show ?thesis unfolding json_of.simps json_object_def Let_def map_fst_map_prod_id by auto
qed

lemma json_of_object_eq:
  assumes "json_of (GMap MapStringAny m) = Some j" "json_of (GMap MapStringAny m') = Some j" "map_of m k = Some v"
  shows "\<exists>v'. map_of m' k = Some v' \<and> json_of v' = json_of v"
proof -
  note j = assms(1,2) [unfolded json_of_object]
  have eq: "map (\<lambda>k. (k, the (json_of (the (map_of m k))))) (sort (map fst m)) =
      map (\<lambda>k. (k, the (json_of (the (map_of m' k))))) (sort (map fst m'))" using j by simp
  have keys: "sort (map fst m) = sort (map fst m')" using arg_cong [OF eq, of "map fst"] by (simp add: o_def)
  have k: "k \<in> fst ` set m" using assms(3) by (metis map_of_eq_None_iff option.distinct(1))
  then have k': "k \<in> fst ` set m'" using arg_cong [OF keys, of set] by simp
  then obtain v' where v': "map_of m' k = Some v'" by (metis map_of_eq_None_iff not_None_eq)
  have "the (json_of (the (map_of m k))) = the (json_of (the (map_of m' k)))"
    using eq k unfolding keys [symmetric] by auto
  moreover have "json_of v \<noteq> None" "json_of v' \<noteq> None" using j k k' assms(3) v' by force+
  ultimately show ?thesis using assms(3) v' by auto
qed

lemma json_of_uint32 [simp]: "json_of (uint32 n) = Some (JInt (uint n))"
proof -
  have "int (unat n) = uint n" by (simp only: uint_nat)
  moreover have "minCanonicalInt \<le> 0" "(2 :: int) ^ LENGTH(32) - 1 \<le> maxCanonicalInt"
    by (simp_all add: minCanonicalInt_def maxCanonicalInt_def)
  then have "minCanonicalInt \<le> uint n \<and> uint n \<le> maxCanonicalInt"
    using uint_ge_0 [of n] uint_bounded [of n] by linarith
  ultimately show ?thesis by (simp add: uint32_def json_int_def)
qed

lemma those_map_total: "those (map (\<lambda>x. Some (f x)) xs) = Some (map f xs)"
  by (induction xs) simp_all

lemma json_of_uint32s [simp]: "json_of (uint32sToAny ns) = Some (JArr (map (\<lambda>n. JInt (uint n)) ns))"
  by (simp add: uint32sToAny_def o_def those_map_total)

lemma publicKey_FNDSAKeyObject [simp]:
  "length pk = PublicKeySize \<Longrightarrow> publicKeyFromObject (FNDSAKeyObject pk metadata proof') = Inr pk"
  using b64std.decode_encode by (simp add: publicKeyFromObject_def FNDSAKeyObject_def)

lemma mintingProof_FNDSAKeyObject [simp]:
  "Algorithm proof' \<noteq> [] \<Longrightarrow> mintingProofFromObject oob (FNDSAKeyObject pk metadata proof') = Inr (Algorithm proof', proof')"
  by (simp add: mintingProofFromObject_def FNDSAKeyObject_def lookup_any_def)

section \<open>The registry\<close>

text \<open>The registries that a run can reach: registrations from the initial one, in any order and failed ones included.\<close>

inductive reachable :: "registry \<Rightarrow> bool" where
  initial: "reachable initial_profiles"
| register: "reachable profiles \<Longrightarrow> RegisterProfile name cfg shortBytes profiles = (r, profiles') \<Longrightarrow> reachable profiles'"

inductive_cases reachableE: "reachable profiles"

definition profile_ok :: "bytes \<Rightarrow> profile \<Rightarrow> bool" where
  "profile_ok name p \<longleftrightarrow> name \<noteq> [] \<and> Validate (profile_config p) = Inr () \<and>
     1 \<le> profile_shortBytes p \<and> profile_shortBytes p \<le> 32 \<and>
     profile_graphTag p = name @ str ''.graph'' \<and> profile_keyIDTag p = name @ str ''.keyid''"

definition registry_ok :: "registry \<Rightarrow> bool" where
  "registry_ok profiles \<longleftrightarrow> profiles ProductionProfile = Some production_profile \<and>
     (\<forall>name p. profiles name = Some p \<longrightarrow> profile_ok name p)"

lemma RegisterProfile_cases:
  obtains (refused) "RegisterProfile name cfg shortBytes profiles = (Inl ErrInvalidProfile, profiles)"
      "name = [] \<or> shortBytes < 1 \<or> shortBytes > 32 \<or> Validate cfg \<noteq> Inr () \<or> profiles name \<noteq> None"
  | (registered) p where "RegisterProfile name cfg shortBytes profiles = (Inr (), profiles(name \<mapsto> p))"
      "profiles name = None" "profile_ok name p" "profile_config p = cfg" "profile_shortBytes p = shortBytes"
proof -
  let ?p = "\<lparr>profile_config = cfg, profile_graphTag = name @ str ''.graph'', profile_keyIDTag = name @ str ''.keyid'',
    profile_shortBytes = shortBytes\<rparr>"
  consider "name = [] \<or> shortBytes < 1 \<or> shortBytes > 32 \<or> Validate cfg \<noteq> Inr () \<or> profiles name \<noteq> None"
    | "profile_ok name ?p" "profiles name = None"
    by (fastforce simp: profile_ok_def)
  then show thesis
  proof cases
    case 1
    then show ?thesis by (intro refused) (auto simp: RegisterProfile_def split: sum.splits)
  next
    case 2
    then show ?thesis
      by (intro registered [of ?p]) (auto simp: RegisterProfile_def profile_ok_def split: sum.splits)
  qed
qed

lemma RegisterProfile_ok: "registry_ok profiles \<Longrightarrow> registry_ok (snd (RegisterProfile name cfg shortBytes profiles))"
  by (cases rule: RegisterProfile_cases [of name cfg shortBytes profiles]) (auto simp: registry_ok_def)

lemma RegisterProfile_keeps: "profiles \<subseteq>\<^sub>m snd (RegisterProfile name cfg shortBytes profiles)"
  by (cases rule: RegisterProfile_cases [of name cfg shortBytes profiles]) (auto simp: map_le_def)

lemma initial_ok: "registry_ok initial_profiles"
  by (auto simp: registry_ok_def profile_ok_def initial_profiles_def production_profile_def ProductionProfile_def
      productionGraphTag_def productionKeyIDTag_def Validate_def normalize_def split: if_splits)

lemma reachable_ok: "reachable profiles \<Longrightarrow> registry_ok profiles"
proof (induction rule: reachable.induct)
  case (register profiles name cfg shortBytes r profiles')
  then show ?case using RegisterProfile_ok [of profiles name cfg shortBytes] by simp
qed (rule initial_ok)

text \<open>The tags of a reachable registry do not depend on what is registered.\<close>

lemma tags [simp]:
  assumes "registry_ok profiles"
  shows "graphTag profiles name = name @ str ''.graph''" "keyIDTag profiles name = name @ str ''.keyid''"
  using assms by (auto simp: graphTag_def keyIDTag_def getProfile_def registry_ok_def profile_ok_def split: option.splits)

section \<open>Signing\<close>

lemma filter_map_put: "\<not> P k \<Longrightarrow> filter (\<lambda>(k, _). P k) (map_put k v m) = filter (\<lambda>(k, _). P k) m"
  by (induction k v m rule: map_put.induct) auto

lemma SigningBytes_signatures [simp]: "SigningBytes (map_put (str ''signatures'') v obj) = SigningBytes obj"
  using filter_map_put [of "\<lambda>key. \<not> (key = str ''signatures'' \<or> key = str ''unsigned'')" "str ''signatures''" v obj]
  by (simp add: SigningBytes_def)

text \<open>The signatures of a server in an object; a value that is not a map holds none.\<close>

definition signatures_of :: "gmap \<Rightarrow> gmap" where
  "signatures_of obj = (case as_map (map_of obj (str ''signatures'')) of None \<Rightarrow> [] | Some m \<Rightarrow> m)"

definition server_signatures :: "gmap \<Rightarrow> bytes \<Rightarrow> gmap" where
  "server_signatures obj serverName =
     (case as_map (map_of (signatures_of obj) serverName) of None \<Rightarrow> [] | Some m \<Rightarrow> m)"

lemma SignFNDSA_Inr:
  assumes "SignFNDSA lib rng obj serverName keyName sk = (Inr (), obj', rng')"
  obtains m s where "serverName \<noteq> []" "HasPrefix keyName (FNDSAAlgorithm @ str '':'')" "SigningBytes obj = Inr m"
    "Sign lib rng sk m = (Inr s, rng')"
    "obj' = map_put (str ''signatures'') (GMap MapStringAny (map_put serverName (GMap MapStringAny
       (map_put keyName (GString (b64std_encode s)) (server_signatures obj serverName))) (signatures_of obj))) obj"
  using assms
  by (auto simp: SignFNDSA_def Let_def server_signatures_def signatures_of_def split: if_splits sum.splits prod.splits option.splits)

lemma SignFNDSA_Inl: "SignFNDSA lib rng obj serverName keyName sk = (Inl e, obj', rng') \<Longrightarrow> obj' = obj"
  by (auto simp: SignFNDSA_def Let_def split: if_splits sum.splits prod.splits option.splits)

lemma signatures_of_map_put [simp]:
  "signatures_of (map_put (str ''signatures'') (GMap MapStringAny m) obj) = m"
  by (simp add: signatures_of_def)

section \<open>Key objects\<close>

lemma NewUnsignedFNDSA_Inr:
  assumes "NewUnsignedFNDSA profiles sha3 serverName pk ts metadata proof' = Inr (obj, keyName)"
  obtains keyID short where "serverName \<noteq> []" "length pk = PublicKeySize" "KeyID profiles sha3 pk serverName proof' = Inr keyID"
    "ShortKeyID profiles (Algorithm proof') keyID = Inr short" "keyName = FNDSAAlgorithm @ str '':'' @ short"
    "obj = [(str ''server_name'', GString serverName),
       (str ''verify_keys'', GMap MapStringAny
          [(keyName, GMap MapStringAny (FNDSAKeyObject pk \<lparr>FIPS206Revision = [], Claims = []\<rparr> proof'))]),
       (str ''valid_until_ts'', GInt KInt64 (sint ts))]"
  using assms by (auto simp: NewUnsignedFNDSA_def Let_def split: if_splits sum.splits)

lemma check_minted_own:
  assumes "Algorithm proof' \<noteq> []" "validateProof profiles sha3 pk serverName (Algorithm proof') proof' = Inr ()"
    and "KeyID profiles sha3 pk serverName proof' = Inr keyID" "ShortKeyID profiles (Algorithm proof') keyID = Inr short"
  shows "check_minted profiles sha3 oob serverName (FNDSAAlgorithm @ str '':'' @ short) (FNDSAKeyObject pk metadata proof') pk = Inr ()"
  using assms by (simp add: check_minted_def)

lemma signed_object_accepted:
  assumes pair: "keypair lib sk pk"
    and new: "NewUnsignedFNDSA profiles sha3 serverName pk ts metadata proof' = Inr (obj, keyName)"
    and sign: "SignFNDSA lib rng obj serverName keyName sk = (Inr (), obj', rng')"
    and minted: "requireProof \<Longrightarrow> Algorithm proof' \<noteq> [] \<and> validateProof profiles sha3 pk serverName (Algorithm proof') proof' = Inr ()"
  shows "verifyFNDSASignature profiles sha3 lib oob obj' serverName requireProof = Inr keyName"
proof -
  obtain keyID short where n: "length pk = PublicKeySize"
    "KeyID profiles sha3 pk serverName proof' = Inr keyID" "ShortKeyID profiles (Algorithm proof') keyID = Inr short"
    "keyName = FNDSAAlgorithm @ str '':'' @ short" and o: "obj = [(str ''server_name'', GString serverName),
       (str ''verify_keys'', GMap MapStringAny
          [(keyName, GMap MapStringAny (FNDSAKeyObject pk \<lparr>FIPS206Revision = [], Claims = []\<rparr> proof'))]),
       (str ''valid_until_ts'', GInt KInt64 (sint ts))]"
    by (rule NewUnsignedFNDSA_Inr [OF new])
  have obj: "map_of obj (str ''server_name'') = Some (GString serverName)"
    "map_of obj (str ''verify_keys'') = Some (GMap MapStringAny
       [(keyName, GMap MapStringAny (FNDSAKeyObject pk \<lparr>FIPS206Revision = [], Claims = []\<rparr> proof'))])"
    by (simp_all add: o)
  from SignFNDSA_Inr [OF sign] obtain m s where s: "SigningBytes obj = Inr m" "Sign lib rng sk m = (Inr s, rng')"
    and obj': "obj' = map_put (str ''signatures'') (GMap MapStringAny (map_put serverName (GMap MapStringAny
       (map_put keyName (GString (b64std_encode s)) (server_signatures obj serverName))) (signatures_of obj))) obj" by metis
  define T where "T = map_put keyName (GString (b64std_encode s)) (server_signatures obj serverName)"
  define S where "S = map_put serverName (GMap MapStringAny T) (signatures_of obj)"
  have o': "obj' = map_put (str ''signatures'') (GMap MapStringAny S) obj" by (simp only: obj' S_def T_def)
  have f: "as_string (map_of obj' (str ''server_name'')) = Some serverName"
    "as_map (map_of obj' (str ''verify_keys'')) =
       Some [(keyName, GMap MapStringAny (FNDSAKeyObject pk \<lparr>FIPS206Revision = [], Claims = []\<rparr> proof'))]"
    "as_map (map_of obj' (str ''signatures'')) = Some S" "as_map (map_of S serverName) = Some T"
    "as_string (map_of T keyName) = Some (b64std_encode s)"
    unfolding o' map_of_map_put using obj by (simp_all add: S_def T_def)
  have f': "SigningBytes obj' = Inr m" unfolding o' SigningBytes_signatures by (rule s(1))
  obtain t where t: "b64std_decode (b64std_encode s) = Inr t" "FndsaVerify lib pk m t"
    using raw_sig.signed_text [OF pair s(2)] by blast
  have "HasPrefix keyName (FNDSAAlgorithm @ str '':'')" unfolding n(4) append_assoc [symmetric] by (rule HasPrefix_append)
  moreover have "check_minted profiles sha3 oob serverName keyName (FNDSAKeyObject pk \<lparr>FIPS206Revision = [], Claims = []\<rparr> proof') pk = Inr ()"
    if requireProof using check_minted_own minted that n by blast
  ultimately show ?thesis
    unfolding verifyFNDSASignature_def f f' option.case sum.case using n(1) t f(5) by simp
qed

text \<open>An accepted key: what the loop checked.\<close>

lemma verify_keys_Inr:
  "verify_keys profiles sha3 lib oob serverName m serverSigs requireProof keys = Inr keyName \<Longrightarrow>
   \<exists>keyObject pk text s. (keyName, GMap MapStringAny keyObject) \<in> set keys \<and> publicKeyFromObject keyObject = Inr pk \<and>
     (requireProof \<longrightarrow> check_minted profiles sha3 oob serverName keyName keyObject pk = Inr ()) \<and>
     map_of serverSigs keyName = Some (GString text) \<and> b64std_decode text = Inr s \<and> FndsaVerify lib pk m s"
proof (induction keys)
  case (Cons entry keys)
  obtain k v where e: "entry = (k, v)" by (cases entry)
  show ?case
  proof (cases "HasPrefix k (FNDSAAlgorithm @ str '':'')")
    case True
    then show ?thesis using Cons.prems unfolding e
      by (auto simp: as_map_Some_iff as_string_Some_iff split: option.splits sum.splits if_splits)
  next
    case False
    then show ?thesis using Cons unfolding e by auto
  qed
qed simp

text \<open>Which digests exist; a key identifier does whenever the seed of the graph does, as the source claims.\<close>

lemma valid_utf8_tag [simp]: "valid_utf8 s \<Longrightarrow> valid_utf8 (s @ str ''.graph'')" "valid_utf8 s \<Longrightarrow> valid_utf8 (s @ str ''.keyid'')"
  by (simp_all add: valid_utf8_append valid_utf8_ascii)

lemma is_ok_digest_object: "is_ok (digest_object H obj) \<longleftrightarrow> is_ok (Canonical (GMap MapStringAny obj))"
  by (auto simp: digest_object_def is_ok_iff split: sum.splits)

lemma is_ok_GraphSeed:
  assumes "registry_ok profiles"
  shows "is_ok (GraphSeed profiles sha3 pk serverName name nonce) \<longleftrightarrow> valid_utf8 name \<and> valid_utf8 serverName"
proof -
  have "\<forall>k\<in>fst ` set (graphObject profiles pk serverName name nonce). valid_utf8 k"
    by (auto simp: graphObject_def intro!: valid_utf8_ascii)
  then show ?thesis
    unfolding GraphSeed_def is_ok_digest_object is_ok_Canonical not_None_eq json_of_object using assms
    by (auto simp: graphObject_def simp del: str_simps append_Cons)
qed

lemma is_ok_KeyID:
  assumes "registry_ok profiles"
  shows "is_ok (KeyID profiles sha3 pk serverName proof') \<longleftrightarrow> valid_utf8 (Algorithm proof') \<and> valid_utf8 serverName"
proof -
  have "\<forall>k\<in>fst ` set (mintingObject profiles pk serverName (Algorithm proof') proof'). valid_utf8 k"
    by (auto simp: mintingObject_def intro!: valid_utf8_ascii)
  then show ?thesis
    unfolding KeyID_def is_ok_digest_object is_ok_Canonical not_None_eq json_of_object using assms
    by (auto simp: mintingObject_def simp del: str_simps append_Cons)
qed

lemma KeyID_total:
  assumes "registry_ok profiles" "GraphSeed profiles sha3 pk serverName (Algorithm proof') (Nonce proof') = Inr seed"
  shows "\<exists>keyID. KeyID profiles sha3 pk serverName proof' = Inr keyID"
  using is_ok_GraphSeed [OF assms(1), of sha3 pk serverName "Algorithm proof'" "Nonce proof'"] is_ok_KeyID [OF assms(1)] assms(2)
  by (auto simp: is_ok_iff)

lemma ShortKeyID_ok:
  "registry_ok profiles \<Longrightarrow> profiles name = Some p \<Longrightarrow>
   ShortKeyID profiles name keyID = Inr (b64url_encode (take (nat (profile_shortBytes p)) keyID))"
  by (force simp: ShortKeyID_def getProfile_def registry_ok_def profile_ok_def)

lemma verify_answer_Inr: "verify_answer cfg seed ns = Inr () \<longleftrightarrow> Verify cfg seed ns = Some (Inr ())"
  by (auto simp: verify_answer_def split: option.splits)

lemma check_minted_Inr:
  assumes ok: "registry_ok profiles" and c: "check_minted profiles sha3 oob serverName keyName keyObject pk = Inr ()"
  shows "\<exists>proof' p seed keyID. mintingProofFromObject oob keyObject = Inr (Algorithm proof', proof') \<and>
    profiles (Algorithm proof') = Some p \<and>
    GraphSeed profiles sha3 pk serverName (Algorithm proof') (Nonce proof') = Inr seed \<and>
    Verify (profile_config p) seed (Solution proof') = Some (Inr ()) \<and>
    KeyID profiles sha3 pk serverName proof' = Inr keyID \<and>
    keyName = FNDSAAlgorithm @ str '':'' @ b64url_encode (take (nat (profile_shortBytes p)) keyID)"
proof -
  obtain name proof' where m: "mintingProofFromObject oob keyObject = Inr (name, proof')"
    and v: "validateProof profiles sha3 pk serverName name proof' = Inr ()"
    using c by (auto simp: check_minted_def split: sum.splits)
  have name: "name = Algorithm proof'"
    using m by (auto simp: mintingProofFromObject_def split: option.splits sum.splits if_splits)
  obtain p seed where p: "profiles name = Some p" "GraphSeed profiles sha3 pk serverName name (Nonce proof') = Inr seed"
    "Verify (profile_config p) seed (Solution proof') = Some (Inr ())"
    using v by (auto simp: validateProof_def getProfile_def verify_answer_Inr split: option.splits sum.splits)
  obtain keyID where k: "KeyID profiles sha3 pk serverName proof' = Inr keyID" using KeyID_total [OF ok] p(2) name by blast
  show ?thesis using c m v k p name ShortKeyID_ok [OF ok p(1)] by (auto simp: check_minted_def split: if_splits)
qed

lemma json_of_key_object:
  assumes "valid_utf8 (Algorithm proof')"
  shows "json_of (GMap MapStringAny (FNDSAKeyObject pk metadata proof')) \<noteq> None"
proof -
  have pow: "json_of (GMap MapStringAny [(str ''nonce'', uint32 (Nonce proof')), (str ''solution'', uint32sToAny (Solution proof'))]) \<noteq> None"
    unfolding not_None_eq json_of_object by (auto intro!: valid_utf8_ascii)
  show ?thesis
    unfolding not_None_eq json_of_object FNDSAKeyObject_def using assms pow
    by (auto intro!: valid_utf8_ascii simp del: json_of.simps(9))
qed

lemma is_ok_SigningBytes_new:
  assumes "registry_ok profiles" "NewUnsignedFNDSA profiles sha3 serverName pk ts metadata proof' = Inr (obj, keyName)"
  shows "is_ok (SigningBytes obj) \<longleftrightarrow> minCanonicalInt \<le> sint ts \<and> sint ts \<le> maxCanonicalInt"
proof -
  obtain keyID short where n: "KeyID profiles sha3 pk serverName proof' = Inr keyID"
    "ShortKeyID profiles (Algorithm proof') keyID = Inr short" "keyName = FNDSAAlgorithm @ str '':'' @ short"
    and o: "obj = [(str ''server_name'', GString serverName),
       (str ''verify_keys'', GMap MapStringAny
          [(keyName, GMap MapStringAny (FNDSAKeyObject pk \<lparr>FIPS206Revision = [], Claims = []\<rparr> proof'))]),
       (str ''valid_until_ts'', GInt KInt64 (sint ts))]"
    by (rule NewUnsignedFNDSA_Inr [OF assms(2)])
  have u: "valid_utf8 (Algorithm proof')" "valid_utf8 serverName" using is_ok_KeyID [OF assms(1)] n(1) by (metis is_ok_simps(1))+
  have "\<forall>b\<in>set (b64url_encode bs). b < 128" for bs
    using alphabets_ascii(2) b64_digits_less url_alphabet_ok(2) by (auto simp: b64url_encode_def b64_encode_def)
  moreover obtain bs where "short = b64url_encode bs" using n(2) by (auto simp: ShortKeyID_def split: option.splits if_splits)
  ultimately have "\<forall>b\<in>set keyName. b < 128" unfolding n(3) FNDSAAlgorithm_def by auto
  then have key: "valid_utf8 keyName" by (rule valid_utf8_ascii)
  have "json_of (GMap MapStringAny (FNDSAKeyObject pk \<lparr>FIPS206Revision = [], Claims = []\<rparr> proof')) \<noteq> None"
    by (rule json_of_key_object [OF u(1)])
  then obtain j where j: "json_of (GMap MapStringAny (FNDSAKeyObject pk \<lparr>FIPS206Revision = [], Claims = []\<rparr> proof')) = Some j"
    by blast
  have keys: "json_of (GMap MapStringAny [(keyName, GMap MapStringAny
      (FNDSAKeyObject pk \<lparr>FIPS206Revision = [], Claims = []\<rparr> proof'))]) = Some (JObj [(keyName, j)])"
    by (subst json_of_object) (simp add: key j del: json_of.simps(9))
  have utf: "\<forall>k\<in>fst ` set obj. valid_utf8 k" by (auto simp: o intro!: valid_utf8_ascii)
  have flt: "filter (\<lambda>(key, _). \<not> (key = str ''signatures'' \<or> key = str ''unsigned'')) obj = obj" by (simp add: o)
  show ?thesis
    unfolding SigningBytes_def flt is_ok_Canonical not_None_eq json_of_object using u(2) utf keys
    by (auto simp: o json_int_def simp del: json_of.simps(9) split: if_splits)
qed

lemma NewSignedFNDSA_Inr:
  assumes ok: "registry_ok profiles" and "profiles (Algorithm proof') \<noteq> None" "valid_utf8 (Algorithm proof')"
    and "serverName \<noteq> []" "valid_utf8 serverName" "keypair lib sk pk"
    and ts: "minCanonicalInt \<le> sint ts" "sint ts \<le> maxCanonicalInt"
    and lib: "\<And>m. \<exists>s rng'. Sign lib rng sk m = (Inr s, rng')"
  shows "\<exists>obj keyName rng'. NewSignedFNDSA profiles sha3 lib rng serverName sk pk ts metadata proof' = (Inr (obj, keyName), rng')"
proof -
  obtain p where p: "profiles (Algorithm proof') = Some p" using assms(2) by blast
  obtain keyID where k: "KeyID profiles sha3 pk serverName proof' = Inr keyID"
    using is_ok_KeyID [OF ok, of sha3 pk serverName proof'] assms(3,5) by (auto simp: is_ok_iff)
  obtain obj keyName where new: "NewUnsignedFNDSA profiles sha3 serverName pk ts metadata proof' = Inr (obj, keyName)"
    and name: "HasPrefix keyName (FNDSAAlgorithm @ str '':'')"
    using assms(4) keypairD(1) [OF assms(6)] k ShortKeyID_ok [OF ok p]
      HasPrefix_append [of "FNDSAAlgorithm @ str '':''"] by (auto simp: NewUnsignedFNDSA_def Let_def)
  obtain m where m: "SigningBytes obj = Inr m" using is_ok_SigningBytes_new [OF ok new] ts by (auto simp: is_ok_iff)
  obtain s rng' where s: "Sign lib rng sk m = (Inr s, rng')" using lib by blast
  have "map_of obj (str ''signatures'') = None" by (rule NewUnsignedFNDSA_Inr [OF new]) simp
  then have "\<exists>obj'. SignFNDSA lib rng obj serverName keyName sk = (Inr (), obj', rng')"
    unfolding SignFNDSA_def using assms(4) name m s by (simp add: Let_def)
  then show ?thesis by (auto simp: NewSignedFNDSA_def new)
qed

section \<open>Key names commit to keys\<close>

lemma minting_json_inject:
  assumes j: "json_of (GMap MapStringAny (mintingObject profiles pk sn (Algorithm pf) pf)) = Some j"
    "json_of (GMap MapStringAny (mintingObject profiles pk' sn' (Algorithm pf') pf')) = Some j"
  shows "pk = pk' \<and> sn = sn' \<and> pf = pf'"
proof -
  let ?m = "mintingObject profiles pk sn (Algorithm pf) pf" and ?m' = "mintingObject profiles pk' sn' (Algorithm pf') pf'"
  have eq: "json_of (the (map_of ?m k)) = json_of (the (map_of ?m' k)) \<and> json_of (the (map_of ?m k)) \<noteq> None"
    if k: "k \<in> fst ` set ?m" for k
  proof -
    obtain v where v: "map_of ?m k = Some v" using k by (metis map_of_eq_None_iff not_None_eq)
    then show ?thesis using json_of_object_eq [OF j v] j(1) [unfolded json_of_object] k by auto
  qed
  have mem: "fst ` set ?m = {str ''action'', str ''nonce'', str ''profile'', str ''public_key'', str ''server_name'', str ''solution''}"
    by (auto simp: mintingObject_def)
  have "Algorithm pf = Algorithm pf'" using eq [of "str ''profile''"] unfolding mem by (auto simp: mintingObject_def split: if_splits)
  moreover have "sn = sn'" using eq [of "str ''server_name''"] unfolding mem by (auto simp: mintingObject_def split: if_splits)
  moreover have "b64std_encode pk = b64std_encode pk'"
    using eq [of "str ''public_key''"] unfolding mem by (auto simp: mintingObject_def split: if_splits)
  moreover have "uint (Nonce pf) = uint (Nonce pf')" using eq [of "str ''nonce''"] unfolding mem by (simp add: mintingObject_def)
  moreover have "Solution pf = Solution pf'"
  proof -
    have "map (\<lambda>n. JInt (uint n)) (Solution pf) = map (\<lambda>n. JInt (uint n)) (Solution pf')"
      using eq [of "str ''solution''"] unfolding mem by (simp add: mintingObject_def)
    moreover have "inj (\<lambda>n :: u32. JInt (uint n))" by (simp add: inj_def word_uint_eq_iff)
    ultimately show ?thesis by (simp add: inj_map_eq_map)
  qed
  ultimately show ?thesis using b64std.encode_inject [of pk pk'] 
    by (cases pf; cases pf') (simp add: word_uint_eq_iff)
qed

section \<open>A sample key\<close>

definition sample_profile :: bytes where "sample_profile = str ''test.v1''"

definition sample_registry :: registry where
  "sample_registry = snd (RegisterProfile sample_profile sample_config 16 initial_profiles)"

definition sample_minting :: minting_proof where
  "sample_minting = \<lparr>Algorithm = sample_profile, Nonce = 7, Solution = [0, 1]\<rparr>"

definition sample_lib :: "unit fndsa_lib" where
  "sample_lib = \<lparr>lib_KeyGen = (\<lambda>n r. (Inr (replicate 1281 1, replicate 897 2), r)),
     lib_Sign = (\<lambda>r sk d h m. (Inr (take 666 (m @ replicate 666 0)), r)),
     lib_Verify = (\<lambda>pk d h m s. s = take 666 (m @ replicate 666 0)), DOMAIN_NONE = []\<rparr>"

definition sample_metadata :: fndsa_metadata where
  "sample_metadata = \<lparr>FIPS206Revision = DefaultFIPSRevision, Claims = []\<rparr>"

lemma sample_reachable: "reachable sample_registry"
  unfolding sample_registry_def by (metis prod.collapse reachable.intros)

lemma sample_lookup: "sample_registry sample_profile = Some \<lparr>profile_config = sample_config,
    profile_graphTag = sample_profile @ str ''.graph'', profile_keyIDTag = sample_profile @ str ''.keyid'', profile_shortBytes = 16\<rparr>"
proof -
  have "Validate sample_config = Inr ()" by (simp add: Validate_def sample_normalize)
  moreover have "sample_profile \<notin> dom initial_profiles" "sample_profile \<noteq> []"
    by (simp_all add: initial_profiles_def sample_profile_def ProductionProfile_def)
  ultimately show ?thesis by (simp add: sample_registry_def RegisterProfile_def)
qed

lemma sample_keypair: "keypair sample_lib (replicate 1281 1) (replicate 897 2)"
  by (simp add: keypair_def sample_lib_def PrivateKeySize_def PublicKeySize_def)

lemma sample_utf8: "valid_utf8 sample_profile" "valid_utf8 (str ''h.example'')"
  by (auto simp: sample_profile_def intro!: valid_utf8_ascii)

lemma sample_validates: "validateProof sample_registry (\<lambda>_. sample_seed) pk (str ''h.example'') sample_profile sample_minting = Inr ()"
proof -
  have "is_ok (GraphSeed sample_registry (\<lambda>_. sample_seed) pk (str ''h.example'') sample_profile 7)"
    using is_ok_GraphSeed [OF reachable_ok [OF sample_reachable]] sample_utf8 by blast
  then have "GraphSeed sample_registry (\<lambda>_. sample_seed) pk (str ''h.example'') sample_profile 7 = Inr sample_seed"
    by (auto simp: GraphSeed_def digest_object_def is_ok_iff split: sum.splits)
  then show ?thesis
    using sample_lookup sample_verifies by (simp add: validateProof_def getProfile_def sample_minting_def verify_answer_Inr)
qed

lemma sample_signed:
  obtains obj keyName where "NewSignedFNDSA sample_registry (\<lambda>_. sample_seed) sample_lib () (str ''h.example'') (replicate 1281 1)
    (replicate 897 2) 1000 sample_metadata sample_minting = (Inr (obj, keyName), ())"
proof -
  have "\<exists>obj keyName rng'. NewSignedFNDSA sample_registry (\<lambda>_. sample_seed) sample_lib () (str ''h.example'') (replicate 1281 1)
    (replicate 897 2) 1000 sample_metadata sample_minting = (Inr (obj, keyName), rng')"
  proof (rule NewSignedFNDSA_Inr [OF reachable_ok [OF sample_reachable] _ _ _ _ sample_keypair])
    show "sample_registry (Algorithm sample_minting) \<noteq> None" by (simp add: sample_minting_def sample_lookup)
    show "\<And>m. \<exists>s rng'. Sign sample_lib () (replicate 1281 1) m = (Inr s, rng')"
      unfolding Sign_Inr by (simp add: sample_lib_def PrivateKeySize_def SignatureSize_def)
  qed (use sample_utf8 in \<open>simp_all add: sample_minting_def minCanonicalInt_def maxCanonicalInt_def\<close>)
  then show thesis using that by auto
qed

section \<open>The order of the range\<close>

text \<open>Only the first key with the prefix counts.\<close>

lemma verify_keys_first:
  "verify_keys profiles sha3 lib oob serverName m serverSigs requireProof keys =
     (case filter (\<lambda>(k, _). HasPrefix k (FNDSAAlgorithm @ str '':'')) keys of
        [] \<Rightarrow> Inl ErrInvalidKeyName
      | entry # _ \<Rightarrow> verify_keys profiles sha3 lib oob serverName m serverSigs requireProof [entry])"
proof (induction keys)
  case (Cons entry keys)
  then show ?case by (cases entry) (auto split: list.splits)
qed simp

lemma mset_filter_single: "mset xs = mset ys \<Longrightarrow> length (filter P xs) \<le> 1 \<Longrightarrow> filter P xs = filter P ys"
proof -
  assume a: "mset xs = mset ys" "length (filter P xs) \<le> 1"
  then have m: "mset (filter P xs) = mset (filter P ys)" by (metis mset_filter)
  show ?thesis
  proof (cases "filter P xs")
    case (Cons x zs)
    then have "filter P xs = [x]" using a(2) by (cases zs) auto
    then show ?thesis using m by (metis mset_single_iff mset_zero_iff_right mset.simps)
  qed (use m in simp)
qed

lemma verify_keys_order:
  assumes "mset keys = mset keys'" "length (filter (\<lambda>(k, _). HasPrefix k (FNDSAAlgorithm @ str '':'')) keys) \<le> 1"
  shows "verify_keys profiles sha3 lib oob serverName m serverSigs requireProof keys =
    verify_keys profiles sha3 lib oob serverName m serverSigs requireProof keys'"
  unfolding verify_keys_first [of _ _ _ _ _ _ _ _ keys] verify_keys_first [of _ _ _ _ _ _ _ _ keys']
  using mset_filter_single [OF assms] by simp

text \<open>With two keys that have the prefix the result is that of the one the range visits first.\<close>

lemma verification_depends_on_order:
  "\<exists>keys serverSigs. distinct (map fst keys) \<and>
     verify_keys sample_registry (\<lambda>_. sample_seed) sample_lib (\<lambda>_. 0) (str ''h'') [] serverSigs False keys = Inr (str ''fndsa512:a'') \<and>
     verify_keys sample_registry (\<lambda>_. sample_seed) sample_lib (\<lambda>_. 0) (str ''h'') [] serverSigs False (rev keys) = Inl ErrInvalidKeyObject"
proof -
  let ?good = "GMap MapStringAny (FNDSAKeyObject (replicate 897 2) sample_metadata sample_minting)"
  let ?s = "replicate 666 0 :: bytes"
  have "length (replicate 897 (2 :: byte)) = PublicKeySize" by (simp add: PublicKeySize_def)
  note key = publicKey_FNDSAKeyObject [OF this]
  have d: "b64std_decode (b64std_encode ?s) = Inr ?s" by (rule b64std.decode_encode) simp
  have v: "FndsaVerify sample_lib (replicate 897 2) [] ?s"
    by (simp add: FndsaVerify_def checkPublicKey_def checkSignature_def PublicKeySize_def SignatureSize_def sample_lib_def)
  have p: "HasPrefix (str ''fndsa512:a'') (FNDSAAlgorithm @ str '':'')" "HasPrefix (str ''fndsa512:b'') (FNDSAAlgorithm @ str '':'')"
    by (simp_all add: HasPrefix_def FNDSAAlgorithm_def)
  show ?thesis
  proof (intro exI conjI)
    show "distinct (map fst [(str ''fndsa512:a'', ?good), (str ''fndsa512:b'', GNil)])" by simp
    show "verify_keys sample_registry (\<lambda>_. sample_seed) sample_lib (\<lambda>_. 0) (str ''h'') []
        [(str ''fndsa512:a'', GString (b64std_encode ?s))] False [(str ''fndsa512:a'', ?good), (str ''fndsa512:b'', GNil)] =
        Inr (str ''fndsa512:a'')"
      using p key d v by (simp del: str_simps)
    show "verify_keys sample_registry (\<lambda>_. sample_seed) sample_lib (\<lambda>_. 0) (str ''h'') []
        [(str ''fndsa512:a'', GString (b64std_encode ?s))] False (rev [(str ''fndsa512:a'', ?good), (str ''fndsa512:b'', GNil)]) =
        Inl ErrInvalidKeyObject"
      using p by (simp del: str_simps)
  qed
qed

section \<open>Properties\<close>

text \<open>C11: every number that \<open>uint32FromAny\<close> accepts is read exactly. For a value of a type that Go can hold, the
  result is \<open>n\<close> exactly when the value is one of an accepted dynamic type (every unsigned type but \<open>uintptr\<close>, \<open>int\<close>,
  \<open>int64\<close>, \<open>float64\<close>) and equals \<open>n\<close>, whatever the machine makes of floats out of range; the only error is
  \<open>ErrInvalidKeyObject\<close>.\<close>

theorem uint32FromAny_exact:
  assumes "wf_gval v"
  shows "(uint32FromAny oob v = Inr n \<longleftrightarrow> number_value v = Some (uint n)) \<and>
    (uint32FromAny oob v = Inl e \<longrightarrow> e = ErrInvalidKeyObject)"
  using uint32FromAny_Inr [OF assms] uint32FromAny_error by blast

theorem uint32FromAny_exact_witness: "uint32FromAny (\<lambda>_. 0) (GFloat (F64 3 1)) = Inr 6"
  using uint32FromAny_exact [of "GFloat (F64 3 1)" "\<lambda>_. 0" 6] by (simp add: number_value_def)

text \<open>C9: the registry only grows. In every reachable registry the production profile is the built-in one and every
  profile has a valid configuration, a key name of 1 to 32 bytes and the tags derived from its name; a further
  registration changes no profile and succeeds exactly for a new, well-formed one.\<close>

theorem registry_invariant:
  assumes "reachable profiles"
  shows "profiles ProductionProfile = Some production_profile \<and>
    (\<forall>name p. profiles name = Some p \<longrightarrow> profile_ok name p) \<and>
    profiles \<subseteq>\<^sub>m snd (RegisterProfile name cfg shortBytes profiles) \<and>
    (fst (RegisterProfile name cfg shortBytes profiles) = Inr () \<longleftrightarrow>
       name \<noteq> [] \<and> 1 \<le> shortBytes \<and> shortBytes \<le> 32 \<and> Validate cfg = Inr () \<and> profiles name = None)"
  using reachable_ok [OF assms] RegisterProfile_keeps [of profiles name cfg shortBytes]
  by (cases rule: RegisterProfile_cases [of name cfg shortBytes profiles]) (auto simp: registry_ok_def profile_ok_def)

theorem registry_invariant_witness:
  "sample_registry ProductionProfile = Some production_profile \<and> profile_ok sample_profile (the (sample_registry sample_profile))"
  using registry_invariant [OF sample_reachable, of sample_profile sample_config 16] sample_lookup by simp

text \<open>C10: signing adds one signature and nothing else. The bytes that are signed stay the same, all other keys of the
  object, the signatures of other servers and the other signatures of this server are kept, and an object that is not
  signed is not changed.\<close>

theorem SignFNDSA_effect:
  assumes "SignFNDSA lib rng obj serverName keyName sk = (r, obj', rng')"
  shows "case r of
      Inl e \<Rightarrow> obj' = obj
    | Inr _ \<Rightarrow> SigningBytes obj' = SigningBytes obj \<and>
        (\<forall>k. k \<noteq> str ''signatures'' \<longrightarrow> map_of obj' k = map_of obj k) \<and>
        (\<forall>s. s \<noteq> serverName \<longrightarrow> map_of (signatures_of obj') s = map_of (signatures_of obj) s) \<and>
        (\<exists>m s. SigningBytes obj = Inr m \<and> Sign lib rng sk m = (Inr s, rng') \<and>
           map_of (server_signatures obj' serverName) =
             (map_of (server_signatures obj serverName))(keyName \<mapsto> GString (b64std_encode s)))"
proof (cases r)
  case (Inl e)
  then show ?thesis using SignFNDSA_Inl [of lib rng obj serverName keyName sk e obj' rng'] assms by simp
next
  case (Inr u)
  then have "SignFNDSA lib rng obj serverName keyName sk = (Inr (), obj', rng')" using assms by simp
  from SignFNDSA_Inr [OF this] obtain m s where s: "SigningBytes obj = Inr m" "Sign lib rng sk m = (Inr s, rng')"
    and o: "obj' = map_put (str ''signatures'') (GMap MapStringAny (map_put serverName (GMap MapStringAny
       (map_put keyName (GString (b64std_encode s)) (server_signatures obj serverName))) (signatures_of obj))) obj" by metis
  have "server_signatures obj' serverName = map_put keyName (GString (b64std_encode s)) (server_signatures obj serverName)"
    unfolding server_signatures_def [of obj'] unfolding o signatures_of_map_put map_of_map_put by simp
  moreover have "map_of (signatures_of obj') t = map_of (signatures_of obj) t" if "t \<noteq> serverName" for t
    using that by (simp add: o del: str_simps)
  moreover have "SigningBytes obj' = SigningBytes obj" "\<forall>k. k \<noteq> str ''signatures'' \<longrightarrow> map_of obj' k = map_of obj k"
    by (simp_all add: o del: str_simps)
  ultimately show ?thesis using s Inr by simp
qed

theorem SignFNDSA_effect_witness:
  "SigningBytes (fst (snd (SignFNDSA sample_lib () [] (str ''h'') (str ''fndsa512:k'') (replicate 1281 1)))) = SigningBytes []"
proof -
  have "SigningBytes [] = Inr (str ''{}'')" unfolding SigningBytes_def Canonical_Inr_iff by (simp add: json_object_def)
  then have "\<exists>o' s. SignFNDSA sample_lib () [] (str ''h'') (str ''fndsa512:k'') (replicate 1281 1) = (Inr (), o', ())"
    by (simp add: SignFNDSA_def HasPrefix_def FNDSAAlgorithm_def Sign_def checkPrivateKey_def checkSignature_def sample_lib_def
        PrivateKeySize_def SignatureSize_def Let_def)
  then show ?thesis using SignFNDSA_effect [of sample_lib "()" "[]" "str ''h''" "str ''fndsa512:k''" "replicate 1281 1" "Inr ()"]
    by auto
qed

text \<open>What the package mints, it accepts. When the keys belong together and the proof is valid for the profile, the
  object that \<open>NewSignedFNDSA\<close> returns passes both verifications, which return its key name.\<close>

theorem NewSignedFNDSA_accepted:
  assumes "keypair lib sk pk" "Algorithm proof' \<noteq> []"
    and "validateProof profiles sha3 pk serverName (Algorithm proof') proof' = Inr ()"
    and "NewSignedFNDSA profiles sha3 lib rng serverName sk pk ts metadata proof' = (Inr (obj, keyName), rng')"
  shows "VerifyMintedFNDSAServerKey profiles sha3 lib oob obj serverName = Inr keyName \<and>
    VerifyFNDSASelfSignature profiles sha3 lib oob obj serverName = Inr keyName"
  using assms signed_object_accepted [OF assms(1)]
  by (auto simp: NewSignedFNDSA_def VerifyMintedFNDSAServerKey_def VerifyFNDSASelfSignature_def
      split: sum.splits prod.splits)

theorem NewSignedFNDSA_accepted_witness:
  "\<exists>obj keyName. VerifyMintedFNDSAServerKey sample_registry (\<lambda>_. sample_seed) sample_lib (\<lambda>_. 0) obj (str ''h.example'') = Inr keyName"
proof -
  obtain obj keyName where "NewSignedFNDSA sample_registry (\<lambda>_. sample_seed) sample_lib () (str ''h.example'') (replicate 1281 1)
    (replicate 897 2) 1000 sample_metadata sample_minting = (Inr (obj, keyName), ())" by (rule sample_signed)
  then show ?thesis
    using NewSignedFNDSA_accepted [OF sample_keypair, of sample_minting sample_registry "\<lambda>_. sample_seed"] sample_validates
    by (fastforce simp: sample_minting_def sample_profile_def)
qed

text \<open>C7: an accepted key has done its work. When \<open>VerifyMintedFNDSAServerKey\<close> accepts an object under a reachable
  registry, the object names the server and holds, under the returned name, a key object with a public key of the right
  size and a proof for a registered profile; the edges of the proof form a simple cycle of the profile's size in the
  graph seeded by exactly this key, server, profile and nonce; the name is the truncated digest of key, server and
  proof; and the public key verifies a signature of the object's signing bytes.\<close>

theorem VerifyMinted_sound:
  assumes "reachable profiles" "VerifyMintedFNDSAServerKey profiles sha3 lib oob obj serverName = Inr keyName"
  shows "\<exists>keys keyObject pk pf p c seed keyID m rawSig s.
    map_of obj (str ''server_name'') = Some (GString serverName) \<and>
    map_of obj (str ''verify_keys'') = Some (GMap MapStringAny keys) \<and> (keyName, GMap MapStringAny keyObject) \<in> set keys \<and>
    publicKeyFromObject keyObject = Inr pk \<and> length pk = PublicKeySize \<and>
    mintingProofFromObject oob keyObject = Inr (Algorithm pf, pf) \<and>
    profiles (Algorithm pf) = Some p \<and> normalize (profile_config p) = Inr c \<and>
    GraphSeed profiles sha3 pk serverName (Algorithm pf) (Nonce pf) = Inr seed \<and>
    int (length (Solution pf)) = ProofSize c \<and> sorted_wrt (<) (Solution pf) \<and>
    (\<exists>order. mset order = mset (Solution pf) \<and> simple_cycle (map (graph_edge c seed) order)) \<and>
    KeyID profiles sha3 pk serverName pf = Inr keyID \<and>
    keyName = FNDSAAlgorithm @ str '':'' @ b64url_encode (take (nat (profile_shortBytes p)) keyID) \<and>
    SigningBytes obj = Inr m \<and> map_of (server_signatures obj serverName) keyName = Some (GString rawSig) \<and>
    b64std_decode rawSig = Inr s \<and> FndsaVerify lib pk m s"
proof -
  note ok = reachable_ok [OF assms(1)]
  obtain keys sigs serverSigs m where o: "as_string (map_of obj (str ''server_name'')) = Some serverName"
    "as_map (map_of obj (str ''verify_keys'')) = Some keys" "as_map (map_of obj (str ''signatures'')) = Some sigs"
    "as_map (map_of sigs serverName) = Some serverSigs" "SigningBytes obj = Inr m"
    and v: "verify_keys profiles sha3 lib oob serverName m serverSigs True keys = Inr keyName"
    using assms(2) unfolding VerifyMintedFNDSAServerKey_def verifyFNDSASignature_def
    by (auto split: option.splits sum.splits if_splits simp del: str_simps)
  have sigs: "server_signatures obj serverName = serverSigs" by (simp add: server_signatures_def signatures_of_def o del: str_simps)
  from verify_keys_Inr [OF v] obtain keyObject pk rawSig s where k: "(keyName, GMap MapStringAny keyObject) \<in> set keys"
    "publicKeyFromObject keyObject = Inr pk" "check_minted profiles sha3 oob serverName keyName keyObject pk = Inr ()"
    "map_of serverSigs keyName = Some (GString rawSig)" "b64std_decode rawSig = Inr s" "FndsaVerify lib pk m s" by blast
  from check_minted_Inr [OF ok k(3)] obtain pf p seed keyID where c: "mintingProofFromObject oob keyObject = Inr (Algorithm pf, pf)"
    "profiles (Algorithm pf) = Some p" "GraphSeed profiles sha3 pk serverName (Algorithm pf) (Nonce pf) = Inr seed"
    "Verify (profile_config p) seed (Solution pf) = Some (Inr ())" "KeyID profiles sha3 pk serverName pf = Inr keyID"
    "keyName = FNDSAAlgorithm @ str '':'' @ b64url_encode (take (nat (profile_shortBytes p)) keyID)" by blast
  obtain cfg where "normalize (profile_config p) = Inr cfg" "int (length (Solution pf)) = ProofSize cfg"
    "sorted_wrt (<) (Solution pf)" "\<exists>order. mset order = mset (Solution pf) \<and> simple_cycle (map (graph_edge cfg seed) order)"
    using Verify_spec [of "profile_config p" seed "Solution pf"] c(4) by auto
  moreover have "length pk = PublicKeySize" using raw_sig.ver_sizes [OF k(6)] by simp
  ultimately show ?thesis
    using o(1,2,5) k c unfolding as_string_Some_iff as_map_Some_iff sigs by metis
qed

theorem VerifyMinted_sound_witness:
  "\<exists>obj keyName. VerifyMintedFNDSAServerKey sample_registry (\<lambda>_. sample_seed) sample_lib (\<lambda>_. 0) obj (str ''h.example'') = Inr keyName \<and>
     map_of obj (str ''server_name'') = Some (GString (str ''h.example''))"
proof -
  obtain obj keyName where "NewSignedFNDSA sample_registry (\<lambda>_. sample_seed) sample_lib () (str ''h.example'') (replicate 1281 1)
    (replicate 897 2) 1000 sample_metadata sample_minting = (Inr (obj, keyName), ())" by (rule sample_signed)
  then have v: "VerifyMintedFNDSAServerKey sample_registry (\<lambda>_. sample_seed) sample_lib (\<lambda>_. 0) obj (str ''h.example'') = Inr keyName"
    unfolding VerifyMintedFNDSAServerKey_def
    using signed_object_accepted [OF sample_keypair, of sample_registry "\<lambda>_. sample_seed"] sample_validates
    by (fastforce simp: NewSignedFNDSA_def sample_minting_def sample_profile_def split: sum.splits prod.splits)
  with VerifyMinted_sound [OF sample_reachable v] show ?thesis by (elim exE conjE) (intro exI conjI, assumption+)
qed

text \<open>C8: a key name commits to the key. If two minted keys have the same name under the same registry, their public
  keys, server names and proofs are equal, or their canonical minting objects collide under SHA3-256 truncated to
  the bytes of the profile.\<close>

theorem ShortKeyID_binding:
  assumes "reachable profiles" "\<forall>x. length (sha3 x) = 32"
    and "KeyID profiles sha3 pk sn pf = Inr k" "ShortKeyID profiles (Algorithm pf) k = Inr name"
    and "KeyID profiles sha3 pk' sn' pf' = Inr k'" "ShortKeyID profiles (Algorithm pf') k' = Inr name"
  shows "(pk = pk' \<and> sn = sn' \<and> pf = pf') \<or>
    is_collision (\<lambda>x. take (nat (profile_shortBytes (the (profiles (Algorithm pf))))) (sha3 x))
      (case (Canonical (GMap MapStringAny (mintingObject profiles pk sn (Algorithm pf) pf)),
             Canonical (GMap MapStringAny (mintingObject profiles pk' sn' (Algorithm pf') pf'))) of
         (Inr c, Inr c') \<Rightarrow> Some (c, c') | _ \<Rightarrow> None)"
proof -
  obtain c c' where c: "Canonical (GMap MapStringAny (mintingObject profiles pk sn (Algorithm pf) pf)) = Inr c" "k = sha3 c"
    "Canonical (GMap MapStringAny (mintingObject profiles pk' sn' (Algorithm pf') pf')) = Inr c'" "k' = sha3 c'"
    using assms(3,5) by (auto simp: KeyID_def digest_object_def split: sum.splits)
  obtain p p' where p: "profiles (Algorithm pf) = Some p" "profiles (Algorithm pf') = Some p'"
    using assms(4,6) by (auto simp: ShortKeyID_def getProfile_def split: option.splits)
  note short = ShortKeyID_ok [OF reachable_ok [OF assms(1)]]
  have b: "1 \<le> profile_shortBytes p" "profile_shortBytes p \<le> 32" "1 \<le> profile_shortBytes p'" "profile_shortBytes p' \<le> 32"
    using reachable_ok [OF assms(1)] p by (auto simp: registry_ok_def profile_ok_def)
  have eq: "take (nat (profile_shortBytes p)) k = take (nat (profile_shortBytes p')) k'"
  proof -
    have "b64url_encode (take (nat (profile_shortBytes p)) k) = b64url_encode (take (nat (profile_shortBytes p')) k')"
      using assms(4,6) short [OF p(1)] short [OF p(2)] by simp
    then show ?thesis unfolding b64url.encode_inject [OF TrueI TrueI] .
  qed
  then have "nat (profile_shortBytes p) = nat (profile_shortBytes p')"
  proof -
    have "length (take (nat (profile_shortBytes p)) k) = nat (profile_shortBytes p)"
      "length (take (nat (profile_shortBytes p')) k') = nat (profile_shortBytes p')" using b assms(2) c(2,4) by simp_all
    then show ?thesis using eq by metis
  qed
  then have col: "take (nat (profile_shortBytes p)) (sha3 c) = take (nat (profile_shortBytes p)) (sha3 c')" using eq c by simp
  have "pk = pk' \<and> sn = sn' \<and> pf = pf'" if "c = c'"
    using minting_json_inject c(1,3) that unfolding Canonical_Inr_iff by (metis print_json_inject)
  then show ?thesis using col c p by auto
qed

text \<open>Under a constant digest the names of two servers' keys do collide.\<close>

theorem ShortKeyID_binding_witness:
  "is_collision (\<lambda>x. take 16 sample_seed)
     (case (Canonical (GMap MapStringAny (mintingObject sample_registry [1] (str ''h.example'') sample_profile sample_minting)),
            Canonical (GMap MapStringAny (mintingObject sample_registry [1] (str ''h'') sample_profile sample_minting))) of
        (Inr c, Inr c') \<Rightarrow> Some (c, c') | _ \<Rightarrow> None)"
proof -
  note ok = reachable_ok [OF sample_reachable]
  have alg: "Algorithm sample_minting = sample_profile" by (simp add: sample_minting_def)
  have "valid_utf8 (str ''h'')" by (auto intro!: valid_utf8_ascii)
  then have "is_ok (KeyID sample_registry (\<lambda>_. sample_seed) [1] (str ''h.example'') sample_minting)"
    "is_ok (KeyID sample_registry (\<lambda>_. sample_seed) [1] (str ''h'') sample_minting)"
    unfolding is_ok_KeyID [OF ok] alg using sample_utf8 by blast+
  then have k: "KeyID sample_registry (\<lambda>_. sample_seed) [1] (str ''h.example'') sample_minting = Inr sample_seed"
    "KeyID sample_registry (\<lambda>_. sample_seed) [1] (str ''h'') sample_minting = Inr sample_seed"
    by (auto simp: KeyID_def digest_object_def is_ok_iff split: sum.splits)
  have n: "ShortKeyID sample_registry (Algorithm sample_minting) sample_seed = Inr (b64url_encode (take 16 sample_seed))"
    unfolding alg using ShortKeyID_ok [OF ok sample_lookup] by simp
  have "\<forall>x :: bytes. length sample_seed = 32" by (simp add: sample_seed_def)
  from ShortKeyID_binding [OF sample_reachable this k(1) n k(2) n] show ?thesis by (simp add: alg sample_lookup)
qed

end
