(* ===== verification/PrivateKey.thy ===== *)
theory PrivateKey
  imports MintedKey
begin

text \<open>
  Package \<open>serverkey\<close>, \<open>serverkey/privatekey.go\<close>: the encrypted form of a private key. The random reader, Argon2id and
  XChaCha20-Poly1305 are outside the repository: they are the fields of a record, and what the documentation of the two
  primitives promises is stated as the law \<open>primitives_ok\<close>.
\<close>

section \<open>The primitives\<close>

record aead =
  Seal :: "bytes \<Rightarrow> bytes \<Rightarrow> bytes \<Rightarrow> bytes"
  Open :: "bytes \<Rightarrow> bytes \<Rightarrow> bytes \<Rightarrow> bytes result"

record 'r primitives =
  ReadFull :: "'r \<Rightarrow> nat \<Rightarrow> bytes result \<times> 'r"
  rand_Reader :: 'r
  argon2_IDKey :: "bytes \<Rightarrow> bytes \<Rightarrow> u32 \<Rightarrow> u32 \<Rightarrow> u8 \<Rightarrow> nat \<Rightarrow> bytes"
  NewX :: "bytes \<Rightarrow> aead result"
  NonceSizeX :: nat

section \<open>Encryption\<close>

definition EncryptedPrivateKeyAlgorithm :: bytes where
  "EncryptedPrivateKeyAlgorithm = str ''tk.nutra.msc45xx.private-key.xchacha20poly1305-argon2id.v1''"
definition privateKeyKDFAlgorithm :: bytes where "privateKeyKDFAlgorithm = str ''argon2id''"
definition privateKeyAEADAlgorithm :: bytes where "privateKeyAEADAlgorithm = str ''xchacha20poly1305''"
definition privateKeySaltSize :: nat where "privateKeySaltSize = 16"
definition privateKeyKeySize :: nat where "privateKeyKeySize = 32"
definition privateKeyMinPassphraseSize :: nat where "privateKeyMinPassphraseSize = 12"

record encryption_params =
  Time :: u32
  MemoryKiB :: u32
  Threads :: u8
  Salt :: bytes
  KeyNonce :: bytes

definition DefaultPrivateKeyEncryptionParams :: encryption_params where
  "DefaultPrivateKeyEncryptionParams = \<lparr>Time = 3, MemoryKiB = 64 * 1024, Threads = 4, Salt = [], KeyNonce = []\<rparr>"

definition validatePrivateKeyPassphrase :: "bytes \<Rightarrow> unit result" where
  "validatePrivateKeyPassphrase passphrase =
     (if length passphrase = 0 then Inl ErrInvalidPassphrase
      else if length passphrase < privateKeyMinPassphraseSize then Inl ErrWeakPassphrase
      else Inr ())"

definition validatePrivateKeyEncryptionInputs :: "bytes \<Rightarrow> encryption_params \<Rightarrow> unit result" where
  "validatePrivateKeyEncryptionInputs privateKey params =
     (if length privateKey \<noteq> PrivateKeySize then Inl ErrInvalidPrivateKey
      else if Time params = 0 \<or> MemoryKiB params = 0 \<or> Threads params = 0 then Inl ErrInvalidKeyObject
      else Inr ())"

definition privateKeyAEAD :: "'r primitives \<Rightarrow> bytes \<Rightarrow> encryption_params \<Rightarrow> aead result" where
  "privateKeyAEAD prim passphrase params =
     NewX prim (argon2_IDKey prim passphrase (Salt params) (Time params) (MemoryKiB params) (Threads params) privateKeyKeySize)"

text \<open>A missing value is read from the reader, a given one is kept.\<close>

definition read_missing :: "'r primitives \<Rightarrow> 'r \<Rightarrow> nat \<Rightarrow> bytes \<Rightarrow> bytes result \<times> 'r" where
  "read_missing prim rng n given = (if length given = 0 then ReadFull prim rng n else (Inr given, rng))"

definition encrypted_object :: "encryption_params \<Rightarrow> bytes \<Rightarrow> gmap" where
  "encrypted_object params ciphertext =
     [(str ''algorithm'', GString EncryptedPrivateKeyAlgorithm),
      (str ''kdf'', GMap MapStringAny
         [(str ''algorithm'', GString privateKeyKDFAlgorithm),
          (str ''time'', GUint KUint32 (unat (Time params))),
          (str ''memory_kib'', GUint KUint32 (unat (MemoryKiB params))),
          (str ''threads'', GUint KUint8 (unat (Threads params))),
          (str ''salt'', GString (b64std_encode (Salt params)))]),
      (str ''aead'', GMap MapStringAny
         [(str ''algorithm'', GString privateKeyAEADAlgorithm),
          (str ''nonce'', GString (b64std_encode (KeyNonce params)))]),
      (str ''ciphertext'', GString (b64std_encode ciphertext))]"

text \<open>The reader that is advanced is the given one, or the one of the system when it is nil.\<close>

definition EncryptPrivateKey ::
  "'r primitives \<Rightarrow> 'r option \<Rightarrow> bytes \<Rightarrow> bytes \<Rightarrow> encryption_params \<Rightarrow> gmap result" where
  "EncryptPrivateKey prim rng privateKey passphrase params =
     (case validatePrivateKeyEncryptionInputs privateKey params of
        Inl e \<Rightarrow> Inl e
      | Inr _ \<Rightarrow>
          (case validatePrivateKeyPassphrase passphrase of
             Inl e \<Rightarrow> Inl e
           | Inr _ \<Rightarrow>
               let rng = (case rng of None \<Rightarrow> rand_Reader prim | Some r \<Rightarrow> r)
               in case read_missing prim rng privateKeySaltSize (Salt params) of
                    (Inl e, _) \<Rightarrow> Inl e
                  | (Inr salt, rng) \<Rightarrow>
                      (case read_missing prim rng (NonceSizeX prim) (KeyNonce params) of
                         (Inl e, _) \<Rightarrow> Inl e
                       | (Inr nonce, rng) \<Rightarrow>
                           let params = params\<lparr>Salt := salt, KeyNonce := nonce\<rparr>
                           in if length salt \<noteq> privateKeySaltSize \<or> length nonce \<noteq> NonceSizeX prim
                              then Inl ErrInvalidKeyObject
                              else
                                case privateKeyAEAD prim passphrase params of
                                  Inl e \<Rightarrow> Inl e
                                | Inr a \<Rightarrow>
                                    Inr (encrypted_object params (Seal a nonce privateKey EncryptedPrivateKeyAlgorithm)))))"

section \<open>Decryption\<close>

text \<open>Reading the two maps of parameters, in the order of the source.\<close>

definition kdf_params :: "(f64 \<Rightarrow> u64) \<Rightarrow> gmap \<Rightarrow> (u64 \<times> u64 \<times> u64 \<times> bytes) result" where
  "kdf_params oob encrypted =
     (case as_map (map_of encrypted (str ''kdf'')) of
        None \<Rightarrow> Inl ErrInvalidKeyObject
      | Some rawKDF \<Rightarrow>
          if as_string (map_of rawKDF (str ''algorithm'')) \<noteq> Some privateKeyKDFAlgorithm then Inl ErrInvalidKeyObject
          else
            case uint64FromAny oob (lookup_any rawKDF (str ''time'')) of
              Inl e \<Rightarrow> Inl e
            | Inr timeCost \<Rightarrow>
                (case uint64FromAny oob (lookup_any rawKDF (str ''memory_kib'')) of
                   Inl e \<Rightarrow> Inl e
                 | Inr memoryKiB \<Rightarrow>
                     (case uint64FromAny oob (lookup_any rawKDF (str ''threads'')) of
                        Inl e \<Rightarrow> Inl e
                      | Inr threads \<Rightarrow>
                          (case as_string (map_of rawKDF (str ''salt'')) of
                             None \<Rightarrow> Inl ErrInvalidKeyObject
                           | Some rawSalt \<Rightarrow>
                               (case b64std_decode rawSalt of
                                  Inl e \<Rightarrow> Inl e
                                | Inr salt \<Rightarrow> Inr (timeCost, memoryKiB, threads, salt))))))"

definition aead_nonce :: "gmap \<Rightarrow> bytes result" where
  "aead_nonce encrypted =
     (case as_map (map_of encrypted (str ''aead'')) of
        None \<Rightarrow> Inl ErrInvalidKeyObject
      | Some rawAEAD \<Rightarrow>
          if as_string (map_of rawAEAD (str ''algorithm'')) \<noteq> Some privateKeyAEADAlgorithm then Inl ErrInvalidKeyObject
          else
            case as_string (map_of rawAEAD (str ''nonce'')) of
              None \<Rightarrow> Inl ErrInvalidKeyObject
            | Some rawNonce \<Rightarrow> b64std_decode rawNonce)"

definition privateKeyEncryptionParamsFromObject ::
  "'r primitives \<Rightarrow> (f64 \<Rightarrow> u64) \<Rightarrow> gmap \<Rightarrow> encryption_params result" where
  "privateKeyEncryptionParamsFromObject prim oob encrypted =
     (case kdf_params oob encrypted of
        Inl e \<Rightarrow> Inl e
      | Inr (timeCost, memoryKiB, threads, salt) \<Rightarrow>
          (case aead_nonce encrypted of
             Inl e \<Rightarrow> Inl e
           | Inr nonce \<Rightarrow>
               if timeCost > ucast (- 1 :: u32) \<or> memoryKiB > ucast (- 1 :: u32) \<or> threads > ucast (- 1 :: u8)
               then Inl ErrInvalidKeyObject
               else
                 let params = \<lparr>Time = ucast timeCost, MemoryKiB = ucast memoryKiB, Threads = ucast threads,
                                Salt = salt, KeyNonce = nonce\<rparr>
                 in case validatePrivateKeyEncryptionInputs (replicate PrivateKeySize 0) params of
                      Inl e \<Rightarrow> Inl e
                    | Inr _ \<Rightarrow>
                        if length salt \<noteq> privateKeySaltSize \<or> length nonce \<noteq> NonceSizeX prim
                        then Inl ErrInvalidKeyObject else Inr params))"

definition DecryptPrivateKey :: "'r primitives \<Rightarrow> (f64 \<Rightarrow> u64) \<Rightarrow> gmap \<Rightarrow> bytes \<Rightarrow> bytes result" where
  "DecryptPrivateKey prim oob encrypted passphrase =
     (if length passphrase = 0 then Inl ErrInvalidPassphrase
      else if as_string (map_of encrypted (str ''algorithm'')) \<noteq> Some EncryptedPrivateKeyAlgorithm
      then Inl ErrInvalidKeyObject
      else
        case privateKeyEncryptionParamsFromObject prim oob encrypted of
          Inl e \<Rightarrow> Inl e
        | Inr params \<Rightarrow>
            (case as_string (map_of encrypted (str ''ciphertext'')) of
               None \<Rightarrow> Inl ErrInvalidKeyObject
             | Some rawCiphertext \<Rightarrow>
                 (case b64std_decode rawCiphertext of
                    Inl e \<Rightarrow> Inl e
                  | Inr ciphertext \<Rightarrow>
                      (case privateKeyAEAD prim passphrase params of
                         Inl e \<Rightarrow> Inl e
                       | Inr a \<Rightarrow>
                           (case Open a (KeyNonce params) ciphertext EncryptedPrivateKeyAlgorithm of
                              Inl e \<Rightarrow> Inl e
                            | Inr privateKey \<Rightarrow>
                                if length privateKey \<noteq> PrivateKeySize then Inl ErrInvalidPrivateKey
                                else Inr privateKey)))))"

definition ReencryptPrivateKey ::
  "'r primitives \<Rightarrow> (f64 \<Rightarrow> u64) \<Rightarrow> 'r option \<Rightarrow> gmap \<Rightarrow> bytes \<Rightarrow> bytes \<Rightarrow> encryption_params \<Rightarrow> gmap result" where
  "ReencryptPrivateKey prim oob rng encrypted oldPassphrase newPassphrase params =
     (case DecryptPrivateKey prim oob encrypted oldPassphrase of
        Inl e \<Rightarrow> Inl e
      | Inr privateKey \<Rightarrow> EncryptPrivateKey prim rng privateKey newPassphrase params)"

section \<open>What the primitives promise\<close>

text \<open>The derived key and what is read have the size asked for; the cipher accepts keys of 32 bytes, and it opens exactly
  what it sealed with the same nonce and additional data.\<close>

definition aead_ok :: "nat \<Rightarrow> aead \<Rightarrow> bool" where
  "aead_ok n a \<longleftrightarrow> (\<forall>nonce text ct ad. length nonce = n \<longrightarrow> (Open a nonce ct ad = Inr text \<longleftrightarrow> ct = Seal a nonce text ad))"

definition primitives_ok :: "'r primitives \<Rightarrow> bool" where
  "primitives_ok prim \<longleftrightarrow>
     (\<forall>pass salt t m th n. length (argon2_IDKey prim pass salt t m th n) = n) \<and>
     (\<forall>k. length k = privateKeyKeySize \<longrightarrow> (\<exists>a. NewX prim k = Inr a \<and> aead_ok (NonceSizeX prim) a)) \<and>
     (\<forall>r n b r'. ReadFull prim r n = (Inr b, r') \<longrightarrow> length b = n)"

lemma privateKeyAEAD_ok:
  assumes "primitives_ok prim"
  obtains a where "privateKeyAEAD prim passphrase params = Inr a" "aead_ok (NonceSizeX prim) a"
  using assms unfolding primitives_ok_def privateKeyAEAD_def by metis

lemma read_missing_Inr:
  assumes "primitives_ok prim" "read_missing prim rng n given = (Inr b, rng')"
  shows "b = given \<and> given \<noteq> [] \<or> given = [] \<and> length b = n"
proof (cases "given = []")
  case True
  then have "ReadFull prim rng n = (Inr b, rng')" using assms(2) by (simp add: read_missing_def)
  then show ?thesis using True assms(1) unfolding primitives_ok_def by blast
qed (use assms(2) in \<open>simp add: read_missing_def\<close>)

section \<open>The parameters of an object\<close>

definition params_ok :: "nat \<Rightarrow> encryption_params \<Rightarrow> bool" where
  "params_ok n p \<longleftrightarrow> Time p \<noteq> 0 \<and> MemoryKiB p \<noteq> 0 \<and> Threads p \<noteq> 0 \<and>
     length (Salt p) = privateKeySaltSize \<and> length (KeyNonce p) = n"

text \<open>The value that \<open>json.Unmarshal\<close> into a \<open>map[string]any\<close> makes of an encoded value: numbers are floats.\<close>

primrec via_json :: "gval \<Rightarrow> gval" where
  "via_json GNil = GNil"
| "via_json (GBool b) = GBool b"
| "via_json (GString s) = GString s"
| "via_json (GInt k i) = GFloat (F64 i 0)"
| "via_json (GUint k n) = GFloat (F64 (int n) 0)"
| "via_json (GFloat f) = GFloat f"
| "via_json (GNumber s) = GNumber s"
| "via_json (GSlice k vs) = GSlice SliceAny (map via_json vs)"
| "via_json (GMap k m) = GMap MapStringAny (map (map_prod id via_json) m)"
| "via_json (GPtr p) = (case map_option via_json p of None \<Rightarrow> GNil | Some v \<Rightarrow> v)"
| "via_json GOther = GOther"

text \<open>An object says these parameters and this ciphertext: what decryption reads.\<close>

definition reads_as :: "gmap \<Rightarrow> encryption_params \<Rightarrow> bytes \<Rightarrow> bool" where
  "reads_as obj p ct \<longleftrightarrow>
     as_string (map_of obj (str ''algorithm'')) = Some EncryptedPrivateKeyAlgorithm \<and>
     as_string (map_of obj (str ''ciphertext'')) = Some (b64std_encode ct) \<and>
     (\<exists>kdf. as_map (map_of obj (str ''kdf'')) = Some kdf \<and>
        as_string (map_of kdf (str ''algorithm'')) = Some privateKeyKDFAlgorithm \<and>
        (\<forall>oob. uint64FromAny oob (lookup_any kdf (str ''time'')) = Inr (ucast (Time p)) \<and>
           uint64FromAny oob (lookup_any kdf (str ''memory_kib'')) = Inr (ucast (MemoryKiB p)) \<and>
           uint64FromAny oob (lookup_any kdf (str ''threads'')) = Inr (ucast (Threads p))) \<and>
        as_string (map_of kdf (str ''salt'')) = Some (b64std_encode (Salt p))) \<and>
     (\<exists>cipher. as_map (map_of obj (str ''aead'')) = Some cipher \<and>
        as_string (map_of cipher (str ''algorithm'')) = Some privateKeyAEADAlgorithm \<and>
        as_string (map_of cipher (str ''nonce'')) = Some (b64std_encode (KeyNonce p)))"

lemma ucast_small:
  fixes x :: "'a::len word"
  assumes "LENGTH('a) \<le> 32"
  shows "uint (ucast x :: u64) = uint x" "(ucast (ucast x :: u64) :: 'a word) = x"
proof -
  have "(2 :: int) ^ LENGTH('a) \<le> 2 ^ 32" using assms by (intro power_increasing) simp_all
  moreover have "uint x < 2 ^ LENGTH('a)" by (rule uint_bounded)
  ultimately have "uint x < 2 ^ 32" by linarith
  then have "uint x < 2 ^ 64" by simp
  then show u: "uint (ucast x :: u64) = uint x" by (simp add: unsigned_ucast_eq take_bit_int_eq_self)
  show "(ucast (ucast x :: u64) :: 'a word) = x"
  proof (rule word_uint_eqI)
    have "uint (ucast (ucast x :: u64) :: 'a word) = take_bit LENGTH('a) (uint (ucast x :: u64))" by (rule unsigned_ucast_eq)
    then show "uint (ucast (ucast x :: u64) :: 'a word) = uint x" unfolding u using uint_bounded [of x] by (simp add: take_bit_int_eq_self)
  qed
qed

lemma uint64FromAny_word:
  fixes x :: "'a::len word"
  assumes "LENGTH('a) \<le> 32" "wf_gval v" "number_value v = Some (uint x)"
  shows "uint64FromAny oob v = Inr (ucast x)"
proof -
  have "(2 :: int) ^ LENGTH('a) \<le> 2 ^ 32" using assms(1) by (intro power_increasing) simp_all
  then have "uint x < 2 ^ 32" using uint_bounded [of x] by linarith
  then show ?thesis using uint64FromAny_small [OF assms(2), of "ucast x"] assms(1,3) by (simp add: ucast_small)
qed

lemma wf_GUint_word: "wf_gval (GUint KUint32 (unat (x :: u32)))" "wf_gval (GUint KUint8 (unat (y :: u8)))"
  using unsigned_less [of x] unsigned_less [of y] by simp_all

lemma uint64FromAny_stored [simp]:
  "uint64FromAny oob (GUint KUint32 (unat x)) = Inr (ucast (x :: u32))"
  "uint64FromAny oob (GUint KUint8 (unat y)) = Inr (ucast (y :: u8))"
  "uint64FromAny oob (GFloat (F64 (uint x) 0)) = Inr (ucast x)"
  "uint64FromAny oob (GFloat (F64 (uint y) 0)) = Inr (ucast y)"
proof -
  have u: "int (unat x) = uint x" "int (unat y) = uint y" by (simp_all only: uint_nat)
  have "number_value (GUint KUint32 (unat x)) = Some (uint x)" "number_value (GUint KUint8 (unat y)) = Some (uint y)"
    "number_value (GFloat (F64 (uint x) 0)) = Some (uint x)" "number_value (GFloat (F64 (uint y) 0)) = Some (uint y)"
    by (simp_all add: number_value_def u)
  then show "uint64FromAny oob (GUint KUint32 (unat x)) = Inr (ucast x)" "uint64FromAny oob (GUint KUint8 (unat y)) = Inr (ucast y)"
    "uint64FromAny oob (GFloat (F64 (uint x) 0)) = Inr (ucast x)" "uint64FromAny oob (GFloat (F64 (uint y) 0)) = Inr (ucast y)"
    by (intro uint64FromAny_word wf_GUint_word; simp)+
qed

lemma encrypted_object_reads:
  "reads_as (encrypted_object params ct) params ct"
  "reads_as (map (map_prod id via_json) (encrypted_object params ct)) params ct"
  by (simp_all add: reads_as_def encrypted_object_def lookup_any_def)

lemma above_u8: "(n :: u64) > ucast (- 1 :: u8) \<longleftrightarrow> \<not> uint n < 2 ^ 8"
proof -
  have "uint (ucast (- 1 :: u8) :: u64) = 2 ^ 8 - 1"
    unfolding unsigned_ucast_eq unsigned_minus_1_eq_mask by (simp add: mask_eq_exp_minus_1)
  then show ?thesis unfolding word_less_def by linarith
qed

lemma not_above [simp]: "\<not> ucast (x :: u32) > (ucast (- 1 :: u32) :: u64)" "\<not> ucast (y :: u8) > (ucast (- 1 :: u8) :: u64)"
  using uint_bounded [of x] uint_bounded [of y] by (simp_all add: above_u32 above_u8 ucast_small)

lemma params_of_object:
  assumes "reads_as obj p ct"
  shows "privateKeyEncryptionParamsFromObject prim oob obj = (if params_ok (NonceSizeX prim) p then Inr p else Inl ErrInvalidKeyObject)"
proof -
  have s: "b64std_decode (b64std_encode bs) = Inr bs" for bs by (rule b64std.decode_encode) simp
  have "kdf_params oob obj = Inr (ucast (Time p), ucast (MemoryKiB p), ucast (Threads p), Salt p)"
    using assms unfolding reads_as_def kdf_params_def by (auto simp: s)
  moreover have "aead_nonce obj = Inr (KeyNonce p)"
    using assms unfolding reads_as_def aead_nonce_def by (auto simp: s)
  ultimately show ?thesis
    by (simp add: privateKeyEncryptionParamsFromObject_def validatePrivateKeyEncryptionInputs_def params_ok_def ucast_small Let_def)
qed

lemma Decrypt_object:
  assumes prim: "primitives_ok prim" and obj: "reads_as obj p ct"
    and a: "privateKeyAEAD prim passphrase p = Inr a" "aead_ok (NonceSizeX prim) a"
  shows "DecryptPrivateKey prim oob obj passphrase = Inr sk \<longleftrightarrow>
    passphrase \<noteq> [] \<and> params_ok (NonceSizeX prim) p \<and> length sk = PrivateKeySize \<and>
    ct = Seal a (KeyNonce p) sk EncryptedPrivateKeyAlgorithm"
proof (cases "passphrase \<noteq> [] \<and> params_ok (NonceSizeX prim) p")
  case True
  have "b64std_decode (b64std_encode ct) = Inr ct" by (rule b64std.decode_encode) simp
  then have "DecryptPrivateKey prim oob obj passphrase =
      (case Open a (KeyNonce p) ct EncryptedPrivateKeyAlgorithm of
         Inl e \<Rightarrow> Inl e | Inr sk \<Rightarrow> if length sk \<noteq> PrivateKeySize then Inl ErrInvalidPrivateKey else Inr sk)"
    using True obj a(1) by (simp add: DecryptPrivateKey_def params_of_object [OF obj] reads_as_def)
  then have "DecryptPrivateKey prim oob obj passphrase = Inr sk \<longleftrightarrow>
      Open a (KeyNonce p) ct EncryptedPrivateKeyAlgorithm = Inr sk \<and> length sk = PrivateKeySize"
    by (simp split: sum.split) blast
  moreover have "Open a (KeyNonce p) ct EncryptedPrivateKeyAlgorithm = Inr sk \<longleftrightarrow> ct = Seal a (KeyNonce p) sk EncryptedPrivateKeyAlgorithm"
    using a(2) True by (simp add: aead_ok_def params_ok_def)
  ultimately show ?thesis using True by blast
next
  case False
  then show ?thesis using obj by (auto simp: DecryptPrivateKey_def params_of_object [OF obj] reads_as_def)
qed

text \<open>What encryption does, on every branch.\<close>

lemma Encrypt_Inr:
  assumes prim: "primitives_ok prim" and enc: "EncryptPrivateKey prim rng sk passphrase params = Inr obj"
  obtains p a where "params_ok (NonceSizeX prim) p" "length sk = PrivateKeySize" "privateKeyMinPassphraseSize \<le> length passphrase"
    "privateKeyAEAD prim passphrase p = Inr a" "aead_ok (NonceSizeX prim) a"
    "obj = encrypted_object p (Seal a (KeyNonce p) sk EncryptedPrivateKeyAlgorithm)"
    "Time p = Time params" "MemoryKiB p = MemoryKiB params" "Threads p = Threads params"
proof -
  from enc obtain salt nonce where p: "length salt = privateKeySaltSize" "length nonce = NonceSizeX prim"
    "length sk = PrivateKeySize" "Time params \<noteq> 0" "MemoryKiB params \<noteq> 0" "Threads params \<noteq> 0"
    "privateKeyMinPassphraseSize \<le> length passphrase"
    and o: "(case privateKeyAEAD prim passphrase (params\<lparr>Salt := salt, KeyNonce := nonce\<rparr>) of Inl e \<Rightarrow> Inl e
      | Inr a \<Rightarrow> Inr (encrypted_object (params\<lparr>Salt := salt, KeyNonce := nonce\<rparr>) (Seal a nonce sk EncryptedPrivateKeyAlgorithm))) = Inr obj"
    by (auto simp: EncryptPrivateKey_def Let_def validatePrivateKeyEncryptionInputs_def validatePrivateKeyPassphrase_def
        split: sum.splits prod.splits if_splits)
  obtain a where a: "privateKeyAEAD prim passphrase (params\<lparr>Salt := salt, KeyNonce := nonce\<rparr>) = Inr a" "aead_ok (NonceSizeX prim) a"
    by (rule privateKeyAEAD_ok [OF prim])
  show thesis
    by (rule that [of "params\<lparr>Salt := salt, KeyNonce := nonce\<rparr>" a]) (use p o a in \<open>simp_all add: params_ok_def\<close>)
qed

lemma Encrypt_opens:
  assumes "primitives_ok prim" "EncryptPrivateKey prim rng sk passphrase params = Inr obj"
  shows "DecryptPrivateKey prim oob obj passphrase = Inr sk"
    "DecryptPrivateKey prim oob (map (map_prod id via_json) obj) passphrase = Inr sk"
proof -
  obtain p a where p: "params_ok (NonceSizeX prim) p" "length sk = PrivateKeySize"
    "privateKeyMinPassphraseSize \<le> length passphrase" and a: "privateKeyAEAD prim passphrase p = Inr a" "aead_ok (NonceSizeX prim) a"
    and o: "obj = encrypted_object p (Seal a (KeyNonce p) sk EncryptedPrivateKeyAlgorithm)"
    using Encrypt_Inr [OF assms] by metis
  have "passphrase \<noteq> []" using p(3) by (auto simp: privateKeyMinPassphraseSize_def)
  then have "DecryptPrivateKey prim oob o' passphrase = Inr sk"
    if "reads_as o' p (Seal a (KeyNonce p) sk EncryptedPrivateKeyAlgorithm)" for o'
    using Decrypt_object [OF assms(1) that a] p by blast
  then show "DecryptPrivateKey prim oob obj passphrase = Inr sk"
    "DecryptPrivateKey prim oob (map (map_prod id via_json) obj) passphrase = Inr sk"
    using encrypted_object_reads unfolding o by blast+
qed

section \<open>Sample primitives\<close>

definition sample_aead :: "bytes \<Rightarrow> aead" where
  "sample_aead k = \<lparr>Seal = (\<lambda>n t ad. (k @ n @ ad) @ t),
     Open = (\<lambda>n ct ad. if take (length (k @ n @ ad)) ct = k @ n @ ad then Inr (drop (length (k @ n @ ad)) ct) else Inl ErrExternal)\<rparr>"

definition sample_primitives :: "unit primitives" where
  "sample_primitives = \<lparr>ReadFull = (\<lambda>r n. (Inr (replicate n 3), r)), rand_Reader = (),
     argon2_IDKey = (\<lambda>p s t m th n. take n (p @ s @ replicate n 0)),
     NewX = (\<lambda>k. if length k = 32 then Inr (sample_aead k) else Inl ErrExternal), NonceSizeX = 24\<rparr>"

lemma take_eq_append_iff: "take (length xs) ys = xs \<and> drop (length xs) ys = zs \<longleftrightarrow> ys = xs @ zs"
  by (metis append_eq_conv_conj)

lemma sample_aead_ok: "aead_ok n (sample_aead k)"
  unfolding aead_ok_def
proof (intro allI impI)
  fix nonce t ct ad :: bytes
  let ?pre = "k @ nonce @ ad"
  have "Open (sample_aead k) nonce ct ad = Inr t \<longleftrightarrow> take (length ?pre) ct = ?pre \<and> drop (length ?pre) ct = t"
    by (simp add: sample_aead_def)
  then show "Open (sample_aead k) nonce ct ad = Inr t \<longleftrightarrow> ct = Seal (sample_aead k) nonce t ad"
    unfolding take_eq_append_iff by (simp add: sample_aead_def)
qed

lemma sample_primitives_ok: "primitives_ok sample_primitives"
  using sample_aead_ok by (auto simp: primitives_ok_def sample_primitives_def privateKeyKeySize_def)

section \<open>Properties\<close>

text \<open>C16: a passphrase opens what it closed. Whatever \<open>EncryptPrivateKey\<close> returns, the same passphrase decrypts to the
  private key, also after the object went through JSON, where its numbers become floats; and re-encrypting that object
  is encrypting the private key under the new passphrase.\<close>

theorem EncryptPrivateKey_roundtrip:
  assumes "primitives_ok prim" "EncryptPrivateKey prim rng sk passphrase params = Inr obj"
  shows "DecryptPrivateKey prim oob obj passphrase = Inr sk \<and>
    DecryptPrivateKey prim oob (map (map_prod id via_json) obj) passphrase = Inr sk \<and>
    ReencryptPrivateKey prim oob rng' (map (map_prod id via_json) obj) passphrase new params' =
      EncryptPrivateKey prim rng' sk new params'"
  using Encrypt_opens [OF assms] by (simp add: ReencryptPrivateKey_def)

theorem EncryptPrivateKey_roundtrip_witness:
  "\<exists>obj. EncryptPrivateKey sample_primitives None (replicate 1281 9) (replicate 12 1) DefaultPrivateKeyEncryptionParams = Inr obj \<and>
     DecryptPrivateKey sample_primitives (\<lambda>_. 0) obj (replicate 12 1) = Inr (replicate 1281 9)"
proof -
  have "\<exists>obj. EncryptPrivateKey sample_primitives None (replicate 1281 9) (replicate 12 1) DefaultPrivateKeyEncryptionParams = Inr obj"
    by (simp add: EncryptPrivateKey_def validatePrivateKeyEncryptionInputs_def validatePrivateKeyPassphrase_def read_missing_def
        DefaultPrivateKeyEncryptionParams_def PrivateKeySize_def privateKeyMinPassphraseSize_def privateKeySaltSize_def
        privateKeyAEAD_def privateKeyKeySize_def sample_primitives_def Let_def)
  then show ?thesis using EncryptPrivateKey_roundtrip [OF sample_primitives_ok] by blast
qed

text \<open>C17: the errors of encryption, in the order of the checks. With a reader that delivers, encryption fails exactly for
  a key of the wrong size, a zero parameter, an empty or short passphrase, or a given salt or nonce of the wrong size.\<close>

theorem EncryptPrivateKey_errors:
  assumes "primitives_ok prim" "\<And>r n. \<exists>b r'. ReadFull prim r n = (Inr b, r')"
  shows "(case EncryptPrivateKey prim rng sk passphrase params of Inl e \<Rightarrow> Some e | Inr _ \<Rightarrow> None) =
    (if length sk \<noteq> PrivateKeySize then Some ErrInvalidPrivateKey
     else if Time params = 0 \<or> MemoryKiB params = 0 \<or> Threads params = 0 then Some ErrInvalidKeyObject
     else if passphrase = [] then Some ErrInvalidPassphrase
     else if length passphrase < privateKeyMinPassphraseSize then Some ErrWeakPassphrase
     else if Salt params \<noteq> [] \<and> length (Salt params) \<noteq> privateKeySaltSize \<or>
             KeyNonce params \<noteq> [] \<and> length (KeyNonce params) \<noteq> NonceSizeX prim then Some ErrInvalidKeyObject
     else None)"
proof -
  have read: "\<exists>b r'. read_missing prim r n given = (Inr b, r') \<and> (given = [] \<and> length b = n \<or> given \<noteq> [] \<and> b = given)" for r n given
    using assms by (cases "given = []") (fastforce simp: read_missing_def primitives_ok_def)+
  define r where "r = (case rng of None \<Rightarrow> rand_Reader prim | Some r \<Rightarrow> r)"
  obtain salt r1 where s: "read_missing prim r privateKeySaltSize (Salt params) = (Inr salt, r1)"
    "Salt params = [] \<and> length salt = privateKeySaltSize \<or> Salt params \<noteq> [] \<and> salt = Salt params" using read by blast
  obtain nonce r2 where n: "read_missing prim r1 (NonceSizeX prim) (KeyNonce params) = (Inr nonce, r2)"
    "KeyNonce params = [] \<and> length nonce = NonceSizeX prim \<or> KeyNonce params \<noteq> [] \<and> nonce = KeyNonce params" using read by blast
  obtain a where a: "privateKeyAEAD prim passphrase (params\<lparr>Salt := salt, KeyNonce := nonce\<rparr>) = Inr a"
    using privateKeyAEAD_ok [OF assms(1)] by metis
  show ?thesis using s n a
    by (auto simp: EncryptPrivateKey_def Let_def validatePrivateKeyEncryptionInputs_def validatePrivateKeyPassphrase_def
        simp flip: r_def)
qed

theorem EncryptPrivateKey_errors_witness:
  "EncryptPrivateKey sample_primitives None (replicate 1281 9) (replicate 11 1) DefaultPrivateKeyEncryptionParams = Inl ErrWeakPassphrase"
proof -
  have "\<exists>b r'. ReadFull sample_primitives r n = (Inr b, r')" for r n by (simp add: sample_primitives_def)
  from EncryptPrivateKey_errors [OF sample_primitives_ok this, of None "replicate 1281 9" "replicate 11 1" DefaultPrivateKeyEncryptionParams]
  show ?thesis
    by (simp add: PrivateKeySize_def privateKeyMinPassphraseSize_def DefaultPrivateKeyEncryptionParams_def split: sum.splits)
qed

end
