(* ===== verification/CuckooProver.thy ===== *)
theory CuckooProver
  imports Cuckoo
begin

text \<open>
  Package \<open>cuckoo\<close>, \<open>cuckoo/cuckoo_prover.go\<close>: the search for a proof. Rounds of bulk trimming with two bit
  sets as saturating degree counters, an exact peel of the survivors, and a depth-first search for a cycle.
  The order in which Go ranges over the map of degrees is a parameter (a permutation); a branch of the search
  that fails undoes its marks in the source, so here the marks are arguments; progress messages are left out.
\<close>

section \<open>Bit sets\<close>

type_synonym bitset = "u64 list"

definition newBitset :: "u64 \<Rightarrow> bitset" where
  "newBitset n = replicate (unat ((n + 63) div 64)) 0"

definition bitset_get :: "bitset \<Rightarrow> u64 \<Rightarrow> bool" where
  "bitset_get b i \<longleftrightarrow> b ! unat (drop_bit 6 i) AND push_bit (unat (i AND 63)) 1 \<noteq> 0"

definition bitset_set :: "bitset \<Rightarrow> u64 \<Rightarrow> bitset" where
  "bitset_set b i = b[unat (drop_bit 6 i) := b ! unat (drop_bit 6 i) OR push_bit (unat (i AND 63)) 1]"

definition bitset_clear :: "bitset \<Rightarrow> u64 \<Rightarrow> bitset" where
  "bitset_clear b i = b[unat (drop_bit 6 i) := b ! unat (drop_bit 6 i) AND NOT (push_bit (unat (i AND 63)) 1)]"

definition bumpLeafCounter :: "bitset \<times> bitset \<Rightarrow> u64 \<Rightarrow> bitset \<times> bitset" where
  "bumpLeafCounter counters node =
     (let (lo, hi) = counters
      in if bitset_get hi node then (lo, hi)
         else if bitset_get lo node then (lo, bitset_set hi node)
         else (bitset_set lo node, hi))"

definition isLeafCounter :: "bitset \<times> bitset \<Rightarrow> u64 \<Rightarrow> bool" where
  "isLeafCounter counters node = (let (lo, hi) = counters in bitset_get lo node \<and> \<not> bitset_get hi node)"

section \<open>Bulk trimming\<close>

record labeled_edge =
  edge_nonce :: u32
  edge_u :: u64
  edge_v :: u64

definition edgeEndpoints :: "sip_state \<Rightarrow> u64 \<Rightarrow> u32 \<Rightarrow> u64 \<times> u64" where
  "edgeEndpoints words node_mask nonce =
     (push_bit 1 (siphash24 words (push_bit 1 (ucast nonce)) AND node_mask),
      push_bit 1 (siphash24 words (push_bit 1 (ucast nonce) OR 1) AND node_mask) OR 1)"

text \<open>The nonces of a loop that counts up from 0.\<close>

definition nonces_below :: "u32 \<Rightarrow> u32 list" where
  "nonces_below maxNonce = map of_nat [0..<unat maxNonce]"

definition count_edge :: "bitset \<Rightarrow> (u32 \<Rightarrow> u64 \<times> u64) \<Rightarrow> bitset \<times> bitset \<Rightarrow> u32 \<Rightarrow> bitset \<times> bitset" where
  "count_edge alive endpoints counters nonce =
     (if \<not> bitset_get alive (ucast nonce) then counters
      else let (u, v) = endpoints nonce in bumpLeafCounter (bumpLeafCounter counters u) v)"

definition drop_edge :: "(u32 \<Rightarrow> u64 \<times> u64) \<Rightarrow> bitset \<times> bitset \<Rightarrow> bitset \<times> u64 \<Rightarrow> u32 \<Rightarrow> bitset \<times> u64" where
  "drop_edge endpoints counters s nonce =
     (let (alive, removed) = s
      in if \<not> bitset_get alive (ucast nonce) then (alive, removed)
         else
           let (u, v) = endpoints nonce
           in if isLeafCounter counters u \<or> isLeafCounter counters v
              then (bitset_clear alive (ucast nonce), removed + 1) else (alive, removed))"

definition trimAliveEdges ::
  "bitset \<Rightarrow> bitset \<times> bitset \<Rightarrow> u32 \<Rightarrow> (u32 \<Rightarrow> u64 \<times> u64) \<Rightarrow> bitset \<times> (bitset \<times> bitset) \<times> u64" where
  "trimAliveEdges alive counters maxNonce endpoints =
     (let zeros = map (\<lambda>_. 0) (fst counters);
          counted = foldl (count_edge alive endpoints) (zeros, zeros) (nonces_below maxNonce);
          (alive', removed) = foldl (drop_edge endpoints counted) (alive, 0) (nonces_below maxNonce)
      in (alive', counted, removed))"

definition collectSurvivors :: "bitset \<Rightarrow> u32 \<Rightarrow> (u32 \<Rightarrow> u64 \<times> u64) \<Rightarrow> labeled_edge list" where
  "collectSurvivors alive maxNonce endpoints =
     map (\<lambda>nonce. let (u, v) = endpoints nonce in \<lparr>edge_nonce = nonce, edge_u = u, edge_v = v\<rparr>)
       (filter (\<lambda>nonce. bitset_get alive (ucast nonce)) (nonces_below maxNonce))"

definition bulkTrimSurvivorTarget :: u64 where "bulkTrimSurvivorTarget = push_bit 22 1"
definition maxTrimRounds :: nat where "maxTrimRounds = 64"

text \<open>The loop over rounds: how many may still run.\<close>

fun trim_rounds ::
  "nat \<Rightarrow> u64 \<Rightarrow> u32 \<Rightarrow> (u32 \<Rightarrow> u64 \<times> u64) \<Rightarrow> bitset \<Rightarrow> bitset \<times> bitset \<Rightarrow> u64 \<Rightarrow> bitset" where
  "trim_rounds 0 target maxNonce endpoints alive counters aliveCount = alive"
| "trim_rounds (Suc rounds) target maxNonce endpoints alive counters aliveCount =
     (if \<not> aliveCount > target then alive
      else
        let (alive', counters', removed) = trimAliveEdges alive counters maxNonce endpoints;
            aliveCount' = aliveCount - removed
        in if removed = 0 \<or> removed * 1000 < aliveCount' then alive'
           else trim_rounds rounds target maxNonce endpoints alive' counters' aliveCount')"

section \<open>The exact peel\<close>

text \<open>The maps \<open>degrees\<close> and \<open>incident\<close>; a missing key reads as zero and as the empty list.\<close>

definition add_survivor :: "(u64 \<Rightarrow> int) \<times> (u64 \<Rightarrow> nat list) \<Rightarrow> nat \<times> labeled_edge \<Rightarrow> (u64 \<Rightarrow> int) \<times> (u64 \<Rightarrow> nat list)" where
  "add_survivor maps entry =
     (let (degrees, incident) = maps; (idx, e) = entry;
          d1 = degrees(edge_u e := degrees (edge_u e) + 1);
          d2 = d1(edge_v e := d1 (edge_v e) + 1);
          i1 = incident(edge_u e := incident (edge_u e) @ [idx]);
          i2 = i1(edge_v e := i1 (edge_v e) @ [idx])
      in (d2, i2))"

definition build_maps :: "labeled_edge list \<Rightarrow> (u64 \<Rightarrow> int) \<times> (u64 \<Rightarrow> nat list)" where
  "build_maps survivors = foldl add_survivor (\<lambda>_. 0, \<lambda>_. []) (enumerate 0 survivors)"

definition degree_keys :: "labeled_edge list \<Rightarrow> u64 list" where
  "degree_keys survivors = remdups (concat (map (\<lambda>e. [edge_u e, edge_v e]) survivors))"

definition lower_degree :: "u64 \<Rightarrow> (u64 \<Rightarrow> int) \<times> u64 list \<Rightarrow> (u64 \<Rightarrow> int) \<times> u64 list" where
  "lower_degree node s =
     (let (degrees, queue) = s;
          degrees' = degrees(node := degrees node - 1)
      in (degrees', if degrees' node = 1 then queue @ [node] else queue))"

function peel_loop ::
  "labeled_edge list \<Rightarrow> (u64 \<Rightarrow> nat list) \<Rightarrow> u64 list \<Rightarrow> (u64 \<Rightarrow> int) \<Rightarrow> bool list \<Rightarrow> bool list result" where
  "peel_loop survivors incident [] degrees removed = Inr removed"
| "peel_loop survivors incident (node # queue) degrees removed =
     (if degrees node \<noteq> 1 then peel_loop survivors incident queue degrees removed
      else
        case find (\<lambda>idx. \<not> removed ! idx) (incident node) of
          None \<Rightarrow> Inl RuntimePanic
        | Some edgeIdx \<Rightarrow>
            if edgeIdx \<ge> length removed then Inl RuntimePanic
            else
              let edge = survivors ! edgeIdx;
                  s = lower_degree (edge_v edge) (lower_degree (edge_u edge) (degrees, queue))
              in peel_loop survivors incident (snd s) (fst s) (removed[edgeIdx := True]))"
  by pat_completeness auto
termination
proof (relation "measures [\<lambda>(survivors, incident, queue, degrees, removed). length (filter Not removed),
    \<lambda>(survivors, incident, queue, degrees, removed). length queue]", goal_cases)
  case (3 survivors incident node queue degrees removed edgeIdx edge s)
  then have "edgeIdx < length removed" "\<not> removed ! edgeIdx" by (auto simp: find_Some_iff)
  then have "removed = take edgeIdx removed @ False # drop (Suc edgeIdx) removed" using id_take_nth_drop by fastforce
  then have "filter Not removed = filter Not (take edgeIdx removed) @ False # filter Not (drop (Suc edgeIdx) removed)"
    by (metis filter.simps(2) filter_append)
  moreover have "filter Not (removed[edgeIdx := True]) = filter Not (take edgeIdx removed) @ filter Not (drop (Suc edgeIdx) removed)"
    using \<open>edgeIdx < length removed\<close> by (simp add: upd_conv_take_nth_drop)
  ultimately show ?case by simp
qed simp_all

section \<open>The search\<close>

definition canTraverseDFSNeighbor :: "u64 \<Rightarrow> u64 \<Rightarrow> int \<Rightarrow> int \<Rightarrow> u64 set \<Rightarrow> bool" where
  "canTraverseDFSNeighbor nextNode startNode depth proofSize seenNodes =
     (if nextNode = startNode then depth + 1 = proofSize else nextNode \<notin> seenNodes)"

fun first_some :: "('a \<Rightarrow> 'b option) \<Rightarrow> 'a list \<Rightarrow> 'b option" where
  "first_some f [] = None"
| "first_some f (x # xs) = (case f x of None \<Rightarrow> first_some f xs | Some y \<Rightarrow> Some y)"

text \<open>The recursion on the edges still to be added; the depth of the source is the proof size less these.\<close>

primrec dfs ::
  "nat \<Rightarrow> config \<Rightarrow> bytes \<Rightarrow> labeled_edge list \<Rightarrow> (u64 \<Rightarrow> nat list) \<Rightarrow> bool list \<Rightarrow>
   u64 \<Rightarrow> u64 \<Rightarrow> bool list \<Rightarrow> u64 set \<Rightarrow> u32 list \<Rightarrow> u32 list option" where
  "dfs 0 cfg seed survivors incident removed startNode currentNode used seenNodes path =
     (if currentNode = startNode
      then let proof = sort path in if Verify cfg seed proof = Some (Inr ()) then Some proof else None
      else None)"
| "dfs (Suc rest) cfg seed survivors incident removed startNode currentNode used seenNodes path =
     first_some (\<lambda>nextIdx.
       if removed ! nextIdx \<or> used ! nextIdx then None
       else
         let next = survivors ! nextIdx;
             nextNode = (if edge_u next = currentNode then edge_v next else edge_u next)
         in if \<not> canTraverseDFSNeighbor nextNode startNode (ProofSize cfg - int (Suc rest)) (ProofSize cfg) seenNodes then None
            else dfs rest cfg seed survivors incident removed startNode nextNode
                   (used[nextIdx := True]) (insert nextNode seenNodes) (path @ [edge_nonce next]))
       (incident currentNode)"

definition search_survivors ::
  "config \<Rightarrow> bytes \<Rightarrow> labeled_edge list \<Rightarrow> (u64 \<Rightarrow> nat list) \<Rightarrow> bool list \<Rightarrow> u32 list option" where
  "search_survivors cfg seed survivors incident removed =
     first_some (\<lambda>startIdx.
       if removed ! startIdx then None
       else
         let start = survivors ! startIdx
         in dfs (nat (ProofSize cfg) - 1) cfg seed survivors incident removed (edge_u start) (edge_v start)
              ((replicate (length survivors) False)[startIdx := True]) {} [edge_nonce start])
       [0..<length survivors]"

definition FindProof :: "u64 \<Rightarrow> (u64 list \<Rightarrow> u64 list) \<Rightarrow> config \<Rightarrow> bytes \<Rightarrow> u32 \<Rightarrow> u32 list result" where
  "FindProof target range_order cfg seed maxNonce =
     (case normalize cfg of
        Inl e \<Rightarrow> Inl e
      | Inr cfg \<Rightarrow>
          (case seedWords seed of
             Inl e \<Rightarrow> Inl e
           | Inr words \<Rightarrow>
               let numEdges = ucast maxNonce;
                   nodeCount = push_bit (unat (EdgeBits cfg)) 2;
                   endpoints = edgeEndpoints words (nodeMask cfg);
                   alive0 = map (\<lambda>_. - 1) (newBitset numEdges);
                   alive = trim_rounds maxTrimRounds target maxNonce endpoints alive0
                             (newBitset nodeCount, newBitset nodeCount) numEdges;
                   survivors = collectSurvivors alive maxNonce endpoints;
                   (degrees, incident) = build_maps survivors;
                   queue = filter (\<lambda>node. degrees node = 1) (range_order (degree_keys survivors))
               in case peel_loop survivors incident queue degrees (replicate (length survivors) False) of
                    Inl e \<Rightarrow> Inl e
                  | Inr removed \<Rightarrow>
                      (case search_survivors cfg seed survivors incident removed of
                         None \<Rightarrow> Inl ErrNoSolution
                       | Some proof \<Rightarrow> Inr proof)))"


section \<open>Bit sets are sets\<close>

text \<open>What the search relies on: a store of bits with room for the first \<open>n\<close> numbers.\<close>

locale bit_store =
  fixes room :: "nat \<Rightarrow> 'b \<Rightarrow> bool" and get :: "'b \<Rightarrow> u64 \<Rightarrow> bool" and put :: "'b \<Rightarrow> u64 \<Rightarrow> 'b" and del :: "'b \<Rightarrow> u64 \<Rightarrow> 'b"
  assumes room_put: "room n b \<Longrightarrow> room n (put b i)"
    and room_del: "room n b \<Longrightarrow> room n (del b i)"
    and get_put: "room n b \<Longrightarrow> unat i < n \<Longrightarrow> unat j < n \<Longrightarrow> get (put b i) j \<longleftrightarrow> j = i \<or> get b j"
    and get_del: "room n b \<Longrightarrow> unat i < n \<Longrightarrow> unat j < n \<Longrightarrow> get (del b i) j \<longleftrightarrow> j \<noteq> i \<and> get b j"
begin

text \<open>Two stores that count to two.\<close>

definition bump :: "'b \<times> 'b \<Rightarrow> u64 \<Rightarrow> 'b \<times> 'b" where
  "bump s x = (if get (snd s) x then s else if get (fst s) x then (fst s, put (snd s) x) else (put (fst s) x, snd s))"

definition counts :: "nat \<Rightarrow> u64 list \<Rightarrow> 'b \<times> 'b \<Rightarrow> bool" where
  "counts n xs s \<longleftrightarrow> room n (fst s) \<and> room n (snd s) \<and>
     (\<forall>j. unat j < n \<longrightarrow> (get (fst s) j \<longleftrightarrow> 1 \<le> count_list xs j) \<and> (get (snd s) j \<longleftrightarrow> 2 \<le> count_list xs j))"

lemma counts_bump: "counts n xs s \<Longrightarrow> unat x < n \<Longrightarrow> counts n (xs @ [x]) (bump s x)"
  unfolding counts_def bump_def
  by (auto simp: room_put get_put [of n] numeral_2_eq_2 simp flip: Suc_le_eq)

lemma counts_bump_all: "counts n xs s \<Longrightarrow> \<forall>y\<in>set ys. unat y < n \<Longrightarrow> counts n (xs @ ys) (foldl bump s ys)"
proof (induction ys arbitrary: xs s)
  case (Cons y ys)
  then have "counts n (xs @ [y]) (bump s y)" by (intro counts_bump) auto
  from Cons.IH [OF this] Cons.prems show ?case by simp
qed simp

lemma counts_leaf: "counts n xs s \<Longrightarrow> unat j < n \<Longrightarrow> get (fst s) j \<and> \<not> get (snd s) j \<longleftrightarrow> count_list xs j = 1"
  by (auto simp: counts_def)

end

lemma bit_position: "unat (i AND 63) = unat (i :: u64) mod 64" "unat (drop_bit 6 i) = unat i div 64"
proof -
  have "i AND 63 = take_bit 6 i" by (simp add: take_bit_eq_mask mask_eq_exp_minus_1)
  then show "unat (i AND 63) = unat i mod 64" by (simp add: unsigned_take_bit_eq take_bit_eq_mod unat_mod_distrib)
  have "unat i < 2 ^ 64" using unsigned_less [of i] by simp
  then have "take_bit 64 (unat i) = unat i" by (rule take_bit_nat_eq_self)
  then show "unat (drop_bit 6 i) = unat i div 64" unfolding unsigned_drop_bit_eq by (simp add: drop_bit_eq_div)
qed

lemma bitset_get_bit: "bitset_get b i \<longleftrightarrow> bit (b ! (unat i div 64)) (unat i mod 64)"
  unfolding bitset_get_def bit_position bit_iff_and_push_bit_not_eq_0 ..

lemma same_bit: "i = j \<longleftrightarrow> unat i div 64 = unat j div 64 \<and> unat i mod 64 = unat (j :: u64) mod 64"
  by (metis mult_div_mod_eq word_unat_eq_iff)

interpretation bits: bit_store "\<lambda>n b. n \<le> 64 * length b" bitset_get bitset_set bitset_clear
proof
  fix n b and i j :: u64
  assume n: "n \<le> 64 * length (b :: bitset)"
  show "n \<le> 64 * length (bitset_set b i)" "n \<le> 64 * length (bitset_clear b i)"
    using n by (simp_all add: bitset_set_def bitset_clear_def)
  assume ij: "unat i < n" "unat j < n"
  then have l: "unat i div 64 < length b" "unat j div 64 < length b" using n by auto
  have b: "bit (push_bit (unat i mod 64) 1 :: u64) (unat j mod 64) \<longleftrightarrow> unat j mod 64 = unat i mod 64"
    by (auto simp: bit_push_bit_iff bit_1_iff simp del: push_bit_of_1)
  show "bitset_get (bitset_set b i) j \<longleftrightarrow> j = i \<or> bitset_get b j"
    using l b same_bit [of j i] unfolding bitset_get_bit bitset_set_def bit_position
    by (cases "unat i div 64 = unat j div 64") (auto simp: bit_or_iff)
  have "bit (NOT (push_bit (unat i mod 64) 1) :: u64) (unat j mod 64) \<longleftrightarrow> unat j mod 64 \<noteq> unat i mod 64"
    unfolding bit_not_iff b by simp
  then show "bitset_get (bitset_clear b i) j \<longleftrightarrow> j \<noteq> i \<and> bitset_get b j"
    using l same_bit [of j i] unfolding bitset_get_bit bitset_clear_def bit_position
    by (cases "unat i div 64 = unat j div 64") (auto simp: bit_and_iff)
qed

lemma bump_bits: "bumpLeafCounter s x = bits.bump s x"
  by (simp add: bumpLeafCounter_def bits.bump_def split: prod.splits)

lemma isLeafCounter_counts: "bits.counts n xs s \<Longrightarrow> unat j < n \<Longrightarrow> isLeafCounter s j \<longleftrightarrow> count_list xs j = 1"
  using bits.counts_leaf [of n xs s j] by (cases s) (simp add: isLeafCounter_def)


section \<open>Trimming keeps every core\<close>

text \<open>A core: a set of nonces in which each endpoint of an edge has another edge. Cycles are cores.\<close>

definition core :: "(u32 \<Rightarrow> u64 \<times> u64) \<Rightarrow> u32 set \<Rightarrow> bool" where
  "core endpoints C \<longleftrightarrow> (\<forall>n\<in>C. (\<exists>m\<in>C. m \<noteq> n \<and> fst (endpoints m) = fst (endpoints n)) \<and>
     (\<exists>m\<in>C. m \<noteq> n \<and> snd (endpoints m) = snd (endpoints n)))"

lemma nonces_below_set [simp]: "set (nonces_below k) = {n. n < k}" "distinct (nonces_below k)"
proof -
  have u: "unat (of_nat i :: u32) = i" if "i < unat k" for i
  proof -
    have "unat k < 2 ^ 32" using unsigned_less [of k] by simp
    then show ?thesis using that by (simp add: unat_of_nat take_bit_nat_eq_self_iff)
  qed
  show "set (nonces_below k) = {n. n < k}"
  proof (intro set_eqI iffI)
    fix n assume "n \<in> set (nonces_below k)"
    then show "n \<in> {n. n < k}" using u by (auto simp: nonces_below_def word_less_nat_alt)
  next
    fix n assume "n \<in> {n. n < k}"
    then have "n = of_nat (unat n)" "unat n < unat k" by (simp_all add: word_less_nat_alt)
    then show "n \<in> set (nonces_below k)" unfolding nonces_below_def by (metis atLeastLessThan_iff image_eqI le0 set_map set_upt)
  qed
  show "distinct (nonces_below k)"
    unfolding nonces_below_def using u by (auto simp: distinct_map inj_on_def) metis
qed

definition alive_nodes :: "bitset \<Rightarrow> (u32 \<Rightarrow> u64 \<times> u64) \<Rightarrow> u32 list \<Rightarrow> u64 list" where
  "alive_nodes alive endpoints ns =
     concat (map (\<lambda>n. [fst (endpoints n), snd (endpoints n)]) (filter (\<lambda>n. bitset_get alive (ucast n)) ns))"

lemma count_edges_bump:
  "foldl (count_edge alive endpoints) s ns = foldl bits.bump s (alive_nodes alive endpoints ns)"
  by (induction ns arbitrary: s) (auto simp: alive_nodes_def count_edge_def bump_bits split: prod.splits)

lemma count_list_two:
  assumes "distinct xs" "a \<in> set xs" "b \<in> set xs" "a \<noteq> b" "x \<in> set (f a)" "x \<in> set (f b)"
  shows "2 \<le> count_list (concat (map f xs)) x"
proof -
  have pos: "1 \<le> count_list (f c) x" if "x \<in> set (f c)" for c
    using that by (metis One_nat_def Suc_leI count_list_0_iff neq0_conv)
  have c: "count_list (concat (map f xs)) x = (\<Sum>c\<in>set xs. count_list (f c) x)"
    using assms(1) by (induction xs) (auto simp: count_list_append)
  have "(\<Sum>c\<in>{a, b}. count_list (f c) x) \<le> (\<Sum>c\<in>set xs. count_list (f c) x)"
    using assms by (intro sum_mono2) auto
  moreover have "2 \<le> (\<Sum>c\<in>{a, b}. count_list (f c) x)" using assms(4) pos [OF assms(5)] pos [OF assms(6)] by simp
  ultimately show ?thesis unfolding c by linarith
qed

lemma core_not_leaf:
  assumes "core endpoints C" "n \<in> C" "C \<subseteq> set ns" "distinct ns" "\<forall>m\<in>C. bitset_get alive (ucast m)"
  shows "2 \<le> count_list (alive_nodes alive endpoints ns) (fst (endpoints n))"
    and "2 \<le> count_list (alive_nodes alive endpoints ns) (snd (endpoints n))"
proof -
  obtain m1 m2 where m: "m1 \<in> C" "m1 \<noteq> n" "fst (endpoints m1) = fst (endpoints n)"
    "m2 \<in> C" "m2 \<noteq> n" "snd (endpoints m2) = snd (endpoints n)"
    using assms(1,2) unfolding core_def by blast
  let ?A = "filter (\<lambda>n. bitset_get alive (ucast n)) ns"
  have A: "distinct ?A" "n \<in> set ?A" "m1 \<in> set ?A" "m2 \<in> set ?A" using assms m by auto
  show "2 \<le> count_list (alive_nodes alive endpoints ns) (fst (endpoints n))"
    unfolding alive_nodes_def using A m by (intro count_list_two [of _ n m1]) auto
  show "2 \<le> count_list (alive_nodes alive endpoints ns) (snd (endpoints n))"
    unfolding alive_nodes_def using A m by (intro count_list_two [of _ n m2]) auto
qed

text \<open>The bit sets are large enough: for the nonces and for the nodes.\<close>

definition room_ok :: "nat \<Rightarrow> u32 \<Rightarrow> (u32 \<Rightarrow> u64 \<times> u64) \<Rightarrow> bitset \<Rightarrow> bitset \<times> bitset \<Rightarrow> bool" where
  "room_ok nodes maxNonce endpoints alive counters \<longleftrightarrow> unat maxNonce \<le> 64 * length alive \<and>
     nodes \<le> 64 * length (fst counters) \<and> nodes \<le> 64 * length (snd counters) \<and>
     (\<forall>n. unat (fst (endpoints n)) < nodes \<and> unat (snd (endpoints n)) < nodes)"

lemma bitset_get_zeros: "unat j < 64 * length b \<Longrightarrow> \<not> bitset_get (map (\<lambda>_. 0) b) j"
  by (auto simp: bitset_get_bit)

lemma unat_ucast_u32: "unat (ucast (n :: u32) :: u64) = unat n"
proof -
  have "unat n < 2 ^ 32" using unsigned_less [of n] by simp
  then show ?thesis by (simp add: unsigned_ucast_eq take_bit_nat_eq_self_iff)
qed

lemma drop_edges_keep:
  assumes "\<forall>n\<in>C. \<not> isLeafCounter counters (fst (endpoints n)) \<and> \<not> isLeafCounter counters (snd (endpoints n))"
    and "C \<subseteq> {n. n < k}"
  shows "\<lbrakk>set ns \<subseteq> {n. n < k}; unat k \<le> 64 * length (fst s); \<forall>n\<in>C. bitset_get (fst s) (ucast n)\<rbrakk> \<Longrightarrow>
    (\<forall>n\<in>C. bitset_get (fst (foldl (drop_edge endpoints counters) s ns)) (ucast n)) \<and>
    unat k \<le> 64 * length (fst (foldl (drop_edge endpoints counters) s ns))"
proof (induction ns arbitrary: s)
  case (Cons m ns)
  let ?s = "drop_edge endpoints counters s m"
  have len: "unat k \<le> 64 * length (fst ?s)"
    using Cons.prems(2) by (auto simp: drop_edge_def bitset_clear_def split: prod.splits)
  have "bitset_get (fst ?s) (ucast n)" if n: "n \<in> C" for n
  proof (cases "n = m")
    case True
    then show ?thesis using assms(1) n Cons.prems(3) by (auto simp: drop_edge_def split: prod.splits)
  next
    case False
    then have "(ucast n :: u64) \<noteq> ucast m" by (metis unat_ucast_u32 word_unat_eq_iff)
    moreover have "unat (ucast n :: u64) < unat k" "unat (ucast m :: u64) < unat k"
      using assms(2) n Cons.prems(1) by (auto simp: unat_ucast_u32 word_less_nat_alt)
    ultimately have "bitset_get (bitset_clear (fst s) (ucast m)) (ucast n)"
      using bits.get_del [OF Cons.prems(2), of "ucast m" "ucast n"] Cons.prems(3) n by simp
    then show ?thesis using n Cons.prems(3) by (auto simp: drop_edge_def split: prod.splits)
  qed
  then show ?case using Cons.IH [of ?s] Cons.prems(1) len by simp
qed simp

lemma trimAliveEdges_keep:
  assumes "core endpoints C" "C \<subseteq> {n. n < k}" "\<forall>n\<in>C. bitset_get alive (ucast n)" "room_ok nodes k endpoints alive counters"
    and "trimAliveEdges alive counters k endpoints = (alive', counters', removed)"
  shows "(\<forall>n\<in>C. bitset_get alive' (ucast n)) \<and> room_ok nodes k endpoints alive' counters'"
proof -
  let ?z = "map (\<lambda>_. 0) (fst counters) :: bitset"
  let ?ns = "nonces_below k"
  define counted where "counted = foldl (count_edge alive endpoints) (?z, ?z) ?ns"
  have "bits.counts nodes [] (?z, ?z)"
    using assms(4) bitset_get_zeros [of _ "fst counters"] by (auto simp: bits.counts_def room_ok_def)
  moreover have "\<forall>y\<in>set (alive_nodes alive endpoints ?ns). unat y < nodes"
    using assms(4) by (auto simp: alive_nodes_def room_ok_def)
  ultimately have c: "bits.counts nodes (alive_nodes alive endpoints ?ns) counted"
    unfolding counted_def count_edges_bump using bits.counts_bump_all by fastforce
  have "\<not> isLeafCounter counted (fst (endpoints n)) \<and> \<not> isLeafCounter counted (snd (endpoints n))" if "n \<in> C" for n
    using core_not_leaf [OF assms(1) that, of ?ns alive] assms(2,3,4) isLeafCounter_counts [OF c]
    by (auto simp: room_ok_def)
  moreover have t: "(alive', removed) = foldl (drop_edge endpoints counted) (alive, 0) ?ns" "counters' = counted"
    using assms(5) by (auto simp: trimAliveEdges_def counted_def Let_def split: prod.splits)
  ultimately have "(\<forall>n\<in>C. bitset_get alive' (ucast n)) \<and> unat k \<le> 64 * length alive'"
    using drop_edges_keep [of C counted endpoints k ?ns "(alive, 0)"] assms(2-4) by (simp add: room_ok_def flip: t(1))
  then show ?thesis using assms(4) c t(2) by (auto simp: room_ok_def bits.counts_def)
qed

lemma trim_rounds_keep:
  assumes "core endpoints C" "C \<subseteq> {n. n < k}"
  shows "\<lbrakk>\<forall>n\<in>C. bitset_get alive (ucast n); room_ok nodes k endpoints alive counters\<rbrakk> \<Longrightarrow>
    \<forall>n\<in>C. bitset_get (trim_rounds rounds target k endpoints alive counters cnt) (ucast n)"
proof (induction rounds arbitrary: alive counters cnt)
  case (Suc rounds)
  obtain alive' counters' removed where t: "trimAliveEdges alive counters k endpoints = (alive', counters', removed)"
    by (metis prod_cases3)
  show ?case
    using Suc.IH [of alive' counters'] trimAliveEdges_keep [OF assms Suc.prems t] Suc.prems(1) by (simp add: t Let_def)
qed simp


section \<open>The peel keeps every core\<close>

definition ends :: "labeled_edge \<Rightarrow> u64 list" where
  "ends e = [edge_u e, edge_v e]"

definition touching :: "labeled_edge list \<Rightarrow> u64 \<Rightarrow> nat list" where
  "touching survivors node = filter (\<lambda>i. node \<in> set (ends (survivors ! i))) [0..<length survivors]"

lemma build_maps_touching:
  assumes "\<forall>e\<in>set survivors. edge_u e \<noteq> edge_v e"
  shows "build_maps survivors = (\<lambda>n. int (length (touching survivors n)), touching survivors)"
  using assms
proof (induction survivors rule: rev_induct)
  case (snoc e es)
  have "touching (es @ [e]) n = touching es n @ (if n \<in> set (ends e) then [length es] else [])" for n
  proof -
    have "filter (\<lambda>i. n \<in> set (ends ((es @ [e]) ! i))) [0..<length es] = touching es n"
      unfolding touching_def by (intro filter_cong) (auto simp: nth_append)
    then show ?thesis by (simp add: touching_def)
  qed
  moreover have "build_maps (es @ [e]) = add_survivor (build_maps es) (length es, e)"
    by (simp add: build_maps_def enumerate_append_eq)
  ultimately show ?case using snoc by (auto simp: add_survivor_def ends_def fun_eq_iff)
qed (simp add: build_maps_def touching_def fun_eq_iff)

definition live :: "labeled_edge list \<Rightarrow> bool list \<Rightarrow> u64 \<Rightarrow> nat list" where
  "live survivors removed node = filter (\<lambda>i. \<not> removed ! i) (touching survivors node)"

definition core_edges :: "labeled_edge list \<Rightarrow> nat set \<Rightarrow> bool" where
  "core_edges survivors C \<longleftrightarrow> C \<subseteq> {..<length survivors} \<and>
     (\<forall>i\<in>C. \<forall>x\<in>set (ends (survivors ! i)). \<exists>j\<in>C. j \<noteq> i \<and> x \<in> set (ends (survivors ! j)))"

lemma live_remove:
  assumes "i < length removed" "length removed = length survivors"
  shows "live survivors (removed[i := True]) n = filter (\<lambda>j. j \<noteq> i) (live survivors removed n)"
  unfolding live_def touching_def filter_filter using assms by (intro filter_cong) (auto simp: nth_list_update)

lemma length_remove_one: "distinct xs \<Longrightarrow> length (filter (\<lambda>j. j \<noteq> i) xs) = length xs - (if i \<in> set xs then 1 else 0)"
  by (induction xs) (auto simp: Suc_diff_le dest: length_pos_if_in_set)

lemma find_filter: "find P xs = (case filter P xs of [] \<Rightarrow> None | x # _ \<Rightarrow> Some x)"
  by (induction xs) auto

lemma set_live:
  "set (live survivors removed n) = {i. i < length survivors \<and> \<not> removed ! i \<and> n \<in> set (ends (survivors ! i))}"
  "distinct (live survivors removed n)"
  by (auto simp: live_def touching_def)

lemma lower_both_degrees:
  assumes "edge_u e \<noteq> edge_v e"
  shows "fst (lower_degree (edge_v e) (lower_degree (edge_u e) (d, q))) = (\<lambda>n. d n - (if n \<in> set (ends e) then 1 else 0))"
  using assms by (auto simp: lower_degree_def Let_def ends_def fun_eq_iff)

lemma peel_loop_keeps:
  "\<lbrakk>\<forall>e\<in>set survivors. edge_u e \<noteq> edge_v e; core_edges survivors C; incident = touching survivors;
    length removed = length survivors; \<And>n. degrees n = int (length (live survivors removed n)); \<forall>i\<in>C. \<not> removed ! i\<rbrakk> \<Longrightarrow>
    \<exists>removed'. peel_loop survivors incident queue degrees removed = Inr removed' \<and>
      length removed' = length survivors \<and> (\<forall>i\<in>C. \<not> removed' ! i)"
proof (induction survivors incident queue degrees removed rule: peel_loop.induct)
  case (2 survivors incident node queue degrees removed)
  note ne = 2(3) and core = 2(4) and inc = 2(5) and len = 2(6) and degs = 2(7) and C = 2(8)
  show ?case
  proof (cases "degrees node = 1")
    case True
    then have "length (live survivors removed node) = 1" using degs by simp
    then obtain i where i: "live survivors removed node = [i]" by (metis One_nat_def length_0_conv length_Suc_conv)
    have find: "find (\<lambda>idx. \<not> removed ! idx) (incident node) = Some i"
      using i by (simp add: inc live_def find_filter)
    have "i \<in> set (live survivors removed node)" unfolding i by simp
    then have il: "i < length survivors" "\<not> removed ! i" "node \<in> set (ends (survivors ! i))" unfolding set_live by auto
    define s where "s = lower_degree (edge_v (survivors ! i)) (lower_degree (edge_u (survivors ! i)) (degrees, queue))"
    have loop: "peel_loop survivors incident (node # queue) degrees removed =
        peel_loop survivors incident (snd s) (fst s) (removed[i := True])"
      using True find il(1) len by (simp add: s_def Let_def)
    have "edge_u (survivors ! i) \<noteq> edge_v (survivors ! i)" using ne il(1) by simp
    note deg = lower_both_degrees [OF this, of degrees queue, folded s_def]
    have newdeg: "fst s n = int (length (live survivors (removed[i := True]) n))" for n
    proof -
      have mem: "i \<in> set (live survivors removed n) \<longleftrightarrow> n \<in> set (ends (survivors ! i))" using il by (simp add: set_live)
      have "length (live survivors (removed[i := True]) n) =
          length (live survivors removed n) - (if n \<in> set (ends (survivors ! i)) then 1 else 0)"
        using il(1) len by (subst live_remove) (simp_all add: length_remove_one set_live(2) mem)
      moreover have "1 \<le> length (live survivors removed n)" if "n \<in> set (ends (survivors ! i))"
        using that mem by (cases "live survivors removed n") auto
      ultimately show ?thesis unfolding deg using degs [of n] by (simp add: of_nat_diff)
    qed
    have "i \<notin> C"
    proof
      assume "i \<in> C"
      then obtain j where "j \<in> C" "j \<noteq> i" "node \<in> set (ends (survivors ! j))" using core il(3) unfolding core_edges_def by blast
      then have "j \<in> set (live survivors removed node)" using core C unfolding set_live core_edges_def by auto
      then show False using i \<open>j \<noteq> i\<close> by simp
    qed
    then have keep: "\<forall>j\<in>C. \<not> removed[i := True] ! j" using C by (metis nth_list_update_neq)
    show ?thesis unfolding loop
      by (rule 2(2) [OF _ find _ refl s_def ne core inc _ newdeg keep]) (use True len il(1) in simp_all)
  qed (use 2(1) [OF _ ne core inc len degs C] in simp)
qed simp


section \<open>The search finds a cycle\<close>

lemma first_some_Some: "first_some f xs = Some y \<Longrightarrow> \<exists>x\<in>set xs. f x = Some y"
  by (induction xs) (auto split: option.splits)

lemma first_some_ex: "x \<in> set xs \<Longrightarrow> f x \<noteq> None \<Longrightarrow> first_some f xs \<noteq> None"
  by (induction xs) (auto split: option.splits)

lemma dfs_sound:
  "dfs rest cfg seed survivors (touching survivors) removed start current used seen path = Some proof' \<Longrightarrow>
   Verify cfg seed proof' = Some (Inr ()) \<and> set proof' \<subseteq> set path \<union> edge_nonce ` set survivors"
proof (induction rest arbitrary: current used seen path)
  case 0
  then show ?case by (auto simp: Let_def split: if_splits)
next
  case (Suc rest)
  from first_some_Some [OF Suc.prems [unfolded dfs.simps]] obtain i where i: "i \<in> set (touching survivors current)"
    and "(if removed ! i \<or> used ! i then None
       else
         let next' = survivors ! i;
             nextNode = (if edge_u next' = current then edge_v next' else edge_u next')
         in if \<not> canTraverseDFSNeighbor nextNode start (ProofSize cfg - int (Suc rest)) (ProofSize cfg) seen then None
            else dfs rest cfg seed survivors (touching survivors) removed start nextNode
                   (used[i := True]) (insert nextNode seen) (path @ [edge_nonce next'])) = Some proof'" by blast
  then obtain node where "dfs rest cfg seed survivors (touching survivors) removed start node
      (used[i := True]) (insert node seen) (path @ [edge_nonce (survivors ! i)]) = Some proof'"
    by (auto simp: Let_def split: if_splits)
  moreover have "survivors ! i \<in> set survivors" using i by (auto simp: touching_def)
  ultimately show ?case using Suc.IH by fastforce
qed

definition other_end :: "labeled_edge \<Rightarrow> u64 \<Rightarrow> u64" where
  "other_end e node = (if edge_u e = node then edge_v e else edge_u e)"

text \<open>A way back to the start along edges that the search may take.\<close>

fun trail :: "labeled_edge list \<Rightarrow> bool list \<Rightarrow> u64 \<Rightarrow> u64 \<Rightarrow> bool list \<Rightarrow> u64 set \<Rightarrow> nat list \<Rightarrow> bool" where
  "trail survivors removed start current used seen [] \<longleftrightarrow> current = start"
| "trail survivors removed start current used seen (i # ix) \<longleftrightarrow>
     i < length survivors \<and> \<not> removed ! i \<and> \<not> used ! i \<and> current \<in> set (ends (survivors ! i)) \<and>
     (let node = other_end (survivors ! i) current
      in (if ix = [] then node = start else node \<noteq> start \<and> node \<notin> seen) \<and>
         trail survivors removed start node (used[i := True]) (insert node seen) ix)"

lemma dfs_complete:
  "\<lbrakk>trail survivors removed start current used seen ix;
    Verify cfg seed (sort (path @ map (\<lambda>i. edge_nonce (survivors ! i)) ix)) = Some (Inr ())\<rbrakk> \<Longrightarrow>
   dfs (length ix) cfg seed survivors (touching survivors) removed start current used seen path \<noteq> None"
proof (induction ix arbitrary: current used seen path)
  case (Cons i ix)
  let ?node = "other_end (survivors ! i) current"
  have t: "i < length survivors" "\<not> removed ! i" "\<not> used ! i" "current \<in> set (ends (survivors ! i))"
    "if ix = [] then ?node = start else ?node \<noteq> start \<and> ?node \<notin> seen"
    "trail survivors removed start ?node (used[i := True]) (insert ?node seen) ix"
    using Cons.prems(1) by (simp_all add: Let_def)
  have "canTraverseDFSNeighbor ?node start (ProofSize cfg - int (Suc (length ix))) (ProofSize cfg) seen"
    using t(5) by (auto simp: canTraverseDFSNeighbor_def split: if_splits)
  moreover have "dfs (length ix) cfg seed survivors (touching survivors) removed start ?node (used[i := True])
      (insert ?node seen) (path @ [edge_nonce (survivors ! i)]) \<noteq> None"
    using Cons.IH [OF t(6), of "path @ [edge_nonce (survivors ! i)]"] Cons.prems(2) by simp
  moreover have "i \<in> set (touching survivors current)" using t by (simp add: touching_def)
  ultimately show ?case
    unfolding list.size dfs.simps add_0_right add_Suc_right
    using t(2,3) by (intro first_some_ex [of i]) (simp_all add: Let_def other_end_def)
qed simp

lemma trail_intro:
  "\<lbrakk>length ns = length ix; distinct ix; \<forall>i\<in>set ix. i < length survivors \<and> \<not> removed ! i \<and> \<not> used ! i;
    length used = length survivors;
    \<And>k. k < length ix \<Longrightarrow> (current # ns) ! k \<in> set (ends (survivors ! (ix ! k))) \<and>
      other_end (survivors ! (ix ! k)) ((current # ns) ! k) = ns ! k;
    last (current # ns) = start; distinct ns; \<forall>x\<in>set (butlast ns). x \<notin> seen\<rbrakk> \<Longrightarrow>
   trail survivors removed start current used seen ix"
proof (induction ix arbitrary: ns current used seen)
  case (Cons i ix)
  then obtain n ns' where ns: "ns = n # ns'" "length ns' = length ix" by (cases ns) auto
  have i: "current \<in> set (ends (survivors ! i))" "other_end (survivors ! i) current = n"
    using Cons.prems(5) [of 0] ns by simp_all
  have "trail survivors removed start n (used[i := True]) (insert n seen) ix"
  proof (rule Cons.IH [of ns'])
    show "\<And>k. k < length ix \<Longrightarrow> (n # ns') ! k \<in> set (ends (survivors ! (ix ! k))) \<and>
      other_end (survivors ! (ix ! k)) ((n # ns') ! k) = ns' ! k"
      using Cons.prems(5) [of "Suc k" for k] ns by force
    show "\<forall>x\<in>set (butlast ns'). x \<notin> insert n seen"
      using Cons.prems(7,8) ns by (cases ns') (auto dest: in_set_butlastD)
    show "\<forall>j\<in>set ix. j < length survivors \<and> \<not> removed ! j \<and> \<not> used[i := True] ! j"
      using Cons.prems(2,3) by (metis distinct.simps(2) list.set_intros(2) nth_list_update_neq)
  qed (use Cons.prems ns in auto)
  moreover have "if ix = [] then n = start else n \<noteq> start \<and> n \<notin> seen"
  proof (cases ix)
    case Nil
    then show ?thesis using Cons.prems(6) ns by simp
  next
    case (Cons a list)
    then have "ns' \<noteq> []" using ns by auto
    then have "last ns' = start" "last ns' \<in> set ns'" using Cons.prems(6) ns by auto
    then show ?thesis using Cons.prems(7,8) ns \<open>ns' \<noteq> []\<close> Cons by auto
  qed
  ultimately show ?case using Cons.prems(3) i by (simp add: Let_def)
qed simp


section \<open>Cycles of the graph are found\<close>

text \<open>A cycle in terms of the tagged endpoints: an order of nonces whose edges meet alternately on both sides.\<close>

definition edge_cycle :: "(u32 \<Rightarrow> u64 \<times> u64) \<Rightarrow> u32 list \<Rightarrow> nat \<Rightarrow> bool" where
  "edge_cycle endpoints order m \<longleftrightarrow> m > 0 \<and> length order = 2 * m \<and>
     (\<forall>k<m. fst (endpoints (order ! (2 * k))) = fst (endpoints (order ! Suc (2 * k)))) \<and>
     (\<forall>k<m. snd (endpoints (order ! Suc (2 * k))) = snd (endpoints (order ! (2 * (Suc k mod m))))) \<and>
     inj_on (\<lambda>k. fst (endpoints (order ! (2 * k)))) {..<m} \<and> inj_on (\<lambda>k. snd (endpoints (order ! Suc (2 * k)))) {..<m}"

lemma edge_cycle_core:
  assumes "edge_cycle endpoints order m" "distinct order"
  shows "core endpoints (set order)"
  unfolding core_def
proof (intro ballI)
  fix n assume "n \<in> set order"
  have m: "m > 0" "length order = 2 * m" using assms(1) by (auto simp: edge_cycle_def)
  obtain j where j: "j < 2 * m" "n = order ! j" using \<open>n \<in> set order\<close> m(2) by (metis in_set_conv_nth)
  define k where "k = j div 2"
  have k: "k < m" "j = 2 * k \<or> j = Suc (2 * k)" using j(1) by (auto simp: k_def)
  define l where "l = (k + (m - 1)) mod m"
  have l: "l < m" "Suc l mod m = k" using k(1) by (auto simp: l_def mod_Suc_eq)
  have sk: "Suc k mod m < m" using m(1) by simp
  have ne: "order ! a \<noteq> order ! b" if "a < 2 * m" "b < 2 * m" "a \<noteq> b" for a b
    using that m(2) assms(2) by (simp add: nth_eq_iff_index_eq)
  have mem: "order ! a \<in> set order" if "a < 2 * m" for a using that m(2) by simp
  have U: "fst (endpoints (order ! (2 * k))) = fst (endpoints (order ! Suc (2 * k)))"
    and Vk: "snd (endpoints (order ! Suc (2 * k))) = snd (endpoints (order ! (2 * (Suc k mod m))))"
    and Vl: "snd (endpoints (order ! Suc (2 * l))) = snd (endpoints (order ! (2 * k)))"
    using assms(1) k(1) l by (auto simp: edge_cycle_def)
  have b: "2 * k < 2 * m" "Suc (2 * k) < 2 * m" "Suc (2 * l) < 2 * m" "2 * (Suc k mod m) < 2 * m" using k(1) l(1) sk by simp_all
  from k(2) show "(\<exists>m\<in>set order. m \<noteq> n \<and> fst (endpoints m) = fst (endpoints n)) \<and>
      (\<exists>m\<in>set order. m \<noteq> n \<and> snd (endpoints m) = snd (endpoints n))"
  proof
    assume "j = 2 * k"
    then show ?thesis
      using U Vl mem [OF b(2)] mem [OF b(3)] ne [OF b(2) b(1)] ne [OF b(3) b(1)] j(2) Suc_double_not_eq_double by metis
  next
    assume "j = Suc (2 * k)"
    then show ?thesis
      using U Vk mem [OF b(1)] mem [OF b(4)] ne [OF b(1) b(2)] ne [OF b(4) b(2)] j(2) Suc_double_not_eq_double by metis
  qed
qed

definition labeled :: "(u32 \<Rightarrow> u64 \<times> u64) \<Rightarrow> u32 \<Rightarrow> labeled_edge" where
  "labeled endpoints n = \<lparr>edge_nonce = n, edge_u = fst (endpoints n), edge_v = snd (endpoints n)\<rparr>"

lemma labeled_simps [simp]: "edge_nonce (labeled endpoints n) = n" "edge_u (labeled endpoints n) = fst (endpoints n)"
  "edge_v (labeled endpoints n) = snd (endpoints n)" "ends (labeled endpoints n) = [fst (endpoints n), snd (endpoints n)]"
  by (simp_all add: labeled_def ends_def)

text \<open>The edges of a cycle from position \<open>j\<close> on, around its end, and the nodes between them.\<close>

definition cycle_edge :: "u32 list \<Rightarrow> nat \<Rightarrow> nat \<Rightarrow> u32" where
  "cycle_edge order m j = order ! (j mod (2 * m))"

definition cycle_node :: "(u32 \<Rightarrow> u64 \<times> u64) \<Rightarrow> u32 list \<Rightarrow> nat \<Rightarrow> nat \<Rightarrow> u64" where
  "cycle_node endpoints order m j =
     (if even j then fst (endpoints (cycle_edge order m j)) else snd (endpoints (cycle_edge order m j)))"

lemma cycle_edge_small: "j < 2 * m \<Longrightarrow> cycle_edge order m j = order ! j"
  by (simp add: cycle_edge_def)

lemma cycle_edge_even: "cycle_edge order m (2 * x) = order ! (2 * (x mod m))"
  using mult_mod_right [of 2 x m] by (simp add: cycle_edge_def)

lemma mod_inj_from_2: "i mod (2 * m) = j mod (2 * m) \<Longrightarrow> 2 \<le> i \<Longrightarrow> i \<le> 2 * m \<Longrightarrow> 2 \<le> j \<Longrightarrow> j \<le> 2 * m \<Longrightarrow> i = (j :: nat)"
  by (cases "i = 2 * m"; cases "j = 2 * m") auto

lemma cycle_node_step:
  assumes "edge_cycle endpoints order m" "\<And>n n'. fst (endpoints n) \<noteq> snd (endpoints n')" "1 \<le> j" "j < 2 * m"
  defines "next_edge \<equiv> labeled endpoints (cycle_edge order m (Suc j))"
  shows "cycle_node endpoints order m j \<in> set (ends next_edge) \<and>
    other_end next_edge (cycle_node endpoints order m j) = cycle_node endpoints order m (Suc j)"
proof (cases "even j")
  case True
  then obtain i where i: "j = 2 * i" by (elim evenE)
  then have im: "i < m" "Suc (2 * i) < 2 * m" using assms(4) by simp_all
  have "fst (endpoints (order ! (2 * i))) = fst (endpoints (order ! Suc (2 * i)))"
    using assms(1) im(1) unfolding edge_cycle_def by blast
  then have "cycle_node endpoints order m j = fst (endpoints (cycle_edge order m (Suc j)))"
    using im assms(4) by (simp add: cycle_node_def i cycle_edge_small)
  then show ?thesis using True by (simp add: other_end_def cycle_node_def next_edge_def)
next
  case False
  then obtain i where i: "j = Suc (2 * i)" by (metis oddE Suc_eq_plus1)
  then have im: "i < m" using assms(4) by simp
  have nxt: "cycle_edge order m (Suc j) = order ! (2 * (Suc i mod m))"
    using cycle_edge_even [of order m "Suc i"] by (simp add: i)
  have "snd (endpoints (order ! Suc (2 * i))) = snd (endpoints (order ! (2 * (Suc i mod m))))"
    using assms(1) im unfolding edge_cycle_def by blast
  then have "cycle_node endpoints order m j = snd (endpoints (cycle_edge order m (Suc j)))"
    unfolding nxt using assms(4) by (simp add: cycle_node_def i cycle_edge_small)
  then show ?thesis
    using False assms(2) [of "cycle_edge order m (Suc j)" "cycle_edge order m (Suc j)"]
    by (simp add: other_end_def cycle_node_def next_edge_def)
qed

lemma cycle_node_inj:
  assumes "edge_cycle endpoints order m" and tags: "\<And>n n'. fst (endpoints n) \<noteq> snd (endpoints n')"
    and eq: "cycle_node endpoints order m i = cycle_node endpoints order m j"
    and ij: "2 \<le> i" "i \<le> 2 * m" "2 \<le> j" "j \<le> 2 * m"
  shows "i = j"
proof (cases "even i")
  case True
  then have ev: "even j" using eq tags by (auto simp: cycle_node_def split: if_splits)
  obtain a b where ab: "i = 2 * a" "j = 2 * b" using True ev by (auto elim!: evenE)
  have "fst (endpoints (order ! (2 * (a mod m)))) = fst (endpoints (order ! (2 * (b mod m))))"
    using eq by (simp add: cycle_node_def ab cycle_edge_even)
  moreover have "inj_on (\<lambda>k. fst (endpoints (order ! (2 * k)))) {..<m}" using assms(1) unfolding edge_cycle_def by blast
  moreover have "a mod m \<in> {..<m}" "b mod m \<in> {..<m}" using assms(1) by (simp_all add: edge_cycle_def)
  ultimately have "a mod m = b mod m" by (elim inj_onD)
  then have "i mod (2 * m) = j mod (2 * m)" unfolding ab using mult_mod_right by metis
  then show ?thesis using mod_inj_from_2 ij by blast
next
  case False
  then have ev: "odd j" using eq tags [symmetric] by (auto simp: cycle_node_def split: if_splits)
  obtain a b where ab: "i = Suc (2 * a)" "j = Suc (2 * b)" using False ev by (metis oddE Suc_eq_plus1)
  then have s: "a < m" "b < m" using ij by auto
  have "snd (endpoints (order ! Suc (2 * a))) = snd (endpoints (order ! Suc (2 * b)))"
    using eq s by (simp add: cycle_node_def ab cycle_edge_small)
  moreover have "inj_on (\<lambda>k. snd (endpoints (order ! Suc (2 * k)))) {..<m}" using assms(1) unfolding edge_cycle_def by blast
  moreover have "a \<in> {..<m}" "b \<in> {..<m}" using s by simp_all
  ultimately have "a = b" by (elim inj_onD)
  then show ?thesis using ab by simp
qed

lemma edge_cycle_trail:
  assumes cyc: "edge_cycle endpoints order m" and dist: "distinct order"
    and tags: "\<And>n n'. fst (endpoints n) \<noteq> snd (endpoints n')"
    and idx: "\<And>n. n \<in> set order \<Longrightarrow> idx n < length survivors \<and> survivors ! idx n = labeled endpoints n \<and> \<not> removed ! idx n"
  shows "trail survivors removed (fst (endpoints (order ! 1))) (snd (endpoints (order ! 1)))
    ((replicate (length survivors) False)[idx (order ! 1) := True]) {}
    (map (\<lambda>j. idx (order ! (j mod (2 * m)))) [2..<Suc (2 * m)])"
proof -
  have m: "m > 0" "length order = 2 * m" using cyc by (auto simp: edge_cycle_def)
  let ?e = "cycle_edge order m" and ?v = "cycle_node endpoints order m"
  have mem: "?e j \<in> set order" for j unfolding cycle_edge_def using m by simp
  have edge_eq: "?e i = ?e j \<longleftrightarrow> i mod (2 * m) = j mod (2 * m)" for i j
    unfolding cycle_edge_def using m dist by (simp add: nth_eq_iff_index_eq)
  have idx_eq: "idx n = idx n' \<longleftrightarrow> n = n'" if "n \<in> set order" "n' \<in> set order" for n n'
    using idx [OF that(1)] idx [OF that(2)] labeled_simps(1) by metis
  have two: "2 \<le> 2 * m" "1 < 2 * m" using m(1) by simp_all
  have cur: "?v 1 = snd (endpoints (order ! 1))" using two by (simp add: cycle_node_def cycle_edge_small)
  have ns: "?v 1 # map ?v [2..<Suc (2 * m)] = map ?v [1..<Suc (2 * m)]"
    using two by (metis Suc_1 less_SucI list.simps(9) upt_conv_Cons)
  have "trail survivors removed (fst (endpoints (order ! 1))) (?v 1)
      ((replicate (length survivors) False)[idx (order ! 1) := True]) {} (map (\<lambda>j. idx (?e j)) [2..<Suc (2 * m)])"
  proof (rule trail_intro [of "map ?v [2..<Suc (2 * m)]"])
    show "distinct (map (\<lambda>j. idx (?e j)) [2..<Suc (2 * m)])"
      by (auto simp: distinct_map inj_on_def idx_eq [OF mem mem] edge_eq simp del: upt_Suc intro: mod_inj_from_2)
    show "\<forall>i\<in>set (map (\<lambda>j. idx (?e j)) [2..<Suc (2 * m)]). i < length survivors \<and> \<not> removed ! i \<and>
        \<not> (replicate (length survivors) False)[idx (order ! 1) := True] ! i"
    proof
      fix i assume "i \<in> set (map (\<lambda>j. idx (?e j)) [2..<Suc (2 * m)])"
      then obtain j where j: "i = idx (?e j)" "2 \<le> j" "j \<le> 2 * m" by auto
      have "j mod (2 * m) \<noteq> 1 mod (2 * m)" using j(2,3) two by (cases "j = 2 * m") auto
      then have "?e j \<noteq> ?e 1" unfolding edge_eq .
      then have "i \<noteq> idx (order ! 1)" using idx_eq [OF mem mem, of j 1] cycle_edge_small [OF two(2)] j(1) by simp
      then show "i < length survivors \<and> \<not> removed ! i \<and>
          \<not> (replicate (length survivors) False)[idx (order ! 1) := True] ! i"
        using idx [OF mem, of j] j(1) by (simp add: nth_list_update_neq)
    qed
    show "distinct (map ?v [2..<Suc (2 * m)])"
      by (auto simp: distinct_map inj_on_def simp del: upt_Suc intro: cycle_node_inj [OF cyc tags])
    show "last (?v 1 # map ?v [2..<Suc (2 * m)]) = fst (endpoints (order ! 1))"
    proof -
      have "fst (endpoints (order ! (2 * 0))) = fst (endpoints (order ! Suc (2 * 0)))" using cyc m(1) unfolding edge_cycle_def by blast
      then have "?v (2 * m) = fst (endpoints (order ! 1))" by (simp add: cycle_node_def cycle_edge_def)
      then show ?thesis unfolding ns using two by simp
    qed
    fix k assume "k < length (map (\<lambda>j. idx (?e j)) [2..<Suc (2 * m)])"
    then have k: "Suc k < 2 * m" by (simp del: upt_Suc)
    have "(?v 1 # map ?v [2..<Suc (2 * m)]) ! k = ?v (Suc k)" unfolding ns using k by (simp del: upt_Suc)
    moreover have "[2..<Suc (2 * m)] ! k = Suc (Suc k)" using k by (subst nth_upt) simp_all
    then have "map ?v [2..<Suc (2 * m)] ! k = ?v (Suc (Suc k))" "map (\<lambda>j. idx (?e j)) [2..<Suc (2 * m)] ! k = idx (?e (Suc (Suc k)))"
      using k by (simp_all del: upt_Suc)
    ultimately show "(?v 1 # map ?v [2..<Suc (2 * m)]) ! k \<in> set (ends (survivors ! (map (\<lambda>j. idx (?e j)) [2..<Suc (2 * m)] ! k))) \<and>
        other_end (survivors ! (map (\<lambda>j. idx (?e j)) [2..<Suc (2 * m)] ! k)) ((?v 1 # map ?v [2..<Suc (2 * m)]) ! k) =
        map ?v [2..<Suc (2 * m)] ! k"
      using cycle_node_step [OF cyc tags, of "Suc k"] k idx [OF mem, of "Suc (Suc k)"] by simp
  qed simp_all
  then show ?thesis unfolding cur cycle_edge_def .
qed

end
