(* ===== verification/CuckooSearch.thy ===== *)
theory CuckooSearch
  imports CuckooProver
begin

text \<open>
  The search of package \<open>cuckoo\<close> as a whole: a cycle of the graph is a core of the tagged edges, the
  trimming and the peel keep it, and the depth-first search follows it. So \<open>FindProof\<close> fails to find a
  proof only when there is none, and what it returns verifies.
\<close>

section \<open>The tagged endpoints\<close>

lemma bits_below: "(\<And>n. bit w n \<Longrightarrow> n < k) \<Longrightarrow> unat (w :: u64) < 2 ^ k"
proof -
  assume "\<And>n. bit w n \<Longrightarrow> n < k"
  then have "take_bit k w = w" by (intro bit_word_eqI) (auto simp: bit_take_bit_iff)
  then have "unat w = take_bit k (unat w)" by (metis unsigned_take_bit_eq)
  then show ?thesis by (metis take_bit_nat_less_exp)
qed

lemma endpoint_bits:
  assumes "normalize c = Inr c"
  shows "bit (fst (edgeEndpoints words (nodeMask c) n)) j \<Longrightarrow> j < Suc (unat (EdgeBits c))"
    and "bit (snd (edgeEndpoints words (nodeMask c) n)) j \<Longrightarrow> j < Suc (unat (EdgeBits c))"
  using normalize_bounds(3) [OF assms]
  by (auto simp: edgeEndpoints_def nodeMask_def edgeMask_def EdgeMask_mask bit_push_bit_iff bit_and_iff bit_mask_iff
      bit_or_iff bit_1_iff simp del: push_bit_Suc One_nat_def)

lemma endpoint_tags: "fst (edgeEndpoints words m n) \<noteq> snd (edgeEndpoints words m n')"
proof -
  have "\<not> bit (fst (edgeEndpoints words m n)) 0" "bit (snd (edgeEndpoints words m n')) 0"
    unfolding edgeEndpoints_def fst_conv snd_conv bit_push_bit_iff bit_or_iff by (simp_all add: bit_1_iff)
  then show ?thesis by metis
qed

lemma endpoints_graph_edge:
  assumes "normalize c = Inr c" "seedWords seed = Inr words" "unat n < 2 ^ unat (EdgeBits c)" "unat n' < 2 ^ unat (EdgeBits c)"
  shows "fst (edgeEndpoints words (nodeMask c) n) = fst (edgeEndpoints words (nodeMask c) n') \<longleftrightarrow>
      fst (graph_edge c seed n) = fst (graph_edge c seed n')"
    and "snd (edgeEndpoints words (nodeMask c) n) = snd (edgeEndpoints words (nodeMask c) n') \<longleftrightarrow>
      snd (graph_edge c seed n) = snd (graph_edge c seed n')"
proof -
  have e: "edgeEndpoints words (nodeMask c) x = (push_bit 1 (fst (graph_edge c seed x)), push_bit 1 (snd (graph_edge c seed x)) OR 1)"
    if "unat x < 2 ^ unat (EdgeBits c)" for x
    using nonce_in_range [OF normalize_bounds(3) [OF assms(1)], of x] that
    by (simp add: graph_edge_def EdgeForNonce_def assms(1,2) edgeEndpoints_def Let_def)
  have b: "\<not> bit (fst (graph_edge c seed x)) 63" "\<not> bit (snd (graph_edge c seed x)) 63" for x
    using EdgeForNonce_cases [OF assms(1), where seed = seed and n = x] by (auto simp: graph_edge_def split: sum.splits)
  show "fst (edgeEndpoints words (nodeMask c) n) = fst (edgeEndpoints words (nodeMask c) n') \<longleftrightarrow>
      fst (graph_edge c seed n) = fst (graph_edge c seed n')"
    "snd (edgeEndpoints words (nodeMask c) n) = snd (edgeEndpoints words (nodeMask c) n') \<longleftrightarrow>
      snd (graph_edge c seed n) = snd (graph_edge c seed n')"
    unfolding e [OF assms(3)] e [OF assms(4)] fst_conv snd_conv by (intro push_bit_1_inject b)+
qed

lemma simple_cycle_edge_cycle:
  assumes c: "normalize c = Inr c" "seedWords seed = Inr words"
    and range: "\<forall>n\<in>set order. unat n < 2 ^ unat (EdgeBits c)"
    and "simple_cycle (map (graph_edge c seed) order)"
  shows "\<exists>m. edge_cycle (edgeEndpoints words (nodeMask c)) order m"
proof -
  obtain m where m: "m > 0" "length order = 2 * m"
    and U: "\<forall>k<m. fst (map (graph_edge c seed) order ! (2 * k)) = fst (map (graph_edge c seed) order ! (2 * k + 1))"
    and V: "\<forall>k<m. snd (map (graph_edge c seed) order ! (2 * k + 1)) = snd (map (graph_edge c seed) order ! (2 * (Suc k mod m)))"
    and inj: "inj_on (\<lambda>k. fst (map (graph_edge c seed) order ! (2 * k))) {..<m}"
      "inj_on (\<lambda>k. snd (map (graph_edge c seed) order ! (2 * k + 1))) {..<m}"
    using assms(4) by (auto simp: simple_cycle_def)
  have r: "unat (order ! (2 * k)) < 2 ^ unat (EdgeBits c)" "unat (order ! Suc (2 * k)) < 2 ^ unat (EdgeBits c)"
    "map (graph_edge c seed) order ! (2 * k) = graph_edge c seed (order ! (2 * k))"
    "map (graph_edge c seed) order ! (2 * k + 1) = graph_edge c seed (order ! Suc (2 * k))" if "k < m" for k
    using range m(2) that by simp_all
  have s: "Suc k mod m < m" for k using m(1) by simp
  note eq = endpoints_graph_edge [OF c]
  show ?thesis
    unfolding edge_cycle_def
  proof (intro exI [of _ m] conjI allI impI m)
    fix k assume k: "k < m"
    show "fst (edgeEndpoints words (nodeMask c) (order ! (2 * k))) = fst (edgeEndpoints words (nodeMask c) (order ! Suc (2 * k)))"
      using U k unfolding eq(1) [OF r(1) [OF k] r(2) [OF k]] by (metis r(3,4))
    show "snd (edgeEndpoints words (nodeMask c) (order ! Suc (2 * k))) =
        snd (edgeEndpoints words (nodeMask c) (order ! (2 * (Suc k mod m))))"
      using V k unfolding eq(2) [OF r(2) [OF k] r(1) [OF s]] by (metis r(3,4) s)
  next
    show "inj_on (\<lambda>k. fst (edgeEndpoints words (nodeMask c) (order ! (2 * k)))) {..<m}"
      using inj(1) unfolding inj_on_def by (metis eq(1) lessThan_iff r(1,3))
    show "inj_on (\<lambda>k. snd (edgeEndpoints words (nodeMask c) (order ! Suc (2 * k)))) {..<m}"
      using inj(2) unfolding inj_on_def by (metis eq(2) lessThan_iff r(2,4))
  qed
qed

section \<open>The initial bit sets\<close>

lemma newBitset_room: "unat n < 2 ^ 63 \<Longrightarrow> unat n \<le> 64 * length (newBitset n)"
proof -
  assume "unat n < 2 ^ 63"
  then have "unat (n + 63) = unat n + 63" by (subst unat_add_lem [THEN iffD1]) simp_all
  then have "length (newBitset n) = (unat n + 63) div 64" by (simp add: newBitset_def unat_div)
  then show ?thesis by simp
qed

lemma full_bitset: "unat i < 64 * length b \<Longrightarrow> bitset_get (map (\<lambda>_. - 1) b) i"
  by (auto simp: bitset_get_bit)

lemma room_initial:
  assumes "normalize c = Inr c"
  shows "room_ok (2 ^ Suc (unat (EdgeBits c))) k (edgeEndpoints words (nodeMask c)) (map (\<lambda>_. - 1) (newBitset (ucast k)))
    (newBitset (push_bit (unat (EdgeBits c)) 2), newBitset (push_bit (unat (EdgeBits c)) 2))"
proof -
  let ?b = "unat (EdgeBits c)"
  have b: "?b \<le> 31" using normalize_bounds [OF assms] by simp
  have "unat k < 2 ^ 32" using unsigned_less [of k] by simp
  then have k: "unat k \<le> 64 * length (newBitset (ucast k))" using newBitset_room [of "ucast k"] by (simp add: unat_ucast_u32)
  have p: "(2 :: nat) ^ Suc ?b \<le> 2 ^ 32" by (rule power_increasing) (use b in simp_all)
  have "push_bit ?b (2 :: nat) = 2 ^ Suc ?b" "unat (2 :: u64) = 2" by (simp_all add: push_bit_eq_mult)
  moreover have "take_bit 64 ((2 :: nat) ^ Suc ?b) = 2 ^ Suc ?b" using p by (intro take_bit_nat_eq_self) simp
  ultimately have "unat (push_bit ?b 2 :: u64) = 2 ^ Suc ?b" unfolding unsigned_push_bit_eq by simp
  then have "2 ^ Suc ?b \<le> 64 * length (newBitset (push_bit ?b 2))" using newBitset_room [of "push_bit ?b 2"] p by simp
  then show ?thesis using k bits_below endpoint_bits [OF assms] by (simp add: room_ok_def del: power_Suc)
qed

section \<open>Trimming and the peel together\<close>

lemma collectSurvivors_labeled:
  "collectSurvivors alive k endpoints = map (labeled endpoints) (filter (\<lambda>n. bitset_get alive (ucast n)) (nonces_below k))"
  by (simp add: collectSurvivors_def labeled_def split: prod.splits)

lemma core_core_edges:
  assumes "core endpoints C" "C \<subseteq> set nonces" "distinct nonces"
  shows "core_edges (map (labeled endpoints) nonces) {i. i < length nonces \<and> nonces ! i \<in> C}"
  unfolding core_edges_def
proof (intro conjI ballI)
  fix i x assume "i \<in> {i. i < length nonces \<and> nonces ! i \<in> C}" and x: "x \<in> set (ends (map (labeled endpoints) nonces ! i))"
  then have i: "i < length nonces" "nonces ! i \<in> C" by simp_all
  then have "x = fst (endpoints (nonces ! i)) \<or> x = snd (endpoints (nonces ! i))" using x by auto
  then obtain n where n: "n \<in> C" "n \<noteq> nonces ! i" "x = fst (endpoints n) \<or> x = snd (endpoints n)"
    using assms(1) i(2) unfolding core_def by metis
  then obtain j where "j < length nonces" "nonces ! j = n" using assms(2) by (metis in_set_conv_nth subsetD)
  then show "\<exists>j\<in>{i. i < length nonces \<and> nonces ! i \<in> C}. j \<noteq> i \<and> x \<in> set (ends (map (labeled endpoints) nonces ! j))"
    using n by (intro bexI [of _ j]) auto
qed auto

text \<open>What is left after the peel, whatever the order of the queue: the search runs on distinct nonces, and no nonce of
  a core is lost.\<close>

lemma FindProof_search:
  assumes c: "normalize cfg = Inr c" and words: "seedWords seed = Inr words"
  defines "endpoints \<equiv> edgeEndpoints words (nodeMask c)"
  obtains nonces removed where
    "FindProof target range_order cfg seed k =
       (case search_survivors c seed (map (labeled endpoints) nonces) (touching (map (labeled endpoints) nonces)) removed of
          None \<Rightarrow> Inl ErrNoSolution | Some proof \<Rightarrow> Inr proof)"
    "distinct nonces" "\<forall>n\<in>set nonces. n < k"
    "\<And>C. core endpoints C \<Longrightarrow> C \<subseteq> {n. n < k} \<Longrightarrow>
       C \<subseteq> set nonces \<and> (\<forall>i<length nonces. nonces ! i \<in> C \<longrightarrow> \<not> removed ! i)"
proof -
  note b = normalize_bounds [OF c]
  define alive where "alive = trim_rounds maxTrimRounds target k endpoints (map (\<lambda>_. - 1) (newBitset (ucast k)))
    (newBitset (push_bit (unat (EdgeBits c)) 2), newBitset (push_bit (unat (EdgeBits c)) 2)) (ucast k)"
  define nonces where "nonces = filter (\<lambda>n. bitset_get alive (ucast n)) (nonces_below k)"
  let ?s = "map (labeled endpoints) nonces"
  have n: "distinct nonces" "\<forall>n\<in>set nonces. n < k" by (simp_all add: nonces_def)
  have ne: "\<forall>e\<in>set ?s. edge_u e \<noteq> edge_v e" using endpoint_tags by (auto simp: endpoints_def)
  define degs where "degs = (\<lambda>x. int (length (touching ?s x)))"
  have live0: "live ?s (replicate (length nonces) False) x = touching ?s x" for x
    unfolding live_def touching_def filter_filter by (intro filter_cong) simp_all
  define queue where "queue = filter (\<lambda>node. degs node = 1) (range_order (degree_keys ?s))"
  note keeps = peel_loop_keeps [OF ne _ refl, where queue = queue and degrees = degs and removed = "replicate (length ?s) False"]
  have "\<exists>r. peel_loop ?s (touching ?s) queue degs (replicate (length ?s) False) = Inr r \<and> length r = length ?s \<and> (\<forall>i\<in>{}. \<not> r ! i)"
    by (rule keeps) (simp_all add: core_edges_def degs_def live0)
  then obtain removed where r: "peel_loop ?s (touching ?s) queue degs (replicate (length ?s) False) = Inr removed" by blast
  have find: "FindProof target range_order cfg seed k =
       (case search_survivors c seed ?s (touching ?s) removed of None \<Rightarrow> Inl ErrNoSolution | Some proof \<Rightarrow> Inr proof)"
    using r unfolding queue_def
    by (simp add: FindProof_def c words Let_def build_maps_touching [OF ne] degs_def collectSurvivors_labeled
        flip: endpoints_def alive_def nonces_def)
  have "C \<subseteq> set nonces \<and> (\<forall>i<length nonces. nonces ! i \<in> C \<longrightarrow> \<not> removed ! i)"
    if C: "core endpoints C" "C \<subseteq> {n. n < k}" for C
  proof -
    note room = room_initial [OF b(1), of k words, folded endpoints_def]
    have "\<forall>n\<in>C. bitset_get (map (\<lambda>_. - 1) (newBitset (ucast k))) (ucast n)"
      using room C(2) by (auto simp: room_ok_def word_less_nat_alt unat_ucast_u32 intro!: full_bitset)
    from trim_rounds_keep [OF C this room] have sub: "C \<subseteq> set nonces"
      using C(2) by (auto simp: nonces_def alive_def)
    have "\<exists>r. peel_loop ?s (touching ?s) queue degs (replicate (length ?s) False) = Inr r \<and> length r = length ?s \<and>
        (\<forall>i\<in>{i. i < length nonces \<and> nonces ! i \<in> C}. \<not> r ! i)"
      by (rule keeps [OF core_core_edges [OF C(1) sub n(1)]]) (simp_all add: degs_def live0)
    then show ?thesis using sub r by auto
  qed
  with that [OF find n] show ?thesis by blast
qed

section \<open>The search\<close>

lemma mset_rotate1_path: "mset (map (\<lambda>j. xs ! (j mod length xs)) [1..<Suc (length xs)]) = mset xs"
proof -
  have "map (\<lambda>j. xs ! (j mod length xs)) [1..<Suc (length xs)] = rotate1 xs"
    by (intro nth_equalityI) (simp_all add: nth_rotate1 nth_upt del: upt_Suc)
  moreover have "mset (rotate1 xs) = mset xs" by (cases xs) simp_all
  ultimately show ?thesis by metis
qed

lemma search_survivors_complete:
  assumes cyc: "edge_cycle endpoints order m" and dist: "distinct order" and size: "int (length order) = ProofSize c"
    and tags: "\<And>n n'. fst (endpoints n) \<noteq> snd (endpoints n')"
    and sub: "set order \<subseteq> set nonces" and kept: "\<forall>i<length nonces. nonces ! i \<in> set order \<longrightarrow> \<not> removed ! i"
    and ok: "Verify c seed (sort order) = Some (Inr ())"
  shows "search_survivors c seed (map (labeled endpoints) nonces) (touching (map (labeled endpoints) nonces)) removed \<noteq> None"
proof -
  let ?s = "map (labeled endpoints) nonces"
  have m: "m > 0" "length order = 2 * m" using cyc by (auto simp: edge_cycle_def)
  have "\<forall>n\<in>set order. \<exists>i<length nonces. nonces ! i = n" using sub by (metis in_set_conv_nth subsetD)
  then obtain idx where idx: "\<And>n. n \<in> set order \<Longrightarrow> idx n < length nonces \<and> nonces ! idx n = n" by metis
  define ix where "ix = map (\<lambda>j. idx (order ! (j mod (2 * m)))) [2..<Suc (2 * m)]"
  define first where "first = order ! 1"
  have first: "first \<in> set order" using m by (simp add: first_def)
  have trail: "trail ?s removed (fst (endpoints first)) (snd (endpoints first)) ((replicate (length ?s) False)[idx first := True]) {} ix"
    unfolding first_def ix_def using idx kept by (intro edge_cycle_trail [OF cyc dist tags]) auto
  have "length ix = nat (ProofSize c) - 1" using m size [symmetric] by (simp add: ix_def del: upt_Suc)
  have nonce: "edge_nonce (?s ! idx n) = n" if "n \<in> set order" for n using idx [OF that] by simp
  have "[first] @ map (\<lambda>i. edge_nonce (?s ! i)) ix = map (\<lambda>j. order ! (j mod length order)) [1..<Suc (length order)]"
  proof -
    have "[1..<Suc (2 * m)] = 1 # [2..<Suc (2 * m)]" using m(1) upt_conv_Cons [of 1 "Suc (2 * m)"] by (simp only: Suc_1)
    moreover have "1 mod (2 * m) = 1" using m(1) by simp
    moreover have "edge_nonce (?s ! idx (order ! (j mod (2 * m)))) = order ! (j mod (2 * m))" for j
      using nonce m by simp
    ultimately show ?thesis using m(2) by (simp add: ix_def first_def del: upt_Suc)
  qed
  then have "sort ([first] @ map (\<lambda>i. edge_nonce (?s ! i)) ix) = sort order"
    using mset_rotate1_path [of order] by (metis mset_sort properties_for_sort sorted_sort)
  then have "dfs (length ix) c seed ?s (touching ?s) removed (fst (endpoints first)) (snd (endpoints first))
      ((replicate (length ?s) False)[idx first := True]) {} [first] \<noteq> None"
    using ok by (intro dfs_complete [OF trail]) simp
  then show ?thesis
    unfolding search_survivors_def \<open>length ix = nat (ProofSize c) - 1\<close>
    using idx [OF first] kept first by (intro first_some_ex [of "idx first"]) auto
qed

lemma search_survivors_sound:
  assumes "search_survivors c seed s (touching s) removed = Some p"
  shows "Verify c seed p = Some (Inr ()) \<and> set p \<subseteq> edge_nonce ` set s"
proof -
  from first_some_Some [OF assms [unfolded search_survivors_def]] obtain i where "i < length s" and
    "dfs (nat (ProofSize c) - 1) c seed s (touching s) removed (edge_u (s ! i)) (edge_v (s ! i))
      ((replicate (length s) False)[i := True]) {} [edge_nonce (s ! i)] = Some p"
    by (auto simp: Let_def split: if_splits)
  then show ?thesis using dfs_sound by fastforce
qed

section \<open>Properties\<close>

lemma Verify_normalized: "normalize cfg = Inr c \<Longrightarrow> Verify cfg seed p = Verify c seed p"
  using normalize_bounds(1) [of cfg c] by (simp add: Verify_def)

lemma FindProof_complete_ok:
  assumes c: "normalize cfg = Inr c" and words: "seedWords seed = Inr words"
    and ok: "Verify cfg seed p = Some (Inr ())" "\<forall>n\<in>set p. n < k"
  shows "FindProof target range_order cfg seed k \<noteq> Inl ErrNoSolution"
proof -
  obtain order where p: "int (length p) = ProofSize c" "sorted_wrt (<) p" "\<forall>n\<in>set p. unat n < 2 ^ unat (EdgeBits c)"
    and o: "mset order = mset p" "simple_cycle (map (graph_edge c seed) order)"
    using ok(1) Verify_spec [of cfg seed p] c by auto
  have order: "set order = set p" "length order = length p" "sort order = p" "distinct order"
    using o(1) p(2) by (auto dest: mset_eq_setD mset_eq_length mset_eq_imp_distinct_iff simp: strict_sorted_iff intro: properties_for_sort)
  obtain m where cyc: "edge_cycle (edgeEndpoints words (nodeMask c)) order m"
    using simple_cycle_edge_cycle [OF normalize_bounds(1) [OF c] words _ o(2)] p(3) order(1) by auto
  obtain nonces removed where f: "FindProof target range_order cfg seed k =
       (case search_survivors c seed (map (labeled (edgeEndpoints words (nodeMask c))) nonces)
          (touching (map (labeled (edgeEndpoints words (nodeMask c))) nonces)) removed of
          None \<Rightarrow> Inl ErrNoSolution | Some proof \<Rightarrow> Inr proof)"
    and keep: "\<And>C. core (edgeEndpoints words (nodeMask c)) C \<Longrightarrow> C \<subseteq> {n. n < k} \<Longrightarrow>
       C \<subseteq> set nonces \<and> (\<forall>i<length nonces. nonces ! i \<in> C \<longrightarrow> \<not> removed ! i)"
    using FindProof_search [OF c words, of target range_order k] by metis
  have "core (edgeEndpoints words (nodeMask c)) (set order)" by (rule edge_cycle_core [OF cyc order(4)])
  then have "set order \<subseteq> set nonces \<and> (\<forall>i<length nonces. nonces ! i \<in> set order \<longrightarrow> \<not> removed ! i)"
    using keep ok(2) order(1) by auto
  moreover have "Verify c seed (sort order) = Some (Inr ())" using ok(1) order(3) Verify_normalized [OF c] by simp
  moreover have "int (length order) = ProofSize c" using p(1) order(2) by simp
  ultimately have "search_survivors c seed (map (labeled (edgeEndpoints words (nodeMask c))) nonces)
      (touching (map (labeled (edgeEndpoints words (nodeMask c))) nonces)) removed \<noteq> None"
    by (intro search_survivors_complete [OF cyc order(4) _ endpoint_tags]) blast+
  then show ?thesis unfolding f by (auto split: option.splits)
qed

lemma FindProof_cases:
  "case FindProof target range_order cfg seed k of
     Inr p \<Rightarrow> Verify cfg seed p = Some (Inr ()) \<and> (\<forall>n\<in>set p. n < k)
   | Inl e \<Rightarrow> e = ErrNoSolution \<and> is_ok (normalize cfg) \<and> length seed = 32 \<or> normalize cfg = Inl e \<or>
       is_ok (normalize cfg) \<and> e = ErrInvalidSeed \<and> length seed \<noteq> 32"
proof (cases "normalize cfg")
  case (Inr c)
  show ?thesis
  proof (cases "seedWords seed")
    case (Inr words)
    obtain nonces removed where f: "FindProof target range_order cfg seed k =
         (case search_survivors c seed (map (labeled (edgeEndpoints words (nodeMask c))) nonces)
            (touching (map (labeled (edgeEndpoints words (nodeMask c))) nonces)) removed of
            None \<Rightarrow> Inl ErrNoSolution | Some proof \<Rightarrow> Inr proof)"
      and n: "\<forall>n\<in>set nonces. n < k"
      using FindProof_search [OF \<open>normalize cfg = Inr c\<close> Inr, of target range_order k] by metis
    have "length seed = 32" using Inr by (auto simp: seedWords_def split: if_splits)
    then show ?thesis unfolding f
      using search_survivors_sound n Verify_normalized [OF \<open>normalize cfg = Inr c\<close>] \<open>normalize cfg = Inr c\<close>
      by (fastforce split: option.splits)
  qed (use Inr in \<open>auto simp: FindProof_def seedWords_def Let_def split: if_splits\<close>)
qed (simp add: FindProof_def)

text \<open>C18: the search is sound and complete within its bound on nonces, for any survivor target and any order of the
  range over the map of degrees: what it returns verifies and has only nonces below the bound; when it reports that
  there is no solution, no list of nonces below the bound verifies; its other errors are those of the
  configuration and of the seed, and it never panics.\<close>

theorem FindProof_complete:
  "case FindProof target range_order cfg seed maxNonce of
     Inr p \<Rightarrow> Verify cfg seed p = Some (Inr ()) \<and> (\<forall>n\<in>set p. n < maxNonce)
   | Inl e \<Rightarrow>
       if is_ok (normalize cfg) \<and> length seed = 32
       then e = ErrNoSolution \<and> \<not> (\<exists>p. Verify cfg seed p = Some (Inr ()) \<and> (\<forall>n\<in>set p. n < maxNonce))
       else e = ErrInvalidSeed \<or> normalize cfg = Inl e"
proof (cases "FindProof target range_order cfg seed maxNonce")
  case (Inl e)
  have "\<not> (\<exists>p. Verify cfg seed p = Some (Inr ()) \<and> (\<forall>n\<in>set p. n < maxNonce))"
    if "is_ok (normalize cfg)" "length seed = 32" "e = ErrNoSolution"
  proof -
    obtain c words where "normalize cfg = Inr c" "seedWords seed = Inr words"
      using \<open>is_ok (normalize cfg)\<close> \<open>length seed = 32\<close> by (auto simp: is_ok_iff seedWords_def Let_def)
    then show ?thesis using FindProof_complete_ok \<open>e = ErrNoSolution\<close> Inl by blast
  qed
  then show ?thesis
    using FindProof_cases [where target = target and range_order = range_order and cfg = cfg and seed = seed and k = maxNonce] normalize_error [of cfg e] unfolding Inl
    by (auto simp: is_ok_iff)
qed (use FindProof_cases [where target = target and range_order = range_order and cfg = cfg and seed = seed and k = maxNonce] in simp)

text \<open>It does find the cycle of the sample graph.\<close>

theorem FindProof_complete_witness: "\<exists>p. FindProof bulkTrimSurvivorTarget rev sample_config sample_seed 2 = Inr p"
proof (cases "FindProof bulkTrimSurvivorTarget rev sample_config sample_seed 2")
  case (Inl e)
  have "\<exists>p. Verify sample_config sample_seed p = Some (Inr ()) \<and> (\<forall>n\<in>set p. n < 2)"
    using sample_verifies by (intro exI [of _ "[0, 1]"]) simp
  moreover have "is_ok (normalize sample_config)" "length sample_seed = 32"
    by (simp_all add: sample_normalize) (simp add: sample_seed_def)
  ultimately show ?thesis
    using FindProof_complete [where target = bulkTrimSurvivorTarget and range_order = rev and cfg = sample_config
      and seed = sample_seed and maxNonce = 2] unfolding Inl by auto
qed simp

end
