(* ===== verification/MeanMiner.thy ===== *)
theory MeanMiner
  imports MatrixJson GoStrings
begin

text \<open>
  Package \<open>meanminer\<close> (\<open>cuckoo/meanminer/meanminer.go\<close>): running the reference solver as a process. The path of the
  binary, the file system and the process are parameters, as they are in the source.
\<close>

definition binaryName :: bytes where "binaryName = str ''cuckoo_solve_29_42''"

text \<open>The result of \<open>stat\<close>: whether the path is a directory.\<close>

definition availableWithDeps :: "bytes result \<Rightarrow> (bytes \<Rightarrow> bool result) \<Rightarrow> bool" where
  "availableWithDeps binaryPath stat =
     (case binaryPath of
        Inl _ \<Rightarrow> False
      | Inr bin \<Rightarrow> (case stat bin of Inl _ \<Rightarrow> False | Inr isDir \<Rightarrow> \<not> isDir))"

definition parse_nonce :: "bytes \<Rightarrow> u32 result" where
  "parse_nonce f =
     (case parse_uint (2 ^ 32 - 1) f of
        Inl _ \<Rightarrow> Inl (ErrCommand (str ''meanminer: bad nonce'')) | Inr v \<Rightarrow> Inr (of_nat v))"

text \<open>The loop over the lines of the output.\<close>

fun read_output :: "bytes list \<Rightarrow> (u32 list \<times> bool) result" where
  "read_output [] = Inl (ErrCommand (str ''meanminer: unexpected output''))"
| "read_output (line # rest) =
     (if TrimSpace line = str ''NOSOL'' then Inr ([], False)
      else if TrimSpace line = str ''SOLVED''
      then
        case rest of
          [] \<Rightarrow> Inl (ErrCommand (str ''meanminer: missing proof line in output''))
        | proof_line # _ \<Rightarrow>
            (case sequence_results (map parse_nonce (Fields proof_line)) of
               Inl e \<Rightarrow> Inl e | Inr nonces \<Rightarrow> Inr (nonces, True))
      else read_output rest)"

definition solver_args :: "bytes \<Rightarrow> int \<Rightarrow> bytes list" where
  "solver_args seed nthreads =
     map (\<lambda>i. format_hex (unat (le_word (take 8 (drop (i * 8) seed)) :: u64))) [0..<4] @
     (if nthreads > 0 then [format_int nthreads] else [])"

definition solveWithDeps ::
  "bytes \<Rightarrow> int \<Rightarrow> bytes result \<Rightarrow> (bytes \<Rightarrow> bytes list \<Rightarrow> bytes result) \<Rightarrow> (u32 list \<times> bool) result" where
  "solveWithDeps seed nthreads binaryPath run =
     (if length seed \<noteq> 32 then Inl (ErrCommand (str ''meanminer: seed must be 32 bytes''))
      else
        case binaryPath of
          Inl e \<Rightarrow> Inl e
        | Inr bin \<Rightarrow>
            (case run bin (solver_args seed nthreads) of
               Inl _ \<Rightarrow> Inl (ErrCommand (str ''meanminer: running''))
             | Inr out \<Rightarrow> read_output (SplitByte 10 (TrimSpace out))))"

text \<open>The package level: the file of the package as the runtime reports it, path functions, \<open>os.Stat\<close> and the process.\<close>

record machine =
  runtimeCaller :: "bytes option"
  PathDir :: "bytes \<Rightarrow> bytes"
  PathJoin :: "bytes \<Rightarrow> bytes \<Rightarrow> bytes"
  Stat :: "bytes \<Rightarrow> bool result"
  runCommand :: "bytes \<Rightarrow> bytes list \<Rightarrow> bytes result"

definition BinaryPath :: "machine \<Rightarrow> bytes result" where
  "BinaryPath m =
     (case runtimeCaller m of
        None \<Rightarrow> Inl (ErrCommand (str ''meanminer: cannot resolve package directory''))
      | Some path \<Rightarrow> Inr (PathJoin m (PathDir m path) binaryName))"

definition Available :: "machine \<Rightarrow> bool" where
  "Available m = availableWithDeps (BinaryPath m) (Stat m)"

definition Solve :: "machine \<Rightarrow> bytes \<Rightarrow> int \<Rightarrow> (u32 list \<times> bool) result" where
  "Solve m seed nthreads = solveWithDeps seed nthreads (BinaryPath m) (runCommand m)"

section \<open>The protocol of the solver\<close>

text \<open>What the solver prints, as \<open>cuckoo/meanminer/csrc/solve_main.cpp\<close> documents: the nonces of a cycle, or that
  there is none.\<close>

definition solver_output :: "u32 list option \<Rightarrow> bytes" where
  "solver_output sol =
     (case sol of
        None \<Rightarrow> str ''NOSOL'' @ [10]
      | Some nonces \<Rightarrow> str ''SOLVED'' @ [10] @ join_space (map (\<lambda>n. format_uint (unat n)) nonces) @ [10])"

lemma format_uint_plain: "\<forall>b\<in>set (format_uint n). plain_byte b" "format_uint n \<noteq> []"
  using dec_digits_range [of _ n] by (force simp: format_uint_def plain_byte_def word_less_nat_alt word_le_nat_alt)+

lemma parse_nonce_format: "parse_nonce (format_uint (unat n)) = Inr n"
proof -
  have "unat n < 2 ^ 32" using unsigned_less [of n] by simp
  then have "parse_uint (2 ^ 32 - 1) (format_uint (unat n)) = Inr (unat n)"
    by (simp add: parse_uint_def format_uint_def parse_dec_digits)
  then show ?thesis by (simp add: parse_nonce_def)
qed

lemma join_space_words:
  "\<forall>w\<in>set ws. w \<noteq> [] \<and> (\<forall>b\<in>set w. plain_byte b) \<Longrightarrow> ws \<noteq> [] \<Longrightarrow>
   join_space ws \<noteq> [] \<and> plain_byte (last (join_space ws)) \<and> 10 \<notin> set (join_space ws)"
  by (induction ws rule: join_space.induct) (auto simp: plain_byte_def)

text \<open>The parser inverts the printer: the wrapper returns what the solver found.\<close>

lemma solveWithDeps_protocol:
  assumes "length seed = 32" "run bin (solver_args seed nthreads) = Inr (solver_output sol)" "sol \<noteq> Some []"
  shows "solveWithDeps seed nthreads (Inr bin) run = Inr (case sol of None \<Rightarrow> ([], False) | Some nonces \<Rightarrow> (nonces, True))"
proof (cases sol)
  case None
  have t: "TrimSpace (str ''NOSOL'' @ [10]) = str ''NOSOL''" "TrimSpace (str ''NOSOL'') = str ''NOSOL''"
    by (rule TrimSpace_plain; simp add: plain_byte_def)+
  have "SplitByte 10 (str ''NOSOL'') = [str ''NOSOL'']" by (rule SplitByte_word) simp
  then show ?thesis using assms(1,2) None t by (simp add: solveWithDeps_def solver_output_def del: str_simps)
next
  case (Some nonces)
  define ws where "ws = map (\<lambda>n. format_uint (unat n)) nonces"
  have ws: "\<forall>w\<in>set ws. w \<noteq> [] \<and> (\<forall>b\<in>set w. plain_byte b)" "ws \<noteq> []"
    using format_uint_plain assms(3) Some by (auto simp: ws_def)
  note j = join_space_words [OF ws]
  have t: "TrimSpace (str ''SOLVED'') = str ''SOLVED''"
    "TrimSpace ((str ''SOLVED'' @ [10] @ join_space ws) @ [10]) = str ''SOLVED'' @ [10] @ join_space ws"
    by (rule TrimSpace_plain; use j in \<open>simp add: plain_byte_def\<close>)+
  have "SplitByte 10 (str ''SOLVED'' @ 10 # join_space ws) = str ''SOLVED'' # SplitByte 10 (join_space ws)"
    by (rule SplitByte_append) simp
  then have s: "SplitByte 10 (str ''SOLVED'' @ [10] @ join_space ws) = [str ''SOLVED'', join_space ws]"
    using j SplitByte_word [of 10 "join_space ws"] by simp
  have n: "TrimSpace (str ''SOLVED'') \<noteq> str ''NOSOL''" unfolding t(1) by simp
  have "sequence_results (map parse_nonce (Fields (join_space ws))) = Inr nonces"
    unfolding Fields_join_space [OF ws(1)] by (simp add: ws_def o_def parse_nonce_format)
  then have "read_output [str ''SOLVED'', join_space ws] = Inr (nonces, True)"
    using t(1) n by (simp del: str_simps)
  moreover have "solver_output sol = (str ''SOLVED'' @ [10] @ join_space ws) @ [10]" by (simp add: solver_output_def Some ws_def)
  ultimately show ?thesis using assms(1,2) t(2) s Some by (simp add: solveWithDeps_def del: str_simps append_assoc append_Cons append_Nil)
qed

text \<open>The command line that the usage line of the program documents: the four 64-bit words of the seed in hexadecimal
  digits, without a bound on leading zeros, and possibly the number of threads in decimal.\<close>

definition hex_number :: "u64 \<Rightarrow> bytes \<Rightarrow> bool" where
  "hex_number k arg \<longleftrightarrow>
     (\<exists>ds. ds \<noteq> [] \<and> (\<forall>d\<in>set ds. d < 16) \<and> arg = map (\<lambda>d. str ''0123456789abcdef'' ! d) ds \<and>
        foldl (\<lambda>v d. 16 * v + d) 0 ds = unat k)"

definition solver_command :: "u64 list \<Rightarrow> int \<Rightarrow> bytes list \<Rightarrow> bool" where
  "solver_command ks nthreads args \<longleftrightarrow>
     (\<exists>hs. list_all2 hex_number ks hs \<and> args = hs @ (if nthreads > 0 then [format_int nthreads] else []))"

lemma hex_digit_str: "d < 16 \<Longrightarrow> hex_digit d = str ''0123456789abcdef'' ! d"
proof -
  have "\<forall>d\<in>set [0..<16]. hex_digit d = str ''0123456789abcdef'' ! d" by (simp add: upt_conv_Cons hex_digit_def)
  then show "d < 16 \<Longrightarrow> hex_digit d = str ''0123456789abcdef'' ! d" by simp
qed

lemma format_hex_digits:
  "\<exists>ds. ds \<noteq> [] \<and> (\<forall>d\<in>set ds. d < 16) \<and> format_hex n = map hex_digit ds \<and> foldl (\<lambda>v d. 16 * v + d) 0 ds = n"
proof (induction n rule: format_hex.induct)
  case (1 n)
  show ?case
  proof (cases "n < 16")
    case True
    then show ?thesis by (intro exI [of _ "[n]"]) (simp add: format_hex.simps [of n])
  next
    case False
    then obtain ds where "ds \<noteq> []" "\<forall>d\<in>set ds. d < 16" "format_hex (n div 16) = map hex_digit ds"
      "foldl (\<lambda>v d. 16 * v + d) 0 ds = n div 16" using 1 by blast
    then show ?thesis using False by (intro exI [of _ "ds @ [n mod 16]"]) (auto simp: format_hex.simps [of n])
  qed
qed

lemma hex_number_format: "hex_number k (format_hex (unat k))"
proof -
  obtain ds where "ds \<noteq> []" "\<forall>d\<in>set ds. d < 16" "format_hex (unat k) = map hex_digit ds"
    "foldl (\<lambda>v d. 16 * v + d) 0 ds = unat k" using format_hex_digits by blast
  then show ?thesis unfolding hex_number_def by (intro exI [of _ ds]) (simp add: hex_digit_str del: str_simps)
qed

lemma solver_args_command:
  assumes "length ks = 4"
  shows "solver_command ks nthreads (solver_args (concat (map (le_bytes 8) ks)) nthreads)"
proof -
  obtain a b c d where ks: "ks = [a, b, c, d]" using assms by (auto simp: length_Suc_conv numeral_eq_Suc)
  have "le_word (le_bytes 8 w) = w" for w :: u64 by (rule le_word_le_bytes) simp
  then show ?thesis
    unfolding solver_command_def solver_args_def ks
    by (intro exI [of _ "map (\<lambda>k. format_hex (unat k)) [a, b, c, d]"]) (simp add: upt_conv_Cons hex_number_format)
qed

text \<open>An available solver that answers in its protocol is called with the words of the seed and understood: the file beside
  the source of the package is the one that is run.\<close>

lemma Solve_protocol:
  assumes "runtimeCaller m = Some source" "length ks = 4" "sol \<noteq> Some []"
    and "runCommand m (PathJoin m (PathDir m source) (str ''cuckoo_solve_29_42''))
      (solver_args (concat (map (le_bytes 8) ks)) nthreads) = Inr (solver_output sol)"
  shows "Solve m (concat (map (le_bytes 8) ks)) nthreads =
    Inr (case sol of None \<Rightarrow> ([], False) | Some nonces \<Rightarrow> (nonces, True))"
proof -
  have "BinaryPath m = Inr (PathJoin m (PathDir m source) (str ''cuckoo_solve_29_42''))"
    using assms(1) by (simp add: BinaryPath_def binaryName_def del: str_simps)
  moreover have "length (concat (map (le_bytes 8) ks)) = 32"
    using assms(2) by (simp add: length_concat o_def sum_list_triv)
  ultimately show ?thesis using solveWithDeps_protocol [where run = "runCommand m", OF _ assms(4,3)] by (simp add: Solve_def)
qed

end
