(* ===== verification/Minting.thy ===== *)
theory Minting
  imports PrivateKey CuckooSearch MeanMiner
begin

text \<open>
  The minting of server keys: the functions of \<open>cmd/serverkey-demo\<close> and \<open>cmd/minting-vectors\<close> that configure a
  profile, search a proof of work and report it, and those of \<open>cmd/cuckoo-scan\<close> and \<open>cmd/serverkey-keytool\<close> around the
  same packages. The reference solver, the environment and the files are parameters. The messages on standard error are
  left out.
\<close>

section \<open>Profiles of the demonstration command\<close>

definition demoPoWProfileNote :: bytes where
  "demoPoWProfileNote = str ''demo-only low-difficulty Cuckoo profile; not valid for production key minting''"

definition maxProtocolMintingNonce :: u64 where "maxProtocolMintingNonce = push_bit 32 1 - 1"

record pow_profile =
  PowAlgorithm :: bytes
  PowConfig :: config
  Demo :: bool
  Note :: bytes

definition validateMintingNonceRange :: "u64 \<Rightarrow> u64 \<Rightarrow> unit result" where
  "validateMintingNonceRange start limit =
     (if start > maxProtocolMintingNonce \<or> limit > maxProtocolMintingNonce + 1 \<or> start > limit
      then Inl (ErrCommand (str ''invalid graph nonce range'')) else Inr ())"

text \<open>The profile that a name and the flags describe.\<close>

definition requested_profile :: "bytes \<Rightarrow> u64 \<Rightarrow> int \<Rightarrow> bytes \<Rightarrow> bool \<Rightarrow> registry \<Rightarrow> pow_profile result" where
  "requested_profile name edgeBits proofSize algorithm demo profiles =
     (if name = str ''demo'' then
        Inr \<lparr>PowAlgorithm = str ''demo.cuckoo-cycle-'' @ format_int proofSize @ str ''-'' @ format_uint (unat edgeBits) @
               str ''-sha3-256-cogen'',
             PowConfig = \<lparr>EdgeBits = edgeBits, ProofSize = proofSize\<rparr>, Demo = True, Note = demoPoWProfileNote\<rparr>
      else if name = str ''production'' then
        Inr \<lparr>PowAlgorithm = ProductionPoW, PowConfig = ProductionConfig profiles, Demo = False, Note = []\<rparr>
      else if name = str ''custom'' then
        if algorithm = [] then Inl (ErrCommand (str ''-pow-algorithm is required with -pow-profile custom''))
        else if algorithm = ProductionProfile then Inl (ErrCommand (str ''-pow-algorithm is reserved for production profile''))
        else Inr \<lparr>PowAlgorithm = algorithm, PowConfig = \<lparr>EdgeBits = edgeBits, ProofSize = proofSize\<rparr>, Demo = demo,
                   Note = (if demo then demoPoWProfileNote else [])\<rparr>
      else Inl (ErrCommand (str ''unknown -pow-profile'')))"

definition configurePoWProfile ::
  "bytes \<Rightarrow> u64 \<Rightarrow> int \<Rightarrow> bytes \<Rightarrow> bool \<Rightarrow> registry \<Rightarrow> pow_profile result \<times> registry" where
  "configurePoWProfile name edgeBits proofSize algorithm demo profiles =
     (case requested_profile name edgeBits proofSize algorithm demo profiles of
        Inl e \<Rightarrow> (Inl e, profiles)
      | Inr prof \<Rightarrow>
          if PowAlgorithm prof \<noteq> ProductionProfile \<and> \<not> IsRegisteredProfile profiles (PowAlgorithm prof)
          then
            case RegisterProfile (PowAlgorithm prof) (PowConfig prof) 16 profiles of
              (Inl e, profiles') \<Rightarrow> (Inl e, profiles')
            | (Inr _, profiles') \<Rightarrow> (Inr prof, profiles')
          else (Inr prof, profiles))"

definition validateServerKeyProfile :: "registry \<Rightarrow> pow_profile \<Rightarrow> unit result" where
  "validateServerKeyProfile profiles prof =
     (if PowAlgorithm prof = [] then Inl (ErrCommand (str ''invalid profile: algorithm name cannot be empty''))
      else if \<not> IsRegisteredProfile profiles (PowAlgorithm prof) then Inl (ErrCommand (str ''unregistered server-key profile''))
      else Inr ())"

section \<open>The search for a minting proof\<close>

text \<open>One graph: a proof, or \<open>None\<close> when the loop goes on with the next nonce. \<open>miner\<close> is \<open>meanminer.Solve\<close> when the
  solver is available.\<close>

definition solve_graph ::
  "(bytes \<Rightarrow> int \<Rightarrow> (u32 list \<times> bool) result) option \<Rightarrow> u64 \<Rightarrow> (u64 list \<Rightarrow> u64 list) \<Rightarrow> config \<Rightarrow> bytes \<Rightarrow> u32 \<Rightarrow>
   u32 list option result" where
  "solve_graph miner target range_order cfg seed maxNonce =
     (case (if EdgeBits cfg = 29 \<and> ProofSize cfg = 42 then miner else None) of
        Some solve \<Rightarrow>
          (case solve seed 0 of
             Inl e \<Rightarrow> Inl e
           | Inr (p, ok) \<Rightarrow> if \<not> ok then Inr None else Inr (Some (sort p)))
      | None \<Rightarrow>
          (case FindProof target range_order cfg seed maxNonce of
             Inl e \<Rightarrow> if e = ErrNoSolution then Inr None else Inl e
           | Inr p \<Rightarrow> Inr (Some p)))"

fun mint_loop ::
  "registry \<Rightarrow> (bytes \<Rightarrow> bytes) \<Rightarrow> (bytes \<Rightarrow> u32 list option result) \<Rightarrow> bytes \<Rightarrow> bytes \<Rightarrow> pow_profile \<Rightarrow> u64 list \<Rightarrow>
   (minting_proof \<times> bytes) result" where
  "mint_loop profiles sha3 solve serverName publicKey prof [] = Inl ErrNoSolution"
| "mint_loop profiles sha3 solve serverName publicKey prof (nonce # nonces) =
     (if nonce > maxProtocolMintingNonce then Inl (ErrCommand (str ''graph nonce exceeds uint32 limit''))
      else
        case GraphSeed profiles sha3 publicKey serverName (PowAlgorithm prof) (ucast nonce) of
          Inl e \<Rightarrow> Inl e
        | Inr seed \<Rightarrow>
            (case solve seed of
               Inl e \<Rightarrow> Inl e
             | Inr None \<Rightarrow> mint_loop profiles sha3 solve serverName publicKey prof nonces
             | Inr (Some solution) \<Rightarrow>
                 (case verify_answer (PowConfig prof) seed solution of
                    Inl e \<Rightarrow> Inl e
                  | Inr _ \<Rightarrow>
                      let mintingProof = \<lparr>Algorithm = PowAlgorithm prof, Nonce = ucast nonce, Solution = solution\<rparr>
                      in case KeyIDBase64 profiles sha3 publicKey serverName mintingProof of
                           Inl e \<Rightarrow> Inl e
                         | Inr keyID \<Rightarrow> Inr (mintingProof, keyID))))"

text \<open>The nonces of a loop over \<open>uint64\<close> with an exclusive limit.\<close>

definition nonce_range :: "u64 \<Rightarrow> u64 \<Rightarrow> u64 list" where
  "nonce_range start limit = map of_nat [unat start..<unat limit]"

definition solveMintingPoW ::
  "registry \<Rightarrow> (bytes \<Rightarrow> bytes) \<Rightarrow> (bytes \<Rightarrow> int \<Rightarrow> (u32 list \<times> bool) result) option \<Rightarrow> u64 \<Rightarrow> (u64 list \<Rightarrow> u64 list) \<Rightarrow>
   bytes \<Rightarrow> bytes \<Rightarrow> pow_profile \<Rightarrow> u32 \<Rightarrow> u64 \<Rightarrow> u64 \<Rightarrow> (minting_proof \<times> bytes) result" where
  "solveMintingPoW profiles sha3 miner target range_order serverName publicKey prof maxNonce start limit =
     mint_loop profiles sha3 (\<lambda>seed. solve_graph miner target range_order (PowConfig prof) seed maxNonce)
       serverName publicKey prof (nonce_range start limit)"

definition serverKeyPackageSHA256 :: "(bytes \<Rightarrow> bytes) \<Rightarrow> gmap \<Rightarrow> bytes result" where
  "serverKeyPackageSHA256 sha256 obj =
     (case SigningBytes obj of Inl e \<Rightarrow> Inl e | Inr signingBytes \<Rightarrow> Inr (b64url_encode (sha256 signingBytes)))"

text \<open>A passphrase from the environment or a file; both parameters.\<close>

definition privateKeyPassphrase ::
  "(bytes \<Rightarrow> bytes option) \<Rightarrow> (bytes \<Rightarrow> bytes result) \<Rightarrow> bytes \<Rightarrow> bytes \<Rightarrow> bytes result" where
  "privateKeyPassphrase lookupEnv readFile envName fileName =
     (if envName \<noteq> [] \<and> fileName \<noteq> []
      then Inl (ErrCommand (str ''use only one of -private-key-passphrase-env or -private-key-passphrase-file''))
      else if envName \<noteq> [] then
        case lookupEnv envName of
          None \<Rightarrow> Inl (ErrCommand (str ''environment variable is not set'')) | Some passphrase \<Rightarrow> Inr passphrase
      else if fileName \<noteq> [] then
        case readFile fileName of Inl e \<Rightarrow> Inl e | Inr passphrase \<Rightarrow> Inr (TrimRight [13, 10] passphrase)
      else Inr [])"

section \<open>The demonstration command\<close>

text \<open>What the command takes from outside: the digests, the deterministic reader (SHAKE-256 of a seed), the reader of the
  system, the FN-DSA library, the primitives of the private key file, the miner, the order of maps, the conversion of
  floats, the clock in nanoseconds, the environment and the files.\<close>

record ('r, 'p) outside =
  sha3_256 :: "bytes \<Rightarrow> bytes"
  sha256_sum :: "bytes \<Rightarrow> bytes"
  deterministicReader :: "bytes \<Rightarrow> 'r"
  nil_reader :: 'r
  fndsa :: "'r fndsa_lib"
  prims :: "'p primitives"
  miner_available :: "(bytes \<Rightarrow> int \<Rightarrow> (u32 list \<times> bool) result) option"
  survivor_target :: u64
  degree_order :: "u64 list \<Rightarrow> u64 list"
  float_conv :: "f64 \<Rightarrow> u64"
  now_nanos :: int
  LookupEnv :: "bytes \<Rightarrow> bytes option"
  ReadFile :: "bytes \<Rightarrow> bytes result"

record demo_flags =
  ServerFlag :: bytes
  ValidDays :: int
  ValidUntilTS :: u64
  ProfileName :: bytes
  EdgeBitsFlag :: u64
  ProofSizeFlag :: int
  AlgorithmFlag :: bytes
  DemoProfile :: bool
  MaxNonce :: u64
  StartMintingNonce :: u64
  MaxMintingNonce :: u64
  PassphraseEnv :: bytes
  PassphraseFile :: bytes
  KeygenSeed :: bytes

record demo_output =
  out_object :: gmap
  out_keyName :: bytes
  out_keyID :: bytes
  out_proof :: minting_proof
  out_metadataDigest :: bytes
  out_packageDigest :: bytes
  out_encrypted :: "gmap option"
  out_privateKey :: bytes
  out_note :: bytes

definition edge_nonce_limit :: "pow_profile \<Rightarrow> u64 \<Rightarrow> u64" where
  "edge_nonce_limit prof maxNonce =
     (if maxNonce > EdgeMask (PowConfig prof) + 1 then EdgeMask (PowConfig prof) + 1 else maxNonce)"

text \<open>\<open>time.Now().Add(time.Duration(days) * 24 * time.Hour).UnixMilli()\<close>: the product wraps, the division is that of the
  seconds and the nanoseconds of a second.\<close>

definition validUntil :: "int \<Rightarrow> u64 \<Rightarrow> int \<Rightarrow> u64" where
  "validUntil now ts days =
     (if sint ts > 0 then ts
      else of_int ((now + sint (of_int days * 24 * 3600000000000 :: u64)) div 1000000))"

definition demo_encrypt :: "'p primitives \<Rightarrow> bytes \<Rightarrow> bytes \<Rightarrow> gmap option result" where
  "demo_encrypt prim priv passphrase =
     (if length passphrase > 0
      then case EncryptPrivateKey prim None priv passphrase DefaultPrivateKeyEncryptionParams of
             Inl e \<Rightarrow> Inl e | Inr encrypted \<Rightarrow> Inr (Some encrypted)
      else Inr None)"

definition demo_metadata :: "pow_profile \<Rightarrow> fndsa_metadata" where
  "demo_metadata prof =
     (if PowAlgorithm prof \<noteq> ProductionProfile
      then \<lparr>FIPS206Revision = DefaultFIPSRevision, Claims = [str ''constant-time-keygen'', str ''constant-time-signing'']\<rparr>
      else \<lparr>FIPS206Revision = [], Claims = []\<rparr>)"

text \<open>From the signed object to the output: the check of the signature and the digests. The two type assertions panic
  when they fail.\<close>

definition demo_report ::
  "('r, 'p) outside \<Rightarrow> registry \<Rightarrow> bytes \<Rightarrow> gmap \<Rightarrow> bytes \<Rightarrow> (bytes \<times> bytes) result" where
  "demo_report w profiles serverName obj keyName =
     (case VerifyFNDSASelfSignature profiles (sha3_256 w) (fndsa w) (float_conv w) obj serverName of
        Inl e \<Rightarrow> Inl e
      | Inr verifiedKeyName \<Rightarrow>
          if verifiedKeyName \<noteq> keyName then Inl (ErrCommand (str ''verified key mismatch''))
          else
            case as_map (map_of obj (str ''verify_keys'')) of
              None \<Rightarrow> Inl RuntimePanic
            | Some keys \<Rightarrow>
                (case as_map (map_of keys keyName) of
                   None \<Rightarrow> Inl RuntimePanic
                 | Some keyObject \<Rightarrow>
                     (case KeyMetadataSHA256 (sha256_sum w) keyObject of
                        Inl e \<Rightarrow> Inl e
                      | Inr metadataDigest \<Rightarrow>
                          (case serverKeyPackageSHA256 (sha256_sum w) obj of
                             Inl e \<Rightarrow> Inl e | Inr packageDigest \<Rightarrow> Inr (metadataDigest, packageDigest)))))"

text \<open>What is printed: lines with a label and JSON objects. A key name is never shorter than its prefix. Failures to write are
  left out.\<close>

datatype printed = Line bytes bytes | Object bytes gmap

definition demo_print :: "bytes \<Rightarrow> demo_output \<Rightarrow> printed list" where
  "demo_print serverName out =
     [Line (str ''server_name'') serverName,
      Line (str ''key_name'') (out_keyName out),
      Line (str ''short_key_id'') (drop (length FNDSAAlgorithm + 1) (out_keyName out)),
      Line (str ''key_id'') (out_keyID out),
      Line (str ''key_metadata_sha256'') (out_metadataDigest out),
      Line (str ''server_key_package_sha256'') (out_packageDigest out),
      Line (str ''profile'') (Algorithm (out_proof out))] @
     (if out_note out \<noteq> [] then [Line (str ''pow_profile_note'') (out_note out)] else []) @
     [Line (str ''pow_nonce'') (format_uint (unat (Nonce (out_proof out))))] @
     (case out_encrypted out of
        Some encrypted \<Rightarrow> [Object (str ''encrypted_private_key'') encrypted]
      | None \<Rightarrow> [Line (str ''private_key_base64'') (b64std_encode (out_privateKey out))]) @
     [Object (str ''server_key_response'')
        ((str ''server_key_object'', GMap MapStringAny (out_object out)) #
         (if out_note out \<noteq> [] then [(str ''pow_profile_note'', GString (out_note out))] else []))]"

text \<open>From the key pair on.\<close>

definition demo_mint ::
  "('r, 'p) outside \<Rightarrow> registry \<Rightarrow> demo_flags \<Rightarrow> pow_profile \<Rightarrow> bytes \<Rightarrow> 'r \<Rightarrow> demo_output result" where
  "demo_mint w profiles f prof passphrase reader =
     (case GenerateKey (fndsa w) reader of
        (Inl e, _) \<Rightarrow> Inl e
      | (Inr (priv, pub), reader) \<Rightarrow>
          (case demo_encrypt (prims w) priv passphrase of
             Inl e \<Rightarrow> Inl e
           | Inr encrypted \<Rightarrow>
               (case solveMintingPoW profiles (sha3_256 w) (miner_available w) (survivor_target w) (degree_order w)
                       (ServerFlag f) pub prof (ucast (edge_nonce_limit prof (MaxNonce f)))
                       (StartMintingNonce f) (MaxMintingNonce f) of
                  Inl e \<Rightarrow> Inl e
                | Inr (mintingProof, keyID) \<Rightarrow>
                    (case NewSignedFNDSA profiles (sha3_256 w) (fndsa w) reader (ServerFlag f) priv pub
                            (validUntil (now_nanos w) (ValidUntilTS f) (ValidDays f)) (demo_metadata prof) mintingProof of
                       (Inl e, _) \<Rightarrow> Inl e
                     | (Inr (obj, keyName), _) \<Rightarrow>
                         (case demo_report w profiles (ServerFlag f) obj keyName of
                            Inl e \<Rightarrow> Inl e
                          | Inr (metadataDigest, packageDigest) \<Rightarrow>
                              Inr \<lparr>out_object = obj, out_keyName = keyName, out_keyID = keyID, out_proof = mintingProof,
                                   out_metadataDigest = metadataDigest, out_packageDigest = packageDigest,
                                   out_encrypted = encrypted, out_privateKey = priv, out_note = Note prof\<rparr>)))))"

definition demo_main ::
  "('r, 'p) outside \<Rightarrow> demo_flags \<Rightarrow> registry \<Rightarrow> demo_output result \<times> registry" where
  "demo_main w f profiles =
     (case validateMintingNonceRange (StartMintingNonce f) (MaxMintingNonce f) of
        Inl e \<Rightarrow> (Inl e, profiles)
      | Inr _ \<Rightarrow>
          (case configurePoWProfile (ProfileName f) (EdgeBitsFlag f) (ProofSizeFlag f) (AlgorithmFlag f) (DemoProfile f) profiles of
             (Inl e, profiles) \<Rightarrow> (Inl e, profiles)
           | (Inr prof, profiles) \<Rightarrow>
               (case validateServerKeyProfile profiles prof of
                  Inl e \<Rightarrow> (Inl e, profiles)
                | Inr _ \<Rightarrow>
                    if PowAlgorithm prof = ProductionProfile \<and> \<not> Demo prof \<and> KeygenSeed f \<noteq> []
                    then (Inl (ErrCommand (str ''-keygen-seed is restricted to test/demo artifacts'')), profiles)
                    else
                      case privateKeyPassphrase (LookupEnv w) (ReadFile w) (PassphraseEnv f) (PassphraseFile f) of
                        Inl e \<Rightarrow> (Inl e, profiles)
                      | Inr passphrase \<Rightarrow>
                          (demo_mint w profiles f prof passphrase
                             (if KeygenSeed f \<noteq> [] then deterministicReader w (KeygenSeed f) else nil_reader w), profiles))))"

section \<open>What the search finds\<close>

lemma mint_loop_Inr:
  "mint_loop profiles sha3 solve serverName pk prof nonces = Inr (pf, keyID) \<Longrightarrow>
   \<exists>nonce\<in>set nonces. \<exists>seed. nonce \<le> maxProtocolMintingNonce \<and> Nonce pf = ucast nonce \<and> Algorithm pf = PowAlgorithm prof \<and>
     GraphSeed profiles sha3 pk serverName (Algorithm pf) (Nonce pf) = Inr seed \<and>
     Verify (PowConfig prof) seed (Solution pf) = Some (Inr ()) \<and> KeyIDBase64 profiles sha3 pk serverName pf = Inr keyID"
proof (induction nonces)
  case (Cons nonce nonces)
  then show ?case by (auto simp: Let_def verify_answer_Inr split: sum.splits option.splits if_splits)
qed simp

lemma verify_answer_not_NoSolution: "verify_answer cfg seed ns \<noteq> Inl ErrNoSolution"
  using Verify_spec [of cfg seed ns] by (auto simp: verify_answer_def)

lemma solve_graph_None:
  assumes "solve_graph None target range_order cfg seed maxNonce = Inr None" "Verify cfg seed p = Some (Inr ())"
  shows "\<not> (\<forall>n\<in>set p. n < maxNonce)"
proof
  assume p: "\<forall>n\<in>set p. n < maxNonce"
  have "FindProof target range_order cfg seed maxNonce = Inl ErrNoSolution"
    using assms(1) by (auto simp: solve_graph_def split: sum.splits if_splits)
  moreover obtain c where c: "normalize cfg = Inr c" "length seed = 32" using Verify_spec [of cfg seed p] assms(2) by auto
  then obtain words where "seedWords seed = Inr words" by (auto simp: seedWords_def Let_def)
  ultimately show False using FindProof_complete_ok [OF c(1) _ assms(2) p] by blast
qed

lemma mint_loop_NoSolution:
  assumes ok: "registry_ok profiles" and u: "valid_utf8 (PowAlgorithm prof)" "valid_utf8 serverName"
    and solve: "\<And>seed. solve seed \<noteq> Inl ErrNoSolution"
    and none: "\<And>seed p. solve seed = Inr None \<Longrightarrow> Verify (PowConfig prof) seed p = Some (Inr ()) \<Longrightarrow> \<not> P p"
  shows "mint_loop profiles sha3 solve serverName pk prof nonces = Inl ErrNoSolution \<Longrightarrow>
    \<forall>nonce\<in>set nonces. \<exists>seed. GraphSeed profiles sha3 pk serverName (PowAlgorithm prof) (ucast nonce) = Inr seed \<and>
      (\<forall>p. Verify (PowConfig prof) seed p = Some (Inr ()) \<longrightarrow> \<not> P p)"
proof (induction nonces)
  case (Cons nonce nonces)
  obtain seed where seed: "GraphSeed profiles sha3 pk serverName (PowAlgorithm prof) (ucast nonce) = Inr seed"
    using is_ok_GraphSeed [OF ok, of sha3 pk serverName "PowAlgorithm prof" "ucast nonce"] u by (auto simp: is_ok_iff)
  have key: "\<exists>k. KeyIDBase64 profiles sha3 pk serverName \<lparr>Algorithm = PowAlgorithm prof, Nonce = n, Solution = s\<rparr> = Inr k" for n s
  proof -
    have "is_ok (KeyID profiles sha3 pk serverName \<lparr>Algorithm = PowAlgorithm prof, Nonce = n, Solution = s\<rparr>)"
      using is_ok_KeyID [OF ok] u by simp
    then show ?thesis by (auto simp: KeyIDBase64_def is_ok_iff)
  qed
  have range: "\<not> nonce > maxProtocolMintingNonce" using Cons.prems by (auto split: if_splits)
  have "solve seed = Inr None"
  proof (cases "solve seed")
    case (Inl e)
    then show ?thesis using Cons.prems solve [of seed] range seed by simp
  next
    case (Inr r)
    have "r \<noteq> Some ns" for ns
    proof
      assume r: "r = Some ns"
      obtain k where "KeyIDBase64 profiles sha3 pk serverName
        \<lparr>Algorithm = PowAlgorithm prof, Nonce = ucast nonce, Solution = ns\<rparr> = Inr k" using key by blast
      then show False using Cons.prems range seed Inr r verify_answer_not_NoSolution [of "PowConfig prof" seed ns]
        by (cases "verify_answer (PowConfig prof) seed ns") (simp_all add: Let_def)
    qed
    then show ?thesis using Inr by (metis not_None_eq)
  qed
  moreover from this have "mint_loop profiles sha3 solve serverName pk prof nonces = Inl ErrNoSolution"
    using Cons.prems range seed by simp
  ultimately show ?case using Cons.IH seed none by auto
qed simp

lemma solve_graph_not_NoSolution: "solve_graph None target range_order cfg seed maxNonce \<noteq> Inl ErrNoSolution"
  by (auto simp: solve_graph_def split: sum.splits if_splits)

lemma solve_graph_total:
  assumes "Validate cfg = Inr ()" "length seed = 32"
  shows "\<exists>r. solve_graph None target range_order cfg seed maxNonce = Inr r \<and> (\<forall>p. r = Some p \<longrightarrow> Verify cfg seed p = Some (Inr ()))"
proof -
  obtain c where "normalize cfg = Inr c" using assms(1) by (auto simp: Validate_def split: sum.splits)
  then show ?thesis
    using FindProof_cases [where target = target and range_order = range_order and cfg = cfg and seed = seed and k = maxNonce] assms(2)
    by (cases "FindProof target range_order cfg seed maxNonce") (auto simp: solve_graph_def)
qed

lemma mint_loop_Inl:
  assumes ok: "registry_ok profiles" and u: "valid_utf8 (PowAlgorithm prof)" "valid_utf8 serverName"
    and sha3: "\<forall>x. length (sha3 x) = 32"
    and solve: "\<And>seed. length seed = 32 \<Longrightarrow> \<exists>r. solve seed = Inr r \<and> (\<forall>p. r = Some p \<longrightarrow> Verify (PowConfig prof) seed p = Some (Inr ()))"
  shows "mint_loop profiles sha3 solve serverName pk prof nonces = Inl e \<Longrightarrow> \<forall>nonce\<in>set nonces. \<not> nonce > maxProtocolMintingNonce \<Longrightarrow>
    e = ErrNoSolution"
proof (induction nonces)
  case (Cons nonce nonces)
  obtain seed where seed: "GraphSeed profiles sha3 pk serverName (PowAlgorithm prof) (ucast nonce) = Inr seed"
    using is_ok_GraphSeed [OF ok, of sha3 pk serverName "PowAlgorithm prof" "ucast nonce"] u by (auto simp: is_ok_iff)
  then have "length seed = 32" using sha3 by (auto simp: GraphSeed_def digest_object_def split: sum.splits)
  then obtain r where r: "solve seed = Inr r" "\<forall>p. r = Some p \<longrightarrow> verify_answer (PowConfig prof) seed p = Inr ()"
    using solve [of seed] by (auto simp: verify_answer_Inr)
  show ?case
  proof (cases r)
    case None
    then show ?thesis using Cons seed r(1) by simp
  next
    case (Some ns)
    have "is_ok (KeyID profiles sha3 pk serverName \<lparr>Algorithm = PowAlgorithm prof, Nonce = ucast nonce, Solution = ns\<rparr>)"
      using is_ok_KeyID [OF ok] u by simp
    then show ?thesis using Cons.prems seed r Some by (auto simp: KeyIDBase64_def is_ok_iff Let_def)
  qed
qed simp

section \<open>A configured profile is the registered one\<close>

lemma configure_initial:
  assumes "configurePoWProfile name edgeBits proofSize algorithm demo initial_profiles = (Inr prof, profiles)"
  shows "reachable profiles \<and> (\<exists>p. profiles (PowAlgorithm prof) = Some p \<and> profile_config p = PowConfig prof)"
proof -
  let ?a = "PowAlgorithm prof"
  have req: "requested_profile name edgeBits proofSize algorithm demo initial_profiles = Inr prof"
    using assms by (auto simp: configurePoWProfile_def split: sum.splits prod.splits if_splits)
  show ?thesis
  proof (cases "?a = ProductionProfile")
    case True
    then have "profiles = initial_profiles" using assms req by (simp add: configurePoWProfile_def)
    moreover have "PowConfig prof = ProductionConfig initial_profiles"
      using req True
      by (auto simp: requested_profile_def ProductionProfile_def split: if_splits)
    ultimately show ?thesis
      using True reachable.initial by (simp add: ProductionConfig_def getProfile_def initial_profiles_def)
  next
    case False
    then have "\<not> IsRegisteredProfile initial_profiles ?a" by (simp add: IsRegisteredProfile_def getProfile_def initial_profiles_def)
    then have r: "RegisterProfile ?a (PowConfig prof) 16 initial_profiles = (Inr (), profiles)"
      using assms req False by (auto simp: configurePoWProfile_def split: sum.splits prod.splits)
    from RegisterProfile_cases [of ?a "PowConfig prof" 16 initial_profiles]
    obtain p where "profiles = initial_profiles(?a \<mapsto> p)" "profile_config p = PowConfig prof" using r by auto
    then show ?thesis using reachable.register [OF reachable.initial r] by auto
  qed
qed

section \<open>What is mined is accepted\<close>

lemma nonce_range_iff: "n \<in> set (nonce_range start limit) \<longleftrightarrow> start \<le> n \<and> n < limit"
proof
  assume n: "start \<le> n \<and> n < limit"
  then have "unat n \<in> {unat start..<unat limit}" by (simp add: word_le_nat_alt word_less_nat_alt)
  moreover have "n = of_nat (unat n)" by simp
  ultimately show "n \<in> set (nonce_range start limit)" unfolding nonce_range_def set_map set_upt by (rule rev_image_eqI)
next
  assume "n \<in> set (nonce_range start limit)"
  then obtain k where k: "n = of_nat k" "unat start \<le> k" "k < unat limit" by (auto simp: nonce_range_def)
  moreover have "unat limit < 2 ^ 64" using unsigned_less [of limit] by simp
  ultimately have "k < 2 ^ 64" by linarith
  then have "unat n = k" unfolding k(1) by (simp add: unat_of_nat take_bit_nat_eq_self)
  then show "start \<le> n \<and> n < limit" using k by (simp add: word_le_nat_alt word_less_nat_alt)
qed

lemma nonce_in_protocol:
  assumes "validateMintingNonceRange start limit = Inr ()" "start \<le> n" "n < limit"
  shows "n \<le> maxProtocolMintingNonce"
proof -
  have "limit \<le> maxProtocolMintingNonce + 1" using assms(1) by (auto simp: validateMintingNonceRange_def split: if_splits)
  moreover have "unat (maxProtocolMintingNonce + 1) = unat maxProtocolMintingNonce + 1" by (simp add: maxProtocolMintingNonce_def)
  ultimately show ?thesis using assms(3) unfolding word_le_nat_alt word_less_nat_alt by linarith
qed

lemma solveMintingPoW_Inr:
  assumes "solveMintingPoW profiles sha3 miner target range_order serverName pk prof maxNonce start limit = Inr (pf, keyID)"
    and "profiles (PowAlgorithm prof) = Some p" "profile_config p = PowConfig prof"
  shows "Algorithm pf = PowAlgorithm prof \<and> KeyIDBase64 profiles sha3 pk serverName pf = Inr keyID \<and>
    validateProof profiles sha3 pk serverName (Algorithm pf) pf = Inr () \<and>
    (\<exists>nonce. start \<le> nonce \<and> nonce < limit \<and> nonce \<le> maxProtocolMintingNonce \<and> Nonce pf = ucast nonce)"
  using mint_loop_Inr [OF assms(1) [unfolded solveMintingPoW_def]] assms(2,3)
  by (auto simp: validateProof_def getProfile_def verify_answer_Inr nonce_range_iff)

text \<open>The report never fails on an object that the command signed itself.\<close>

lemma demo_report_Inr:
  assumes ok: "registry_ok profiles" and pair: "keypair (fndsa w) sk pk"
    and new: "NewSignedFNDSA profiles (sha3_256 w) (fndsa w) r serverName sk pk ts metadata pf = (Inr (obj, keyName), r')"
  shows "\<exists>digests. demo_report w profiles serverName obj keyName = Inr digests"
proof -
  obtain obj0 r0 where n: "NewUnsignedFNDSA profiles (sha3_256 w) serverName pk ts metadata pf = Inr (obj0, keyName)"
    and s: "SignFNDSA (fndsa w) r obj0 serverName keyName sk = (Inr (), obj, r0)"
    using new by (auto simp: NewSignedFNDSA_def split: sum.splits prod.splits)
  have v: "VerifyFNDSASelfSignature profiles (sha3_256 w) (fndsa w) (float_conv w) obj serverName = Inr keyName"
    unfolding VerifyFNDSASelfSignature_def by (rule signed_object_accepted [OF pair n s]) simp
  let ?key = "FNDSAKeyObject pk \<lparr>FIPS206Revision = [], Claims = []\<rparr> pf"
  have keys: "map_of obj0 (str ''verify_keys'') = Some (GMap MapStringAny [(keyName, GMap MapStringAny ?key)])"
    and alg: "valid_utf8 (Algorithm pf)"
  proof -
    show "map_of obj0 (str ''verify_keys'') = Some (GMap MapStringAny [(keyName, GMap MapStringAny ?key)])"
      by (rule NewUnsignedFNDSA_Inr [OF n]) simp
    show "valid_utf8 (Algorithm pf)"
      using is_ok_KeyID [OF ok] by (metis NewUnsignedFNDSA_Inr [OF n] is_ok_simps(1))
  qed
  from SignFNDSA_Inr [OF s] obtain m sigs where m: "SigningBytes obj0 = Inr m"
    and obj: "obj = map_put (str ''signatures'') sigs obj0" by metis
  have k: "as_map (map_of obj (str ''verify_keys'')) = Some [(keyName, GMap MapStringAny ?key)]"
    unfolding obj map_of_map_put using keys by simp
  obtain j where "json_of (GMap MapStringAny ?key) = Some j" using json_of_key_object [OF alg] by blast
  then have "is_ok (Canonical (GMap MapStringAny ?key))" unfolding is_ok_Canonical by simp
  then obtain d where d: "KeyMetadataSHA256 (sha256_sum w) ?key = Inr d"
    by (auto simp: KeyMetadataSHA256_def digest_object_def is_ok_iff split: sum.splits)
  have "SigningBytes obj = Inr m" unfolding obj SigningBytes_signatures by (rule m)
  then obtain d' where "serverKeyPackageSHA256 (sha256_sum w) obj = Inr d'" by (simp add: serverKeyPackageSHA256_def)
  then show ?thesis by (simp add: demo_report_def v k d del: str_simps)
qed

lemma demo_mint_Inr:
  assumes "demo_mint w profiles f prof passphrase reader = Inr out"
  obtains sk pk r r' ts where "GenerateKey (fndsa w) reader = (Inr (sk, pk), r)"
    "solveMintingPoW profiles (sha3_256 w) (miner_available w) (survivor_target w) (degree_order w) (ServerFlag f) pk prof
       (ucast (edge_nonce_limit prof (MaxNonce f))) (StartMintingNonce f) (MaxMintingNonce f) = Inr (out_proof out, out_keyID out)"
    "NewSignedFNDSA profiles (sha3_256 w) (fndsa w) r (ServerFlag f) sk pk ts (demo_metadata prof) (out_proof out) =
       (Inr (out_object out, out_keyName out), r')"
    "demo_encrypt (prims w) sk passphrase = Inr (out_encrypted out)" "out_privateKey out = sk"
  using assms by (auto simp: demo_mint_def split: sum.splits prod.splits)

lemma demo_main_Inr:
  assumes "demo_main w f profiles0 = (Inr out, profiles)"
  obtains prof passphrase where
    "configurePoWProfile (ProfileName f) (EdgeBitsFlag f) (ProofSizeFlag f) (AlgorithmFlag f) (DemoProfile f) profiles0 = (Inr prof, profiles)"
    "privateKeyPassphrase (LookupEnv w) (ReadFile w) (PassphraseEnv f) (PassphraseFile f) = Inr passphrase"
    "PowAlgorithm prof = ProductionProfile \<longrightarrow> Demo prof \<or> KeygenSeed f = []"
    "demo_mint w profiles f prof passphrase (if KeygenSeed f \<noteq> [] then deterministicReader w (KeygenSeed f) else nil_reader w) = Inr out"
  using assms by (auto simp: demo_main_def split: sum.splits prod.splits if_splits)

lemma configure_demo:
  "configurePoWProfile name edgeBits proofSize algorithm demo profiles0 = (Inr prof, profiles) \<Longrightarrow>
   PowAlgorithm prof = ProductionProfile \<Longrightarrow> \<not> Demo prof"
  by (auto simp: configurePoWProfile_def requested_profile_def ProductionProfile_def split: sum.splits prod.splits if_splits)

lemma demo_encrypt_Inr:
  assumes "primitives_ok prim" "demo_encrypt prim sk passphrase = Inr encrypted"
  shows "case encrypted of None \<Rightarrow> passphrase = [] | Some obj \<Rightarrow> passphrase \<noteq> [] \<and> DecryptPrivateKey prim oob obj passphrase = Inr sk"
  using Encrypt_opens(1) [OF assms(1)] assms(2) by (auto simp: demo_encrypt_def split: sum.splits if_splits)

text \<open>Where the private key is printed in the clear.\<close>

definition prints_private_key :: "printed list \<Rightarrow> bool" where
  "prints_private_key ps \<longleftrightarrow> list_ex (\<lambda>p. case p of Line label _ \<Rightarrow> label = str ''private_key_base64'' | Object _ _ \<Rightarrow> False) ps"

lemma prints_private_key_iff: "prints_private_key (demo_print serverName out) \<longleftrightarrow> out_encrypted out = None"
  by (simp add: prints_private_key_def demo_print_def split: option.splits)

section \<open>A sample run\<close>

definition sample_world :: "(unit, unit) outside" where
  "sample_world = \<lparr>sha3_256 = (\<lambda>_. sample_seed), sha256_sum = (\<lambda>_. sample_seed), deterministicReader = (\<lambda>_. ()), nil_reader = (),
     fndsa = sample_lib, prims = sample_primitives, miner_available = None, survivor_target = bulkTrimSurvivorTarget,
     degree_order = rev, float_conv = (\<lambda>_. 0), now_nanos = 0, LookupEnv = (\<lambda>_. None), ReadFile = (\<lambda>_. Inl ErrExternal)\<rparr>"

definition sample_flags :: demo_flags where
  "sample_flags = \<lparr>ServerFlag = str ''h.example'', ValidDays = 7, ValidUntilTS = 1000, ProfileName = str ''custom'', EdgeBitsFlag = 2,
     ProofSizeFlag = 2, AlgorithmFlag = sample_profile, DemoProfile = True, MaxNonce = 2, StartMintingNonce = 0, MaxMintingNonce = 1,
     PassphraseEnv = [], PassphraseFile = [], KeygenSeed = []\<rparr>"

definition sample_pow :: pow_profile where
  "sample_pow = \<lparr>PowAlgorithm = sample_profile, PowConfig = sample_config, Demo = True, Note = demoPoWProfileNote\<rparr>"

lemma sample_configured: "configurePoWProfile (str ''custom'') 2 2 sample_profile True initial_profiles = (Inr sample_pow, sample_registry)"
proof -
  have "requested_profile (str ''custom'') 2 2 sample_profile True initial_profiles = Inr sample_pow"
    by (simp add: requested_profile_def sample_profile_def ProductionProfile_def sample_pow_def sample_config_def)
  moreover have "\<not> IsRegisteredProfile initial_profiles sample_profile" "sample_profile \<noteq> ProductionProfile"
    by (simp_all add: IsRegisteredProfile_def getProfile_def initial_profiles_def sample_profile_def ProductionProfile_def)
  moreover have "fst (RegisterProfile sample_profile sample_config 16 initial_profiles) = Inr ()"
  proof -
    have "sample_registry sample_profile \<noteq> None" by (simp add: sample_lookup)
    then show ?thesis using \<open>\<not> IsRegisteredProfile initial_profiles sample_profile\<close>
      by (cases rule: RegisterProfile_cases [of sample_profile sample_config 16 initial_profiles])
        (auto simp: sample_registry_def IsRegisteredProfile_def getProfile_def)
  qed
  ultimately show ?thesis
    by (auto simp: configurePoWProfile_def sample_pow_def sample_registry_def split: prod.splits sum.splits)
qed

lemma sample_solved:
  "\<exists>pf keyID. solveMintingPoW sample_registry (\<lambda>_. sample_seed) None bulkTrimSurvivorTarget rev (str ''h.example'') pk sample_pow 2 0 1 = Inr (pf, keyID)"
proof -
  note ok = reachable_ok [OF sample_reachable]
  have "seedWords sample_seed \<noteq> Inl ErrInvalidSeed" by (simp add: seedWords_def sample_seed_def Let_def)
  then obtain words where words: "seedWords sample_seed = Inr words" by (auto simp: seedWords_def Let_def split: if_splits)
  have "FindProof bulkTrimSurvivorTarget rev sample_config sample_seed 2 \<noteq> Inl ErrNoSolution"
    using FindProof_complete_ok [OF sample_normalize words sample_verifies] by simp
  then obtain p where p: "FindProof bulkTrimSurvivorTarget rev sample_config sample_seed 2 = Inr p"
    "verify_answer sample_config sample_seed p = Inr ()"
    using FindProof_cases [where target = bulkTrimSurvivorTarget and range_order = rev and cfg = sample_config
      and seed = sample_seed and k = 2] words
    by (cases "FindProof bulkTrimSurvivorTarget rev sample_config sample_seed 2")
      (auto simp: verify_answer_Inr sample_normalize seedWords_def split: if_splits)
  have "is_ok (GraphSeed sample_registry (\<lambda>_. sample_seed) pk (str ''h.example'') sample_profile 0)"
    using is_ok_GraphSeed [OF ok] sample_utf8 by blast
  then have seed: "GraphSeed sample_registry (\<lambda>_. sample_seed) pk (str ''h.example'') sample_profile 0 = Inr sample_seed"
    by (auto simp: GraphSeed_def digest_object_def is_ok_iff split: sum.splits)
  have "is_ok (KeyID sample_registry (\<lambda>_. sample_seed) pk (str ''h.example'') \<lparr>Algorithm = sample_profile, Nonce = 0, Solution = p\<rparr>)"
    using is_ok_KeyID [OF ok] sample_utf8 by simp
  then obtain k where "KeyID sample_registry (\<lambda>_. sample_seed) pk (str ''h.example'') \<lparr>Algorithm = sample_profile, Nonce = 0, Solution = p\<rparr> = Inr k"
    by (auto simp: is_ok_iff)
  moreover have "nonce_range 0 1 = [0]" by (simp add: nonce_range_def)
  moreover have "solve_graph None bulkTrimSurvivorTarget rev sample_config sample_seed 2 = Inr (Some p)"
    using p by (simp add: solve_graph_def)
  ultimately show ?thesis
    using seed p by (simp add: solveMintingPoW_def sample_pow_def KeyIDBase64_def maxProtocolMintingNonce_def Let_def)
qed

lemma sample_demo:
  "\<exists>out. demo_main sample_world sample_flags initial_profiles = (Inr out, sample_registry)"
proof -
  note ok = reachable_ok [OF sample_reachable]
  obtain pf keyID where solved: "solveMintingPoW sample_registry (\<lambda>_. sample_seed) None bulkTrimSurvivorTarget rev (str ''h.example'')
    (replicate 897 2) sample_pow 2 0 1 = Inr (pf, keyID)" using sample_solved by blast
  have alg: "Algorithm pf = sample_profile"
    using solveMintingPoW_Inr [OF solved] sample_lookup by (simp add: sample_pow_def)
  have "\<exists>obj keyName r'. NewSignedFNDSA sample_registry (\<lambda>_. sample_seed) sample_lib () (str ''h.example'') (replicate 1281 1)
    (replicate 897 2) 1000 (demo_metadata sample_pow) pf = (Inr (obj, keyName), r')"
  proof (rule NewSignedFNDSA_Inr [OF ok _ _ _ _ sample_keypair])
    show "\<And>m. \<exists>s rng'. Sign sample_lib () (replicate 1281 1) m = (Inr s, rng')"
      unfolding Sign_Inr by (simp add: sample_lib_def PrivateKeySize_def SignatureSize_def)
  qed (use sample_utf8 in \<open>simp_all add: alg sample_lookup minCanonicalInt_def maxCanonicalInt_def\<close>)
  then obtain obj keyName where new: "NewSignedFNDSA sample_registry (\<lambda>_. sample_seed) sample_lib () (str ''h.example'') (replicate 1281 1)
    (replicate 897 2) 1000 (demo_metadata sample_pow) pf = (Inr (obj, keyName), ())" by auto
  obtain d d' where d: "demo_report sample_world sample_registry (str ''h.example'') obj keyName = Inr (d, d')"
    using demo_report_Inr [where w = sample_world, OF ok, of "replicate 1281 1" "replicate 897 2"] sample_keypair new
    by (fastforce simp: sample_world_def)
  have "GenerateKey sample_lib () = (Inr (replicate 1281 1, replicate 897 2), ())"
    by (simp add: GenerateKey_def sample_lib_def)
  moreover have "edge_nonce_limit sample_pow 2 = 2"
    by (simp add: edge_nonce_limit_def sample_pow_def sample_config_def EdgeMask_def)
  moreover have "validUntil 0 1000 7 = 1000" by (simp add: validUntil_def)
  moreover have "demo_encrypt sample_primitives (replicate 1281 1) [] = Inr None" by (simp add: demo_encrypt_def)
  ultimately have "\<exists>out. demo_mint sample_world sample_registry sample_flags sample_pow [] () = Inr out"
    using solved new d by (simp add: demo_mint_def sample_world_def sample_flags_def del: str_simps)
  moreover have "validateServerKeyProfile sample_registry sample_pow = Inr ()"
    by (simp add: validateServerKeyProfile_def sample_pow_def IsRegisteredProfile_def getProfile_def sample_lookup)
      (simp add: sample_profile_def)
  moreover have "validateMintingNonceRange 0 1 = Inr ()" by (simp add: validateMintingNonceRange_def maxProtocolMintingNonce_def)
  ultimately show ?thesis using sample_configured
    by (auto simp: demo_main_def sample_flags_def sample_world_def privateKeyPassphrase_def simp del: str_simps)
qed

section \<open>Properties\<close>

text \<open>C12: what the demonstration command prints is a key that every verifier accepts, if the library generates key pairs at
  the degree that the code asks for, logarithm 9, and the primitives keep their contract. When it ends without an error, its
  object passes the full verification with the printed key name, under the registry it leaves behind; the printed
  identifier is that of the proof; the nonce lies in the range of the flags; a key for the production profile never
  comes from a seed. The private key is printed in the clear exactly when the passphrase of the flags is empty, and
  otherwise the printed object opens with the passphrase to the private key.\<close>

theorem demo_output_verifies:
  assumes "demo_main w f initial_profiles = (Inr out, profiles)"
    and "\<And>r sk pk r'. lib_KeyGen (fndsa w) LogN r = (Inr (sk, pk), r') \<Longrightarrow> keypair (fndsa w) sk pk"
    and "primitives_ok (prims w)"
  shows "VerifyMintedFNDSAServerKey profiles (sha3_256 w) (fndsa w) oob (out_object out) (ServerFlag f) = Inr (out_keyName out) \<and>
    (\<exists>pk r r'. GenerateKey (fndsa w) r = (Inr (out_privateKey out, pk), r') \<and>
       KeyIDBase64 profiles (sha3_256 w) pk (ServerFlag f) (out_proof out) = Inr (out_keyID out)) \<and>
    (\<exists>nonce. StartMintingNonce f \<le> nonce \<and> nonce < MaxMintingNonce f \<and> Nonce (out_proof out) = ucast nonce) \<and>
    (Algorithm (out_proof out) = ProductionProfile \<longrightarrow> KeygenSeed f = []) \<and>
    (\<exists>passphrase. privateKeyPassphrase (LookupEnv w) (ReadFile w) (PassphraseEnv f) (PassphraseFile f) = Inr passphrase \<and>
       (prints_private_key (demo_print (ServerFlag f) out) \<longleftrightarrow> passphrase = []) \<and>
       (case out_encrypted out of
          None \<Rightarrow> passphrase = []
        | Some encrypted \<Rightarrow> DecryptPrivateKey (prims w) oob encrypted passphrase = Inr (out_privateKey out)))"
proof -
  from demo_main_Inr [OF assms(1)] obtain prof passphrase where
    conf: "configurePoWProfile (ProfileName f) (EdgeBitsFlag f) (ProofSizeFlag f) (AlgorithmFlag f) (DemoProfile f) initial_profiles =
      (Inr prof, profiles)"
    and pass: "privateKeyPassphrase (LookupEnv w) (ReadFile w) (PassphraseEnv f) (PassphraseFile f) = Inr passphrase"
    and seed: "PowAlgorithm prof = ProductionProfile \<longrightarrow> Demo prof \<or> KeygenSeed f = []"
    and mint: "demo_mint w profiles f prof passphrase
      (if KeygenSeed f \<noteq> [] then deterministicReader w (KeygenSeed f) else nil_reader w) = Inr out" by metis
  obtain p where p: "profiles (PowAlgorithm prof) = Some p" "profile_config p = PowConfig prof" and ok: "registry_ok profiles"
    using configure_initial [OF conf] reachable_ok by blast
  from demo_mint_Inr [OF mint] obtain sk pk r r' ts where gen: "GenerateKey (fndsa w)
      (if KeygenSeed f \<noteq> [] then deterministicReader w (KeygenSeed f) else nil_reader w) = (Inr (sk, pk), r)"
    and solve: "solveMintingPoW profiles (sha3_256 w) (miner_available w) (survivor_target w) (degree_order w) (ServerFlag f) pk prof
       (ucast (edge_nonce_limit prof (MaxNonce f))) (StartMintingNonce f) (MaxMintingNonce f) = Inr (out_proof out, out_keyID out)"
    and new: "NewSignedFNDSA profiles (sha3_256 w) (fndsa w) r (ServerFlag f) sk pk ts (demo_metadata prof) (out_proof out) =
       (Inr (out_object out, out_keyName out), r')"
    and enc: "demo_encrypt (prims w) sk passphrase = Inr (out_encrypted out)" "out_privateKey out = sk" by metis
  have pair: "keypair (fndsa w) sk pk" using assms(2) gen unfolding GenerateKey_def by blast
  note s = solveMintingPoW_Inr [OF solve p]
  have "Algorithm (out_proof out) \<noteq> []" using s p(1) ok by (auto simp: registry_ok_def profile_ok_def)
  then have "VerifyMintedFNDSAServerKey profiles (sha3_256 w) (fndsa w) oob (out_object out) (ServerFlag f) = Inr (out_keyName out)"
    using signed_object_accepted [OF pair] new s
    by (auto simp: NewSignedFNDSA_def VerifyMintedFNDSAServerKey_def split: sum.splits prod.splits)
  moreover have "Algorithm (out_proof out) = ProductionProfile \<longrightarrow> KeygenSeed f = []"
    using s seed configure_demo [OF conf] by simp
  moreover have "case out_encrypted out of None \<Rightarrow> passphrase = []
      | Some encrypted \<Rightarrow> passphrase \<noteq> [] \<and> DecryptPrivateKey (prims w) oob encrypted passphrase = Inr (out_privateKey out)"
    using demo_encrypt_Inr [where oob = oob, OF assms(3) enc(1)] unfolding enc(2) .
  then have "(prints_private_key (demo_print (ServerFlag f) out) \<longleftrightarrow> passphrase = []) \<and>
      (case out_encrypted out of None \<Rightarrow> passphrase = []
       | Some encrypted \<Rightarrow> DecryptPrivateKey (prims w) oob encrypted passphrase = Inr (out_privateKey out))"
    unfolding prints_private_key_iff by (simp split: option.splits)
  ultimately show ?thesis using s gen [folded enc(2)] pass by blast
qed

text \<open>The sample run does end without an error.\<close>

theorem demo_output_verifies_witness:
  "\<exists>out. demo_main sample_world sample_flags initial_profiles = (Inr out, sample_registry) \<and>
     VerifyMintedFNDSAServerKey sample_registry (\<lambda>_. sample_seed) sample_lib (\<lambda>_. 0) (out_object out) (str ''h.example'') =
       Inr (out_keyName out)"
proof -
  obtain out where out: "demo_main sample_world sample_flags initial_profiles = (Inr out, sample_registry)" using sample_demo by blast
  have "keypair (fndsa sample_world) sk pk" if "lib_KeyGen (fndsa sample_world) LogN r = (Inr (sk, pk), r')" for r sk pk r'
    using that sample_keypair by (simp add: sample_world_def sample_lib_def)
  moreover have "primitives_ok (prims sample_world)" using sample_primitives_ok by (simp add: sample_world_def)
  ultimately have "VerifyMintedFNDSAServerKey sample_registry (sha3_256 sample_world) (fndsa sample_world) (\<lambda>_. 0) (out_object out)
      (ServerFlag sample_flags) = Inr (out_keyName out)"
    using demo_output_verifies [OF out, of "\<lambda>_. 0"] by blast
  then have "VerifyMintedFNDSAServerKey sample_registry (\<lambda>_. sample_seed) sample_lib (\<lambda>_. 0) (out_object out) (str ''h.example'') =
      Inr (out_keyName out)" by (simp add: sample_world_def sample_flags_def del: str_simps)
  then show ?thesis using out by blast
qed

text \<open>C13: mining gives up only when there is nothing to find. Without the reference miner, under a reachable registry, for
  a profile name and a server name in valid UTF-8, digests of 32 bytes, a valid graph configuration and a range that the
  commands accept, the only error of the search is that there is no solution, and then for every graph nonce of the range
  no list of edges below the bound is a valid proof.\<close>

theorem solveMintingPoW_complete:
  assumes "reachable profiles" "valid_utf8 (PowAlgorithm prof)" "valid_utf8 serverName" "\<forall>x. length (sha3 x) = 32"
    and "Validate (PowConfig prof) = Inr ()" "validateMintingNonceRange start limit = Inr ()"
    and "solveMintingPoW profiles sha3 None target range_order serverName pk prof maxNonce start limit = Inl e"
  shows "e = ErrNoSolution \<and> (\<forall>nonce. start \<le> nonce \<and> nonce < limit \<longrightarrow>
    (\<exists>seed. GraphSeed profiles sha3 pk serverName (PowAlgorithm prof) (ucast nonce) = Inr seed \<and>
       (\<forall>p. (\<forall>n\<in>set p. n < maxNonce) \<longrightarrow> Verify (PowConfig prof) seed p \<noteq> Some (Inr ()))))"
proof -
  note ok = reachable_ok [OF assms(1)]
  let ?solve = "\<lambda>seed. solve_graph None target range_order (PowConfig prof) seed maxNonce"
  have run: "mint_loop profiles sha3 ?solve serverName pk prof (nonce_range start limit) = Inl e"
    using assms(7) unfolding solveMintingPoW_def .
  have e: "e = ErrNoSolution"
  proof (rule mint_loop_Inl [OF ok assms(2-4) _ run])
    show "\<forall>nonce\<in>set (nonce_range start limit). \<not> nonce > maxProtocolMintingNonce"
      using nonce_in_protocol [OF assms(6)] by (simp add: nonce_range_iff not_less)
  qed (rule solve_graph_total [OF assms(5)])
  have all: "\<forall>nonce\<in>set (nonce_range start limit). \<exists>seed.
      GraphSeed profiles sha3 pk serverName (PowAlgorithm prof) (ucast nonce) = Inr seed \<and>
      (\<forall>p. Verify (PowConfig prof) seed p = Some (Inr ()) \<longrightarrow> \<not> (\<forall>n\<in>set p. n < maxNonce))"
    by (rule mint_loop_NoSolution [OF ok assms(2,3) solve_graph_not_NoSolution solve_graph_None run [unfolded e]])
  show ?thesis
  proof (intro conjI allI impI)
    fix nonce
    assume "start \<le> nonce \<and> nonce < limit"
    then show "\<exists>seed. GraphSeed profiles sha3 pk serverName (PowAlgorithm prof) (ucast nonce) = Inr seed \<and>
       (\<forall>p. (\<forall>n\<in>set p. n < maxNonce) \<longrightarrow> Verify (PowConfig prof) seed p \<noteq> Some (Inr ()))"
      using all [THEN bspec, of nonce] unfolding nonce_range_iff by metis
  qed (rule e)
qed

text \<open>An edge bound of zero leaves nothing to find.\<close>

theorem solveMintingPoW_complete_witness:
  "solveMintingPoW sample_registry (\<lambda>_. sample_seed) None bulkTrimSurvivorTarget rev (str ''h.example'') [] sample_pow 0 0 1 =
     Inl ErrNoSolution \<and> (\<exists>seed. GraphSeed sample_registry (\<lambda>_. sample_seed) [] (str ''h.example'') sample_profile 0 = Inr seed)"
proof -
  have sample: "length sample_seed = 32" "ProofSize sample_config = 2" by (simp_all add: sample_seed_def sample_config_def)
  have none: "solve_graph None bulkTrimSurvivorTarget rev sample_config sample_seed 0 = Inr None"
    using FindProof_cases [where target = bulkTrimSurvivorTarget and range_order = rev and cfg = sample_config
      and seed = sample_seed and k = 0] Verify_spec [of sample_config sample_seed "[]"]
    by (cases "FindProof bulkTrimSurvivorTarget rev sample_config sample_seed 0")
      (auto simp: solve_graph_def sample_normalize sample)
  have "is_ok (GraphSeed sample_registry (\<lambda>_. sample_seed) [] (str ''h.example'') sample_profile 0)"
    using is_ok_GraphSeed [OF reachable_ok [OF sample_reachable]] sample_utf8 by blast
  then have "GraphSeed sample_registry (\<lambda>_. sample_seed) [] (str ''h.example'') sample_profile 0 = Inr sample_seed"
    by (auto simp: GraphSeed_def digest_object_def is_ok_iff split: sum.splits)
  then have run: "solveMintingPoW sample_registry (\<lambda>_. sample_seed) None bulkTrimSurvivorTarget rev (str ''h.example'') [] sample_pow 0 0 1 =
      Inl ErrNoSolution"
    using none by (simp add: solveMintingPoW_def sample_pow_def nonce_range_def maxProtocolMintingNonce_def)
  have "Validate (PowConfig sample_pow) = Inr ()" by (simp add: Validate_def sample_pow_def sample_normalize)
  moreover have "\<forall>x :: bytes. length sample_seed = 32" by (simp add: sample_seed_def)
  moreover have "validateMintingNonceRange 0 1 = Inr ()" by (simp add: validateMintingNonceRange_def maxProtocolMintingNonce_def)
  moreover have "valid_utf8 (PowAlgorithm sample_pow)" using sample_utf8(1) by (simp add: sample_pow_def)
  ultimately have "\<forall>nonce. 0 \<le> nonce \<and> nonce < 1 \<longrightarrow> (\<exists>seed. GraphSeed sample_registry (\<lambda>_. sample_seed) [] (str ''h.example'')
      (PowAlgorithm sample_pow) (ucast (nonce :: u64)) = Inr seed)"
    using solveMintingPoW_complete [OF sample_reachable _ sample_utf8(2) _ _ _ run] by blast
  from this [THEN spec, of 0] show ?thesis using run by (simp add: sample_pow_def)
qed

end
