(* ===== verification/MintingVectors.thy ===== *)
theory MintingVectors
  imports Minting Hex
begin

text \<open>
  The commands around the reference solver: \<open>cmd/minting-vectors\<close>, which mines a proof for the production profile and
  prints it with its diagnostics, and \<open>cmd/cuckoo-scan\<close>, which looks for a graph with a solution. The solver, the writers
  and the digests are parameters.
\<close>

section \<open>minting-vectors\<close>

definition keygenSeed :: bytes where "keygenSeed = str ''msc00e4-sha3-256-key-minting-vector-keygen-v1''"

record vector_edge =
  EdgeNonce :: u32
  EdgeU :: u64
  EdgeV :: u64

record vector =
  VectorSchema :: bytes
  VectorServerName :: bytes
  PublicKeyBase64 :: bytes
  Profile :: bytes
  PoWNonce :: u32
  PoWSolution :: "u32 list"
  GraphSeedHex :: bytes
  VectorKeyID :: bytes
  Notice :: bytes
  KeygenSeedASCII :: bytes
  VectorEdgeBits :: u64
  VectorProofSize :: int
  GraphSeedWordsHex :: "bytes list"
  Edges :: "vector_edge list"

definition validateVectorNonceRange :: "u64 \<Rightarrow> u64 \<Rightarrow> unit result" where
  "validateVectorNonceRange startNonce maxNonce =
     (if startNonce > maxNonce then Inl (ErrCommand (str ''start nonce exceeds exclusive max nonce''))
      else if startNonce > maxProtocolMintingNonce then Inl (ErrCommand (str ''start nonce exceeds the uint32 protocol limit''))
      else if maxNonce > maxProtocolMintingNonce + 1
      then Inl (ErrCommand (str ''max nonce exceeds the exclusive uint32 protocol limit''))
      else Inr ())"

definition vector_edge_for :: "config \<Rightarrow> bytes \<Rightarrow> u32 \<Rightarrow> vector_edge result" where
  "vector_edge_for cfg seed edgeNonce =
     (case EdgeForNonce cfg seed edgeNonce of
        Inl e \<Rightarrow> Inl e | Inr ed \<Rightarrow> Inr \<lparr>EdgeNonce = edgeNonce, EdgeU = EndU ed, EdgeV = EndV ed\<rparr>)"

text \<open>The vector of a verified solution.\<close>

definition make_vector ::
  "registry \<Rightarrow> (bytes \<Rightarrow> bytes) \<Rightarrow> bytes \<Rightarrow> bytes \<Rightarrow> u32 \<Rightarrow> bytes \<Rightarrow> u32 list \<Rightarrow> vector result" where
  "make_vector profiles sha3 serverName publicKey nonce seed solution =
     (let cfg = ProductionConfig profiles in
      case KeyID profiles sha3 publicKey serverName \<lparr>Algorithm = ProductionPoW, Nonce = nonce, Solution = solution\<rparr> of
        Inl e \<Rightarrow> Inl e
      | Inr keyID \<Rightarrow>
          (case sequence_results (map (vector_edge_for cfg seed) solution) of
             Inl e \<Rightarrow> Inl e
           | Inr es \<Rightarrow>
               Inr \<lparr>VectorSchema = str ''msc00e4-sha3-256-cogen-42-29-v1'', VectorServerName = serverName,
                    PublicKeyBase64 = b64std_encode publicKey, Profile = ProductionProfile, PoWNonce = nonce,
                    PoWSolution = solution, GraphSeedHex = hex_encode seed, VectorKeyID = b64url_encode keyID,
                    Notice = str ''Derived diagnostic and reproduction data; not part of the protocol object or any canonical hash input.'',
                    KeygenSeedASCII = keygenSeed, VectorEdgeBits = EdgeBits cfg, VectorProofSize = ProofSize cfg,
                    GraphSeedWordsHex = map (\<lambda>i. hex16 (le_word (take 8 (drop (i * 8) seed)))) [0..<4], Edges = es\<rparr>))"

fun vector_loop ::
  "registry \<Rightarrow> (bytes \<Rightarrow> bytes) \<Rightarrow> (bytes \<Rightarrow> (u32 list \<times> bool) result) \<Rightarrow> bytes \<Rightarrow> bytes \<Rightarrow> u64 list \<Rightarrow> vector result" where
  "vector_loop profiles sha3 solve serverName publicKey [] = Inl ErrNoSolution"
| "vector_loop profiles sha3 solve serverName publicKey (nonce # nonces) =
     (case GraphSeed profiles sha3 publicKey serverName ProductionProfile (ucast nonce) of
        Inl e \<Rightarrow> Inl e
      | Inr seed \<Rightarrow>
          (case solve seed of
             Inl e \<Rightarrow> Inl e
           | Inr (solution, ok) \<Rightarrow>
               if \<not> ok then vector_loop profiles sha3 solve serverName publicKey nonces
               else
                 case verify_answer (ProductionConfig profiles) seed (sort solution) of
                   Inl e \<Rightarrow> Inl (ErrCommand (str ''miner returned invalid proof''))
                 | Inr _ \<Rightarrow> make_vector profiles sha3 serverName publicKey (ucast nonce) seed (sort solution)))"

definition generate ::
  "('r, 'p) outside \<Rightarrow> registry \<Rightarrow> bytes \<Rightarrow> u64 \<Rightarrow> u64 \<Rightarrow> int \<Rightarrow> vector result" where
  "generate w profiles serverName startNonce maxNonce threads =
     (case validateVectorNonceRange startNonce maxNonce of
        Inl e \<Rightarrow> Inl e
      | Inr _ \<Rightarrow>
          (case miner_available w of
             None \<Rightarrow> Inl (ErrCommand (str ''production miner is unavailable; build cuckoo/meanminer/csrc''))
           | Some solve \<Rightarrow>
               (case GenerateKey (fndsa w) (deterministicReader w keygenSeed) of
                  (Inl e, _) \<Rightarrow> Inl e
                | (Inr (_, publicKey), _) \<Rightarrow>
                    vector_loop profiles (sha3_256 w) (\<lambda>seed. solve seed threads) serverName publicKey
                      (nonce_range startNonce maxNonce))))"

section \<open>cuckoo-scan\<close>

datatype stream = Stdout | Stderr

record scan_flags =
  Prefix :: bytes
  Start :: u64
  Limit :: u64
  ScanThreads :: int

text \<open>\<open>%v\<close> of a slice of numbers.\<close>

definition format_nonces :: "u32 list \<Rightarrow> bytes" where
  "format_nonces ns = str ''['' @ join_space (map (\<lambda>n. format_uint (unat n)) ns) @ str '']''"

text \<open>The loop: the exit code and what was written. \<open>writes\<close> says whether a write succeeds, \<open>error_text\<close> what an error
  prints.\<close>

fun scan_loop ::
  "(stream \<Rightarrow> bytes \<Rightarrow> bool) \<Rightarrow> (go_error \<Rightarrow> bytes) \<Rightarrow> (bytes \<Rightarrow> bytes) \<Rightarrow> (bytes \<Rightarrow> int \<Rightarrow> (u32 list \<times> bool) result) \<Rightarrow>
   scan_flags \<Rightarrow> u64 list \<Rightarrow> int \<times> (stream \<times> bytes) list" where
  "scan_loop writes error_text sha256 solve f [] =
     (let line = str ''no solution found in range'' @ [10]
      in if \<not> writes Stdout line then (1, []) else (2, [(Stdout, line)]))"
| "scan_loop writes error_text sha256 solve f (graphNonce # rest) =
     (case solve (sha256 (Prefix f @ le_bytes 8 graphNonce)) (ScanThreads f) of
        Inl e \<Rightarrow>
          let line = str ''nonce '' @ format_uint (unat graphNonce) @ str '': '' @ error_text e @ [10]
          in if \<not> writes Stderr line then (1, []) else (1, [(Stderr, line)])
      | Inr (proof', ok) \<Rightarrow>
          if \<not> ok then
            let line = str ''attempt '' @ format_uint (unat graphNonce) @ str '': no solution, trying next graph nonce'' @ [10]
            in if \<not> writes Stderr line then (1, [])
               else (case scan_loop writes error_text sha256 solve f rest of (code, out) \<Rightarrow> (code, (Stderr, line) # out))
          else
            let line1 = str ''FOUND at nonce '' @ format_uint (unat graphNonce) @ [10]; line2 = format_nonces proof' @ [10]
            in if \<not> writes Stdout line1 then (1, [])
               else if \<not> writes Stdout line2 then (1, [(Stdout, line1)])
               else (0, [(Stdout, line1), (Stdout, line2)]))"

text \<open>The flags as they were parsed; the bound of the loop is computed in 64 bits.\<close>

definition scan_run ::
  "(stream \<Rightarrow> bytes \<Rightarrow> bool) \<Rightarrow> (go_error \<Rightarrow> bytes) \<Rightarrow> (bytes \<Rightarrow> bytes) \<Rightarrow> (bytes \<Rightarrow> int \<Rightarrow> (u32 list \<times> bool) result) \<Rightarrow>
   scan_flags result \<Rightarrow> int \<times> (stream \<times> bytes) list" where
  "scan_run writes error_text sha256 solve parsed =
     (case parsed of
        Inl e \<Rightarrow>
          let line = error_text e @ [10] in if \<not> writes Stderr line then (1, []) else (1, [(Stderr, line)])
      | Inr f \<Rightarrow> scan_loop writes error_text sha256 solve f (nonce_range (Start f) (Start f + Limit f)))"

section \<open>The exit code of the scan\<close>

definition scan_attempt ::
  "(bytes \<Rightarrow> bytes) \<Rightarrow> (bytes \<Rightarrow> int \<Rightarrow> (u32 list \<times> bool) result) \<Rightarrow> scan_flags \<Rightarrow> u64 \<Rightarrow> (u32 list \<times> bool) result" where
  "scan_attempt sha256 solve f n = solve (CuckooGraphSeed sha256 (Prefix f) n) (ScanThreads f)"

text \<open>The first graph that is not without a solution decides.\<close>

lemma scan_loop_code:
  assumes "\<And>s line. writes s line"
  shows "fst (scan_loop writes error_text sha256 solve f nonces) =
    (case dropWhile (\<lambda>n. case scan_attempt sha256 solve f n of Inl _ \<Rightarrow> False | Inr (_, ok) \<Rightarrow> \<not> ok) nonces of
       [] \<Rightarrow> 2
     | n # _ \<Rightarrow> if is_ok (scan_attempt sha256 solve f n) then 0 else 1)"
  by (induction nonces)
    (auto simp: assms Let_def scan_attempt_def CuckooGraphSeed_def simp del: str_simps split: sum.splits prod.splits if_splits)

text \<open>A range that wraps is not searched.\<close>

lemma scan_wraps:
  assumes "\<And>s line. writes s line" "unat (Start f) + unat (Limit f) \<ge> 2 ^ 64"
  shows "fst (scan_run writes error_text sha256 solve (Inr f)) = 2"
proof -
  have "unat (Start f + Limit f) = (unat (Start f) + unat (Limit f)) mod 2 ^ 64" by (simp add: unat_word_ariths)
  moreover have "unat (Limit f) < 2 ^ 64" "unat (Start f) < 2 ^ 64" using unsigned_less [of "Limit f"] unsigned_less [of "Start f"] by simp_all
  ultimately have "unat (Start f + Limit f) \<le> unat (Start f)"
    using assms(2) mod_if [of "unat (Start f) + unat (Limit f)" "2 ^ 64"] by (simp add: mod_less split: if_splits)
  then have "nonce_range (Start f) (Start f + Limit f) = []" by (simp add: nonce_range_def)
  then show ?thesis by (simp add: scan_run_def assms(1) Let_def del: str_simps)
qed

section \<open>What a printed vector says\<close>

text \<open>The edges that are printed for a list of nonces.\<close>

definition printed_edge :: "config \<Rightarrow> bytes \<Rightarrow> u32 \<Rightarrow> vector_edge" where
  "printed_edge c seed n = \<lparr>EdgeNonce = n, EdgeU = fst (graph_edge c seed n), EdgeV = snd (graph_edge c seed n)\<rparr>"

lemma vector_edges:
  assumes "sequence_results (map (vector_edge_for c seed) ns) = Inr es"
  shows "es = map (printed_edge c seed) ns"
proof -
  have "map (vector_edge_for c seed) ns = map Inr es" using assms unfolding sequence_results_Inr_iff .
  then show ?thesis
    by (induction ns arbitrary: es) (auto simp: vector_edge_for_def graph_edge_def printed_edge_def split: sum.splits)
qed

definition vector_proof :: "vector \<Rightarrow> minting_proof" where
  "vector_proof v = \<lparr>Algorithm = Profile v, Nonce = PoWNonce v, Solution = PoWSolution v\<rparr>"

lemma make_vector_Inr:
  assumes "make_vector profiles sha3 serverName pk nonce seed solution = Inr v"
  shows "Profile v = ProductionProfile \<and> PoWNonce v = nonce \<and> PoWSolution v = solution \<and> GraphSeedHex v = hex_encode seed \<and>
    PublicKeyBase64 v = b64std_encode pk \<and> KeyIDBase64 profiles sha3 pk serverName (vector_proof v) = Inr (VectorKeyID v) \<and>
    sequence_results (map (vector_edge_for (ProductionConfig profiles) seed) solution) = Inr (Edges v)"
  using assms by (auto simp: make_vector_def Let_def vector_proof_def KeyIDBase64_def ProductionPoW_def split: sum.splits)

lemma vector_loop_Inr:
  "vector_loop profiles sha3 solve serverName pk nonces = Inr v \<Longrightarrow>
   \<exists>nonce\<in>set nonces. \<exists>seed solution.
     GraphSeed profiles sha3 pk serverName ProductionProfile (ucast nonce) = Inr seed \<and> solve seed = Inr (solution, True) \<and>
     Verify (ProductionConfig profiles) seed (sort solution) = Some (Inr ()) \<and>
     make_vector profiles sha3 serverName pk (ucast nonce) seed (sort solution) = Inr v"
  by (induction nonces) (auto simp: verify_answer_Inr split: sum.splits prod.splits if_splits)

text \<open>A vector is self-contained: from its own text a reader gets the key, the seed of the graph, a proof that the
  verifier accepts and whose printed edges close a cycle, and the identifier.\<close>

lemma generate_Inr:
  assumes "generate w initial_profiles serverName start limit threads = Inr v"
  shows "\<exists>pk seed. b64std_decode (PublicKeyBase64 v) = Inr pk \<and> hex_decode (GraphSeedHex v) = Some seed \<and>
    GraphSeed initial_profiles (sha3_256 w) pk serverName (Profile v) (PoWNonce v) = Inr seed \<and>
    validateProof initial_profiles (sha3_256 w) pk serverName (Profile v) (vector_proof v) = Inr () \<and>
    KeyIDBase64 initial_profiles (sha3_256 w) pk serverName (vector_proof v) = Inr (VectorKeyID v) \<and>
    (\<exists>nonce. start \<le> nonce \<and> nonce < limit \<and> PoWNonce v = ucast nonce) \<and>
    map EdgeNonce (Edges v) = PoWSolution v \<and> length (Edges v) = 42 \<and>
    (\<exists>order. mset order = mset (Edges v) \<and> simple_cycle (map (\<lambda>ed. (EdgeU ed, EdgeV ed)) order))"
proof -
  obtain pk solve where "vector_loop initial_profiles (sha3_256 w) solve serverName pk (nonce_range start limit) = Inr v"
    using assms by (auto simp: generate_def split: sum.splits option.splits prod.splits)
  from vector_loop_Inr [OF this] obtain nonce seed solution where n: "nonce \<in> set (nonce_range start limit)"
    and seed: "GraphSeed initial_profiles (sha3_256 w) pk serverName ProductionProfile (ucast nonce) = Inr seed"
    and ok: "Verify (ProductionConfig initial_profiles) seed (sort solution) = Some (Inr ())"
    and v: "make_vector initial_profiles (sha3_256 w) serverName pk (ucast nonce) seed (sort solution) = Inr v" by blast
  let ?cfg = "\<lparr>EdgeBits = 29, ProofSize = 42\<rparr>"
  have cfg: "ProductionConfig initial_profiles = ?cfg" "profile_config production_profile = ?cfg"
    by (simp_all add: ProductionConfig_def getProfile_def initial_profiles_def production_profile_def)
  have norm: "normalize ?cfg = Inr ?cfg" by (simp add: normalize_def)
  note m = make_vector_Inr [OF v]
  have edges: "Edges v = map (printed_edge ?cfg seed) (sort solution)"
    by (rule vector_edges) (use m in \<open>simp add: cfg\<close>)
  obtain order where o: "mset order = mset (sort solution)" "simple_cycle (map (graph_edge ?cfg seed) order)"
    and len: "length (sort solution) = 42"
    using Verify_spec [of ?cfg seed "sort solution"] ok norm unfolding cfg by auto
  have cycle: "\<exists>order. mset order = mset (Edges v) \<and> simple_cycle (map (\<lambda>ed. (EdgeU ed, EdgeV ed)) order)"
  proof (intro exI conjI)
    show "mset (map (printed_edge ?cfg seed) order) = mset (Edges v)" unfolding edges mset_map o(1) ..
    have "map (\<lambda>ed. (EdgeU ed, EdgeV ed)) (map (printed_edge ?cfg seed) order) = map (graph_edge ?cfg seed) order"
      by (simp add: printed_edge_def)
    then show "simple_cycle (map (\<lambda>ed. (EdgeU ed, EdgeV ed)) (map (printed_edge ?cfg seed) order))" using o(2) by metis
  qed
  have nonces: "map EdgeNonce (Edges v) = PoWSolution v" "length (Edges v) = 42"
    using edges m len by (simp_all add: printed_edge_def o_def)
  have "validateProof initial_profiles (sha3_256 w) pk serverName (Profile v) (vector_proof v) = Inr ()"
    using seed ok m cfg
    by (simp add: validateProof_def getProfile_def initial_profiles_def vector_proof_def verify_answer_Inr)
  moreover have "b64std_decode (PublicKeyBase64 v) = Inr pk" using m b64std.decode_encode by simp
  moreover have "hex_decode (GraphSeedHex v) = Some seed" using m by simp
  moreover have "GraphSeed initial_profiles (sha3_256 w) pk serverName (Profile v) (PoWNonce v) = Inr seed" using m seed by simp
  moreover have "\<exists>nonce. start \<le> nonce \<and> nonce < limit \<and> PoWNonce v = ucast nonce"
    using m n unfolding nonce_range_iff by blast
  ultimately show ?thesis using m cycle nonces by (intro exI [of _ pk] exI [of _ seed] conjI) blast+
qed

end
