(* ===== verification/KeyTool.thy ===== *)
theory KeyTool
  imports PrivateKey
begin

text \<open>
  The command \<open>cmd/serverkey-keytool\<close>: it encrypts a private key or changes the passphrase of an encrypted one. The
  parsed flags, the environment, the files, standard input and \<open>json.Unmarshal\<close> are parameters; the result is the object
  that is printed.
\<close>

section \<open>The command\<close>

definition readInput :: "(bytes \<Rightarrow> bytes result) \<Rightarrow> bytes \<Rightarrow> bytes result \<Rightarrow> bytes result" where
  "readInput readFile path stdin = (if path = str ''-'' then stdin else readFile path)"

definition readPassphrase ::
  "(bytes \<Rightarrow> bytes option) \<Rightarrow> (bytes \<Rightarrow> bytes result) \<Rightarrow> bytes \<Rightarrow> bytes \<Rightarrow> bytes \<Rightarrow> bytes result" where
  "readPassphrase lookupEnv readFile envName fileName label =
     (if envName \<noteq> [] \<and> fileName \<noteq> [] then Inl (ErrCommand (str ''use only one source of '' @ label))
      else if envName \<noteq> [] then
        case lookupEnv envName of
          None \<Rightarrow> Inl (ErrCommand (str ''environment variable is not set'')) | Some passphrase \<Rightarrow> Inr passphrase
      else if fileName \<noteq> [] then
        case readFile fileName of Inl e \<Rightarrow> Inl e | Inr passphrase \<Rightarrow> Inr (TrimRight [13, 10] passphrase)
      else Inl (ErrCommand (str ''missing source of '' @ label)))"

record keytool_flags =
  Mode :: bytes
  In :: bytes
  PassphraseEnvFlag :: bytes
  PassphraseFileFlag :: bytes
  OldPassphraseEnv :: bytes
  OldPassphraseFile :: bytes
  NewPassphraseEnv :: bytes
  NewPassphraseFile :: bytes

record 'p keytool_world =
  tool_prims :: "'p primitives"
  tool_conv :: "f64 \<Rightarrow> u64"
  tool_env :: "bytes \<Rightarrow> bytes option"
  tool_files :: "bytes \<Rightarrow> bytes result"
  tool_stdin :: "bytes result"
  Unmarshal :: "bytes \<Rightarrow> gmap result"

definition keytool_encrypt :: "'p keytool_world \<Rightarrow> keytool_flags \<Rightarrow> bytes \<Rightarrow> gmap result" where
  "keytool_encrypt w f input =
     (case readPassphrase (tool_env w) (tool_files w) (PassphraseEnvFlag f) (PassphraseFileFlag f) (str ''passphrase'') of
        Inl e \<Rightarrow> Inl e
      | Inr passphrase \<Rightarrow>
          (case b64std_decode (TrimSpace input) of
             Inl e \<Rightarrow> Inl e
           | Inr privateKey \<Rightarrow>
               EncryptPrivateKey (tool_prims w) None privateKey passphrase DefaultPrivateKeyEncryptionParams))"

definition keytool_reencrypt :: "'p keytool_world \<Rightarrow> keytool_flags \<Rightarrow> bytes \<Rightarrow> gmap result" where
  "keytool_reencrypt w f input =
     (case readPassphrase (tool_env w) (tool_files w) (OldPassphraseEnv f) (OldPassphraseFile f) (str ''old passphrase'') of
        Inl e \<Rightarrow> Inl e
      | Inr oldPassphrase \<Rightarrow>
          (case readPassphrase (tool_env w) (tool_files w) (NewPassphraseEnv f) (NewPassphraseFile f) (str ''new passphrase'') of
             Inl e \<Rightarrow> Inl e
           | Inr newPassphrase \<Rightarrow>
               (case Unmarshal w input of
                  Inl e \<Rightarrow> Inl e
                | Inr oldEncrypted \<Rightarrow>
                    ReencryptPrivateKey (tool_prims w) (tool_conv w) None oldEncrypted oldPassphrase newPassphrase
                      DefaultPrivateKeyEncryptionParams)))"

definition keytool_run :: "'p keytool_world \<Rightarrow> keytool_flags result \<Rightarrow> gmap result" where
  "keytool_run w parsed =
     (case parsed of
        Inl e \<Rightarrow> Inl e
      | Inr f \<Rightarrow>
          (case readInput (tool_files w) (In f) (tool_stdin w) of
             Inl e \<Rightarrow> Inl e
           | Inr input \<Rightarrow>
               if Mode f = str ''encrypt'' then keytool_encrypt w f input
               else if Mode f = str ''reencrypt'' then keytool_reencrypt w f input
               else Inl (ErrCommand (str ''set -mode to encrypt or reencrypt''))))"

section \<open>What it prints opens\<close>

lemma keytool_encrypt_opens:
  assumes "primitives_ok (tool_prims w)" "keytool_encrypt w f input = Inr obj"
  obtains sk passphrase where "b64std_decode (TrimSpace input) = Inr sk"
    "readPassphrase (tool_env w) (tool_files w) (PassphraseEnvFlag f) (PassphraseFileFlag f) (str ''passphrase'') = Inr passphrase"
    "DecryptPrivateKey (tool_prims w) oob (map (map_prod id via_json) obj) passphrase = Inr sk"
  using assms Encrypt_opens(2) by (fastforce simp: keytool_encrypt_def split: sum.splits)

text \<open>Encrypting and then changing the passphrase: the new passphrase opens the same private key.\<close>

lemma keytool_changes_passphrase:
  assumes "primitives_ok (tool_prims w)" "keytool_encrypt w f input = Inr obj"
    and "Unmarshal w' input' = Inr (map (map_prod id via_json) obj)" "tool_prims w' = tool_prims w"
    and "readPassphrase (tool_env w') (tool_files w') (OldPassphraseEnv f') (OldPassphraseFile f') (str ''old passphrase'') =
      readPassphrase (tool_env w) (tool_files w) (PassphraseEnvFlag f) (PassphraseFileFlag f) (str ''passphrase'')"
    and "keytool_reencrypt w' f' input' = Inr obj'"
  shows "\<exists>passphrase.
    readPassphrase (tool_env w') (tool_files w') (NewPassphraseEnv f') (NewPassphraseFile f') (str ''new passphrase'') = Inr passphrase \<and>
    of_result (DecryptPrivateKey (tool_prims w) oob obj' passphrase) = of_result (b64std_decode (TrimSpace input))"
proof -
  obtain sk passphrase where sk: "b64std_decode (TrimSpace input) = Inr sk"
    and p: "readPassphrase (tool_env w) (tool_files w) (PassphraseEnvFlag f) (PassphraseFileFlag f) (str ''passphrase'') = Inr passphrase"
    and d: "DecryptPrivateKey (tool_prims w) (tool_conv w') (map (map_prod id via_json) obj) passphrase = Inr sk"
    by (rule keytool_encrypt_opens [OF assms(1,2)])
  obtain new where n: "readPassphrase (tool_env w') (tool_files w') (NewPassphraseEnv f') (NewPassphraseFile f') (str ''new passphrase'') = Inr new"
    and e: "EncryptPrivateKey (tool_prims w) None sk new DefaultPrivateKeyEncryptionParams = Inr obj'"
    using assms(3-6) p d by (auto simp: keytool_reencrypt_def ReencryptPrivateKey_def split: sum.splits simp del: str_simps)
  show ?thesis using n Encrypt_opens(1) [OF assms(1) e] sk by (intro exI [of _ new]) simp
qed

end
