(* ===== verification/Commands.thy ===== *)
theory Commands
  imports EventVectors MintingVectors KeyTool
begin

text \<open>
  The outer layer of the commands that print JSON: \<open>main\<close> and the output part of \<open>run\<close> of \<open>cmd/merkle-vectors\<close>,
  \<open>cmd/minting-vectors\<close> and \<open>cmd/serverkey-keytool\<close>. The encoder of \<open>encoding/json\<close> and the calls on files are fields of a
  record; the result of a command is its exit status, the lines on standard output and the files it wrote in full.
\<close>

record 'v output_env =
  JSON :: "'v \<Rightarrow> bytes result"
  MkdirAll :: "bytes \<Rightarrow> go_error option"
  CreateFile :: "bytes \<Rightarrow> go_error option"
  WriteOut :: "bytes \<Rightarrow> go_error option"
  CloseFile :: "bytes \<Rightarrow> go_error option"
  OutDir :: "bytes \<Rightarrow> bytes"

section \<open>merkle-vectors\<close>

definition merkle_lines :: "merkle_vectors \<Rightarrow> bytes list" where
  "merkle_lines v =
     [str ''[msc4511-merkle]'',
      str ''field_root_hex = '' @ FieldRootHex v,
      str ''event_header_root_hex = '' @ EventHeaderRootHex v,
      str ''prev_events_hash_hex = '' @ PrevEventsHashHex v,
      str ''auth_events_hash_hex = '' @ AuthEventsHashHex v,
      str ''content_hash_hex = '' @ ContentHashHex v,
      str ''other_signed_fields_hash_hex = '' @ OtherSignedFieldsHashHex v,
      str ''event_root_hex = '' @ EventRootHex v,
      str ''event_id = '' @ EventIDString v]"

text \<open>The error, the lines and the file of \<open>run\<close>; \<open>WriteOut\<close> is \<open>os.WriteFile\<close>.\<close>

definition merkle_output ::
  "merkle_vectors output_env \<Rightarrow> (bytes \<Rightarrow> bytes) \<Rightarrow> bytes \<Rightarrow> go_error option \<times> bytes list \<times> (bytes \<times> bytes) option" where
  "merkle_output e H outputPath =
     (case merkle_vectors_run H of
        Inl err \<Rightarrow> (Some err, [], None)
      | Inr v \<Rightarrow>
          if outputPath = [] then (None, merkle_lines v, None)
          else
            case MkdirAll e (OutDir e outputPath) of
              Some err \<Rightarrow> (Some err, merkle_lines v, None)
            | None \<Rightarrow>
                (case JSON e v of
                   Inl err \<Rightarrow> (Some err, merkle_lines v, None)
                 | Inr json \<Rightarrow>
                     (case WriteOut e outputPath of
                        Some err \<Rightarrow> (Some err, merkle_lines v, None)
                      | None \<Rightarrow> (None, merkle_lines v @ [str ''wrote '' @ outputPath], Some (outputPath, json @ [10])))))"

text \<open>\<open>log.Fatal\<close> exits with status 1.\<close>

definition merkle_main ::
  "merkle_vectors output_env \<Rightarrow> (bytes \<Rightarrow> bytes) \<Rightarrow> bytes \<Rightarrow> nat \<times> bytes list \<times> (bytes \<times> bytes) option" where
  "merkle_main e H outputPath =
     (case merkle_output e H outputPath of (err, out, file') \<Rightarrow> (if err \<noteq> None then 1 else 0, out, file'))"

section \<open>minting-vectors\<close>

text \<open>The flags as they were parsed; the encoder ends the text with a line end. The empty path is standard output.\<close>

definition vector_main ::
  "vector output_env \<Rightarrow> ('r, 'p) outside \<Rightarrow> registry \<Rightarrow> bytes \<Rightarrow> u64 \<Rightarrow> u64 \<Rightarrow> int \<Rightarrow> bytes \<Rightarrow>
   nat \<times> (bytes \<times> bytes) option" where
  "vector_main e w profiles serverName startNonce maxNonce threads output =
     (case generate w profiles serverName startNonce maxNonce threads of
        Inl _ \<Rightarrow> (1, None)
      | Inr v \<Rightarrow>
          (case (if output \<noteq> [] then CreateFile e output else None) of
             Some _ \<Rightarrow> (1, None)
           | None \<Rightarrow>
               (case JSON e v of
                  Inl _ \<Rightarrow> (1, None)
                | Inr json \<Rightarrow>
                    (case WriteOut e output of
                       Some _ \<Rightarrow> (1, None)
                     | None \<Rightarrow>
                         (case (if output \<noteq> [] then CloseFile e output else None) of
                            Some _ \<Rightarrow> (1, Some (output, json @ [10]))
                          | None \<Rightarrow> (0, Some (output, json @ [10])))))))"

section \<open>serverkey-keytool\<close>

definition keytool_main :: "gmap output_env \<Rightarrow> 'p keytool_world \<Rightarrow> keytool_flags result \<Rightarrow> nat \<times> bytes option" where
  "keytool_main e w parsed =
     (case keytool_run w parsed of
        Inl _ \<Rightarrow> (1, None)
      | Inr encrypted \<Rightarrow>
          (case JSON e encrypted of
             Inl _ \<Rightarrow> (1, None)
           | Inr json \<Rightarrow> (case WriteOut e [] of Some _ \<Rightarrow> (1, None) | None \<Rightarrow> (0, Some (json @ [10])))))"

section \<open>What exit status 0 means\<close>

text \<open>Nothing of the vectors depends on the files, so only a call on files can fail.\<close>

lemma merkle_main_ok:
  assumes "JSON e v = Inr json" "merkle_vectors_run H = Inr v"
    and "\<And>p. MkdirAll e p = None" "\<And>p. WriteOut e p = None"
  shows "merkle_main e H outputPath =
    (0, merkle_lines v @ (if outputPath = [] then [] else [str ''wrote '' @ outputPath]),
     if outputPath = [] then None else Some (outputPath, json @ [10]))"
  by (simp add: merkle_main_def merkle_output_def assms del: str_simps)

text \<open>A file that was reported as written holds a vector that a reader can check.\<close>

lemma vector_main_ok:
  assumes "vector_main e w initial_profiles serverName start limit threads output = (0, written)"
  obtains v json pk where "JSON e v = Inr json" "written = Some (output, json @ [10])"
    "b64std_decode (PublicKeyBase64 v) = Inr pk"
    "validateProof initial_profiles (sha3_256 w) pk serverName (Profile v) (vector_proof v) = Inr ()"
    "KeyIDBase64 initial_profiles (sha3_256 w) pk serverName (vector_proof v) = Inr (VectorKeyID v)"
proof -
  obtain v json where g: "generate w initial_profiles serverName start limit threads = Inr v"
    and "JSON e v = Inr json" "written = Some (output, json @ [10])"
    using assms by (auto simp: vector_main_def split: sum.splits option.splits)
  then show thesis using generate_Inr [OF g] that by blast
qed

lemma keytool_main_ok:
  assumes "keytool_main e w (Inr f) = (0, printed)" "Mode f = str ''encrypt''" "primitives_ok (tool_prims w)"
  obtains input obj json sk passphrase where "readInput (tool_files w) (In f) (tool_stdin w) = Inr input"
    "b64std_decode (TrimSpace input) = Inr sk" "JSON e obj = Inr json" "printed = Some (json @ [10])"
    "readPassphrase (tool_env w) (tool_files w) (PassphraseEnvFlag f) (PassphraseFileFlag f) (str ''passphrase'') = Inr passphrase"
    "DecryptPrivateKey (tool_prims w) oob (map (map_prod id via_json) obj) passphrase = Inr sk"
proof -
  obtain obj json where k: "keytool_run w (Inr f) = Inr obj" and j: "JSON e obj = Inr json" "printed = Some (json @ [10])"
    using assms(1) by (auto simp: keytool_main_def split: sum.splits option.splits)
  obtain input where i: "readInput (tool_files w) (In f) (tool_stdin w) = Inr input" "keytool_encrypt w f input = Inr obj"
    using k assms(2) by (auto simp: keytool_run_def split: sum.splits)
  show thesis using keytool_encrypt_opens [OF assms(3) i(2)] i(1) j that by metis
qed

end
