(* ===== verification/MinerProcess.thy ===== *)
theory MinerProcess
  imports MintingVectors
begin

text \<open>
  \<open>cmd/minting-vectors\<close> over the solver process of package \<open>meanminer\<close>: the whole path from the seed of a graph through
  the arguments of the process, its output and the verifier to the printed vector.
\<close>

section \<open>The solver of the package\<close>

definition process_miner :: "machine \<Rightarrow> (bytes \<Rightarrow> int \<Rightarrow> (u32 list \<times> bool) result) option" where
  "process_miner m = (if Available m then Some (Solve m) else None)"

text \<open>What \<open>cuckoo/meanminer/csrc/solve_main.cpp\<close> documents of the program that its Makefile puts beside the source of the
  package: run with the four words of a seed in hexadecimal, it prints the nonces of a proof for that seed, or that there
  is none. Nothing is assumed of other programs, and nothing of other arguments.\<close>

definition unsolvable :: "config \<Rightarrow> bytes \<Rightarrow> bool" where
  "unsolvable cfg seed \<longleftrightarrow> (\<forall>p. Verify cfg seed p \<noteq> Some (Inr ()))"

definition process_solves :: "machine \<Rightarrow> int \<Rightarrow> config \<Rightarrow> bytes \<Rightarrow> bool" where
  "process_solves m threads cfg seed \<longleftrightarrow>
     (\<exists>source ks. runtimeCaller m = Some source \<and> length ks = 4 \<and> seed = concat (map (le_bytes 8) ks) \<and>
        (\<forall>args. solver_command ks threads args \<longrightarrow>
           (\<exists>sol. runCommand m (PathJoin m (PathDir m source) (str ''cuckoo_solve_29_42'')) args = Inr (solver_output sol) \<and>
              (case sol of None \<Rightarrow> unsolvable cfg seed | Some p \<Rightarrow> Verify cfg seed (sort p) = Some (Inr ())))))"

lemma Verify_not_Nil: "Verify cfg seed [] \<noteq> Some (Inr ())"
  using Verify_spec [of cfg seed "[]"] normalize_bounds(4) by fastforce

lemma process_solves_cases:
  assumes "process_solves m threads cfg seed"
  obtains (none) "Solve m seed threads = Inr ([], False)" "unsolvable cfg seed"
  | (some) p where "Solve m seed threads = Inr (p, True)" "Verify cfg seed (sort p) = Some (Inr ())"
proof -
  obtain source ks where m: "runtimeCaller m = Some source" "length ks = 4" and seed: "seed = concat (map (le_bytes 8) ks)"
    and run: "\<And>args. solver_command ks threads args \<Longrightarrow>
      \<exists>sol. runCommand m (PathJoin m (PathDir m source) (str ''cuckoo_solve_29_42'')) args = Inr (solver_output sol) \<and>
        (case sol of None \<Rightarrow> unsolvable cfg seed | Some p \<Rightarrow> Verify cfg seed (sort p) = Some (Inr ()))"
    using assms unfolding process_solves_def by blast
  obtain sol where sol: "runCommand m (PathJoin m (PathDir m source) (str ''cuckoo_solve_29_42'')) (solver_args seed threads) =
      Inr (solver_output sol)"
    "case sol of None \<Rightarrow> unsolvable cfg seed | Some p \<Rightarrow> Verify cfg seed (sort p) = Some (Inr ())"
    using run [OF solver_args_command [OF m(2), of threads, folded seed]] by blast
  have "sol \<noteq> Some []" using sol(2) Verify_not_Nil [of cfg seed] by auto
  then have "Solve m seed threads = Inr (case sol of None \<Rightarrow> ([], False) | Some p \<Rightarrow> (p, True))"
    using Solve_protocol [OF m _ sol(1) [unfolded seed]] seed by blast
  then show thesis using sol(2) that by (cases sol) auto
qed

section \<open>The loop\<close>

text \<open>A verified solution always gives a vector.\<close>

abbreviation production :: config where "production \<equiv> ProductionConfig initial_profiles"

lemma production: "production = \<lparr>EdgeBits = 29, ProofSize = 42\<rparr>" "normalize production = Inr production"
  by (simp_all add: ProductionConfig_def getProfile_def initial_profiles_def production_profile_def normalize_def)

lemma make_vector_total:
  assumes "valid_utf8 serverName" "Verify production seed s = Some (Inr ())"
  shows "\<exists>v. make_vector initial_profiles sha3 serverName pk nonce seed s = Inr v \<and> PoWNonce v = nonce"
proof -
  have "is_ok (KeyID initial_profiles sha3 pk serverName \<lparr>Algorithm = ProductionPoW, Nonce = nonce, Solution = s\<rparr>)"
    unfolding is_ok_KeyID [OF initial_ok] using assms(1) by (simp add: ProductionPoW_def ProductionProfile_def valid_utf8_ascii)
  then obtain k where k: "KeyID initial_profiles sha3 pk serverName \<lparr>Algorithm = ProductionPoW, Nonce = nonce, Solution = s\<rparr> = Inr k"
    by (auto simp: is_ok_iff)
  have "length seed = 32" and r: "\<forall>n\<in>set s. unat n < 2 ^ unat (EdgeBits production)"
    using Verify_spec [of production seed s] assms(2) production(2) by auto
  then have "\<forall>n\<in>set s. \<exists>e. vector_edge_for production seed n = Inr e"
    using nonce_in_range [of production] production by (auto simp: vector_edge_for_def EdgeForNonce_def seedWords_def Let_def)
  then have "\<exists>es. sequence_results (map (vector_edge_for production seed) s) = Inr es"
    by (induction s) auto
  then show ?thesis using k by (auto simp: make_vector_def Let_def)
qed

definition graph_unsolvable :: "(bytes \<Rightarrow> bytes) \<Rightarrow> bytes \<Rightarrow> bytes \<Rightarrow> u64 \<Rightarrow> bool" where
  "graph_unsolvable sha3 pk serverName nonce \<longleftrightarrow>
     (\<forall>seed. GraphSeed initial_profiles sha3 pk serverName ProductionProfile (ucast nonce) = Inr seed \<longrightarrow> unsolvable production seed)"

lemma vector_loop_process:
  assumes "valid_utf8 serverName" "\<forall>x. process_solves m threads production (sha3 x)"
  shows "sorted_wrt (<) nonces \<Longrightarrow>
    case vector_loop initial_profiles sha3 (\<lambda>seed. Solve m seed threads) serverName pk nonces of
      Inr v \<Rightarrow> \<exists>nonce\<in>set nonces. PoWNonce v = ucast nonce \<and>
        (\<forall>earlier\<in>set nonces. earlier < nonce \<longrightarrow> graph_unsolvable sha3 pk serverName earlier)
    | Inl e \<Rightarrow> e = ErrNoSolution \<and> (\<forall>nonce\<in>set nonces. graph_unsolvable sha3 pk serverName nonce)"
proof (induction nonces)
  case (Cons nonce nonces)
  have "is_ok (GraphSeed initial_profiles sha3 pk serverName ProductionProfile (ucast nonce))"
    unfolding is_ok_GraphSeed [OF initial_ok] using assms(1) by (simp add: ProductionProfile_def valid_utf8_ascii)
  then obtain x where seed: "GraphSeed initial_profiles sha3 pk serverName ProductionProfile (ucast nonce) = Inr (sha3 x)"
    by (auto simp: is_ok_iff GraphSeed_def digest_object_def split: sum.splits)
  have "process_solves m threads production (sha3 x)" using assms(2) by simp
  note process_solves_cases [OF this]
  then consider (none) "Solve m (sha3 x) threads = Inr ([], False)" "unsolvable production (sha3 x)"
    | (some) p where "Solve m (sha3 x) threads = Inr (p, True)" "Verify production (sha3 x) (sort p) = Some (Inr ())" by blast
  then show ?case
  proof cases
    case none
    have "graph_unsolvable sha3 pk serverName nonce" using seed none(2) by (simp add: graph_unsolvable_def)
    then show ?thesis using Cons seed none(1) by (auto split: sum.splits)
  next
    case (some p)
    then obtain v where "make_vector initial_profiles sha3 serverName pk (ucast nonce) (sha3 x) (sort p) = Inr v"
      "PoWNonce v = ucast nonce" using make_vector_total [OF assms(1)] by blast
    then show ?thesis using Cons.prems seed some by (auto simp: verify_answer_def)
  qed
qed simp

lemma nonce_range_sorted: "sorted_wrt (<) (nonce_range start limit)"
proof -
  have "unat limit < 2 ^ 64" using unsigned_less [of limit] by simp
  then show ?thesis unfolding nonce_range_def sorted_wrt_map
    by (intro sorted_wrt_mono_rel [OF _ sorted_wrt_upt]) (simp add: word_less_nat_alt unat_of_nat take_bit_nat_eq_self)
qed

text \<open>A machine with one program, which runs the search of package \<open>cuckoo\<close> for one seed: it answers as documented.\<close>

definition sample_source :: bytes where "sample_source = str ''/meanminer/meanminer.go''"

definition sample_dir :: "bytes \<Rightarrow> bytes" where
  "sample_dir path = rev (drop 1 (dropWhile (\<lambda>b. b \<noteq> 47) (rev path)))"

definition sample_machine :: machine where
  "sample_machine =
     \<lparr>runtimeCaller = Some sample_source, PathDir = sample_dir, PathJoin = (\<lambda>dir base. dir @ [47] @ base),
      Stat = (\<lambda>path. if path = str ''/meanminer/cuckoo_solve_29_42'' then Inr False else Inl ErrExternal),
      runCommand = (\<lambda>path args.
        if path = str ''/meanminer/cuckoo_solve_29_42''
        then Inr (solver_output (of_result (FindProof bulkTrimSurvivorTarget rev production sample_seed (2 ^ 29))))
        else Inl ErrExternal)\<rparr>"

lemma sample_path:
  "PathJoin sample_machine (PathDir sample_machine sample_source) (str ''cuckoo_solve_29_42'') = str ''/meanminer/cuckoo_solve_29_42''"
  by (simp add: sample_machine_def sample_dir_def sample_source_def)

lemma sample_machine_run:
  "runCommand sample_machine (str ''/meanminer/cuckoo_solve_29_42'') args =
     Inr (solver_output (of_result (FindProof bulkTrimSurvivorTarget rev production sample_seed (2 ^ 29))))"
  "Stat sample_machine (str ''/meanminer/cuckoo_solve_29_42'') = Inr False"
  "runtimeCaller sample_machine = Some sample_source"
  by (simp_all add: sample_machine_def del: str_simps)

lemma sample_seed_words: "sample_seed = concat (map (le_bytes 8) (replicate 4 (le_word (replicate 8 5) :: u64)))"
proof -
  have "le_bytes 8 (le_word (replicate 8 5) :: u64) = replicate 8 5" by (rule le_bytes_le_word) simp_all
  then show ?thesis by (simp add: sample_seed_def numeral_eq_Suc)
qed

lemma sample_solves: "process_solves sample_machine threads production sample_seed"
proof -
  let ?find = "FindProof bulkTrimSurvivorTarget rev production sample_seed (2 ^ 29)"
  have words: "\<exists>words. seedWords sample_seed = Inr words" by (simp add: seedWords_def sample_seed_def Let_def)
  have "Verify production sample_seed (sort p) = Some (Inr ())" if "?find = Inr p" for p
  proof -
    have v: "Verify production sample_seed p = Some (Inr ())"
      using FindProof_cases [where target = bulkTrimSurvivorTarget and range_order = rev and cfg = production
        and seed = sample_seed and k = "2 ^ 29"] that by simp
    then have "sorted_wrt (<) p" using Verify_spec [of production sample_seed p] by auto
    then show ?thesis using v by (simp add: strict_sorted_iff sort_key_id_if_sorted)
  qed
  moreover have "unsolvable production sample_seed" if e: "?find = Inl e" for e
    unfolding unsolvable_def
  proof (intro allI notI)
    fix p
    assume p: "Verify production sample_seed p = Some (Inr ())"
    then have "\<forall>n\<in>set p. n < 2 ^ 29"
      using Verify_spec [of production sample_seed p] production by (auto simp: word_less_nat_alt)
    moreover have "e = ErrNoSolution"
      using FindProof_cases [where target = bulkTrimSurvivorTarget and range_order = rev and cfg = production
        and seed = sample_seed and k = "2 ^ 29"] e production(2) words
      by (auto simp: seedWords_def split: if_splits)
    ultimately show False using FindProof_complete_ok [OF production(2) _ p] words e by metis
  qed
  ultimately have sol: "case of_result ?find of None \<Rightarrow> unsolvable production sample_seed
      | Some p \<Rightarrow> Verify production sample_seed (sort p) = Some (Inr ())" by (cases ?find) simp_all
  show ?thesis
    unfolding process_solves_def
    using sample_machine_run sample_path sample_seed_words sol
    by (intro exI [of _ sample_source] exI [of _ "replicate 4 (le_word (replicate 8 5) :: u64)"] conjI allI impI
          exI [of _ "of_result ?find"]) (simp_all del: str_simps)
qed

section \<open>Properties\<close>

text \<open>C14: with the reference solver the command finds the first proof there is. When the program beside the source of the
  package, run with the words of a seed, answers as its documentation says, a range that is accepted and a server name in
  valid UTF-8 give a vector for the first nonce of the
  range whose graph has a proof, with a minting proof that validates, or the error that there is no solution, and then no
  graph of the range has one.\<close>

theorem generate_finds_first:
  assumes "valid_utf8 serverName" "validateVectorNonceRange start limit = Inr ()"
    and "Available m" "miner_available w = process_miner m"
    and "fst (GenerateKey (fndsa w) (deterministicReader w keygenSeed)) = Inr (sk, pk)"
    and "\<forall>x. process_solves m threads production (sha3_256 w x)"
  shows "case generate w initial_profiles serverName start limit threads of
      Inr v \<Rightarrow>
        validateProof initial_profiles (sha3_256 w) pk serverName ProductionProfile (vector_proof v) = Inr () \<and>
        (\<exists>nonce. start \<le> nonce \<and> nonce < limit \<and> PoWNonce v = ucast nonce \<and>
           (\<forall>earlier. start \<le> earlier \<and> earlier < nonce \<longrightarrow> graph_unsolvable (sha3_256 w) pk serverName earlier))
    | Inl e \<Rightarrow> e = ErrNoSolution \<and> (\<forall>nonce. start \<le> nonce \<and> nonce < limit \<longrightarrow> graph_unsolvable (sha3_256 w) pk serverName nonce)"
proof -
  have g: "generate w initial_profiles serverName start limit threads =
      vector_loop initial_profiles (sha3_256 w) (\<lambda>seed. Solve m seed threads) serverName pk (nonce_range start limit)"
    using assms(2-5) by (auto simp: generate_def process_miner_def split: prod.splits)
  note loop = vector_loop_process [OF assms(1,6) nonce_range_sorted [of start limit], where pk = pk, folded g]
  show ?thesis
  proof (cases "generate w initial_profiles serverName start limit threads")
    case (Inl e)
    then show ?thesis using loop by (simp add: nonce_range_iff)
  next
    case (Inr v)
    have "b64std_decode (PublicKeyBase64 v) = Inr pk" "Profile v = ProductionProfile"
      using vector_loop_Inr [OF Inr [unfolded g]] make_vector_Inr b64std.decode_encode by metis+
    then have "validateProof initial_profiles (sha3_256 w) pk serverName ProductionProfile (vector_proof v) = Inr ()"
      using generate_Inr [OF Inr] by auto
    moreover obtain nonce where "start \<le> nonce" "nonce < limit" "PoWNonce v = ucast nonce"
      "\<forall>earlier. start \<le> earlier \<and> earlier < limit \<and> earlier < nonce \<longrightarrow> graph_unsolvable (sha3_256 w) pk serverName earlier"
      using loop Inr by (auto simp: nonce_range_iff)
    ultimately show ?thesis using Inr by (auto intro!: exI [of _ nonce] dest: less_trans)
  qed
qed

theorem generate_finds_first_witness:
  "case generate (sample_world\<lparr>miner_available := process_miner sample_machine\<rparr>) initial_profiles (str ''h.example'') 0 2 1 of
     Inr v \<Rightarrow> PoWNonce v = 0 \<or> PoWNonce v = 1 \<and> graph_unsolvable (\<lambda>_. sample_seed) (replicate 897 2) (str ''h.example'') 0
   | Inl e \<Rightarrow> e = ErrNoSolution"
proof -
  let ?w = "sample_world\<lparr>miner_available := process_miner sample_machine\<rparr>"
  have "validateVectorNonceRange 0 2 = Inr ()" by (simp add: validateVectorNonceRange_def maxProtocolMintingNonce_def)
  moreover have "Available sample_machine" 
    using sample_machine_run sample_path by (simp add: Available_def availableWithDeps_def BinaryPath_def binaryName_def del: str_simps)
  moreover have "fst (GenerateKey (fndsa ?w) (deterministicReader ?w keygenSeed)) = Inr (replicate 1281 1, replicate 897 2)"
    by (simp add: GenerateKey_def sample_lib_def sample_world_def)
  moreover have "\<forall>x. process_solves sample_machine 1 production (sha3_256 ?w x)"
    using sample_solves by (simp add: sample_world_def)
  ultimately have "case generate ?w initial_profiles (str ''h.example'') 0 2 1 of
      Inr v \<Rightarrow> \<exists>nonce < 2. PoWNonce v = ucast nonce \<and>
        (\<forall>earlier < nonce. graph_unsolvable (\<lambda>_. sample_seed) (replicate 897 2) (str ''h.example'') earlier)
    | Inl e \<Rightarrow> e = ErrNoSolution"
    using generate_finds_first [OF sample_utf8(2), of 0 2 sample_machine ?w "replicate 1281 1" "replicate 897 2" 1]
    by (auto simp: sample_world_def split: sum.splits)
  moreover have "nonce = 0 \<or> nonce = 1" if "nonce < 2" for nonce :: u64
  proof -
    have "unat nonce = 0 \<or> unat nonce = 1" using that by (simp add: word_less_nat_alt less_2_cases_iff)
    then show ?thesis by (metis unat_0 unat_1 word_unat_eq_iff)
  qed
  ultimately show ?thesis by (fastforce split: sum.splits)
qed

end
