(* ===== verification/CoverFilter.thy ===== *)
theory CoverFilter
  imports GoStrings
begin

text \<open>
  The build tool \<open>tools/coverfilter\<close>: it removes from a coverage profile the blocks that the source marks to be ignored.
  The file system, the writer and the conventions of the platform for paths are parameters; opening, renaming and
  closing the files around the filter are left out.
\<close>

section \<open>Lines of a profile\<close>

definition parseLineCol :: "bytes \<Rightarrow> (int \<times> int) option" where
  "parseLineCol s =
     (case SplitByte 46 s of
        [l, c] \<Rightarrow>
          (case (parse_int64 l, parse_int64 c) of (Inr line, Inr col) \<Rightarrow> Some (line, col) | _ \<Rightarrow> None)
      | _ \<Rightarrow> None)"

definition parseCoverageLine :: "bytes \<Rightarrow> (bytes \<times> int \<times> int) option" where
  "parseCoverageLine line =
     (case IndexByte line 58 of
        None \<Rightarrow> None
      | Some colon \<Rightarrow>
          let filePath = take colon line; parts = Fields (drop (colon + 1) line)
          in if length parts < 2 then None
             else
               case SplitByte 44 (hd parts) of
                 [s1, s2] \<Rightarrow>
                   (case parseLineCol s1 of
                      None \<Rightarrow> None
                    | Some (startLine, _) \<Rightarrow>
                        (case parseLineCol s2 of None \<Rightarrow> None | Some (endLine, _) \<Rightarrow> Some (filePath, startLine, endLine)))
               | _ \<Rightarrow> None)"

record platform =
  FromSlash :: "bytes \<Rightarrow> bytes"
  IsAbs :: "bytes \<Rightarrow> bool"

definition resolveSourcePath :: "platform \<Rightarrow> bytes \<Rightarrow> bytes \<Rightarrow> bytes" where
  "resolveSourcePath os profilePath modulePath =
     (if modulePath \<noteq> [] \<and> HasPrefix profilePath (modulePath @ str ''/'')
      then FromSlash os (drop (length (modulePath @ str ''/'')) profilePath)
      else if IsAbs os profilePath then profilePath
      else FromSlash os profilePath)"

text \<open>\<open>None\<close> is the nil slice of a file that cannot be read.\<close>

definition readSourceLines :: "(bytes \<Rightarrow> bytes result) \<Rightarrow> bytes \<Rightarrow> bytes list option" where
  "readSourceLines readFile path =
     (case readFile path of Inl _ \<Rightarrow> None | Inr data \<Rightarrow> Some (SplitByte 10 data))"

definition blockIgnored :: "bytes list option \<Rightarrow> int \<Rightarrow> bytes \<Rightarrow> bool" where
  "blockIgnored source startLine marker =
     (case source of
        None \<Rightarrow> False
      | Some ls \<Rightarrow>
          if length ls = 0 \<or> startLine \<le> 0 then False
          else if startLine - 2 \<ge> 0 \<and> startLine - 2 < int (length ls) \<and> Contains_str (ls ! nat (startLine - 2)) marker then True
          else if startLine - 1 < int (length ls) \<and> Contains_str (ls ! nat (startLine - 1)) marker then True
          else False)"

section \<open>The filter\<close>

text \<open>\<open>bufio.Scanner\<close> with the buffer of the source: the lines without their line ends, and the error of a line that
  does not fit.\<close>

definition maxTokenSize :: nat where "maxTokenSize = 1024 * 1024"

definition drop_cr :: "bytes \<Rightarrow> bytes" where
  "drop_cr line = (if line \<noteq> [] \<and> last line = 13 then butlast line else line)"

fun scan_lines :: "bytes list \<Rightarrow> bytes list \<times> go_error option" where
  "scan_lines [] = ([], None)"
| "scan_lines [line] =
     (if line = [] then ([], None) else if length line \<ge> maxTokenSize then ([], Some ErrExternal) else ([drop_cr line], None))"
| "scan_lines (line # rest) =
     (if length line \<ge> maxTokenSize then ([], Some ErrExternal)
      else case scan_lines rest of (ls, e) \<Rightarrow> (drop_cr line # ls, e))"

text \<open>The loop: the cache of sources, what is written and the error. \<open>writes n\<close> gives the error of
  the \<open>n\<close>-th write, counted from the current one; a write that fails leaves nothing.\<close>

fun filter_lines ::
  "platform \<Rightarrow> (bytes \<Rightarrow> bytes result) \<Rightarrow> (nat \<Rightarrow> go_error option) \<Rightarrow> bytes \<Rightarrow> bytes \<Rightarrow> (bytes \<rightharpoonup> bytes list) \<Rightarrow>
   go_error option \<Rightarrow> bytes list \<Rightarrow> bytes list \<times> go_error option" where
  "filter_lines os readFile writes modulePath marker sourceCache scan_error [] = ([], scan_error)"
| "filter_lines os readFile writes modulePath marker sourceCache scan_error (line # rest) =
     (if HasPrefix line (str ''mode:'') then
        case writes 0 of
          Some e \<Rightarrow> ([], Some e)
        | None \<Rightarrow>
            (case filter_lines os readFile (writes \<circ> Suc) modulePath marker sourceCache scan_error rest of (out, e) \<Rightarrow> (line # out, e))
      else if line = [] then filter_lines os readFile writes modulePath marker sourceCache scan_error rest
      else
        case parseCoverageLine line of
          None \<Rightarrow> filter_lines os readFile writes modulePath marker sourceCache scan_error rest
        | Some (filePath, startLine, _) \<Rightarrow>
            let sourcePath = resolveSourcePath os filePath modulePath;
                ls = (case sourceCache sourcePath of Some ls \<Rightarrow> Some ls | None \<Rightarrow> readSourceLines readFile sourcePath);
                cache = (case ls of None \<Rightarrow> sourceCache | Some l \<Rightarrow> sourceCache(sourcePath \<mapsto> l))
            in if blockIgnored ls startLine marker
               then filter_lines os readFile writes modulePath marker cache scan_error rest
               else
                 case writes 0 of
                   Some e \<Rightarrow> ([], Some e)
                 | None \<Rightarrow>
                     (case filter_lines os readFile (writes \<circ> Suc) modulePath marker cache scan_error rest of
                        (out, e) \<Rightarrow> (line # out, e)))"

definition filterProfile ::
  "platform \<Rightarrow> (bytes \<Rightarrow> bytes result) \<Rightarrow> (nat \<Rightarrow> go_error option) \<Rightarrow> bytes \<Rightarrow> bytes \<Rightarrow> bytes \<Rightarrow> bytes list \<times> go_error option" where
  "filterProfile os readFile writes input modulePath marker =
     (case scan_lines (SplitByte 10 input) of
        (ls, e) \<Rightarrow> filter_lines os readFile writes modulePath marker Map.empty e ls)"

section \<open>What the filter keeps\<close>

definition kept_line :: "platform \<Rightarrow> (bytes \<Rightarrow> bytes result) \<Rightarrow> bytes \<Rightarrow> bytes \<Rightarrow> bytes \<Rightarrow> bool" where
  "kept_line os readFile modulePath marker line \<longleftrightarrow>
     HasPrefix line (str ''mode:'') \<or>
     (case parseCoverageLine line of
        None \<Rightarrow> False
      | Some (filePath, startLine, _) \<Rightarrow>
          \<not> blockIgnored (readSourceLines readFile (resolveSourcePath os filePath modulePath)) startLine marker)"

lemma parseCoverageLine_Nil [simp]: "parseCoverageLine [] = None"
  by (simp add: parseCoverageLine_def)

text \<open>Writing lines until a write fails; \<open>e\<close> is the error at the end.\<close>

fun write_all :: "(nat \<Rightarrow> go_error option) \<Rightarrow> go_error option \<Rightarrow> bytes list \<Rightarrow> bytes list \<times> go_error option" where
  "write_all writes e [] = ([], e)"
| "write_all writes e (line # ls) =
     (case writes 0 of Some err \<Rightarrow> ([], Some err) | None \<Rightarrow> (case write_all (writes \<circ> Suc) e ls of (out, r) \<Rightarrow> (line # out, r)))"

lemma write_all_ok: "write_all writes e ls = (out, None) \<Longrightarrow> out = ls \<and> e = None"
  by (induction ls arbitrary: writes out) (auto split: option.splits prod.splits)

lemma write_all_total: "(\<And>n. writes n = None) \<Longrightarrow> write_all writes e ls = (ls, e)"
  by (induction ls arbitrary: writes) simp_all

text \<open>The cache holds what the files hold, so it changes nothing.\<close>

lemma filter_lines_filter:
  "\<forall>p l. cache p = Some l \<longrightarrow> readSourceLines readFile p = Some l \<Longrightarrow>
    filter_lines os readFile writes modulePath marker cache e ls = write_all writes e (filter (kept_line os readFile modulePath marker) ls)"
proof (induction ls arbitrary: cache writes)
  case (Cons line ls)
  show ?case
  proof (cases "HasPrefix line (str ''mode:'') \<or> parseCoverageLine line = None")
    case True
    then show ?thesis
      by (cases "writes 0"; cases "HasPrefix line (str ''mode:'')")
        (auto simp: kept_line_def comp_def Cons.IH [OF Cons.prems] simp del: str_simps)
  next
    case False
    then obtain filePath startLine endLine where p: "parseCoverageLine line = Some (filePath, startLine, endLine)" by auto
    let ?path = "resolveSourcePath os filePath modulePath"
    define src where "src = readSourceLines readFile ?path"
    define cache' where "cache' = (case src of None \<Rightarrow> cache | Some l \<Rightarrow> cache(?path \<mapsto> l))"
    have src: "(case cache ?path of Some ls \<Rightarrow> Some ls | None \<Rightarrow> readSourceLines readFile ?path) = src"
      using Cons.prems by (auto simp: src_def split: option.splits)
    have "\<forall>p l. cache' p = Some l \<longrightarrow> readSourceLines readFile p = Some l"
      using Cons.prems by (auto simp: cache'_def src_def split: option.splits)
    note ih = Cons.IH [OF this]
    have "line \<noteq> []" using p by auto
    then have "filter_lines os readFile writes modulePath marker cache e (line # ls) =
        (if blockIgnored src startLine marker then filter_lines os readFile writes modulePath marker cache' e ls
         else case writes 0 of Some e \<Rightarrow> ([], Some e)
         | None \<Rightarrow> (case filter_lines os readFile (writes \<circ> Suc) modulePath marker cache' e ls of (out, e) \<Rightarrow> (line # out, e)))"
      using False p by (cases "writes 0") (simp_all add: Let_def src cache'_def del: str_simps)
    moreover have "kept_line os readFile modulePath marker line \<longleftrightarrow> \<not> blockIgnored src startLine marker"
      using False p by (simp add: kept_line_def src_def del: str_simps)
    ultimately show ?thesis by (cases "writes 0") (simp_all add: ih comp_def del: filter_lines.simps)
  qed
qed simp

lemma filterProfile_eq:
  "filterProfile os readFile writes input modulePath marker =
     (case scan_lines (SplitByte 10 input) of (ls, e) \<Rightarrow> write_all writes e (filter (kept_line os readFile modulePath marker) ls))"
  by (simp add: filterProfile_def filter_lines_filter split: prod.splits)

text \<open>Lines that are printed are read back.\<close>

definition print_lines :: "bytes list \<Rightarrow> bytes" where
  "print_lines ls = concat (map (\<lambda>line. line @ [10]) ls)"

definition clean_line :: "bytes \<Rightarrow> bool" where
  "clean_line line \<longleftrightarrow> 10 \<notin> set line \<and> 13 \<notin> set line \<and> length line < maxTokenSize"

lemma SplitByte_print: "\<forall>line\<in>set ls. 10 \<notin> set line \<Longrightarrow> SplitByte 10 (print_lines ls) = ls @ [[]]"
  by (induction ls) (simp_all add: print_lines_def SplitByte_append)

lemma drop_cr_id: "13 \<notin> set line \<Longrightarrow> drop_cr line = line"
  by (metis drop_cr_def last_in_set)

lemma scan_lines_print: "\<forall>line\<in>set ls. clean_line line \<Longrightarrow> scan_lines (ls @ [[]]) = (ls, None)"
proof (induction ls)
  case (Cons line ls)
  then show ?case by (cases ls) (auto simp: drop_cr_id clean_line_def)
qed simp

lemma SplitByte_set: "w \<in> set (SplitByte c s) \<Longrightarrow> c \<notin> set w \<and> set w \<subseteq> set s"
  by (induction s arbitrary: w) (fastforce split: if_splits list.splits)+

lemma scan_lines_clean:
  "\<forall>line\<in>set raw. 10 \<notin> set line \<and> 13 \<notin> set line \<Longrightarrow> line \<in> set (fst (scan_lines raw)) \<Longrightarrow> clean_line line"
  by (induction raw rule: scan_lines.induct) (auto simp: clean_line_def drop_cr_id split: if_splits prod.splits)

text \<open>A block as the coverage tool prints it, and that it is parsed.\<close>

definition print_block :: "bytes \<Rightarrow> int \<Rightarrow> int \<Rightarrow> int \<Rightarrow> int \<Rightarrow> bytes list \<Rightarrow> bytes" where
  "print_block path l c l' c' counts =
     path @ 58 # join_space ((format_int l @ 46 # format_int c @ 44 # format_int l' @ 46 # format_int c') # counts)"

lemma format_int_bytes: "b \<in> set (format_int i) \<Longrightarrow> plain_byte b \<and> b \<noteq> 46 \<and> b \<noteq> 44"
  using dec_digits_range [of b] by (force simp: format_int_def plain_byte_def word_less_nat_alt word_le_nat_alt split: if_splits)

lemma format_int_sep: "46 \<notin> set (format_int i)" "44 \<notin> set (format_int i)"
  using format_int_bytes by blast+

lemma parseLineCol_format:
  assumes "\<forall>i\<in>{l, c}. - (2 ^ 63) \<le> i \<and> i < 2 ^ 63"
  shows "parseLineCol (format_int l @ 46 # format_int c) = Some (l, c)"
proof -
  have "SplitByte 46 (format_int l @ 46 # format_int c) = [format_int l, format_int c]"
    by (simp add: SplitByte_append SplitByte_word format_int_sep)
  then show ?thesis using parse_format_int assms by (simp add: parseLineCol_def)
qed

lemma parse_print_block:
  assumes "58 \<notin> set path" "\<forall>i\<in>{l, c, l', c'}. - (2 ^ 63) \<le> i \<and> i < 2 ^ 63"
    and "counts \<noteq> []" "\<forall>w\<in>set counts. w \<noteq> [] \<and> (\<forall>b\<in>set w. plain_byte b)"
  shows "parseCoverageLine (print_block path l c l' c' counts) = Some (path, l, l')"
proof -
  let ?a = "format_int l @ 46 # format_int c" and ?b = "format_int l' @ 46 # format_int c'"
  have idx: "IndexByte (path @ 58 # s) 58 = Some (length path)" for s using assms(1) by (induction path) auto
  have "\<forall>w\<in>set ((?a @ 44 # ?b) # counts). w \<noteq> [] \<and> (\<forall>b\<in>set w. plain_byte b)"
    using assms(4) format_int_bytes by (auto simp: plain_byte_def)
  then have "Fields (join_space ((?a @ 44 # ?b) # counts)) = (?a @ 44 # ?b) # counts" by (rule Fields_join_space)
  moreover have "SplitByte 44 (?a @ 44 # ?b) = [?a, ?b]"
    using SplitByte_append [of 44 ?a] SplitByte_word [of 44 ?b] by (simp add: format_int_sep)
  ultimately show ?thesis
    using idx parseLineCol_format [of l c] parseLineCol_format [of l' c'] assms(2,3)
    by (simp add: parseCoverageLine_def print_block_def Let_def)
qed

section \<open>Properties\<close>

text \<open>The filter keeps exactly what the source does not mark. When every write succeeds, the output is the mode lines
  and the well-formed blocks that are not ignored, in their order; the cache of sources changes nothing; the error is that of
  the scanner. Filtering an output without carriage returns again changes nothing.\<close>

theorem filterProfile_filter:
  assumes "\<And>n. writes n = None"
  shows "let (ls, e) = scan_lines (SplitByte 10 input); out = filter (kept_line os readFile modulePath marker) ls
    in filterProfile os readFile writes input modulePath marker = (out, e) \<and>
       (13 \<notin> set input \<longrightarrow> filterProfile os readFile writes (print_lines out) modulePath marker = (out, None))"
proof -
  obtain ls e where ls: "scan_lines (SplitByte 10 input) = (ls, e)" by (cases "scan_lines (SplitByte 10 input)")
  let ?out = "filter (kept_line os readFile modulePath marker) ls"
  have "scan_lines (SplitByte 10 (print_lines ?out)) = (?out, None)" if "13 \<notin> set input"
  proof -
    have "\<forall>line\<in>set (SplitByte 10 input). 10 \<notin> set line \<and> 13 \<notin> set line"
      using SplitByte_set [of _ 10 input] that by blast
    then have "\<forall>line\<in>set ?out. clean_line line" using scan_lines_clean [of "SplitByte 10 input"] ls by simp
    then show ?thesis using SplitByte_print [of ?out] scan_lines_print [of ?out] by (simp add: clean_line_def)
  qed
  then show ?thesis using ls by (simp add: filterProfile_eq write_all_total [OF assms])
qed

definition sample_block :: "int \<Rightarrow> bytes" where
  "sample_block l = print_block (str ''a.go'') l 1 (l + 1) 2 [str ''1'', str ''0'']"

definition sample_source :: "bytes \<Rightarrow> bytes result" where
  "sample_source path = (if path = str ''a.go'' then Inr (print_lines [[], [], str ''// ignore'']) else Inl ErrExternal)"

lemma sample_block_parsed: "0 \<le> l \<Longrightarrow> l < 9 \<Longrightarrow> parseCoverageLine (sample_block l) = Some (str ''a.go'', l, l + 1)"
  unfolding sample_block_def by (rule parse_print_block) (auto simp: plain_byte_def)

text \<open>The second block of the sample starts in a marked line.\<close>

theorem filterProfile_filter_witness:
  "filterProfile \<lparr>FromSlash = id, IsAbs = (\<lambda>_. False)\<rparr> sample_source (\<lambda>_. None)
     (print_lines [str ''mode: set'', sample_block 1, sample_block 3]) [] (str ''ignore'') = ([str ''mode: set'', sample_block 1], None)"
proof -
  let ?os = "\<lparr>FromSlash = id, IsAbs = (\<lambda>_. False)\<rparr>"
  let ?lines = "[str ''mode: set'', sample_block 1, sample_block 3]"
  have "\<forall>line\<in>set ?lines. clean_line line"
    by (simp add: clean_line_def maxTokenSize_def sample_block_def print_block_def format_int_def dec_digits.simps)
  then have scan: "scan_lines (SplitByte 10 (print_lines ?lines)) = (?lines, None)"
    using SplitByte_print [of ?lines] scan_lines_print [of ?lines] unfolding clean_line_def by metis
  have src: "readSourceLines sample_source (str ''a.go'') = Some [[], [], str ''// ignore'', []]"
    by (simp add: readSourceLines_def sample_source_def print_lines_def)
  have path: "resolveSourcePath ?os (str ''a.go'') [] = str ''a.go''" by (simp add: resolveSourcePath_def)
  have "\<not> HasPrefix (sample_block l) (str ''mode:'')" for l by (simp add: sample_block_def print_block_def HasPrefix_def)
  then have "kept_line ?os sample_source [] (str ''ignore'') (sample_block l) \<longleftrightarrow>
      \<not> blockIgnored (Some [[], [], str ''// ignore'', []]) l (str ''ignore'')" if "l = 1 \<or> l = 3" for l
    using sample_block_parsed [of l] that path src by (auto simp: kept_line_def simp del: str_simps)
  then have "kept_line ?os sample_source [] (str ''ignore'') (sample_block 1)"
    "\<not> kept_line ?os sample_source [] (str ''ignore'') (sample_block 3)"
    by (simp_all add: blockIgnored_def HasPrefix_def)
  moreover have "kept_line ?os sample_source [] (str ''ignore'') (str ''mode: set'')" by (simp add: kept_line_def HasPrefix_def)
  ultimately show ?thesis
    using filterProfile_filter [of "\<lambda>_. None" "print_lines ?lines" ?os sample_source "[]" "str ''ignore''"]
    unfolding scan Let_def by simp
qed

end
