(* ===== verification/CoverRun.thy ===== *)
theory CoverRun
  imports CoverFilter
begin

text \<open>
  The command around the filter of \<open>tools/coverfilter\<close>: \<open>run\<close>, \<open>detectModulePath\<close> and \<open>main\<close>, over a store of files.
  A name leads to an inode, two names may share one (a hard link), and an open file is its inode. What may go wrong in each
  call is a parameter, and so are the path functions of the platform, the answer of \<open>go list\<close> and the sources that the
  profile names. Symbolic links are not modelled, and a source is not read back from the output that is being written.
\<close>

section \<open>Files\<close>

record inode =
  Content :: bytes
  Perm :: nat

record files =
  Names :: "bytes \<rightharpoonup> nat"
  Inodes :: "nat \<Rightarrow> inode"
  NextInode :: nat

definition files_ok :: "files \<Rightarrow> bool" where
  "files_ok fs \<longleftrightarrow> (\<forall>p i. Names fs p = Some i \<longrightarrow> i < NextInode fs)"

text \<open>What a name shows: content and permissions.\<close>

definition view :: "files \<Rightarrow> bytes \<Rightarrow> inode option" where
  "view fs p = map_option (Inodes fs) (Names fs p)"

definition new_file :: "files \<Rightarrow> bytes \<Rightarrow> nat \<Rightarrow> nat \<times> files" where
  "new_file fs p perm =
     (NextInode fs, fs\<lparr>Names := (Names fs)(p \<mapsto> NextInode fs),
        Inodes := (Inodes fs)(NextInode fs := \<lparr>Content = [], Perm = perm\<rparr>), NextInode := NextInode fs + 1\<rparr>)"

definition set_content :: "files \<Rightarrow> nat \<Rightarrow> bytes \<Rightarrow> files" where
  "set_content fs i content = fs\<lparr>Inodes := (Inodes fs)(i := (Inodes fs i)\<lparr>Content := content\<rparr>)\<rparr>"

definition set_perm :: "files \<Rightarrow> bytes \<Rightarrow> nat \<Rightarrow> files" where
  "set_perm fs p perm =
     (case Names fs p of None \<Rightarrow> fs | Some i \<Rightarrow> fs\<lparr>Inodes := (Inodes fs)(i := (Inodes fs i)\<lparr>Perm := perm\<rparr>)\<rparr>)"

definition remove_name :: "files \<Rightarrow> bytes \<Rightarrow> files" where
  "remove_name fs p = fs\<lparr>Names := (Names fs)(p := None)\<rparr>"

definition rename :: "files \<Rightarrow> bytes \<Rightarrow> bytes \<Rightarrow> files" where
  "rename fs old new =
     (case Names fs old of None \<Rightarrow> fs | Some i \<Rightarrow> fs\<lparr>Names := ((Names fs)(old := None))(new \<mapsto> i)\<rparr>)"

section \<open>The command\<close>

text \<open>The calls that may fail, apart from a missing file; \<open>fault\<close> gives the error of each, if any.\<close>

datatype file_call =
  OpenIn | CloseIn | StatOut | StatIn | CreateTmp | StatInTmp | CloseTmp | ChmodTmp | RenameTmp | RemoveTmp | CreateOut | CloseOut

record cover_env =
  fault :: "file_call \<Rightarrow> go_error option"
  writeFault :: "nat \<Rightarrow> go_error option"
  os_paths :: platform
  Clean :: "bytes \<Rightarrow> bytes"
  Dir :: "bytes \<Rightarrow> bytes"
  Entry :: "bytes \<Rightarrow> bytes"
  TempName :: "bytes \<Rightarrow> bytes"
  createPerm :: nat
  sources :: "bytes \<Rightarrow> bytes result"
  goList :: "bytes result"

definition detectModulePath :: "cover_env \<Rightarrow> bytes" where
  "detectModulePath e = (case goList e of Inl _ \<Rightarrow> [] | Inr out \<Rightarrow> TrimSpace out)"

text \<open>The filter from the open file \<open>i\<close> to the open file \<open>j\<close>; each line is written with a line end.\<close>

definition filter_file :: "cover_env \<Rightarrow> files \<Rightarrow> nat \<Rightarrow> bytes \<Rightarrow> bytes \<Rightarrow> bytes list \<times> go_error option" where
  "filter_file e fs i modulePath marker =
     filterProfile (os_paths e) (sources e) (writeFault e) (Content (Inodes fs i)) modulePath marker"

text \<open>\<open>os.CreateTemp\<close> fails when no name is free; otherwise the file is new and private.\<close>

definition create_temp :: "cover_env \<Rightarrow> files \<Rightarrow> bytes \<Rightarrow> (nat \<times> files) result" where
  "create_temp e fs tmpPath =
     (case fault e CreateTmp of
        Some err \<Rightarrow> Inl err
      | None \<Rightarrow> if Names fs (Entry e tmpPath) \<noteq> None then Inl ErrExternal else Inr (new_file fs (Entry e tmpPath) 384))"

definition create_out :: "cover_env \<Rightarrow> files \<Rightarrow> bytes \<Rightarrow> (nat \<times> files) result" where
  "create_out e fs outPath =
     (case fault e CreateOut of
        Some err \<Rightarrow> Inl err
      | None \<Rightarrow>
          (case Names fs (Entry e outPath) of
             None \<Rightarrow> Inr (new_file fs (Entry e outPath) (createPerm e))
           | Some j \<Rightarrow> Inr (j, set_content fs j [])))"

definition remove_temp :: "cover_env \<Rightarrow> files \<Rightarrow> bytes \<Rightarrow> files" where
  "remove_temp e fs tmpPath = (if fault e RemoveTmp = None then remove_name fs (Entry e tmpPath) else fs)"

text \<open>The branch through a temporary file; \<open>i\<close> is the open input.\<close>

definition run_temp :: "cover_env \<Rightarrow> files \<Rightarrow> nat \<Rightarrow> bytes \<Rightarrow> bytes \<Rightarrow> bytes \<Rightarrow> go_error option \<times> files" where
  "run_temp e fs i outPath modulePath marker =
     (let tmpPath = TempName e (Dir e outPath)
      in case create_temp e fs tmpPath of
           Inl err \<Rightarrow> (Some err, fs)
         | Inr (t, fs) \<Rightarrow>
             (case fault e StatInTmp of
                Some err \<Rightarrow> (Some err, remove_temp e fs tmpPath)
              | None \<Rightarrow>
                  let perm = Perm (Inodes fs i); (ls, ferr) = filter_file e fs i modulePath marker;
                      fs = set_content fs t (print_lines ls)
                  in case ferr of
                       Some err \<Rightarrow> (Some err, remove_temp e fs tmpPath)
                     | None \<Rightarrow>
                         (case fault e CloseTmp of
                            Some err \<Rightarrow> (Some err, remove_temp e fs tmpPath)
                          | None \<Rightarrow>
                              (case fault e ChmodTmp of
                                 Some err \<Rightarrow> (Some err, remove_temp e fs tmpPath)
                               | None \<Rightarrow>
                                   let fs = set_perm fs (Entry e tmpPath) perm
                                   in case fault e RenameTmp of
                                        Some err \<Rightarrow> (Some err, remove_temp e fs tmpPath)
                                      | None \<Rightarrow> (None, rename fs (Entry e tmpPath) (Entry e outPath))))))"

text \<open>A deferred close gives its error only when there is no other.\<close>

definition deferred_close :: "cover_env \<Rightarrow> file_call \<Rightarrow> go_error option \<Rightarrow> go_error option" where
  "deferred_close e call err = (case err of None \<Rightarrow> fault e call | Some x \<Rightarrow> Some x)"

definition run_direct :: "cover_env \<Rightarrow> files \<Rightarrow> nat \<Rightarrow> bytes \<Rightarrow> bytes \<Rightarrow> bytes \<Rightarrow> go_error option \<times> files" where
  "run_direct e fs i outPath modulePath marker =
     (case create_out e fs outPath of
        Inl err \<Rightarrow> (Some err, fs)
      | Inr (j, fs) \<Rightarrow>
          (case filter_file e fs i modulePath marker of
             (ls, ferr) \<Rightarrow> (deferred_close e CloseOut ferr, set_content fs j (print_lines ls))))"

text \<open>Whether the output is written through a temporary file: the paths agree, or both names lead to one file.\<close>

definition useTemp :: "cover_env \<Rightarrow> files \<Rightarrow> nat \<Rightarrow> bytes \<Rightarrow> bytes \<Rightarrow> bool result" where
  "useTemp e fs i inPath outPath =
     (if Clean e inPath = Clean e outPath then Inr True
      else
        case fault e StatOut of
          Some err \<Rightarrow> Inl err
        | None \<Rightarrow>
            (case Names fs (Entry e outPath) of
               None \<Rightarrow> Inr False
             | Some j \<Rightarrow> (case fault e StatIn of Some err \<Rightarrow> Inl err | None \<Rightarrow> Inr (i = j))))"

text \<open>The error, the lines on standard output and the files.\<close>

definition run :: "cover_env \<Rightarrow> files \<Rightarrow> bytes \<Rightarrow> bytes \<Rightarrow> bytes \<Rightarrow> bytes \<Rightarrow> go_error option \<times> bytes list \<times> files" where
  "run e fs inPath outPath modulePath marker =
     (if marker = [] then (Some (ErrCommand (str ''marker must not be empty'')), [], fs)
      else
        let modulePath = (if modulePath = [] then detectModulePath e else modulePath)
        in case fault e OpenIn of
             Some err \<Rightarrow> (Some err, [], fs)
           | None \<Rightarrow>
               (case Names fs (Entry e inPath) of
                  None \<Rightarrow> (Some ErrExternal, [], fs)
                | Some i \<Rightarrow>
                    if outPath = [] then
                      case filter_file e fs i modulePath marker of (ls, ferr) \<Rightarrow> (deferred_close e CloseIn ferr, ls, fs)
                    else
                      case useTemp e fs i inPath outPath of
                        Inl err \<Rightarrow> (Some err, [], fs)
                      | Inr temp \<Rightarrow>
                          (case (if temp then run_temp e fs i outPath modulePath marker
                                 else run_direct e fs i outPath modulePath marker) of
                             (err, fs) \<Rightarrow> (deferred_close e CloseIn err, [], fs))))"

text \<open>\<open>main\<close>: the flags with their defaults, and the exit status.\<close>

definition flag_or :: "bytes option \<Rightarrow> bytes \<Rightarrow> bytes" where
  "flag_or given d = (case given of None \<Rightarrow> d | Some x \<Rightarrow> x)"

definition must :: "go_error option \<Rightarrow> nat" where
  "must err = (if err \<noteq> None then 1 else 0)"

definition cover_main ::
  "cover_env \<Rightarrow> files \<Rightarrow> bytes option \<Rightarrow> bytes option \<Rightarrow> bytes option \<Rightarrow> bytes option \<Rightarrow> nat \<times> bytes list \<times> files" where
  "cover_main e fs inFlag outFlag moduleFlag markerFlag =
     (case run e fs (flag_or inFlag (str ''coverage.out'')) (flag_or outFlag []) (flag_or moduleFlag [])
             (flag_or markerFlag (str ''coverage:ignore'')) of
        (err, out, fs) \<Rightarrow> (must err, out, fs))"

section \<open>What the branches change\<close>

text \<open>\<open>t\<close> is a new file of the name \<open>p\<close> and the rest is as it was; or at most the name \<open>p\<close>, free before, changed.\<close>

definition scratch :: "files \<Rightarrow> bytes \<Rightarrow> nat \<Rightarrow> files \<Rightarrow> bool" where
  "scratch fs p t fs' \<longleftrightarrow>
     Names fs p = None \<and> Names fs' = (Names fs)(p \<mapsto> t) \<and> NextInode fs \<le> t \<and> t < NextInode fs' \<and>
     (\<forall>j. j \<noteq> t \<longrightarrow> Inodes fs' j = Inodes fs j)"

definition quiet :: "files \<Rightarrow> bytes \<Rightarrow> files \<Rightarrow> bool" where
  "quiet fs p fs' \<longleftrightarrow>
     files_ok fs' \<and> (\<forall>q. q \<noteq> p \<longrightarrow> Names fs' q = Names fs q) \<and> (Names fs p \<noteq> None \<longrightarrow> Names fs' p = Names fs p) \<and>
     (\<forall>j<NextInode fs. Inodes fs' j = Inodes fs j)"

lemma scratch_new: "Names fs p = None \<Longrightarrow> new_file fs p perm = (t, fs') \<Longrightarrow> scratch fs p t fs'"
  by (auto simp: scratch_def new_file_def)

lemma scratch_set [intro]:
  "scratch fs p t fs' \<Longrightarrow> scratch fs p t (set_content fs' t c)" "scratch fs p t fs' \<Longrightarrow> scratch fs p t (set_perm fs' p perm)"
  by (simp_all add: scratch_def set_content_def set_perm_def)

lemma scratch_ok: "files_ok fs \<Longrightarrow> scratch fs p t fs' \<Longrightarrow> files_ok fs'"
  by (fastforce simp: scratch_def files_ok_def split: if_splits)

lemma scratch_remove [intro]: "files_ok fs \<Longrightarrow> scratch fs (Entry e p) t fs' \<Longrightarrow> quiet fs (Entry e p) (remove_temp e fs' p)"
  using scratch_ok [of fs "Entry e p" t fs']
  by (simp add: scratch_def quiet_def remove_temp_def remove_name_def) (fastforce simp: files_ok_def split: if_splits)

lemma quiet_view: "quiet fs p fs' \<Longrightarrow> files_ok fs \<Longrightarrow> view fs q \<noteq> None \<Longrightarrow> view fs' q = view fs q"
  by (cases "q = p") (auto simp: quiet_def view_def files_ok_def)

lemma quiet_refl: "files_ok fs \<Longrightarrow> quiet fs p fs"
  by (simp add: quiet_def)

text \<open>What the output should be.\<close>

definition covered :: "cover_env \<Rightarrow> bytes \<Rightarrow> bytes \<Rightarrow> bytes \<Rightarrow> bytes option" where
  "covered e modulePath marker input =
     (case scan_lines (SplitByte 10 input) of
        (ls, None) \<Rightarrow> Some (print_lines (filter (kept_line (os_paths e) (sources e) modulePath marker) ls))
      | (ls, Some _) \<Rightarrow> None)"

lemma filter_file_covered:
  "filter_file e fs i modulePath marker = (ls, None) \<Longrightarrow> covered e modulePath marker (Content (Inodes fs i)) = Some (print_lines ls)"
  by (auto simp: filter_file_def filterProfile_eq covered_def dest!: write_all_ok split: prod.splits)

lemma filter_file_cong: "Inodes fs' i = Inodes fs i \<Longrightarrow> filter_file e fs' i modulePath marker = filter_file e fs i modulePath marker"
  by (simp add: filter_file_def)

text \<open>The branch through a temporary file: an error leaves every name as it was; success replaces the output at once.\<close>

lemma run_temp_replaces:
  assumes "files_ok fs" "Names fs (Entry e inPath) = Some i" "run_temp e fs i outPath modulePath marker = (err, fs')"
  shows "case err of
      Some _ \<Rightarrow> quiet fs (Entry e (TempName e (Dir e outPath))) fs'
    | None \<Rightarrow> files_ok fs' \<and> (\<exists>c. covered e modulePath marker (Content (Inodes fs i)) = Some c \<and>
        view fs' (Entry e outPath) = Some \<lparr>Content = c, Perm = Perm (Inodes fs i)\<rparr> \<and>
        (\<forall>q. q \<noteq> Entry e outPath \<and> view fs q \<noteq> None \<longrightarrow> view fs' q = view fs q))"
proof -
  let ?tmp = "TempName e (Dir e outPath)"
  let ?p = "Entry e ?tmp"
  have i: "i < NextInode fs" using assms(1,2) by (auto simp: files_ok_def)
  show ?thesis
  proof (cases "create_temp e fs ?tmp")
    case (Inl _)
    then show ?thesis using assms by (auto simp: run_temp_def quiet_refl)
  next
    case (Inr r)
    then obtain t fs1 where r: "create_temp e fs ?tmp = Inr (t, fs1)" by (cases r) auto
    then have s: "scratch fs ?p t fs1" by (auto simp: create_temp_def intro: scratch_new split: option.splits if_splits)
    obtain ls ferr where f: "filter_file e fs1 i modulePath marker = (ls, ferr)" by (cases "filter_file e fs1 i modulePath marker")
    let ?fs2 = "set_content fs1 t (print_lines ls)"
    let ?fs3 = "set_perm ?fs2 ?p (Perm (Inodes fs1 i))"
    have s2: "scratch fs ?p t ?fs2" and s3: "scratch fs ?p t ?fs3" using s by blast+
    show ?thesis
    proof (cases err)
      case (Some _)
      then have "fs' \<in> {remove_temp e fs1 ?tmp, remove_temp e ?fs2 ?tmp, remove_temp e ?fs3 ?tmp}"
        using assms(3) r f by (auto simp: run_temp_def Let_def split: option.splits)
      then show ?thesis using Some assms(1) s s2 s3 by auto
    next
      case None
      then have fs': "fs' = rename ?fs3 ?p (Entry e outPath)" and ferr: "ferr = None"
        using assms(3) r f by (auto simp: run_temp_def Let_def split: option.splits)
      have "i \<noteq> t" "Inodes fs1 i = Inodes fs i" using s i by (auto simp: scratch_def)
      then have "covered e modulePath marker (Content (Inodes fs i)) = Some (print_lines ls)"
        using filter_file_covered [of e fs1 i] f ferr by fastforce
      moreover have "Inodes fs' t = \<lparr>Content = print_lines ls, Perm = Perm (Inodes fs i)\<rparr>"
        using fs' s s2 \<open>Inodes fs1 i = Inodes fs i\<close> by (simp add: scratch_def rename_def set_perm_def set_content_def)
      moreover have n: "Names fs' = (Names fs)(?p := None, Entry e outPath \<mapsto> t)"
        using fs' s3 by (simp add: scratch_def rename_def)
      moreover have "Inodes fs' j = Inodes fs j" if "j < NextInode fs" for j
        using fs' s3 that by (auto simp: scratch_def rename_def)
      moreover have "files_ok fs'"
        using scratch_ok [OF assms(1) s3] fs' s3 by (auto simp: scratch_def rename_def files_ok_def split: if_splits)
      ultimately show ?thesis using None assms(1) s by (auto simp: view_def files_ok_def scratch_def)
    qed
  qed
qed

text \<open>The direct branch: the output is truncated, so only its success says what it holds.\<close>

lemma run_direct_writes:
  assumes "files_ok fs" "Names fs (Entry e inPath) = Some i" "Names fs (Entry e outPath) \<noteq> Some i"
    and "run_direct e fs i outPath modulePath marker = (err, fs')"
  shows "files_ok fs'"
    and "view fs q \<noteq> None \<Longrightarrow> Names fs q \<noteq> Names fs (Entry e outPath) \<Longrightarrow> view fs' q = view fs q"
    and "err = None \<Longrightarrow> \<exists>c. covered e modulePath marker (Content (Inodes fs i)) = Some c \<and>
      map_option Content (view fs' (Entry e outPath)) = Some c"
proof -
  let ?out = "Entry e outPath"
  have i: "i < NextInode fs" using assms(1,2) by (auto simp: files_ok_def)
  have *: "files_ok fs' \<and> (view fs q \<noteq> None \<longrightarrow> Names fs q \<noteq> Names fs ?out \<longrightarrow> view fs' q = view fs q) \<and>
    (err = None \<longrightarrow> (\<exists>c. covered e modulePath marker (Content (Inodes fs i)) = Some c \<and> map_option Content (view fs' ?out) = Some c))"
  proof (cases "create_out e fs outPath")
    case (Inl _)
    then show ?thesis using assms(1,4) by (auto simp: run_direct_def)
  next
    case (Inr r)
    then obtain j fs1 where r: "create_out e fs outPath = Inr (j, fs1)" by (cases r) auto
    obtain ls ferr where f: "filter_file e fs1 i modulePath marker = (ls, ferr)" by (cases "filter_file e fs1 i modulePath marker")
    have "j \<noteq> i" "Names fs1 = (Names fs)(?out \<mapsto> j)" "\<forall>k. k \<noteq> j \<longrightarrow> Inodes fs1 k = Inodes fs k" "j < NextInode fs1"
      "Names fs ?out = Some j \<or> Names fs ?out = None \<and> j = NextInode fs" "NextInode fs \<le> NextInode fs1"
      using r assms(1,3) i by (auto simp: create_out_def new_file_def set_content_def files_ok_def split: option.splits)
    note c = this
    have fs': "fs' = set_content fs1 j (print_lines ls)" and err: "err = deferred_close e CloseOut ferr"
      using assms(4) r f by (simp_all add: run_direct_def)
    have "covered e modulePath marker (Content (Inodes fs i)) = Some (print_lines ls)" if "err = None"
    proof -
      have "ferr = None" using that err by (auto simp: deferred_close_def split: option.splits)
      then show ?thesis using filter_file_covered [of e fs1 i] f c(1,3) by fastforce
    qed
    moreover have "files_ok fs'" using fs' c assms(1) by (fastforce simp: files_ok_def set_content_def split: if_splits)
    moreover have "view fs' q = view fs q" if "view fs q \<noteq> None" "Names fs q \<noteq> Names fs ?out"
      using that fs' c assms(1) by (fastforce simp: view_def set_content_def files_ok_def)
    ultimately show ?thesis using fs' c by (auto simp: view_def set_content_def)
  qed
  show "files_ok fs'" using * by blast
  show "view fs q \<noteq> None \<Longrightarrow> Names fs q \<noteq> Names fs ?out \<Longrightarrow> view fs' q = view fs q" using * by blast
  show "err = None \<Longrightarrow> \<exists>c. covered e modulePath marker (Content (Inodes fs i)) = Some c \<and>
    map_option Content (view fs' ?out) = Some c" using * by blast
qed

lemma deferred_close_None: "deferred_close e call err = None \<Longrightarrow> err = None"
  by (simp add: deferred_close_def split: option.splits)

text \<open>How the command ends: before it changes a file, or through one of the branches.\<close>

lemma run_ends:
  assumes "run e fs inPath outPath modulePath marker = (err, out, fs')"
  defines "module \<equiv> (if modulePath = [] then detectModulePath e else modulePath)"
  obtains (early) "fs' = fs" "err \<noteq> None"
  | (stdout) i where "fs' = fs" "outPath = []" "Names fs (Entry e inPath) = Some i"
      "err = None \<longrightarrow> covered e module marker (Content (Inodes fs i)) = Some (print_lines out)"
  | (temp) i r where "Names fs (Entry e inPath) = Some i" "outPath \<noteq> []" "err = None \<longrightarrow> r = None"
      "run_temp e fs i outPath module marker = (r, fs')"
  | (direct) i r where "Names fs (Entry e inPath) = Some i" "outPath \<noteq> []" "err = None \<longrightarrow> r = None"
      "Names fs (Entry e outPath) \<noteq> Some i" "run_direct e fs i outPath module marker = (r, fs')"
proof (cases "marker = [] \<or> fault e OpenIn \<noteq> None \<or> Names fs (Entry e inPath) = None")
  case True
  then have "fs' = fs \<and> err \<noteq> None"
    using assms(1) by (cases "marker = []"; cases "fault e OpenIn") (auto simp: run_def Let_def dest: sym [of "Some _"])
  then show ?thesis using early by blast
next
  case False
  then obtain i where i: "Names fs (Entry e inPath) = Some i" and ok: "marker \<noteq> []" "fault e OpenIn = None" by auto
  show ?thesis
  proof (cases "outPath = []")
    case True
    obtain ls ferr where f: "filter_file e fs i module marker = (ls, ferr)" by (cases "filter_file e fs i module marker")
    have "err = deferred_close e CloseIn ferr" "out = ls" "fs' = fs"
      using assms(1) i ok True f by (simp_all add: run_def Let_def module_def split: prod.splits)
    then show ?thesis using stdout [of i] True i filter_file_covered f deferred_close_None by metis
  next
    case nonempty: False
    show ?thesis
    proof (cases "useTemp e fs i inPath outPath")
      case (Inl _)
      then show ?thesis using assms(1) i ok nonempty early by (auto simp: run_def Let_def)
    next
      case (Inr temp)
      let ?r = "if temp then run_temp e fs i outPath module marker else run_direct e fs i outPath module marker"
      obtain r fs'' where r: "?r = (r, fs'')" by fastforce
      then have "fs'' = fs'" "err = deferred_close e CloseIn r"
        using assms(1) i ok nonempty Inr by (simp_all add: run_def Let_def module_def [symmetric])
      moreover have "\<not> temp \<Longrightarrow> Names fs (Entry e outPath) \<noteq> Some i"
        using Inr by (auto simp: useTemp_def split: option.splits if_splits)
      ultimately show ?thesis
        using r i nonempty temp [of i r] direct [of i r] deferred_close_None [of e CloseIn r] by (cases temp) auto
    qed
  qed
qed

section \<open>Properties\<close>

text \<open>C36: the command keeps what it must not touch, whatever call fails. A name other than the output keeps its file, unless
  it is a hard link of an output that is not the input. Where the input and the output are one file, under two paths or two
  names, the output is replaced at once: it shows what it did before or the whole result with the permissions of the input,
  and nothing between. When no error is returned, the output holds the lines that the filter keeps.\<close>

theorem cover_run_safe:
  assumes ok: "files_ok fs" and run: "run e fs inPath outPath modulePath marker = (err, out, fs')"
  defines "module \<equiv> (if modulePath = [] then detectModulePath e else modulePath)"
  shows "files_ok fs' \<and>
    (\<forall>q. q \<noteq> Entry e outPath \<and> view fs q \<noteq> None \<and>
        (Names fs q = Names fs (Entry e outPath) \<longrightarrow> Names fs q = Names fs (Entry e inPath)) \<longrightarrow> view fs' q = view fs q) \<and>
    (\<forall>file. view fs (Entry e inPath) = Some file \<and> Names fs (Entry e outPath) = Names fs (Entry e inPath) \<longrightarrow>
        view fs' (Entry e outPath) = Some file \<or>
        (\<exists>c. covered e module marker (Content file) = Some c \<and> view fs' (Entry e outPath) = Some (file\<lparr>Content := c\<rparr>))) \<and>
    (err = None \<longrightarrow> (\<exists>file c. view fs (Entry e inPath) = Some file \<and> covered e module marker (Content file) = Some c \<and>
        (if outPath = [] then print_lines out = c else map_option Content (view fs' (Entry e outPath)) = Some c)))"
  using run
proof (cases rule: run_ends)
  case early
  then show ?thesis using ok by (auto simp: view_def)
next
  case (stdout i)
  then show ?thesis using ok by (auto simp: view_def module_def)
next
  case (temp i r)
  have view: "view fs (Entry e inPath) = Some (Inodes fs i)" using temp(1) by (simp add: view_def)
  show ?thesis
  proof (cases r)
    case None
    then show ?thesis using run_temp_replaces [OF ok temp(1,4)] view temp(2) by (fastforce simp: module_def)
  next
    case (Some x)
    then have q: "quiet fs (Entry e (TempName e (Dir e outPath))) fs'" using run_temp_replaces [OF ok temp(1,4)] by simp
    have same: "view fs' q = view fs q" if "view fs q \<noteq> None" for q using quiet_view [OF q ok that] .
    have "view fs (Entry e outPath) = Some file" if "view fs (Entry e inPath) = Some file"
      "Names fs (Entry e outPath) = Names fs (Entry e inPath)" for "file" using that by (simp add: view_def)
    then show ?thesis using q same Some temp(3) by (auto simp: quiet_def)
  qed
next
  case (direct i r)
  note w = run_direct_writes [OF ok direct(1,4,5)]
  have view: "view fs (Entry e inPath) = Some (Inodes fs i)" using direct(1) by (simp add: view_def)
  show ?thesis using w(1,2) w(3) direct view by (auto simp: module_def)
qed

text \<open>Two hard links of one profile, with a line that is not a block.\<close>

definition sample_profile :: bytes where
  "sample_profile = print_lines [str ''mode: set'', str ''junk'']"

definition sample_files :: files where
  "sample_files =
     \<lparr>Names = [str ''in'' \<mapsto> 0, str ''out'' \<mapsto> 0], Inodes = (\<lambda>_. \<lparr>Content = sample_profile, Perm = 420\<rparr>), NextInode = 1\<rparr>"

definition sample_env :: cover_env where
  "sample_env =
     \<lparr>fault = (\<lambda>_. None), writeFault = (\<lambda>_. None), os_paths = \<lparr>FromSlash = id, IsAbs = (\<lambda>_. False)\<rparr>, Clean = id,
      Dir = (\<lambda>_. str ''.''), Entry = id, TempName = (\<lambda>_. str ''tmp''), createPerm = 420, sources = sample_source,
      goList = Inl ErrExternal\<rparr>"

lemma sample_covered: "covered sample_env module (str ''ignore'') sample_profile = Some (print_lines [str ''mode: set''])"
proof -
  have "scan_lines (SplitByte 10 sample_profile) = ([str ''mode: set'', str ''junk''], None)"
    by (simp add: sample_profile_def print_lines_def drop_cr_def maxTokenSize_def)
  moreover have "parseCoverageLine (str ''junk'') = None" by (simp add: parseCoverageLine_def)
  moreover have "HasPrefix (str ''mode: set'') (str ''mode:'')" "\<not> HasPrefix (str ''junk'') (str ''mode:'')"
    by (simp_all add: HasPrefix_def)
  ultimately show ?thesis by (simp add: covered_def kept_line_def del: str_simps)
qed

lemma sample_env_simps [simp]:
  "fault sample_env c = None" "Entry sample_env = id" "Clean sample_env = id" "TempName sample_env d = str ''tmp''"
  by (simp_all add: sample_env_def)

lemma sample_filter:
  assumes "Content (Inodes fs i) = sample_profile"
  shows "\<exists>ls. filter_file sample_env fs i module (str ''ignore'') = (ls, None)"
  using assms sample_covered [of module]
  by (auto simp: filter_file_def filterProfile_eq covered_def write_all_total sample_env_def split: prod.splits option.splits)

lemma sample_run: "fst (run sample_env sample_files (str ''in'') (str ''out'') (str ''m'') (str ''ignore'')) = None"
proof -
  have temp: "useTemp sample_env sample_files 0 (str ''in'') (str ''out'') = Inr True"
    by (simp add: useTemp_def sample_env_def sample_files_def)
  obtain fs where create: "create_temp sample_env sample_files (str ''tmp'') = Inr (1, fs)" "Content (Inodes fs 0) = sample_profile"
    by (auto simp: create_temp_def new_file_def sample_env_def sample_files_def)
  moreover obtain ls where "filter_file sample_env fs 0 (str ''m'') (str ''ignore'') = (ls, None)"
    using sample_filter [OF create(2)] by blast
  ultimately have "fst (run_temp sample_env sample_files 0 (str ''out'') (str ''m'') (str ''ignore'')) = None"
    by (simp add: run_temp_def Let_def del: str_simps)
  then show ?thesis
    using temp by (auto simp: run_def deferred_close_def sample_files_def Let_def split: prod.splits option.splits)
qed

theorem cover_run_safe_witness:
  "case run sample_env sample_files (str ''in'') (str ''out'') (str ''m'') (str ''ignore'') of (err, out, fs') \<Rightarrow>
     err = None \<and> view fs' (str ''in'') = Some \<lparr>Content = sample_profile, Perm = 420\<rparr> \<and>
     view fs' (str ''out'') = Some \<lparr>Content = print_lines [str ''mode: set''], Perm = 420\<rparr>"
proof -
  obtain err out fs' where run: "run sample_env sample_files (str ''in'') (str ''out'') (str ''m'') (str ''ignore'') = (err, out, fs')"
    by (metis prod_cases3)
  have ok: "files_ok sample_files" by (simp add: files_ok_def sample_files_def)
  have names: "Names sample_files (str ''in'') = Some 0" "Names sample_files (str ''out'') = Some 0"
    and view: "view sample_files (str ''in'') = Some \<lparr>Content = sample_profile, Perm = 420\<rparr>"
    by (simp_all add: view_def sample_files_def)
  have "err = None" "Entry sample_env = id" "str ''in'' \<noteq> str ''out''" "str ''out'' \<noteq> []" using run sample_run by (simp_all add: sample_env_def)
  then show ?thesis
    using cover_run_safe [OF ok run] run names view sample_covered by (auto simp del: str_simps split: if_splits)
qed

end
