(* ===== verification/Spec2Isabelle.thy ===== *)
theory Spec2Isabelle
  imports LtHash KeyId Client Commands MinerProcess CoverRun
begin

text \<open>
  A verification library of gomatrixcrypto, the cryptographic building blocks of a Matrix server in Go: canonical JSON,
  Merkle commitments to events, minted FN-DSA server keys with a Cuckatoo proof of work, the reconciliation of the events
  that two servers hold, and the commands around them. Every definition is translated from the source, and the theories
  below read in the order of the packages. The definitions of code are executable, apart from their parameters.

  \<^bold>\<open>The parts of the program and their theories\<close>

  \<^item> The foundations. \<open>Prelude\<close> has the machine words, the sentinel errors of all packages and \<open>'a result\<close>, the pair of a
    value and an error that Go returns. \<open>Encoding\<close>, \<open>Text\<close>, \<open>GoStrings\<close> and \<open>Hex\<close> translate what the source uses of the
    standard library: \<open>encoding/binary\<close>, \<open>encoding/base64\<close>, \<open>encoding/hex\<close>, \<open>unicode/utf8\<close>, \<open>strconv\<close>, \<open>strings\<close>. The
    encoders are interpretations of the locales \<open>codec\<close> and \<open>fixed_codec\<close>, so a round trip is proved once.
  \<^item> \<open>matrixjson/canonical.go\<close>. \<open>GoValue\<close> is the type of dynamically typed values with the kind that reflection sees;
    \<open>MatrixJson\<close> is the encoder over them. It refines the printing of JSON values and its output determines them.
  \<^item> \<open>merkle/merkle.go\<close>, \<open>merkle/proof.go\<close>. \<open>Merkle\<close> has field roots, leaf paths, event roots and event IDs; \<open>HashTree\<close> is
    the locale of trees of digests, where two trees with one root are equal or exhibit a collision; \<open>MerkleTree\<close> interprets
    it and proves soundness, completeness and binding.
  \<^item> \<open>merkle/causal.go\<close>, \<open>merkle/causal_proof.go\<close>. \<open>Causal\<close> has the operations of the set of keys, the root of the trie with
    sums, the proofs and their verifiers; \<open>CausalTrie\<close> is the trie of depth 256 behind them, another interpretation of
    \<open>hash_tree\<close>.
  \<^item> \<open>merkle/redaction.go\<close> is \<open>Redaction\<close>: the split of a content into what redaction preserves and the rest.
  \<^item> \<open>lthash/lthash.go\<close> and \<open>keyid/keyid.go\<close> are \<open>LtHash\<close> and \<open>KeyId\<close>. \<open>Accumulator\<close> holds the locales of order-free
    accumulators, interpreted on the lattice hash, on the digest of a room and on the coordinates of a sketch.
  \<^item> \<open>reconcile\<close>. \<open>Gf64\<close> is the field of \<open>gf64.go\<close>, with an instance of the class \<open>field\<close>; \<open>Sketch\<close> the element hashes, the
    room accumulator and the sketches of \<open>algebraic.go\<close>; \<open>Resident\<close> the state of \<open>resident.go\<close>, with the populations it can
    reach as an inductive predicate; \<open>PinSketch\<close> the algorithms of \<open>pinsketch.go\<close>, whose correctness is in \<open>FieldPoly\<close>
    (polynomials), \<open>Quadratic\<close> (the elimination over bits), \<open>Locator\<close> (Berlekamp-Massey) and \<open>Decoding\<close> (trace splitting
    and the decoder as a whole); \<open>Triage\<close> the requests and the batches of \<open>triage.go\<close>; \<open>Client\<close> the policy of \<open>client.go\<close>.
  \<^item> \<open>cuckoo\<close>. \<open>Cuckoo\<close> is the verifier of \<open>cuckoo.go\<close>, \<open>CuckooProver\<close> the search of \<open>cuckoo_prover.go\<close> with its bit sets
    (the locale \<open>bit_store\<close>), \<open>CuckooSearch\<close> the completeness of the search, \<open>MeanMiner\<close> the wrapper of the solver process in
    \<open>cuckoo/meanminer/meanminer.go\<close>.
  \<^item> \<open>fndsa512/fndsa512.go\<close> is \<open>Fndsa\<close>, with the locale \<open>signature_scheme\<close> of what a signature promises.
  \<^item> \<open>serverkey\<close>. \<open>ServerKey\<close> has the registry of profiles, the hashed objects, key objects, signing and verification of
    \<open>serverkey.go\<close>; \<open>MintedKey\<close> what they guarantee, with the reachable registries as an inductive predicate; \<open>PrivateKey\<close>
    the encrypted private keys of \<open>privatekey.go\<close>.
  \<^item> The commands. \<open>Minting\<close> is \<open>cmd/serverkey-demo\<close>, \<open>MintingVectors\<close> \<open>cmd/minting-vectors\<close> and \<open>cmd/cuckoo-scan\<close>, \<open>KeyTool\<close>
    \<open>cmd/serverkey-keytool\<close>, \<open>EventVectors\<close> the three commands that print the vectors of package \<open>merkle\<close>, \<open>Commands\<close> the
    files they write and their exit status, \<open>MinerProcess\<close> the production mining through the solver process.
    \<open>CoverFilter\<close> and \<open>CoverRun\<close> are \<open>tools/coverfilter\<close>, over a store of names and inodes.

  \<^bold>\<open>How they interact\<close>

  \<open>matrixjson\<close> is below everything that is hashed: field leaves, component hashes, the objects that are minted and signed.
  The binding theorems therefore compose: equal event IDs give equal digests of components by the tree, and these equal
  JSON by the encoder. A minted key joins \<open>serverkey\<close>, \<open>cuckoo\<close> and \<open>fndsa512\<close>: the seed of the graph is the digest of the
  key and the name of the server, the proof is a cycle of that graph, and the name of the key is a digest of both; what
  \<open>cmd/serverkey-demo\<close> prints passes full verification. In \<open>reconcile\<close> the resident state gives the accumulator and the
  strata, the client compares them and asks for buckets, the batch decoder decodes the differences of sketches with one
  shared budget, and the client asks again for what failed.

  \<^bold>\<open>What the theorems show\<close>

  \<^item> Commitments: verified paths and inclusion proofs are of members, proofs of non-members exist exactly for non-members,
    roots and identifiers determine what they commit to. No hash function is assumed to be injective: a theorem says that
    the property holds or that two inputs, computed by a definition from the data at hand, collide.
  \<^item> Exactness of parsers and encoders: which inputs are accepted, with which error the others are refused, round trips.
  \<^item> Reconciliation: the decoder returns the symmetric difference of two sets of at most 16 elements within the work that
    the client allows, and what it returns is the only set of at most the capacity with the sketch. A budget is spent by the
    trials of the root finder and by nothing else, each paid in advance. Batches account for every request and every byte,
    and within the budget each bucket that fits is decoded whatever the others hold. The first action of the client, the
    estimate and the requests are determined exactly, and each later round gets smaller in the multiset order or ends.
  \<^item> Proof of work: the verifier accepts exactly the simple cycles of the graph, and the search finds a proof if and only if
    there is one below its bound.
  \<^item> Keys: a registry keeps its built-in profile, signing changes nothing but the signatures, an encrypted key opens under
    its passphrase and no input is refused but for the listed reasons.
  \<^item> Commands: what is printed verifies; the coverage filter replaces a file in place at once or not at all, whatever call
    on files fails.

  \<^bold>\<open>Termination and bounds\<close>

  Loops are structural recursions, or recursions on a measure that is proved to decrease. Only the walk of \<open>verifyCycle\<close> is a
  \<open>partial_function\<close>; that it ends on every input is part of the theorem on \<open>Verify\<close>. No definition has fuel of its own: the
  root finder carries the work budget of the source, 8,000,000 units for a batch, and 16 elements are proved to stay within
  it; the depth-first search recurs on the edges that the proof still needs, the trie on the 256 bits of a key. Counts,
  bounds of ranges and capacities are 64-bit words or integers of Go's \<open>int\<close> with the wrap-around of the source, so the
  range of \<open>cmd/cuckoo-scan\<close> that wraps, and the provisioning that does not, are both theorems.

  \<^bold>\<open>Parameters\<close>

  What is not under \<open>src\<close> is an argument of the definitions that use it. SHA-256, SHA3-256, SHAKE256 and BLAKE2b are arbitrary
  functions, with digests of 32 bytes where the code slices them. The FN-DSA library is a record of functions with the
  laws of a signature scheme; Argon2id and XChaCha20-Poly1305 have the law that opening inverts sealing. Of the solver process it is
  assumed, where a theorem names it, that the one program beside the source of its package answers as
  \<open>csrc/solve_main.cpp\<close> documents when it is run with the words of a seed. The process,
  files, the environment, the clock, \<open>json.Unmarshal\<close>, \<open>json.Marshal\<close>, the conversion of floats out of range and the order in
  which Go ranges over a map are parameters as well; a law is a named hypothesis, and a witness has an instance of it.

  \<^bold>\<open>Not modelled\<close>

  \<^item> Aliasing: maps and slices are values. An object that shares a nested map with another, and \<open>cloneMap\<close> of \<open>redaction.go\<close>,
    are therefore not distinguished from their copies, and a nil map reads as an empty one.
  \<^item> Progress messages of the search and the commands, the parsing of flags, and the texts of wrapped errors: an error is its
    sentinel. A run-time panic is the error value \<open>RuntimePanic\<close>.
  \<^item> A write to a terminal that fails after part of a line, symbolic links, and a source that \<open>coverfilter\<close> reads while it is
    written as its output.
  \<^item> The C++ solver, the tests, and the JSON fixtures.
\<close>

end
